(* ===== verification/Prelude.thy ===== *)
theory Prelude
  imports Main "HOL-Library.Word" "HOL-Library.Sublist"
begin

text \<open>
  What every component of the development shares: the machine integers of Go under their Go
  names, instants and durations, the collections of simplification rules the component
  proofs use, generic facts about lists and maps, the model of \<^verbatim>\<open>sort.Slice\<close>, and the
  interface of the server's expiring tables (\<open>ttl_table\<close>).
\<close>

unbundle bit_operations_syntax

type_synonym uint8 = "8 word"
type_synonym uint16 = "16 word"
type_synonym uint32 = "32 word"
type_synonym uint64 = "64 word"
type_synonym int64 = "64 word"

text \<open>
  An instant is a number of nanoseconds since Go's zero time (so \<^verbatim>\<open>t.IsZero()\<close> is
  \<open>t = 0\<close>), a duration a number of nanoseconds.
\<close>

type_synonym time = int
type_synonym duration = int

definition second :: duration where "second = 1000000000"
definition minute :: duration where "minute = 60 * second"
definition hour :: duration where "hour = 60 * minute"

named_theorems go_simps \<open>unfolding rules of the Go library model\<close>
named_theorems inv_intros \<open>preservation of the components' invariants\<close>

lemma duration_pos [simp]: "0 < second" "0 < minute" "0 < hour"
  by (simp_all add: second_def minute_def hour_def)

lemma unat_bound: "unat (w :: 'a :: len word) < 2 ^ LENGTH('a)"
  by (rule unsigned_less)

section \<open>Lists\<close>

lemma list_all_filterI [intro]: "list_all P xs \<Longrightarrow> list_all P (filter Q xs)"
  by (auto simp: list_all_iff)

lemma distinct_map_filterI: "distinct (map f xs) \<Longrightarrow> distinct (map f (filter P xs))"
  by (induction xs) auto

lemma sorted_wrt_snocI:
  "sorted_wrt P xs \<Longrightarrow> (\<And>x. x \<in> set xs \<Longrightarrow> P x y) \<Longrightarrow> sorted_wrt P (xs @ [y])"
  by (auto simp: sorted_wrt_append)

text \<open>
  \<^verbatim>\<open>sort.Slice\<close> and \<^verbatim>\<open>sort.SliceStable\<close> by a key: an insertion sort by \<open>le\<close>. A stable
  sort is one of the results the unstable one may give; the lists the code sorts unstably
  have distinct keys, or are only read as sets.
\<close>

fun insert_by :: "('a \<Rightarrow> 'a \<Rightarrow> bool) \<Rightarrow> 'a \<Rightarrow> 'a list \<Rightarrow> 'a list" where
  "insert_by le x [] = [x]"
| "insert_by le x (y # ys) = (if le x y then x # y # ys else y # insert_by le x ys)"

fun sort_by :: "('a \<Rightarrow> 'a \<Rightarrow> bool) \<Rightarrow> 'a list \<Rightarrow> 'a list" where
  "sort_by le [] = []"
| "sort_by le (x # xs) = insert_by le x (sort_by le xs)"

lemma set_insert_by [simp]: "set (insert_by le x xs) = insert x (set xs)"
  by (induction xs) auto

lemma set_sort_by [simp]: "set (sort_by le xs) = set xs"
  by (induction xs) auto

lemma length_insert_by [simp]: "length (insert_by le x xs) = Suc (length xs)"
  by (induction xs) auto

lemma length_sort_by [simp]: "length (sort_by le xs) = length xs"
  by (induction xs) auto

lemma distinct_insert_by [simp]: "distinct (insert_by le x xs) \<longleftrightarrow> x \<notin> set xs \<and> distinct xs"
  by (induction xs) auto

lemma distinct_sort_by [simp]: "distinct (sort_by le xs) = distinct xs"
  by (induction xs) auto

definition total_preorder :: "('a \<Rightarrow> 'a \<Rightarrow> bool) \<Rightarrow> bool" where
  "total_preorder le \<longleftrightarrow> (\<forall>x y. le x y \<or> le y x) \<and> (\<forall>x y z. le x y \<longrightarrow> le y z \<longrightarrow> le x z)"

lemma total_preorder_key: "total_preorder (\<lambda>x y. f x \<le> (f y :: 'b :: linorder))"
  by (auto simp: total_preorder_def)

lemma total_preorder_key_desc: "total_preorder (\<lambda>x y. f y \<le> (f x :: 'b :: linorder))"
  by (auto simp: total_preorder_def)

lemma sorted_wrt_insert_by:
  assumes "total_preorder le" and "sorted_wrt le xs"
  shows "sorted_wrt le (insert_by le x xs)"
  using assms(2)
proof (induction xs)
  case Nil
  then show ?case by simp
next
  case (Cons y ys)
  show ?case
  proof (cases "le x y")
    case True
    with Cons.prems assms(1) show ?thesis by (auto simp: total_preorder_def)
  next
    case False
    with assms(1) have "le y x" by (auto simp: total_preorder_def)
    with False Cons show ?thesis by auto
  qed
qed

lemma sorted_wrt_sort_by: "total_preorder le \<Longrightarrow> sorted_wrt le (sort_by le xs)"
  by (induction xs) (auto intro: sorted_wrt_insert_by)

lemma sort_by_id: "sorted_wrt le xs \<Longrightarrow> sort_by le xs = xs"
proof (induction xs)
  case Nil
  then show ?case by simp
next
  case (Cons x xs)
  then have "sort_by le xs = xs" by simp
  with Cons.prems show ?case by (cases xs) auto
qed

section \<open>Maps\<close>

lemma map_eqI: "(\<And>k v. f k = Some v \<longleftrightarrow> g k = Some v) \<Longrightarrow> f = g"
  by (rule ext) (metis not_Some_eq)

text \<open>A Go map restricted to the entries that satisfy a test: a \<^verbatim>\<open>delete\<close> in a \<^verbatim>\<open>range\<close> loop.\<close>

definition map_filter_vals :: "('v \<Rightarrow> bool) \<Rightarrow> ('k \<rightharpoonup> 'v) \<Rightarrow> ('k \<rightharpoonup> 'v)" where
  "map_filter_vals P m = (\<lambda>k. case m k of None \<Rightarrow> None | Some v \<Rightarrow> if P v then Some v else None)"

lemma map_filter_vals_Some [simp]:
  "map_filter_vals P m k = Some v \<longleftrightarrow> m k = Some v \<and> P v"
  by (auto simp: map_filter_vals_def split: option.splits)

lemma map_filter_vals_None:
  "map_filter_vals P m k = None \<longleftrightarrow> (\<forall>v. m k = Some v \<longrightarrow> \<not> P v)"
  by (auto simp: map_filter_vals_def split: option.splits)

lemma map_filter_vals_le [simp]: "map_filter_vals P m \<subseteq>\<^sub>m m"
  by (auto simp: map_le_def map_filter_vals_def split: option.splits)

lemma dom_map_filter_vals: "dom (map_filter_vals P m) \<subseteq> dom m"
  by (auto simp: dom_def)

lemma map_filter_vals_idem [simp]:
  "map_filter_vals P (map_filter_vals P m) = map_filter_vals P m"
  by (rule ext) (auto simp: map_filter_vals_def split: option.splits)

lemma map_filter_vals_empty [simp]: "map_filter_vals P Map.empty = Map.empty"
  by (rule ext) (simp add: map_filter_vals_def)

lemma finite_dom_map_filter_vals [intro]: "finite (dom m) \<Longrightarrow> finite (dom (map_filter_vals P m))"
  by (rule finite_subset[OF dom_map_filter_vals])

lemma card_dom_map_filter_vals: "finite (dom m) \<Longrightarrow> card (dom (map_filter_vals P m)) \<le> card (dom m)"
  by (rule card_mono[OF _ dom_map_filter_vals])

section \<open>Tables whose entries expire\<close>

text \<open>
  The contract of the server's short-lived tables (sign-ins in flight, notices): an entry is put
  with a life of \<open>ttl\<close>, taken at most once and only while it lives, and swept when it has expired.
\<close>

datatype ('k, 'v) ttl_op = TtlPut time 'k 'v | TtlTake time 'k | TtlSweep time

locale ttl_table =
  fixes ttl :: duration
    and expires :: "'v \<Rightarrow> time"
    and put :: "time \<Rightarrow> 'k \<Rightarrow> 'v \<Rightarrow> ('k \<rightharpoonup> 'v) \<Rightarrow> ('k \<rightharpoonup> 'v)"
    and take_entry :: "time \<Rightarrow> 'k \<Rightarrow> ('k \<rightharpoonup> 'v) \<Rightarrow> 'v option \<times> ('k \<rightharpoonup> 'v)"
    and sweep :: "time \<Rightarrow> ('k \<rightharpoonup> 'v) \<Rightarrow> ('k \<rightharpoonup> 'v)"
  assumes put_new: "put now k v m k = Some u \<Longrightarrow> expires u = now + ttl"
    and put_other: "j \<noteq> k \<Longrightarrow> put now k v m j = Some u \<Longrightarrow> m j = Some u"
    and take_law: "take_entry now k m =
      ((case m k of None \<Rightarrow> None | Some v \<Rightarrow> if expires v < now then None else Some v), m(k := None))"
    and sweep_law: "sweep now m j = Some u \<Longrightarrow> m j = Some u"
begin

definition run :: "('k, 'v) ttl_op \<Rightarrow> ('k \<rightharpoonup> 'v) \<Rightarrow> ('k \<rightharpoonup> 'v)" where
  "run op m = (case op of TtlPut now k v \<Rightarrow> put now k v m | TtlTake now k \<Rightarrow> snd (take_entry now k m) | TtlSweep now \<Rightarrow> sweep now m)"

definition puts :: "'k \<Rightarrow> ('k, 'v) ttl_op \<Rightarrow> bool" where
  "puts k op \<longleftrightarrow> (\<exists>now v. op = TtlPut now k v)"

lemma run_keeps: "\<not> puts k op \<Longrightarrow> run op m k = Some u \<Longrightarrow> m k = Some u"
  by (cases op) (auto simp: run_def puts_def take_law split: if_splits dest: sweep_law intro: put_other)

lemma fold_keeps: "\<forall>op \<in> set ops. \<not> puts k op \<Longrightarrow> fold run ops m k = Some u \<Longrightarrow> m k = Some u"
  by (induction ops arbitrary: m) (auto dest: run_keeps)

text \<open>Once taken, an entry is gone until something is put under its key again.\<close>

lemma take_once:
  assumes "take_entry now k m = (r, m')" and "\<forall>op \<in> set ops. \<not> puts k op"
  shows "fst (take_entry later k (fold run ops m')) = None"
proof -
  have "m' k = None" using assms(1) by (auto simp: take_law)
  then have "fold run ops m' k = None" using fold_keeps[OF assms(2), of m'] by (cases "fold run ops m' k") auto
  then show ?thesis by (simp add: take_law)
qed

text \<open>What is taken was put no longer than \<open>ttl\<close> ago.\<close>

lemma take_in_time:
  assumes "\<forall>op \<in> set ops. \<not> puts k op" and "fst (take_entry later k (fold run ops (put now k v m))) = Some u"
  shows "later \<le> now + ttl"
proof -
  have u: "fold run ops (put now k v m) k = Some u" "\<not> expires u < later"
    using assms(2) by (auto simp: take_law split: option.splits if_splits)
  then show ?thesis using put_new fold_keeps[OF assms(1)] by fastforce
qed

end

end
