(* ===== verification/GoStrings.thy ===== *)
theory GoStrings
  imports Prelude
begin

text \<open>
  The functions of Go's packages \<^verbatim>\<open>strings\<close>, \<^verbatim>\<open>bytes\<close> and \<^verbatim>\<open>strconv\<close> that the program uses,
  on byte strings: a Go string is a list of bytes, and \<open>string\<close> is a list of 8-bit
  characters. Case mapping (\<^verbatim>\<open>strings.ToLower\<close>, \<^verbatim>\<open>strings.EqualFold\<close>) is modelled on ASCII
  letters and leaves the bytes above 127 alone.
\<close>

section \<open>Prefixes, suffixes and searching\<close>

definition has_prefix :: "string \<Rightarrow> string \<Rightarrow> bool" where
  "has_prefix s p \<longleftrightarrow> take (length p) s = p"

definition has_suffix :: "string \<Rightarrow> string \<Rightarrow> bool" where
  "has_suffix s p \<longleftrightarrow> length p \<le> length s \<and> drop (length s - length p) s = p"

definition trim_prefix :: "string \<Rightarrow> string \<Rightarrow> string" where
  "trim_prefix s p = (if has_prefix s p then drop (length p) s else s)"

definition trim_suffix :: "string \<Rightarrow> string \<Rightarrow> string" where
  "trim_suffix s p = (if has_suffix s p then take (length s - length p) s else s)"

lemma has_prefix_append [simp]: "has_prefix (p @ s) p"
  by (simp add: has_prefix_def)

lemma has_prefix_iff: "has_prefix s p \<longleftrightarrow> (\<exists>t. s = p @ t)"
  unfolding has_prefix_def by (metis append_eq_conv_conj append_take_drop_id)

lemma has_prefix_code [simp]:
  "has_prefix s [] = True"
  "has_prefix [] (c # p) = False"
  "has_prefix (d # s) (c # p) \<longleftrightarrow> c = d \<and> has_prefix s p"
  by (auto simp: has_prefix_def)

lemma trim_prefix_append [simp]: "trim_prefix (p @ s) p = s"
  by (simp add: trim_prefix_def)

lemma has_suffix_iff: "has_suffix s p \<longleftrightarrow> (\<exists>t. s = t @ p)"
proof
  assume "has_suffix s p"
  then have "s = take (length s - length p) s @ p"
    by (metis has_suffix_def append_take_drop_id)
  then show "\<exists>t. s = t @ p" by blast
next
  assume "\<exists>t. s = t @ p"
  then show "has_suffix s p" by (auto simp: has_suffix_def)
qed

lemma trim_suffix_append [simp]: "trim_suffix (s @ p) p = s"
  by (simp add: trim_suffix_def has_suffix_def)

text \<open>\<^verbatim>\<open>strings.Index\<close> and \<^verbatim>\<open>strings.Contains\<close>.\<close>

fun str_index :: "string \<Rightarrow> string \<Rightarrow> nat option" where
  "str_index [] p = (if p = [] then Some 0 else None)"
| "str_index (c # s) p =
     (if has_prefix (c # s) p then Some 0 else map_option Suc (str_index s p))"

definition str_contains :: "string \<Rightarrow> string \<Rightarrow> bool" where
  "str_contains s p \<longleftrightarrow> str_index s p \<noteq> None"

definition contains_any :: "string \<Rightarrow> string \<Rightarrow> bool" where
  "contains_any s cs \<longleftrightarrow> list_ex (\<lambda>c. c \<in> set cs) s"

lemma contains_any_iff: "contains_any s cs \<longleftrightarrow> (\<exists>c \<in> set s. c \<in> set cs)"
  by (auto simp: contains_any_def list_ex_iff)

lemma str_index_Some:
  "str_index s p = Some i \<Longrightarrow> i + length p \<le> length s \<and> take (length p) (drop i s) = p"
proof (induction s arbitrary: i)
  case Nil
  then show ?case by (simp split: if_splits)
next
  case (Cons c s)
  show ?case
  proof (cases "has_prefix (c # s) p")
    case True
    with Cons.prems have "i = 0" by (simp del: has_prefix_code)
    moreover from True have "take (length p) (c # s) = p" by (simp only: has_prefix_def)
    moreover from this have "length p \<le> length (c # s)" by (metis length_take min.cobounded1)
    ultimately show ?thesis by simp
  next
    case False
    with Cons.prems obtain j where "str_index s p = Some j" "i = Suc j"
      by (auto simp del: has_prefix_code)
    with Cons.IH[of j] show ?thesis by simp
  qed
qed

text \<open>\<^verbatim>\<open>strings.Cut\<close> with a one-byte separator: before, after, found.\<close>

fun cut :: "string \<Rightarrow> char \<Rightarrow> string \<times> string \<times> bool" where
  "cut [] c = ([], [], False)"
| "cut (d # s) c =
     (if d = c then ([], s, True) else (case cut s c of (b, a, ok) \<Rightarrow> (d # b, a, ok)))"

lemma cut_found: "cut s c = (b, a, True) \<Longrightarrow> s = b @ c # a \<and> c \<notin> set b"
  by (induction s arbitrary: b a) (auto split: prod.splits if_splits)

lemma cut_not_found: "cut s c = (b, a, False) \<Longrightarrow> b = s \<and> a = [] \<and> c \<notin> set s"
  by (induction s arbitrary: b a) (auto split: prod.splits if_splits)

lemma cut_append [simp]: "c \<notin> set b \<Longrightarrow> cut (b @ c # a) c = (b, a, True)"
  by (induction b) auto

lemma cut_absent [simp]: "c \<notin> set s \<Longrightarrow> cut s c = (s, [], False)"
  by (induction s) auto

text \<open>\<^verbatim>\<open>strings.Split\<close> with a one-byte separator: never empty.\<close>

fun split_on :: "char \<Rightarrow> string \<Rightarrow> string list" where
  "split_on c [] = [[]]"
| "split_on c (d # s) =
     (if d = c then [] # split_on c s
      else (case split_on c s of [] \<Rightarrow> [[d]] | p # ps \<Rightarrow> (d # p) # ps))"

lemma split_on_not_Nil [simp]: "split_on c s \<noteq> []"
  by (induction s) (auto split: list.splits)

lemma split_on_no_sep: "p \<in> set (split_on c s) \<Longrightarrow> c \<notin> set p"
  by (induction s arbitrary: p) (fastforce split: list.splits if_splits)+

lemma split_on_absent [simp]: "c \<notin> set s \<Longrightarrow> split_on c s = [s]"
  by (induction s) auto

lemma split_on_append [simp]: "c \<notin> set b \<Longrightarrow> split_on c (b @ c # s) = b # split_on c s"
  by (induction b) auto

text \<open>\<^verbatim>\<open>strings.Join\<close>.\<close>

fun join_with :: "string \<Rightarrow> string list \<Rightarrow> string" where
  "join_with sep [] = []"
| "join_with sep [p] = p"
| "join_with sep (p # q # ps) = p @ sep @ join_with sep (q # ps)"

lemma join_split: "join_with [c] (split_on c s) = s"
proof (induction s)
  case Nil
  then show ?case by simp
next
  case (Cons d s)
  obtain p ps where ps: "split_on c s = p # ps" by (cases "split_on c s") auto
  with Cons show ?case by (cases ps) auto
qed

lemma split_join:
  "ps \<noteq> [] \<Longrightarrow> (\<And>p. p \<in> set ps \<Longrightarrow> c \<notin> set p) \<Longrightarrow> split_on c (join_with [c] ps) = ps"
  by (induction "[c]" ps rule: join_with.induct) auto

section \<open>White space\<close>

text \<open>
  \<^verbatim>\<open>strings.TrimSpace\<close> removes leading and trailing white space as Unicode defines it; the
  encodings below are the UTF-8 forms of every code point \<^verbatim>\<open>unicode.IsSpace\<close> accepts.
\<close>

definition byte :: "nat \<Rightarrow> char" where "byte n = char_of n"

definition space_runes :: "string list" where
  "space_runes =
     [[byte 9], [byte 10], [byte 11], [byte 12], [byte 13], [byte 32],
      [byte 194, byte 133], [byte 194, byte 160], [byte 225, byte 154, byte 128],
      [byte 226, byte 128, byte 128], [byte 226, byte 128, byte 129], [byte 226, byte 128, byte 130],
      [byte 226, byte 128, byte 131], [byte 226, byte 128, byte 132], [byte 226, byte 128, byte 133],
      [byte 226, byte 128, byte 134], [byte 226, byte 128, byte 135], [byte 226, byte 128, byte 136],
      [byte 226, byte 128, byte 137], [byte 226, byte 128, byte 138], [byte 226, byte 128, byte 168],
      [byte 226, byte 128, byte 169], [byte 226, byte 128, byte 175], [byte 226, byte 129, byte 159],
      [byte 227, byte 128, byte 128]]"

text \<open>The length of the space encoding a string starts with, 0 if it starts with none.\<close>

definition space_len :: "string list \<Rightarrow> string \<Rightarrow> nat" where
  "space_len rs s = (case find (has_prefix s) rs of None \<Rightarrow> 0 | Some r \<Rightarrow> length r)"

lemma space_len_le: "space_len rs s \<le> length s"
proof (cases "find (has_prefix s) rs")
  case None
  then show ?thesis by (simp add: space_len_def)
next
  case (Some r)
  then have "has_prefix s r" by (auto simp: find_Some_iff)
  then show ?thesis using Some by (auto simp: space_len_def has_prefix_iff)
qed

function drop_spaces :: "string list \<Rightarrow> string \<Rightarrow> string" where
  "drop_spaces rs s =
     (if space_len rs s = 0 then s else drop_spaces rs (drop (space_len rs s) s))"
  by pat_completeness auto
termination
proof (relation "measure (\<lambda>(rs, s). length s)", goal_cases)
  case 1
  then show ?case by simp
next
  case (2 rs s)
  then show ?case using space_len_le[of rs s] by simp
qed

declare drop_spaces.simps [simp del]

definition trim_space :: "string \<Rightarrow> string" where
  "trim_space s =
     (let l = drop_spaces space_runes s
      in rev (drop_spaces (map rev space_runes) (rev l)))"

text \<open>What trimming leaves. A string is clean if it starts with none of the encodings \<open>rs\<close>.\<close>

definition clean_start :: "string list \<Rightarrow> string \<Rightarrow> bool" where
  "clean_start rs s \<longleftrightarrow> (\<forall>r \<in> set rs. \<not> has_prefix s r)"

lemma space_len_0: "[] \<notin> set rs \<Longrightarrow> space_len rs s = 0 \<longleftrightarrow> clean_start rs s"
  unfolding space_len_def clean_start_def
  by (auto simp: find_None_iff find_Some_iff split: option.splits dest: nth_mem)

lemma drop_spaces_clean: "[] \<notin> set rs \<Longrightarrow> clean_start rs (drop_spaces rs s)"
proof (induction rs s rule: drop_spaces.induct)
  case (1 rs s)
  then show ?case by (metis drop_spaces.simps space_len_0)
qed

lemma drop_spaces_id: "[] \<notin> set rs \<Longrightarrow> clean_start rs s \<Longrightarrow> drop_spaces rs s = s"
  by (simp add: drop_spaces.simps space_len_0)

lemma drop_spaces_suffix: "\<exists>p. s = p @ drop_spaces rs s"
proof (induction rs s rule: drop_spaces.induct)
  case (1 rs s)
  then show ?case
    by (cases "space_len rs s = 0")
      (simp add: drop_spaces.simps[of rs s], metis append.assoc append_take_drop_id drop_spaces.simps)
qed

lemma clean_start_prefix: "clean_start rs (s @ t) \<Longrightarrow> clean_start rs s"
  by (auto simp: clean_start_def has_prefix_iff)

definition trimmed :: "string \<Rightarrow> bool" where
  "trimmed s \<longleftrightarrow> clean_start space_runes s \<and> clean_start (map rev space_runes) (rev s)"

lemma space_runes_not_Nil: "[] \<notin> set space_runes" "[] \<notin> set (map rev space_runes)"
  by (simp_all add: space_runes_def)

lemma trim_space_trimmed: "trimmed (trim_space s)"
proof -
  let ?l = "drop_spaces space_runes s" and ?d = "drop_spaces (map rev space_runes) (rev (drop_spaces space_runes s))"
  obtain p where "rev ?l = p @ ?d" using drop_spaces_suffix by blast
  then have "?l = rev ?d @ rev p" by (metis rev_append rev_rev_ident)
  then have "clean_start space_runes (rev ?d)"
    using drop_spaces_clean[OF space_runes_not_Nil(1), of s] clean_start_prefix by metis
  then show ?thesis
    using drop_spaces_clean[OF space_runes_not_Nil(2), of "rev ?l"] by (simp add: trimmed_def trim_space_def Let_def)
qed

lemma trimmed_id: "trimmed s \<Longrightarrow> trim_space s = s"
  using drop_spaces_id[OF space_runes_not_Nil(1), of s] drop_spaces_id[OF space_runes_not_Nil(2), of "rev s"]
  by (simp add: trimmed_def trim_space_def)

text \<open>A string that starts and ends with a visible ASCII character has nothing to trim.\<close>

definition visible :: "char \<Rightarrow> bool" where
  "visible c \<longleftrightarrow> 33 \<le> (of_char c :: nat) \<and> (of_char c :: nat) < 127"

lemma visible_start: "visible c \<Longrightarrow> clean_start space_runes (c # s)"
  by (auto simp: visible_def clean_start_def space_runes_def byte_def)

lemma visible_end: "visible c \<Longrightarrow> clean_start (map rev space_runes) (c # s)"
  by (auto simp: visible_def clean_start_def space_runes_def byte_def)

lemma visible_trimmed: "s \<noteq> [] \<Longrightarrow> visible (hd s) \<Longrightarrow> visible (last s) \<Longrightarrow> trimmed s"
  using visible_start[of "hd s" "tl s"] visible_end[of "last s" "rev (butlast s)"]
  by (simp add: trimmed_def) (metis append_butlast_last_id rev.simps(2) rev_rev_ident rev_append append_Cons append_Nil rev_singleton_conv)

text \<open>The newline after a line goes.\<close>

lemma trim_space_line:
  assumes "s \<noteq> []" "visible (hd s)" "visible (last s)"
  shows "trim_space (s @ [byte 10]) = s"
proof -
  have start: "clean_start space_runes (s @ [byte 10])"
    using visible_start[OF assms(2), of "tl s @ [byte 10]"] assms(1) by (cases s) simp_all
  have "space_len (map rev space_runes) (byte 10 # rev s) = 1"
    by (simp add: space_len_def space_runes_def byte_def)
  then have "drop_spaces (map rev space_runes) (byte 10 # rev s) = drop_spaces (map rev space_runes) (rev s)"
    by (subst drop_spaces.simps) simp
  moreover have "drop_spaces (map rev space_runes) (rev s) = rev s"
    using visible_trimmed[OF assms] by (intro drop_spaces_id space_runes_not_Nil) (simp add: trimmed_def)
  ultimately show ?thesis using drop_spaces_id[OF space_runes_not_Nil(1) start] by (simp add: trim_space_def)
qed

text \<open>\<^verbatim>\<open>strings.Fields\<close>, on ASCII space.\<close>

definition is_space :: "char \<Rightarrow> bool" where
  "is_space c \<longleftrightarrow> c \<in> set [byte 9, byte 10, byte 11, byte 12, byte 13, byte 32]"

lemma byte_iff: "n < 256 \<Longrightarrow> c = byte n \<longleftrightarrow> of_char c = n"
proof
  show "c = byte n" if "of_char c = n" using arg_cong[OF that, of "char_of :: nat \<Rightarrow> char"] by (simp add: byte_def)
qed (simp add: byte_def)

lemma is_space_code: "is_space c \<longleftrightarrow> 9 \<le> (of_char c :: nat) \<and> of_char c \<le> (13 :: nat) \<or> of_char c = (32 :: nat)"
  by (auto simp: is_space_def byte_iff)

fun fields_acc :: "string \<Rightarrow> string \<Rightarrow> string list" where
  "fields_acc w [] = (if w = [] then [] else [rev w])"
| "fields_acc w (c # s) =
     (if is_space c then (if w = [] then fields_acc [] s else rev w # fields_acc [] s)
      else fields_acc (c # w) s)"

definition fields :: "string \<Rightarrow> string list" where
  "fields s = fields_acc [] s"

section \<open>Case\<close>

definition lower_char :: "char \<Rightarrow> char" where
  "lower_char c = (let n = (of_char c :: nat) in if 65 \<le> n \<and> n \<le> 90 then char_of (n + 32) else c)"

definition to_lower :: "string \<Rightarrow> string" where
  "to_lower s = map lower_char s"

definition equal_fold :: "string \<Rightarrow> string \<Rightarrow> bool" where
  "equal_fold a b \<longleftrightarrow> to_lower a = to_lower b"

lemma lower_char_idem [simp]: "lower_char (lower_char c) = lower_char c"
  by (auto simp: lower_char_def Let_def)

lemma to_lower_idem [simp]: "to_lower (to_lower s) = to_lower s"
  by (simp add: to_lower_def)

lemma to_lower_Nil [simp]: "to_lower [] = []"
  by (simp add: to_lower_def)

lemma to_lower_append [simp]: "to_lower (a @ b) = to_lower a @ to_lower b"
  by (simp add: to_lower_def)

lemma equal_fold_refl [simp]: "equal_fold a a"
  by (simp add: equal_fold_def)

section \<open>Numbers\<close>

text \<open>\<^verbatim>\<open>strconv.ParseUint(s, base, bits)\<close> for bases up to ten: digits only, no sign, in range.\<close>

definition digit_val :: "nat \<Rightarrow> char \<Rightarrow> nat option" where
  "digit_val base c =
     (let n = (of_char c :: nat)
      in if 48 \<le> n \<and> n < 48 + base then Some (n - 48) else None)"

fun parse_digits :: "nat \<Rightarrow> nat \<Rightarrow> string \<Rightarrow> nat option" where
  "parse_digits base acc [] = Some acc"
| "parse_digits base acc (c # s) =
     (case digit_val base c of None \<Rightarrow> None | Some d \<Rightarrow> parse_digits base (acc * base + d) s)"

definition parse_uint :: "string \<Rightarrow> nat \<Rightarrow> nat \<Rightarrow> nat option" where
  "parse_uint s base bits =
     (if s = [] then None
      else (case parse_digits base 0 s of
              None \<Rightarrow> None
            | Some n \<Rightarrow> if n < 2 ^ bits then Some n else None))"

text \<open>\<^verbatim>\<open>strconv.ParseInt(s, 10, 64)\<close>: an optional sign, then digits, within 64 bits.\<close>

definition parse_int :: "string \<Rightarrow> int option" where
  "parse_int s =
     (let (neg, body) = (case s of [] \<Rightarrow> (False, [])
                         | c # r \<Rightarrow> if c = CHR ''-'' then (True, r)
                                    else if c = CHR ''+'' then (False, r) else (False, s))
      in if body = [] then None
         else (case parse_digits 10 0 body of
                 None \<Rightarrow> None
               | Some n \<Rightarrow> if neg then (if n \<le> 2 ^ 63 then Some (- int n) else None)
                           else (if n < 2 ^ 63 then Some (int n) else None)))"

text \<open>\<^verbatim>\<open>strconv.FormatUint(v, 10)\<close> and \<^verbatim>\<open>strconv.FormatInt(v, 10)\<close>.\<close>

fun format_nat :: "nat \<Rightarrow> string" where
  "format_nat n =
     (if n < 10 then [char_of (48 + n)] else format_nat (n div 10) @ [char_of (48 + n mod 10)])"

declare format_nat.simps [simp del]

definition format_int :: "int \<Rightarrow> string" where
  "format_int v = (if v < 0 then CHR ''-'' # format_nat (nat (- v)) else format_nat (nat v))"

lemma digit_val_digit [simp]: "d < 10 \<Longrightarrow> digit_val 10 (char_of (48 + d)) = Some d"
  by (simp add: digit_val_def)

lemma parse_digits_append:
  "parse_digits b acc (s @ t) =
     (case parse_digits b acc s of None \<Rightarrow> None | Some n \<Rightarrow> parse_digits b n t)"
  by (induction s arbitrary: acc) (auto split: option.splits)

lemma parse_digits_format: "parse_digits 10 0 (format_nat n) = Some n"
proof (induction n rule: format_nat.induct)
  case (1 n)
  show ?case
  proof (cases "n < 10")
    case True
    then show ?thesis by (simp add: format_nat.simps[of n])
  next
    case False
    with 1 show ?thesis by (simp add: format_nat.simps[of n] parse_digits_append)
  qed
qed

lemma format_nat_not_Nil [simp]: "format_nat n \<noteq> []"
  by (subst format_nat.simps) simp

lemma format_nat_digits: "c \<in> set (format_nat n) \<Longrightarrow> 48 \<le> (of_char c :: nat) \<and> of_char c < (58 :: nat)"
proof (induction n rule: format_nat.induct)
  case (1 n)
  show ?case
  proof (cases "n < 10")
    case True
    with "1.prems" show ?thesis by (simp add: format_nat.simps[of n])
  next
    case False
    then have "n mod 10 < 10" by simp
    with False "1.prems" "1.IH"[OF False] show ?thesis by (auto simp: format_nat.simps[of n])
  qed
qed

lemma parse_uint_format: "n < 2 ^ bits \<Longrightarrow> parse_uint (format_nat n) 10 bits = Some n"
  by (simp add: parse_uint_def parse_digits_format)

lemma format_nat_head: "\<exists>c r. format_nat n = c # r \<and> c \<noteq> CHR ''-'' \<and> c \<noteq> CHR ''+''"
proof -
  obtain c r where cr: "format_nat n = c # r" by (cases "format_nat n") auto
  then have "48 \<le> (of_char c :: nat)" using format_nat_digits[of c n] by simp
  moreover have "(of_char (CHR ''-'') :: nat) = 45" "(of_char (CHR ''+'') :: nat) = 43" by simp_all
  ultimately show ?thesis using cr by force
qed

lemma parse_int_format: "- (2 ^ 63) \<le> v \<Longrightarrow> v < 2 ^ 63 \<Longrightarrow> parse_int (format_int v) = Some v"
proof (cases "v < 0")
  case True
  assume "- (2 ^ 63) \<le> v"
  with True show ?thesis
    by (simp add: format_int_def parse_int_def parse_digits_format nat_le_iff)
next
  case False
  assume "v < 2 ^ 63"
  with False obtain c r where "format_nat (nat v) = c # r" "c \<noteq> CHR ''-''" "c \<noteq> CHR ''+''"
    using format_nat_head by blast
  then show ?thesis using False \<open>v < 2 ^ 63\<close> parse_digits_format[of "nat v"]
    by (simp add: format_int_def parse_int_def nat_less_iff)
qed

lemma format_int_chars: "c \<in> set (format_int v) \<Longrightarrow> c = CHR ''-'' \<or> 48 \<le> (of_char c :: nat) \<and> of_char c < (58 :: nat)"
  by (auto simp: format_int_def split: if_splits dest: format_nat_digits)

lemma format_int_no_bar [simp]: "CHR ''|'' \<notin> set (format_int v)"
  using format_int_chars[of "CHR ''|''" v] by auto


section \<open>Base 64\<close>

text \<open>\<^verbatim>\<open>base64.RawURLEncoding.EncodeToString\<close>: three bytes in four characters, no padding.\<close>

definition base64_alphabet :: string where
  "base64_alphabet = ''ABCDEFGHIJKLMNOPQRSTUVWXYZabcdefghijklmnopqrstuvwxyz0123456789-_''"

definition b64_char :: "nat \<Rightarrow> char" where
  "b64_char n = base64_alphabet ! (n mod 64)"

fun base64url_nats :: "nat list \<Rightarrow> string" where
  "base64url_nats [] = []"
| "base64url_nats [a] = [b64_char (a div 4), b64_char (a mod 4 * 16)]"
| "base64url_nats [a, b] = [b64_char (a div 4), b64_char (a mod 4 * 16 + b div 16), b64_char (b mod 16 * 4)]"
| "base64url_nats (a # b # c # r) =
     b64_char (a div 4) # b64_char (a mod 4 * 16 + b div 16) # b64_char (b mod 16 * 4 + c div 64) #
     b64_char (c mod 64) # base64url_nats r"

definition base64url :: "uint8 list \<Rightarrow> string" where
  "base64url b = base64url_nats (map unat b)"

lemma base64url_nats_Nil [simp]: "base64url_nats xs = [] \<longleftrightarrow> xs = []"
  by (cases xs rule: base64url_nats.cases) auto

end
