(* ===== verification/Wire.thy ===== *)
theory Wire
  imports GoStrings
begin

text \<open>
  The message format between the server and a user's helper process,
  \<^verbatim>\<open>src/internal/wire/wire.go\<close> and \<^verbatim>\<open>src/internal/wire/codec.go\<close>: the message types, the
  encoders, the cursor that latches the first error, and the decoders. The locale \<open>codec\<close>
  is what one field's encoder and decoder owe each other; every field kind is an
  interpretation of it, and the frame theorems rest on those.
\<close>

section \<open>Messages (wire.go)\<close>

definition max_frame :: nat where "max_frame = 64 * 2 ^ 10"

abbreviation (input) OpOpen :: uint8 where "OpOpen \<equiv> 1"
abbreviation (input) OpMkdir :: uint8 where "OpMkdir \<equiv> 2"
abbreviation (input) OpUnlink :: uint8 where "OpUnlink \<equiv> 3"
abbreviation (input) OpRmdir :: uint8 where "OpRmdir \<equiv> 4"
abbreviation (input) OpRename :: uint8 where "OpRename \<equiv> 5"
abbreviation (input) OpLink :: uint8 where "OpLink \<equiv> 6"
abbreviation (input) OpStat :: uint8 where "OpStat \<equiv> 7"
abbreviation (input) OpChmod :: uint8 where "OpChmod \<equiv> 8"
abbreviation (input) OpSetXattr :: uint8 where "OpSetXattr \<equiv> 9"
abbreviation (input) OpGetXattr :: uint8 where "OpGetXattr \<equiv> 10"
abbreviation (input) OpReadDir :: uint8 where "OpReadDir \<equiv> 11"

definition op_valid :: "uint8 \<Rightarrow> bool" where
  "op_valid c = (c \<ge> OpOpen \<and> c \<le> OpReadDir)"

definition op_names :: "string list" where
  "op_names = ['''', ''OPEN'', ''MKDIR'', ''UNLINK'', ''RMDIR'', ''RENAME'', ''LINK'', ''STAT'',
               ''CHMOD'', ''SETXATTR'', ''GETXATTR'', ''READDIR'']"

text \<open>\<^verbatim>\<open>itoa\<close>: the digits are written from the end of the buffer, least significant first.\<close>

fun itoa_loop :: "nat \<Rightarrow> string \<Rightarrow> string" where
  "itoa_loop v b = (if v = 0 then b else itoa_loop (v div 10) (char_of (48 + v mod 10) # b))"

declare itoa_loop.simps [simp del]

definition itoa :: "uint64 \<Rightarrow> string" where
  "itoa v = (if v = 0 then ''0'' else itoa_loop (unat v) [])"

definition op_string :: "uint8 \<Rightarrow> string" where
  "op_string c = (if unat c < length op_names \<and> op_names ! unat c \<noteq> [] then op_names ! unat c
                  else ''Op('' @ itoa (ucast c) @ '')'')"

abbreviation (input) FlagNoFollow :: uint32 where "FlagNoFollow \<equiv> 1"
abbreviation (input) FlagWithStat :: uint32 where "FlagWithStat \<equiv> 2"

record request =
  rq_id :: uint64
  rq_op :: uint8
  rq_flags :: uint32
  rq_mode :: uint32
  rq_path :: string
  rq_path2 :: string
  rq_name :: string
  rq_value :: "uint8 list"

record stat =
  st_mode :: uint32
  st_uid :: uint32
  st_gid :: uint32
  st_size :: int64
  st_mtime_sec :: int64
  st_mtime_nsec :: uint32
  st_ino :: uint64
  st_nlink :: uint64

record dir_entry =
  de_name :: string
  de_type :: uint8
  de_stat :: "stat option"

abbreviation (input) HasFD :: uint8 where "HasFD \<equiv> 1"
abbreviation (input) HasStat :: uint8 where "HasStat \<equiv> 2"
abbreviation (input) HasEntries :: uint8 where "HasEntries \<equiv> 4"
abbreviation (input) HasMore :: uint8 where "HasMore \<equiv> 8"
abbreviation (input) HasValue :: uint8 where "HasValue \<equiv> 16"

definition has_known :: uint8 where
  "has_known = HasFD OR HasStat OR HasEntries OR HasMore OR HasValue"

record response =
  rs_id :: uint64
  rs_has :: uint8
  rs_errno :: uint32
  rs_stat :: "stat option"
  rs_entries :: "dir_entry list"
  rs_value :: "uint8 list"

definition resp_ok :: "response \<Rightarrow> bool" where
  "resp_ok r = (rs_errno r = 0)"

section \<open>Encoding (codec.go)\<close>

datatype wire_error = ErrShort | ErrTrailing | ErrTooLarge | ErrBadOp | ErrFieldTooLong | ErrBadFlags

text \<open>\<^verbatim>\<open>encoding/binary\<close>'s big-endian integers of \<open>n\<close> bytes, and the bytes of a Go string.\<close>

fun be_bytes :: "nat \<Rightarrow> nat \<Rightarrow> uint8 list" where
  "be_bytes 0 v = []"
| "be_bytes (Suc n) v = be_bytes n (v div 256) @ [word_of_nat v]"

fun be_nat :: "nat \<Rightarrow> uint8 list \<Rightarrow> nat" where
  "be_nat acc [] = acc"
| "be_nat acc (b # bs) = be_nat (acc * 256 + unat b) bs"

definition bytes_of :: "string \<Rightarrow> uint8 list" where
  "bytes_of s = map (\<lambda>c. word_of_nat (of_char c)) s"

definition string_of :: "uint8 list \<Rightarrow> string" where
  "string_of b = map (\<lambda>w. char_of (unat w)) b"

definition append_str :: "uint8 list \<Rightarrow> string \<Rightarrow> wire_error + uint8 list" where
  "append_str b s =
     (if length s > 2 ^ 16 - 1 then Inl ErrFieldTooLong
      else Inr ((b @ be_bytes 2 (length s)) @ bytes_of s))"

definition append_bytes :: "uint8 list \<Rightarrow> uint8 list \<Rightarrow> wire_error + uint8 list" where
  "append_bytes b v =
     (if length v > 2 ^ 32 - 1 then Inl ErrFieldTooLong
      else Inr ((b @ be_bytes 4 (length v)) @ v))"

definition append_stat :: "uint8 list \<Rightarrow> stat \<Rightarrow> uint8 list" where
  "append_stat b s =
     (let b = b @ be_bytes 4 (unat (st_mode s));
          b = b @ be_bytes 4 (unat (st_uid s));
          b = b @ be_bytes 4 (unat (st_gid s));
          b = b @ be_bytes 8 (unat (st_size s));
          b = b @ be_bytes 8 (unat (st_mtime_sec s));
          b = b @ be_bytes 4 (unat (st_mtime_nsec s));
          b = b @ be_bytes 8 (unat (st_ino s));
          b = b @ be_bytes 8 (unat (st_nlink s))
      in b)"

text \<open>The loop over \<open>[]string{r.Path, r.Path2, r.Name}\<close>.\<close>

fun append_strs :: "uint8 list \<Rightarrow> string list \<Rightarrow> wire_error + uint8 list" where
  "append_strs b [] = Inr b"
| "append_strs b (s # ss) =
     (case append_str b s of Inl e \<Rightarrow> Inl e | Inr b' \<Rightarrow> append_strs b' ss)"

definition request_marshal :: "request \<Rightarrow> wire_error + uint8 list" where
  "request_marshal r =
     (if \<not> op_valid (rq_op r) then Inl ErrBadOp
      else
        (let b = be_bytes 8 (unat (rq_id r)) @ [rq_op r];
             b = b @ be_bytes 4 (unat (rq_flags r));
             b = b @ be_bytes 4 (unat (rq_mode r))
         in case append_strs b [rq_path r, rq_path2 r, rq_name r] of
              Inl e \<Rightarrow> Inl e
            | Inr b \<Rightarrow>
                (case append_bytes b (rq_value r) of
                   Inl e \<Rightarrow> Inl e
                 | Inr b \<Rightarrow> if length b > max_frame then Inl ErrTooLarge else Inr b)))"

fun append_entries :: "uint8 list \<Rightarrow> dir_entry list \<Rightarrow> wire_error + uint8 list" where
  "append_entries b [] = Inr b"
| "append_entries b (e # es) =
     (case append_str b (de_name e) of
        Inl err \<Rightarrow> Inl err
      | Inr b \<Rightarrow>
          (let b = b @ [de_type e];
               b = (case de_stat e of Some s \<Rightarrow> append_stat (b @ [1]) s | None \<Rightarrow> b @ [0])
           in append_entries b es))"

text \<open>The \<^verbatim>\<open>Has\<close> byte that is written: the stat bit is forced, the entries bit only added.\<close>

definition has_written :: "response \<Rightarrow> uint8" where
  "has_written r =
     (let has = rs_has r;
          has = (if rs_stat r \<noteq> None then has OR HasStat else has AND NOT HasStat)
      in if rs_entries r \<noteq> [] then has OR HasEntries else has)"

definition response_marshal :: "response \<Rightarrow> wire_error + uint8 list" where
  "response_marshal r =
     (let b = be_bytes 8 (unat (rs_id r));
          b = b @ be_bytes 4 (unat (rs_errno r))
      in if rs_has r AND NOT has_known \<noteq> 0 then Inl ErrBadFlags
         else
           (let has = has_written r;
                b = b @ [has];
                b = (case rs_stat r of Some s \<Rightarrow> append_stat b s | None \<Rightarrow> b);
                eb = (if has AND HasEntries \<noteq> 0 then
                        (if length (rs_entries r) > 2 ^ 32 - 1 then Inl ErrFieldTooLong
                         else append_entries (b @ be_bytes 4 (length (rs_entries r))) (rs_entries r))
                      else Inr b)
            in case eb of
                 Inl e \<Rightarrow> Inl e
               | Inr b \<Rightarrow>
                   (case (if has AND HasValue \<noteq> 0 then append_bytes b (rs_value r) else Inr b) of
                      Inl e \<Rightarrow> Inl e
                    | Inr b \<Rightarrow> if length b > max_frame then Inl ErrTooLarge else Inr b)))"

section \<open>Decoding (codec.go)\<close>

record cursor =
  cb :: "uint8 list"
  cerr :: "wire_error option"

definition cursor_take :: "nat \<Rightarrow> cursor \<Rightarrow> uint8 list option \<times> cursor" where
  "cursor_take n c =
     (if cerr c \<noteq> None then (None, c)
      else if n > length (cb c) then (None, c\<lparr>cerr := Some ErrShort\<rparr>)
      else (Some (take n (cb c)), c\<lparr>cb := drop n (cb c)\<rparr>))"

definition cursor_u8 :: "cursor \<Rightarrow> uint8 \<times> cursor" where
  "cursor_u8 c = (case cursor_take 1 c of (None, c') \<Rightarrow> (0, c') | (Some v, c') \<Rightarrow> (v ! 0, c'))"

definition cursor_u16 :: "cursor \<Rightarrow> uint16 \<times> cursor" where
  "cursor_u16 c =
     (case cursor_take 2 c of (None, c') \<Rightarrow> (0, c') | (Some v, c') \<Rightarrow> (word_of_nat (be_nat 0 v), c'))"

definition cursor_u32 :: "cursor \<Rightarrow> uint32 \<times> cursor" where
  "cursor_u32 c =
     (case cursor_take 4 c of (None, c') \<Rightarrow> (0, c') | (Some v, c') \<Rightarrow> (word_of_nat (be_nat 0 v), c'))"

definition cursor_u64 :: "cursor \<Rightarrow> uint64 \<times> cursor" where
  "cursor_u64 c =
     (case cursor_take 8 c of (None, c') \<Rightarrow> (0, c') | (Some v, c') \<Rightarrow> (word_of_nat (be_nat 0 v), c'))"

definition cursor_str :: "cursor \<Rightarrow> string \<times> cursor" where
  "cursor_str c =
     (case cursor_u16 c of (n, c') \<Rightarrow>
       (case cursor_take (unat n) c' of
          (None, c'') \<Rightarrow> ([], c'')
        | (Some v, c'') \<Rightarrow> (string_of v, c'')))"

definition cursor_bytes :: "cursor \<Rightarrow> uint8 list \<times> cursor" where
  "cursor_bytes c =
     (case cursor_u32 c of (n, c') \<Rightarrow>
       (if cerr c' = None \<and> unat n > length (cb c') then ([], c'\<lparr>cerr := Some ErrShort\<rparr>)
        else (case cursor_take (unat n) c' of
                (None, c'') \<Rightarrow> ([], c'')
              | (Some v, c'') \<Rightarrow> (v, c''))))"

definition cursor_stat :: "cursor \<Rightarrow> stat option \<times> cursor" where
  "cursor_stat c =
     (case cursor_u32 c of (mode, c) \<Rightarrow>
      case cursor_u32 c of (uid, c) \<Rightarrow>
      case cursor_u32 c of (gid, c) \<Rightarrow>
      case cursor_u64 c of (sz, c) \<Rightarrow>
      case cursor_u64 c of (sec, c) \<Rightarrow>
      case cursor_u32 c of (nsec, c) \<Rightarrow>
      case cursor_u64 c of (ino, c) \<Rightarrow>
      case cursor_u64 c of (nlink, c) \<Rightarrow>
        (if cerr c \<noteq> None then None
         else Some \<lparr>st_mode = mode, st_uid = uid, st_gid = gid, st_size = sz,
                    st_mtime_sec = sec, st_mtime_nsec = nsec, st_ino = ino, st_nlink = nlink\<rparr>, c))"

definition cursor_done :: "cursor \<Rightarrow> wire_error option" where
  "cursor_done c =
     (if cerr c \<noteq> None then cerr c
      else if length (cb c) \<noteq> 0 then Some ErrTrailing
      else None)"

definition unmarshal_request :: "uint8 list \<Rightarrow> wire_error + request" where
  "unmarshal_request b =
     (if length b > max_frame then Inl ErrTooLarge
      else
        (case cursor_u64 \<lparr>cb = b, cerr = None\<rparr> of (ident, c) \<Rightarrow>
         case cursor_u8 c of (opc, c) \<Rightarrow>
         case cursor_u32 c of (flags, c) \<Rightarrow>
         case cursor_u32 c of (mode, c) \<Rightarrow>
         case cursor_str c of (path, c) \<Rightarrow>
         case cursor_str c of (path2, c) \<Rightarrow>
         case cursor_str c of (name, c) \<Rightarrow>
         case cursor_bytes c of (val, c) \<Rightarrow>
           (case cursor_done c of
              Some err \<Rightarrow> Inl err
            | None \<Rightarrow>
                if \<not> op_valid opc then Inl ErrBadOp
                else Inr \<lparr>rq_id = ident, rq_op = opc, rq_flags = flags, rq_mode = mode,
                          rq_path = path, rq_path2 = path2, rq_name = name, rq_value = val\<rparr>)))"

text \<open>
  The loop over the entries of a listing. \<open>n\<close> counts the entries still to read; the result
  is an early return (\<open>Inl\<close>) or the entries and the cursor the loop leaves.
\<close>

fun cursor_entries :: "nat \<Rightarrow> cursor \<Rightarrow> dir_entry list \<Rightarrow> wire_error + dir_entry list \<times> cursor" where
  "cursor_entries 0 c acc = Inr (acc, c)"
| "cursor_entries (Suc n) c acc =
     (if cerr c \<noteq> None then Inr (acc, c)
      else
        (case cursor_str c of (name, c) \<Rightarrow>
         case cursor_u8 c of (typ, c) \<Rightarrow>
         case cursor_u8 c of (present, c) \<Rightarrow>
           (if present \<noteq> 0 \<and> present \<noteq> 1 \<and> cerr c = None then Inl ErrBadFlags
            else
              (case (if present = 1 then cursor_stat c else (None, c)) of (st, c) \<Rightarrow>
                 if cerr c \<noteq> None then Inr (acc, c)
                 else cursor_entries n c
                        (acc @ [\<lparr>de_name = name, de_type = typ, de_stat = st\<rparr>])))))"

definition unmarshal_response :: "uint8 list \<Rightarrow> wire_error + response" where
  "unmarshal_response b =
     (if length b > max_frame then Inl ErrTooLarge
      else
        (case cursor_u64 \<lparr>cb = b, cerr = None\<rparr> of (ident, c) \<Rightarrow>
         case cursor_u32 c of (errno, c) \<Rightarrow>
         case cursor_u8 c of (has, c) \<Rightarrow>
           (if cerr c = None \<and> has AND NOT has_known \<noteq> 0 then Inl ErrBadFlags
            else
              (case (if has AND HasStat \<noteq> 0 then cursor_stat c else (None, c)) of (st, c) \<Rightarrow>
               case (if has AND HasEntries \<noteq> 0 then
                       (case cursor_u32 c of (n, c) \<Rightarrow>
                          if cerr c = None \<and> unat n > length (cb c) div 3 then Inl ErrShort
                          else cursor_entries (unat n) c [])
                     else Inr ([], c)) of
                 Inl err \<Rightarrow> Inl err
               | Inr (es, c) \<Rightarrow>
                   (case (if has AND HasValue \<noteq> 0 then cursor_bytes c else ([], c)) of (val, c) \<Rightarrow>
                     (case cursor_done c of
                        Some err \<Rightarrow> Inl err
                      | None \<Rightarrow> Inr \<lparr>rs_id = ident, rs_has = has, rs_errno = errno, rs_stat = st,
                                     rs_entries = es, rs_value = val\<rparr>))))))"


section \<open>Big-endian integers\<close>

lemma length_be_bytes [simp]: "length (be_bytes n v) = n"
  by (induction n arbitrary: v) auto

lemma be_nat_append: "be_nat acc (bs @ cs) = be_nat (be_nat acc bs) cs"
  by (induction bs arbitrary: acc) auto

lemma be_nat_bytes: "be_nat 0 (be_bytes n v) = v mod 256 ^ n"
proof (induction n arbitrary: v)
  case 0
  then show ?case by simp
next
  case (Suc n)
  have "v mod 256 ^ Suc n = 256 * (v div 256 mod 256 ^ n) + v mod 256"
    by (simp add: mod_mult2_eq)
  with Suc show ?case by (simp add: be_nat_append unat_of_nat)
qed

lemma be_nat_bytes_small [simp]: "v < 256 ^ n \<Longrightarrow> be_nat 0 (be_bytes n v) = v"
  by (simp add: be_nat_bytes)

lemma be_nat_bound: "be_nat 0 bs < 256 ^ length bs"
proof (induction bs rule: rev_induct)
  case Nil
  then show ?case by simp
next
  case (snoc b bs)
  have "unat b < 256" using unsigned_less[of b] by simp
  with snoc show ?case by (simp add: be_nat_append)
qed

lemma be_bytes_nat [simp]: "be_bytes (length bs) (be_nat 0 bs) = bs"
proof (induction bs rule: rev_induct)
  case Nil
  then show ?case by simp
next
  case (snoc b bs)
  have b: "unat b < 256" using unsigned_less[of b] by simp
  have "(word_of_nat (be_nat 0 bs * 256 + unat b) :: uint8) = b"
  proof (rule word_unat_eq_iff[THEN iffD2])
    show "unat (word_of_nat (be_nat 0 bs * 256 + unat b) :: uint8) = unat b"
      using b by (simp only: unat_of_nat) (simp add: mod_mult_self3)
  qed
  with snoc b show ?case by (simp add: be_nat_append del: of_nat_add of_nat_mult)
qed

lemma of_be_bytes:
  fixes w :: "'a :: len word"
  assumes "length v = n" and "LENGTH('a) = 8 * n"
  shows "be_bytes n (unat (word_of_nat (be_nat 0 v) :: 'a word)) = v"
proof -
  have "be_nat 0 v < 2 ^ LENGTH('a)"
    using be_nat_bound[of v] assms by (simp add: power_mult)
  then have "unat (word_of_nat (be_nat 0 v) :: 'a word) = be_nat 0 v"
    by (simp add: unat_of_nat)
  then show ?thesis using assms(1) be_bytes_nat[of v] by simp
qed

lemma be_bytes_of:
  fixes w :: "'a :: len word"
  assumes "LENGTH('a) = 8 * n"
  shows "word_of_nat (be_nat 0 (be_bytes n (unat w))) = w"
proof -
  have "unat w < 256 ^ n" using unsigned_less[of w] assms by (simp add: power_mult)
  then show ?thesis by simp
qed

lemma string_of_bytes_of [simp]: "string_of (bytes_of s) = s"
  by (induction s) (auto simp: string_of_def bytes_of_def unat_of_nat)

lemma bytes_of_string_of [simp]: "bytes_of (string_of b) = b"
proof (induction b)
  case Nil
  then show ?case by (simp add: string_of_def bytes_of_def)
next
  case (Cons w b)
  have "unat w < 256" using unsigned_less[of w] by simp
  with Cons show ?case by (simp add: string_of_def bytes_of_def)
qed

lemma length_bytes_of [simp]: "length (bytes_of s) = length s"
  by (simp add: bytes_of_def)

lemma cursor_eqI: "cb c = b \<Longrightarrow> cerr c = e \<Longrightarrow> c = \<lparr>cb = b, cerr = e\<rparr>"
  by simp

section \<open>What a field's encoder and decoder owe each other\<close>

locale codec =
  fixes enc :: "'a \<Rightarrow> uint8 list"
    and dec :: "cursor \<Rightarrow> 'a \<times> cursor"
    and ok :: "'a \<Rightarrow> bool"
  assumes dec_enc: "ok v \<Longrightarrow> dec \<lparr>cb = enc v @ r, cerr = None\<rparr> = (v, \<lparr>cb = r, cerr = None\<rparr>)"
    and dec_inv: "dec c = (v, c') \<Longrightarrow> cerr c' = None \<Longrightarrow>
      ok v \<and> cerr c = None \<and> cb c = enc v @ cb c'"
begin

lemma dec_ok: "cerr c = None \<Longrightarrow> ok v \<Longrightarrow> cb c = enc v @ r \<Longrightarrow> dec c = (v, \<lparr>cb = r, cerr = None\<rparr>)"
proof -
  assume "cerr c = None" "ok v" "cb c = enc v @ r"
  moreover from this have "c = \<lparr>cb = enc v @ r, cerr = None\<rparr>" by (cases c) simp
  ultimately show ?thesis using dec_enc[of v r] by simp
qed

lemma dec_dest:
  assumes "dec c = (v, c')" and "cerr c' = None"
  shows "ok v" and "c = \<lparr>cb = enc v @ cb c', cerr = None\<rparr>"
proof -
  show "ok v" using dec_inv[OF assms] by simp
  have "cb c = enc v @ cb c'" "cerr c = None" using dec_inv[OF assms] by simp_all
  then show "c = \<lparr>cb = enc v @ cb c', cerr = None\<rparr>" by (simp only: cursor_eqI)
qed

text \<open>No encoding is a prefix of another, so a frame can be read in one way only.\<close>

lemma prefix_free: "ok v \<Longrightarrow> ok w \<Longrightarrow> enc v @ r = enc w @ s \<Longrightarrow> v = w \<and> r = s"
proof -
  assume "ok v" "ok w" and eq: "enc v @ r = enc w @ s"
  have "(v, \<lparr>cb = r, cerr = None\<rparr>) = dec \<lparr>cb = enc v @ r, cerr = None\<rparr>"
    by (rule dec_enc[OF \<open>ok v\<close>, symmetric])
  also have "\<dots> = dec \<lparr>cb = enc w @ s, cerr = None\<rparr>" by (simp only: eq)
  also have "\<dots> = (w, \<lparr>cb = s, cerr = None\<rparr>)" by (rule dec_enc[OF \<open>ok w\<close>])
  finally show "v = w \<and> r = s" by simp
qed

lemma failed_stays: "cerr c \<noteq> None \<Longrightarrow> cerr (snd (dec c)) \<noteq> None"
  by (metis dec_inv prod.collapse)

end

lemma take_ok [simp]: "length a = n \<Longrightarrow> cursor_take n \<lparr>cb = a @ r, cerr = None\<rparr> = (Some a, \<lparr>cb = r, cerr = None\<rparr>)"
  by (simp add: cursor_take_def)

lemma take_dest:
  assumes "cursor_take n c = (v, c')" and "cerr c' = None"
  shows "\<exists>a. v = Some a \<and> length a = n \<and> cerr c = None \<and> cb c = a @ cb c'"
  using assms by (auto simp: cursor_take_def split: if_splits)

lemma take_case:
  assumes "(case cursor_take n c of (None, c1) \<Rightarrow> (d, c1) | (Some a, c1) \<Rightarrow> (f a, c1)) = (v, c')"
    and "cerr c' = None"
  shows "\<exists>a. length a = n \<and> cerr c = None \<and> cb c = a @ cb c' \<and> v = f a"
proof (cases "cursor_take n c")
  case (Pair x c1)
  with assms(1) have "c1 = c'" by (auto split: option.splits)
  with take_dest[of n c x c'] Pair assms show ?thesis by auto
qed

interpretation u8: codec "\<lambda>v. [v]" cursor_u8 "\<lambda>_. True"
proof unfold_locales
  show "cursor_u8 \<lparr>cb = [v] @ r, cerr = None\<rparr> = (v, \<lparr>cb = r, cerr = None\<rparr>)" for v r
    by (simp add: cursor_u8_def cursor_take_def)
  show "True \<and> cerr c = None \<and> cb c = [v] @ cb c'"
    if "cursor_u8 c = (v, c')" "cerr c' = None" for c v c'
    using take_case[OF that(1)[unfolded cursor_u8_def] that(2)] by (auto simp: length_Suc_conv)
qed

interpretation u16: codec "\<lambda>v. be_bytes 2 (unat v)" cursor_u16 "\<lambda>_. True"
proof unfold_locales
  show "cursor_u16 \<lparr>cb = be_bytes 2 (unat v) @ r, cerr = None\<rparr> = (v, \<lparr>cb = r, cerr = None\<rparr>)" for v r
    by (simp add: cursor_u16_def be_bytes_of)
  show "True \<and> cerr c = None \<and> cb c = be_bytes 2 (unat v) @ cb c'"
    if "cursor_u16 c = (v, c')" "cerr c' = None" for c v c'
    using take_case[OF that(1)[unfolded cursor_u16_def] that(2)] by (auto simp: of_be_bytes)
qed

interpretation u32: codec "\<lambda>v. be_bytes 4 (unat v)" cursor_u32 "\<lambda>_. True"
proof unfold_locales
  show "cursor_u32 \<lparr>cb = be_bytes 4 (unat v) @ r, cerr = None\<rparr> = (v, \<lparr>cb = r, cerr = None\<rparr>)" for v r
    by (simp add: cursor_u32_def be_bytes_of)
  show "True \<and> cerr c = None \<and> cb c = be_bytes 4 (unat v) @ cb c'"
    if "cursor_u32 c = (v, c')" "cerr c' = None" for c v c'
    using take_case[OF that(1)[unfolded cursor_u32_def] that(2)] by (auto simp: of_be_bytes)
qed

interpretation u64: codec "\<lambda>v. be_bytes 8 (unat v)" cursor_u64 "\<lambda>_. True"
proof unfold_locales
  show "cursor_u64 \<lparr>cb = be_bytes 8 (unat v) @ r, cerr = None\<rparr> = (v, \<lparr>cb = r, cerr = None\<rparr>)" for v r
    by (simp add: cursor_u64_def be_bytes_of)
  show "True \<and> cerr c = None \<and> cb c = be_bytes 8 (unat v) @ cb c'"
    if "cursor_u64 c = (v, c')" "cerr c' = None" for c v c'
    using take_case[OF that(1)[unfolded cursor_u64_def] that(2)] by (auto simp: of_be_bytes)
qed


section \<open>Strings, byte strings, stats and entries\<close>

definition enc_str :: "string \<Rightarrow> uint8 list" where
  "enc_str s = be_bytes 2 (length s) @ bytes_of s"

definition enc_bytes :: "uint8 list \<Rightarrow> uint8 list" where
  "enc_bytes v = be_bytes 4 (length v) @ v"

definition enc_stat :: "stat \<Rightarrow> uint8 list" where
  "enc_stat s = append_stat [] s"

definition enc_entry :: "dir_entry \<Rightarrow> uint8 list" where
  "enc_entry e = enc_str (de_name e) @ [de_type e] @
     (case de_stat e of Some s \<Rightarrow> [1] @ enc_stat s | None \<Rightarrow> [0])"

definition str_fits :: "string \<Rightarrow> bool" where "str_fits s \<longleftrightarrow> length s < 2 ^ 16"

lemma unat_of_nat_small [simp]: "n < 2 ^ LENGTH('a) \<Longrightarrow> unat (word_of_nat n :: 'a :: len word) = n"
  by (simp add: unat_of_nat)

interpretation str: codec enc_str cursor_str str_fits
proof unfold_locales
  show "cursor_str \<lparr>cb = enc_str v @ r, cerr = None\<rparr> = (v, \<lparr>cb = r, cerr = None\<rparr>)"
    if "str_fits v" for v r
    using that u16.dec_enc[of "word_of_nat (length v)" "bytes_of v @ r"]
    by (simp add: cursor_str_def enc_str_def str_fits_def)
  show "str_fits v \<and> cerr c = None \<and> cb c = enc_str v @ cb c'"
    if d: "cursor_str c = (v, c')" "cerr c' = None" for c v c'
  proof -
    obtain n c1 where n: "cursor_u16 c = (n, c1)" by (cases "cursor_u16 c") auto
    with d have "(case cursor_take (unat n) c1 of (None, c1) \<Rightarrow> ([], c1) | (Some a, c1) \<Rightarrow> (string_of a, c1)) = (v, c')"
      by (simp add: cursor_str_def)
    from take_case[OF this d(2)] obtain a
      where a: "length a = unat n" "cerr c1 = None" "cb c1 = a @ cb c'" "v = string_of a" by blast
    have "length v = unat n" using a by (simp add: string_of_def)
    moreover have "unat n < 2 ^ 16" using unsigned_less[of n] by simp
    ultimately show ?thesis using a u16.dec_inv[OF n] by (simp add: enc_str_def str_fits_def)
  qed
qed

interpretation bytestr: codec enc_bytes cursor_bytes "\<lambda>v. length v < 2 ^ 32"
proof unfold_locales
  show "cursor_bytes \<lparr>cb = enc_bytes v @ r, cerr = None\<rparr> = (v, \<lparr>cb = r, cerr = None\<rparr>)"
    if "length v < 2 ^ 32" for v r
    using that u32.dec_enc[of "word_of_nat (length v)" "v @ r"]
    by (simp add: cursor_bytes_def enc_bytes_def)
  show "length v < 2 ^ 32 \<and> cerr c = None \<and> cb c = enc_bytes v @ cb c'"
    if d: "cursor_bytes c = (v, c')" "cerr c' = None" for c v c'
  proof -
    obtain n c1 where n: "cursor_u32 c = (n, c1)" by (cases "cursor_u32 c") auto
    with d have "(case cursor_take (unat n) c1 of (None, c1) \<Rightarrow> ([], c1) | (Some a, c1) \<Rightarrow> (a, c1)) = (v, c')"
      by (auto simp: cursor_bytes_def split: if_splits)
    from take_case[OF this d(2)]
    have a: "length v = unat n" "cerr c1 = None" "cb c1 = v @ cb c'" by auto
    moreover have "unat n < 2 ^ 32" using unsigned_less[of n] by simp
    ultimately show ?thesis using u32.dec_inv[OF n] by (simp add: enc_bytes_def)
  qed
qed

lemma append_stat_enc: "append_stat b s = b @ enc_stat s"
  by (simp add: append_stat_def enc_stat_def Let_def)

interpretation stat_c: codec enc_stat "\<lambda>c. case cursor_stat c of (None, c') \<Rightarrow> (undefined, c') | (Some s, c') \<Rightarrow> (s, c')" "\<lambda>_. True"
proof unfold_locales
  show "(case cursor_stat \<lparr>cb = enc_stat v @ r, cerr = None\<rparr> of
           (None, c') \<Rightarrow> (undefined, c') | (Some s, c') \<Rightarrow> (s, c')) = (v, \<lparr>cb = r, cerr = None\<rparr>)" for v r
    by (simp add: cursor_stat_def enc_stat_def append_stat_def Let_def u32.dec_enc u64.dec_enc)
  show "True \<and> cerr c = None \<and> cb c = enc_stat v @ cb c'"
    if d: "(case cursor_stat c of (None, c') \<Rightarrow> (undefined, c') | (Some s, c') \<Rightarrow> (s, c')) = (v, c')"
      "cerr c' = None" for c v c'
    using d
    by (auto simp: cursor_stat_def enc_stat_def append_stat_def Let_def split: prod.splits if_splits
             dest!: u32.dec_inv u64.dec_inv)
qed


lemma append_str_enc:
  "append_str b s = (if str_fits s then Inr (b @ enc_str s) else Inl ErrFieldTooLong)"
  by (auto simp: append_str_def str_fits_def enc_str_def)

lemma append_bytes_enc:
  "append_bytes b v = (if length v < 2 ^ 32 then Inr (b @ enc_bytes v) else Inl ErrFieldTooLong)"
  by (auto simp: append_bytes_def enc_bytes_def)

lemma append_entries_enc:
  "append_entries b es =
     (if \<forall>e \<in> set es. str_fits (de_name e) then Inr (b @ concat (map enc_entry es))
      else Inl ErrFieldTooLong)"
  by (induction es arbitrary: b)
     (auto simp: append_str_enc append_stat_enc enc_entry_def Let_def split: option.splits)

lemma cursor_stat_enc [simp]:
  "cursor_stat \<lparr>cb = enc_stat s @ r, cerr = None\<rparr> = (Some s, \<lparr>cb = r, cerr = None\<rparr>)"
  by (simp add: cursor_stat_def enc_stat_def append_stat_def Let_def u32.dec_enc u64.dec_enc)

lemma cursor_stat_inv:
  assumes "cursor_stat c = (v, c')" and "cerr c' = None"
  shows "\<exists>s. v = Some s \<and> cerr c = None \<and> cb c = enc_stat s @ cb c'"
proof (cases v)
  case None
  with assms show ?thesis by (auto simp: cursor_stat_def split: prod.splits if_splits)
next
  case (Some s)
  with assms stat_c.dec_inv[of c s c'] show ?thesis by simp
qed

lemma length_enc_entry: "3 < length (enc_entry e)"
  by (simp add: enc_entry_def enc_str_def split: option.splits)

lemma length_entries: "3 * length es \<le> length (concat (map enc_entry es))"
proof (induction es)
  case Nil
  then show ?case by simp
next
  case (Cons e es)
  with length_enc_entry[of e] show ?case by simp
qed

lemma cursor_entries_enc:
  "\<forall>e \<in> set es. str_fits (de_name e) \<Longrightarrow>
   cursor_entries (length es) \<lparr>cb = concat (map enc_entry es) @ r, cerr = None\<rparr> acc =
     Inr (acc @ es, \<lparr>cb = r, cerr = None\<rparr>)"
proof (induction es arbitrary: acc)
  case Nil
  then show ?case by simp
next
  case (Cons e es)
  then have "str_fits (de_name e)" by simp
  with Cons show ?case
    by (cases e) (simp add: enc_entry_def str.dec_enc u8.dec_enc[simplified] split: option.splits)
qed

lemma cursor_entries_failed: "cerr c \<noteq> None \<Longrightarrow> cursor_entries n c acc = Inr (acc, c)"
  by (cases n) auto

lemma cursor_entries_inv:
  "cursor_entries n c acc = Inr (es, c') \<Longrightarrow> cerr c' = None \<Longrightarrow>
   \<exists>xs. es = acc @ xs \<and> length xs = n \<and> cerr c = None \<and> (\<forall>e \<in> set xs. str_fits (de_name e)) \<and>
        cb c = concat (map enc_entry xs) @ cb c'"
proof (induction n arbitrary: c acc)
  case 0
  then show ?case by auto
next
  case (Suc n)
  obtain name c1 where 1: "cursor_str c = (name, c1)" by (cases "cursor_str c") auto
  obtain ty c2 where 2: "cursor_u8 c1 = (ty, c2)" by (cases "cursor_u8 c1") auto
  obtain pres c3 where 3: "cursor_u8 c2 = (pres, c3)" by (cases "cursor_u8 c2") auto
  obtain st c4 where 4: "(if pres = 1 then cursor_stat c3 else (None, c3)) = (st, c4)"
    by (cases "if pres = 1 then cursor_stat c3 else (None, c3)") auto
  let ?e = "\<lparr>de_name = name, de_type = ty, de_stat = st\<rparr>"
  have c: "cerr c = None" using Suc.prems by (cases "cerr c") auto
  have c4: "cerr c4 = None" and rec: "cursor_entries n c4 (acc @ [?e]) = Inr (es, c')"
    and pres: "pres = 0 \<or> pres = 1 \<or> cerr c3 \<noteq> None"
    using Suc.prems c 1 2 3 4 by (auto split: if_splits)
  from Suc.IH[OF rec Suc.prems(2)] obtain xs where
    xs: "es = acc @ ?e # xs" "length xs = n" "\<forall>e \<in> set xs. str_fits (de_name e)"
      "cb c4 = concat (map enc_entry xs) @ cb c'" by auto
  have c3: "cerr c3 = None \<and> cb c3 = (case st of Some s \<Rightarrow> enc_stat s | None \<Rightarrow> []) @ cb c4 \<and>
            (pres = 1 \<longleftrightarrow> st \<noteq> None)"
    using 4 c4 by (auto split: if_splits dest!: cursor_stat_inv)
  with u8.dec_inv[OF 3] have c2: "cerr c2 = None" "cb c2 = pres # cb c3" by auto
  with u8.dec_inv[OF 2] have c1: "cerr c1 = None" "cb c1 = ty # pres # cb c3" by auto
  with str.dec_inv[OF 1] have "str_fits name" "cb c = enc_str name @ ty # pres # cb c3" by auto
  moreover have "enc_entry ?e = enc_str name @ ty # pres # (case st of Some s \<Rightarrow> enc_stat s | None \<Rightarrow> [])"
    using c3 pres by (auto simp: enc_entry_def split: option.splits)
  ultimately show ?case using xs c3 c by (intro exI[of _ "?e # xs"]) simp
qed

section \<open>The request frame\<close>

definition enc_request :: "request \<Rightarrow> uint8 list" where
  "enc_request r =
     be_bytes 8 (unat (rq_id r)) @ [rq_op r] @ be_bytes 4 (unat (rq_flags r)) @
     be_bytes 4 (unat (rq_mode r)) @ enc_str (rq_path r) @ enc_str (rq_path2 r) @
     enc_str (rq_name r) @ enc_bytes (rq_value r)"

lemma request_marshal_enc:
  "request_marshal r =
     (if \<not> op_valid (rq_op r) then Inl ErrBadOp
      else if \<not> (str_fits (rq_path r) \<and> str_fits (rq_path2 r) \<and> str_fits (rq_name r) \<and>
                 length (rq_value r) < 2 ^ 32) then Inl ErrFieldTooLong
      else if length (enc_request r) > max_frame then Inl ErrTooLarge
      else Inr (enc_request r))"
  by (simp add: request_marshal_def Let_def append_str_enc append_bytes_enc enc_request_def)

lemma unmarshal_request_enc:
  assumes "op_valid (rq_op r)" and "str_fits (rq_path r)" and "str_fits (rq_path2 r)"
    and "str_fits (rq_name r)" and "length (rq_value r) < 2 ^ 32"
    and "length (enc_request r) \<le> max_frame"
  shows "unmarshal_request (enc_request r) = Inr r"
  using assms bytestr.dec_enc[of "rq_value r" "[]"]
  by (cases r) (simp add: unmarshal_request_def enc_request_def str.dec_enc u8.dec_enc[simplified]
                  u32.dec_enc u64.dec_enc cursor_done_def)

lemma unmarshal_request_inv:
  assumes "unmarshal_request b = Inr r"
  shows "b = enc_request r \<and> op_valid (rq_op r) \<and> str_fits (rq_path r) \<and> str_fits (rq_path2 r) \<and>
         str_fits (rq_name r) \<and> length (rq_value r) < 2 ^ 32 \<and> length b \<le> max_frame"
  using assms
  by (auto simp: unmarshal_request_def enc_request_def cursor_done_def
           split: prod.splits if_splits
           dest!: u32.dec_inv u64.dec_inv u8.dec_inv str.dec_inv bytestr.dec_inv)

text \<open>Decoding and encoding requests are exact inverses: a frame decodes to a request exactly when
  that request encodes to that frame. So no request is lost on the wire, no two frames mean the
  same request, and nothing is accepted that the encoder could not have sent (an unknown
  operation, trailing bytes, more than one frame's worth).\<close>

lemma request_codec_exact:
  "unmarshal_request b = Inr r \<longleftrightarrow> request_marshal r = Inr b"
proof
  assume "unmarshal_request b = Inr r"
  from unmarshal_request_inv[OF this] show "request_marshal r = Inr b"
    by (auto simp: request_marshal_enc)
next
  assume "request_marshal r = Inr b"
  then show "unmarshal_request b = Inr r"
    using unmarshal_request_enc[of r] by (simp add: request_marshal_enc split: if_splits)
qed

section \<open>The response frame\<close>

lemma or_and_absorb: "(x OR m) AND m = (m :: 'a :: len word)"
  by (rule bit_word_eqI) (auto simp: bit_simps)

lemma andnot_and: "(x AND NOT m) AND m = (0 :: 'a :: len word)"
  by (rule bit_word_eqI) (auto simp: bit_simps)

lemma flag_set: "x AND 2 ^ n \<noteq> 0 \<Longrightarrow> x OR 2 ^ n = (x :: 'a :: len word)"
  by (rule bit_word_eqI) (auto simp: bit_simps and_exp_eq_0_iff_not_bit)

lemma flag_clear: "x AND m = 0 \<Longrightarrow> x AND NOT m = (x :: 'a :: len word)"
proof (rule bit_word_eqI)
  fix n
  assume "x AND m = 0" and n: "n < LENGTH('a)"
  then have "\<not> (bit x n \<and> bit m n)" by (metis bit_and_iff bit_0_eq bot_apply bot_bool_def)
  with n show "bit (x AND NOT m) n = bit x n" by (auto simp: bit_simps)
qed

lemma flag_keep: "m AND k = 0 \<Longrightarrow> (x OR m) AND k = x AND (k :: 'a :: len word)"
  by (simp add: bit.conj_disj_distrib2)

lemma flag_keep_not: "NOT m AND k = k \<Longrightarrow> (x AND NOT m) AND k = x AND (k :: 'a :: len word)"
  by (simp add: and.assoc)

lemma has_written_stat [simp]: "has_written r AND HasStat \<noteq> 0 \<longleftrightarrow> rs_stat r \<noteq> None"
proof -
  have "(x OR 2) AND 2 \<noteq> (0 :: uint8)" for x by (simp add: or_and_absorb)
  moreover have "(x AND NOT 2) AND 2 = (0 :: uint8)" for x by (rule andnot_and)
  moreover have "(x OR 4) AND 2 = (x AND 2 :: uint8)" for x by (simp add: flag_keep)
  ultimately show ?thesis unfolding has_written_def Let_def by presburger
qed

lemma has_written_value [simp]: "has_written r AND HasValue = rs_has r AND HasValue"
proof -
  have "(x OR 2) AND 16 = (x AND 16 :: uint8)" "(x OR 4) AND 16 = (x AND 16 :: uint8)" for x
    by (simp_all add: flag_keep)
  moreover have "(x AND NOT 2) AND 16 = (x AND 16 :: uint8)" for x by (rule flag_keep_not) simp
  ultimately show ?thesis unfolding has_written_def Let_def by presburger
qed

lemma has_written_entries: "rs_entries r \<noteq> [] \<Longrightarrow> has_written r AND HasEntries \<noteq> 0"
  by (simp add: has_written_def Let_def or_and_absorb)

lemma has_written_known: "rs_has r AND NOT has_known = 0 \<Longrightarrow> has_written r AND NOT has_known = 0"
proof -
  have "(x OR 2) AND NOT has_known = x AND NOT has_known"
    "(x OR 4) AND NOT has_known = x AND NOT has_known" for x :: uint8
    by (simp_all add: flag_keep has_known_def)
  moreover have "(x AND NOT 2) AND NOT has_known = (x AND NOT has_known) AND NOT 2" for x :: uint8
    by (simp only: and.assoc and.commute[of "NOT 2"])
  ultimately show "rs_has r AND NOT has_known = 0 \<Longrightarrow> ?thesis"
    unfolding has_written_def Let_def by simp
qed

text \<open>
  The value a decoder gives back for \<open>r\<close>: the flags as written, and no value bytes when the
  value flag is clear.
\<close>

definition canon :: "response \<Rightarrow> response" where
  "canon r = r\<lparr>rs_has := has_written r,
               rs_value := (if rs_has r AND HasValue \<noteq> 0 then rs_value r else [])\<rparr>"

definition enc_response :: "response \<Rightarrow> uint8 list" where
  "enc_response r =
     be_bytes 8 (unat (rs_id r)) @ be_bytes 4 (unat (rs_errno r)) @ [has_written r] @
     (case rs_stat r of Some s \<Rightarrow> enc_stat s | None \<Rightarrow> []) @
     (if has_written r AND HasEntries \<noteq> 0
      then be_bytes 4 (length (rs_entries r)) @ concat (map enc_entry (rs_entries r)) else []) @
     (if has_written r AND HasValue \<noteq> 0 then enc_bytes (rs_value r) else [])"

definition fields_fit :: "response \<Rightarrow> bool" where
  "fields_fit r \<longleftrightarrow> length (rs_entries r) < 2 ^ 32 \<and> (\<forall>e \<in> set (rs_entries r). str_fits (de_name e)) \<and>
     (rs_has r AND HasValue \<noteq> 0 \<longrightarrow> length (rs_value r) < 2 ^ 32)"

lemma response_marshal_enc:
  "response_marshal r =
     (if rs_has r AND NOT has_known \<noteq> 0 then Inl ErrBadFlags
      else if \<not> fields_fit r then Inl ErrFieldTooLong
      else if length (enc_response r) > max_frame then Inl ErrTooLarge
      else Inr (enc_response r))"
proof -
  have "rs_entries r = []" if "has_written r AND HasEntries = 0"
    using that has_written_entries[of r] by auto
  then show ?thesis
    by (cases "rs_stat r")
       (auto simp: response_marshal_def Let_def append_entries_enc append_bytes_enc append_stat_enc
         enc_response_def fields_fit_def)
qed


definition resp_canonical :: "response \<Rightarrow> bool" where
  "resp_canonical r \<longleftrightarrow> has_written r = rs_has r \<and> (rs_has r AND HasValue = 0 \<longrightarrow> rs_value r = [])"

lemma has_written_idem: "has_written (r\<lparr>rs_has := has_written r\<rparr>) = has_written r"
proof -
  have "(x OR 2) OR 2 = (x OR 2 :: uint8)" "(x OR 4) OR 4 = (x OR 4 :: uint8)"
    "((x OR 2) OR 4) OR 2 = ((x OR 2) OR 4 :: uint8)"
    "((x AND NOT 2) AND NOT 2) = (x AND NOT 2 :: uint8)" for x
    by (rule bit_word_eqI; auto simp: bit_simps)+
  moreover have "((x AND NOT 2) OR 4) AND NOT 2 = ((x AND NOT 2) OR 4 :: uint8)" for x
  proof -
    have "((x AND NOT 2) OR 4) AND 2 = (x AND NOT 2) AND 2" by (rule flag_keep) simp
    also have "\<dots> = 0" by (rule andnot_and)
    finally show ?thesis by (rule flag_clear)
  qed
  ultimately show ?thesis by (simp add: has_written_def Let_def or.assoc)
qed

lemma canon_canonical [simp]: "resp_canonical (canon r)"
proof -
  have "has_written (canon r) = has_written r"
    using has_written_idem[of r] by (simp add: canon_def has_written_def)
  then show ?thesis by (simp add: resp_canonical_def) (simp add: canon_def)
qed

lemma canon_id: "resp_canonical r \<Longrightarrow> canon r = r"
  by (cases r) (simp add: resp_canonical_def canon_def)

lemma has_written_from_flags:
  assumes "rs_has r AND HasStat \<noteq> 0 \<longleftrightarrow> rs_stat r \<noteq> None"
    and "rs_has r AND HasEntries = 0 \<Longrightarrow> rs_entries r = []"
  shows "has_written r = rs_has r"
proof -
  have "(if rs_stat r \<noteq> None then rs_has r OR HasStat else rs_has r AND NOT HasStat) = rs_has r"
    using assms(1) flag_set[of "rs_has r" 1] flag_clear[of "rs_has r" 2] by auto
  then show ?thesis
    using assms(2) flag_set[of "rs_has r" 2] by (auto simp: has_written_def Let_def)
qed

lemma unmarshal_response_enc:
  assumes "resp_canonical r" and "rs_has r AND NOT has_known = 0" and "fields_fit r"
    and "length (enc_response r) \<le> max_frame"
  shows "unmarshal_response (enc_response r) = Inr r"
proof -
  let ?es = "rs_entries r"
  let ?tail = "if rs_has r AND HasValue \<noteq> 0 then enc_bytes (rs_value r) else []"
  have h: "has_written r = rs_has r" and v: "rs_has r AND HasValue = 0 \<longrightarrow> rs_value r = []"
    using assms(1) by (auto simp: resp_canonical_def)
  have st: "rs_has r AND HasStat \<noteq> 0 \<longleftrightarrow> rs_stat r \<noteq> None" using has_written_stat[of r] h by simp
  have es: "rs_has r AND HasEntries = 0 \<Longrightarrow> ?es = []" using has_written_entries[of r] h by auto
  have n: "length ?es < 2 ^ 32" using assms(3) by (simp add: fields_fit_def)
  have len: "\<not> length ?es > length (concat (map enc_entry ?es) @ ?tail) div 3"
    using length_entries[of ?es] by (simp add: not_less)
  have ent: "cursor_entries (length ?es) \<lparr>cb = concat (map enc_entry ?es) @ ?tail, cerr = None\<rparr> [] =
      Inr (?es, \<lparr>cb = ?tail, cerr = None\<rparr>)"
    using cursor_entries_enc[of ?es ?tail "[]"] assms(3) by (simp add: fields_fit_def)
  have val: "(if rs_has r AND HasValue \<noteq> 0 then cursor_bytes \<lparr>cb = ?tail, cerr = None\<rparr>
              else ([], \<lparr>cb = ?tail, cerr = None\<rparr>)) = (rs_value r, \<lparr>cb = [], cerr = None\<rparr>)"
    using bytestr.dec_enc[of "rs_value r" "[]"] assms(3) v by (auto simp: fields_fit_def)
  show ?thesis
    using assms(2,4) st es n len ent val h u32.dec_enc[of "word_of_nat (length ?es)"]
    by (cases r; cases "rs_stat r")
       (auto simp: unmarshal_response_def enc_response_def u8.dec_enc[simplified]
         u32.dec_enc u64.dec_enc cursor_done_def)
qed

lemma unmarshal_response_inv:
  assumes "unmarshal_response b = Inr r"
  shows "b = enc_response r \<and> resp_canonical r \<and> rs_has r AND NOT has_known = 0 \<and> fields_fit r \<and>
         length b \<le> max_frame"
proof -
  obtain ident c1 where 1: "cursor_u64 \<lparr>cb = b, cerr = None\<rparr> = (ident, c1)" by (cases "cursor_u64 \<lparr>cb = b, cerr = None\<rparr>")
  obtain errno c2 where 2: "cursor_u32 c1 = (errno, c2)" by (cases "cursor_u32 c1")
  obtain has c3 where 3: "cursor_u8 c2 = (has, c3)" by (cases "cursor_u8 c2")
  obtain st c4 where 4: "(if has AND HasStat \<noteq> 0 then cursor_stat c3 else (None, c3)) = (st, c4)"
    by (cases "if has AND HasStat \<noteq> 0 then cursor_stat c3 else (None, c3)")
  obtain n c5 where 5: "cursor_u32 c4 = (n, c5)" by (cases "cursor_u32 c4")
  let ?ent = "if has AND HasEntries \<noteq> 0 then
                (if cerr c5 = None \<and> unat n > length (cb c5) div 3 then Inl ErrShort
                 else cursor_entries (unat n) c5 [])
              else Inr ([], c4)"
  obtain es c6 where 6: "?ent = Inr (es, c6)"
    using assms 1 2 3 4 5 by (cases ?ent) (auto simp: unmarshal_response_def split: if_splits)
  obtain val c7 where 7: "(if has AND HasValue \<noteq> 0 then cursor_bytes c6 else ([], c6)) = (val, c7)"
    by (cases "if has AND HasValue \<noteq> 0 then cursor_bytes c6 else ([], c6)")
  have r: "r = \<lparr>rs_id = ident, rs_has = has, rs_errno = errno, rs_stat = st, rs_entries = es, rs_value = val\<rparr>"
    and d: "cursor_done c7 = None" and len: "length b \<le> max_frame"
    and known: "cerr c3 = None \<longrightarrow> has AND NOT has_known = 0"
    using assms 1 2 3 4 5 6 7 by (auto simp: unmarshal_response_def split: if_splits option.splits)
  have c7: "cerr c7 = None" "cb c7 = []" using d by (auto simp: cursor_done_def split: if_splits)
  have c6: "cerr c6 = None" "cb c6 = (if has AND HasValue \<noteq> 0 then enc_bytes val else [])"
    "has AND HasValue = 0 \<longrightarrow> val = []" "has AND HasValue \<noteq> 0 \<longrightarrow> length val < 2 ^ 32"
    using 7 c7 by (auto split: if_splits dest!: bytestr.dec_inv)
  have c4: "cerr c4 = None" "\<forall>e \<in> set es. str_fits (de_name e)" "length es < 2 ^ 32"
    "cb c4 = (if has AND HasEntries \<noteq> 0 then be_bytes 4 (length es) @ concat (map enc_entry es) else []) @ cb c6"
    "has AND HasEntries = 0 \<longrightarrow> es = []"
    using 5 6 c6 unsigned_less[of n]
    by (auto split: if_splits dest!: cursor_entries_inv u32.dec_inv)
  have c3: "cerr c3 = None" "cb c3 = (case st of Some s \<Rightarrow> enc_stat s | None \<Rightarrow> []) @ cb c4"
    "has AND HasStat \<noteq> 0 \<longleftrightarrow> st \<noteq> None"
    using 4 c4(1) by (auto split: if_splits dest!: cursor_stat_inv)
  have b: "b = be_bytes 8 (unat ident) @ be_bytes 4 (unat errno) @ [has] @ cb c3"
    using u8.dec_inv[OF 3 c3(1)] u32.dec_inv[OF 2] u64.dec_inv[OF 1] by auto
  have hw: "has_written r = has" using has_written_from_flags[of r] c3 c4 r by auto
  then show ?thesis
    using r b c3 c4 c6 len known by (simp add: enc_response_def resp_canonical_def fields_fit_def)
qed


text \<open>The root-side decoder accepts exactly the frames the encoder can produce: a frame decodes
  to a response exactly when the response is in canonical form (the flag bits agree with what is
  present) and encodes to that very frame.\<close>

lemma response_codec_exact:
  "unmarshal_response b = Inr r \<longleftrightarrow> response_marshal r = Inr b \<and> resp_canonical r"
proof
  assume "unmarshal_response b = Inr r"
  from unmarshal_response_inv[OF this] show "response_marshal r = Inr b \<and> resp_canonical r"
    by (auto simp: response_marshal_enc)
next
  assume "response_marshal r = Inr b \<and> resp_canonical r"
  then show "unmarshal_response b = Inr r"
    using unmarshal_response_enc[of r] by (auto simp: response_marshal_enc split: if_splits)
qed

text \<open>C9: The wire has one reading. A frame decodes to a request exactly when that request encodes to
  that frame, and to a response exactly when the response is in canonical form and encodes to that
  frame; so no two frames mean the same, and nothing is accepted that the encoder could not have sent
  (an unknown operation, trailing bytes, flags that disagree with what is present).\<close>

theorem wire_codecs_exact:
  "(unmarshal_request b = Inr q \<longleftrightarrow> request_marshal q = Inr b) \<and>
   (unmarshal_response b = Inr r \<longleftrightarrow> response_marshal r = Inr b \<and> resp_canonical r)"
  by (simp only: request_codec_exact response_codec_exact simp_thms)

lemma marshal_canon: "response_marshal r = Inr b \<Longrightarrow> response_marshal (canon r) = Inr b"
proof -
  assume m: "response_marshal r = Inr b"
  have h: "has_written (canon r) = has_written r"
    using has_written_idem[of r] by (simp add: canon_def has_written_def)
  have e: "enc_response (canon r) = enc_response r"
    unfolding enc_response_def h by (simp add: canon_def)
  have "rs_has (canon r) AND NOT has_known = 0"
    using m has_written_known[of r] by (auto simp: canon_def response_marshal_enc split: if_splits)
  moreover have "fields_fit (canon r)"
    using m by (auto simp: canon_def response_marshal_enc fields_fit_def split: if_splits)
  ultimately show ?thesis using m e by (auto simp: response_marshal_enc split: if_splits)
qed

text \<open>Every response the helper can encode is decoded to the same response, with the flag bits
  set to what was sent.\<close>

theorem response_roundtrip:
  "response_marshal r = Inr b \<Longrightarrow> unmarshal_response b = Inr (canon r)"
  using response_codec_exact[of b "canon r"] marshal_canon[of r b] by simp


lemma response_roundtrip_witness:
  "\<exists>b. response_marshal \<lparr>rs_id = 7, rs_has = 0, rs_errno = 2, rs_stat = None, rs_entries = [], rs_value = []\<rparr> = Inr b \<and>
     unmarshal_response b = Inr \<lparr>rs_id = 7, rs_has = 0, rs_errno = 2, rs_stat = None, rs_entries = [], rs_value = []\<rparr>"
proof -
  let ?r = "\<lparr>rs_id = 7, rs_has = 0, rs_errno = 2, rs_stat = None, rs_entries = [], rs_value = []\<rparr>"
  have "response_marshal ?r = Inr (enc_response ?r)"
    by (simp add: response_marshal_enc fields_fit_def enc_response_def has_written_def max_frame_def)
  moreover have "canon ?r = ?r" by (simp add: canon_def has_written_def)
  ultimately show ?thesis using response_roundtrip[of ?r "enc_response ?r"] by simp
qed

text \<open>\<^verbatim>\<open>itoa\<close> is the decimal notation.\<close>

lemma itoa_loop_format: "itoa_loop v b = (if v = 0 then b else format_nat v @ b)"
proof (induction v b rule: itoa_loop.induct)
  case (1 v b)
  show ?case
  proof (cases "v < 10")
    case True
    then show ?thesis
      by (cases "v = 0") (simp_all add: itoa_loop.simps[of v] itoa_loop.simps[of 0] format_nat.simps[of v])
  next
    case False
    with 1 show ?thesis by (simp add: itoa_loop.simps[of v] format_nat.simps[of v])
  qed
qed

lemma itoa_format: "itoa v = format_nat (unat v)"
  by (simp add: itoa_def itoa_loop_format format_nat.simps[of 0] unat_eq_0 char_of_def bit_0)

lemma op_string_unknown: "\<not> op_valid c \<Longrightarrow> op_string c = ''Op('' @ format_nat (unat c) @ '')''"
proof -
  assume "\<not> op_valid c"
  then have "c = 0 \<or> unat c \<ge> 12" by (auto simp: op_valid_def word_le_nat_alt not_less_eq_eq unat_eq_0)
  moreover have "unat c mod 18446744073709551616 = unat c" using unat_bound[of c] by simp
  moreover have "length op_names = 12" "op_names ! 0 = []" by (simp_all add: op_names_def)
  ultimately show ?thesis by (auto simp: op_string_def itoa_format unsigned_ucast_eq take_bit_eq_mod)
qed

lemma unmarshal_response_bounds:
  "unmarshal_response b = Inr r \<Longrightarrow>
   length b \<le> max_frame \<and> 3 * length (rs_entries r) \<le> length b \<and> rs_has r AND NOT has_known = 0"
  using unmarshal_response_inv[of b r] length_entries[of "rs_entries r"] has_written_entries[of r]
  by (cases "rs_entries r = []") (auto simp: enc_response_def)

end
