(* ===== verification/GoPath.thy ===== *)
theory GoPath
  imports GoStrings
begin

text \<open>
  Go's package \<^verbatim>\<open>path\<close> (and \<^verbatim>\<open>path/filepath\<close>, which is the same on Linux): \<^verbatim>\<open>Split\<close>,
  \<^verbatim>\<open>Clean\<close>, \<^verbatim>\<open>Base\<close>, \<^verbatim>\<open>Dir\<close> and \<^verbatim>\<open>Join\<close>, by the components of a path.
\<close>

abbreviation (input) slash :: char where "slash \<equiv> CHR ''/''"

text \<open>The part up to and including the last slash, and the rest.\<close>

fun path_split :: "string \<Rightarrow> string \<times> string" where
  "path_split [] = ([], [])"
| "path_split (c # s) =
     (case path_split s of (d, b) \<Rightarrow>
        if d \<noteq> [] \<or> c = slash then (c # d, b) else ([], c # b))"

lemma path_split_append: "path_split s = (d, b) \<Longrightarrow> s = d @ b"
  by (induction s arbitrary: d b) (auto split: prod.splits if_splits)

lemma path_split_base: "path_split s = (d, b) \<Longrightarrow> slash \<notin> set b"
  by (induction s arbitrary: d b) (auto split: prod.splits if_splits)

lemma path_split_dir: "path_split s = (d, b) \<Longrightarrow> d = [] \<or> last d = slash"
  by (induction s arbitrary: d b) (fastforce split: prod.splits if_splits)+

lemma path_split_plain [simp]: "slash \<notin> set s \<Longrightarrow> path_split s = ([], s)"
  by (induction s) auto

lemma path_split_snoc [simp]: "slash \<notin> set b \<Longrightarrow> path_split (d @ slash # b) = (d @ [slash], b)"
  by (induction d) auto

text \<open>
  \<open>clean_comps rooted st cs\<close> walks the components \<open>cs\<close> with the stack \<open>st\<close> of those kept so
  far (the last first).
\<close>

fun clean_comps :: "bool \<Rightarrow> string list \<Rightarrow> string list \<Rightarrow> string list" where
  "clean_comps r st [] = rev st"
| "clean_comps r st (c # cs) =
     (if c = [] \<or> c = ''.'' then clean_comps r st cs
      else if c = ''..'' then
        (case st of
           [] \<Rightarrow> clean_comps r (if r then [] else [''..'']) cs
         | p # st' \<Rightarrow> if p = ''..'' then clean_comps r (''..'' # st) cs else clean_comps r st' cs)
      else clean_comps r (c # st) cs)"

definition path_clean :: "string \<Rightarrow> string" where
  "path_clean s =
     (let rooted = has_prefix s ''/'';
          p = (if rooted then ''/'' else '''') @
              join_with ''/'' (clean_comps rooted [] (split_on slash s))
      in if p = [] then ''.'' else p)"

definition path_base :: "string \<Rightarrow> string" where
  "path_base s =
     (if s = [] then ''.''
      else
        (let t = rev (dropWhile (\<lambda>c. c = slash) (rev s));
             b = snd (path_split t)
         in if b = [] then ''/'' else b))"

definition path_dir :: "string \<Rightarrow> string" where
  "path_dir s = path_clean (fst (path_split s))"

definition path_join :: "string list \<Rightarrow> string" where
  "path_join es =
     (let ne = filter (\<lambda>e. e \<noteq> []) es
      in if ne = [] then [] else path_clean (join_with ''/'' ne))"

text \<open>A component that names an entry of its directory and nothing else.\<close>

definition plain_name :: "string \<Rightarrow> bool" where
  "plain_name c \<longleftrightarrow> c \<noteq> [] \<and> c \<noteq> ''.'' \<and> c \<noteq> ''..'' \<and> slash \<notin> set c"

lemma plain_nameD:
  "plain_name c \<Longrightarrow> c \<noteq> [] \<and> c \<noteq> ''.'' \<and> c \<noteq> ''..'' \<and> slash \<notin> set c"
  by (simp add: plain_name_def)

lemma clean_comps_plain [simp]:
  "list_all plain_name cs \<Longrightarrow> clean_comps r st cs = rev st @ cs"
  by (induction cs arbitrary: st) (auto simp: plain_name_def)

lemma clean_comps_rooted_plain:
  assumes "list_all plain_name st" and "\<And>c. c \<in> set cs \<Longrightarrow> slash \<notin> set c"
  shows "list_all plain_name (clean_comps True st cs)"
  using assms
proof (induction cs arbitrary: st)
  case Nil
  then show ?case by (auto simp: list_all_iff)
next
  case (Cons c cs)
  consider "c = [] \<or> c = ''.''" | "c = ''..''" "st = []"
    | p st' where "c = ''..''" "st = p # st'" | "plain_name c"
    using Cons.prems(2)[of c] by (cases st) (auto simp: plain_name_def)
  then show ?case
  proof cases
    case 3
    with Cons.prems(1) have "p \<noteq> ''..''" by (simp add: plain_name_def)
    with 3 Cons show ?thesis by simp
  next
    case 4
    with Cons show ?thesis by (auto dest: plain_nameD)
  qed (use Cons in auto)
qed

text \<open>The paths the model writes down: plain components joined by slashes.\<close>

definition rel_path :: "string list \<Rightarrow> string" where
  "rel_path cs = join_with ''/'' cs"

lemma split_rel_path: "cs \<noteq> [] \<Longrightarrow> list_all plain_name cs \<Longrightarrow> split_on slash (rel_path cs) = cs"
  unfolding rel_path_def by (rule split_join) (auto simp: list_all_iff plain_name_def)

lemma rel_path_not_rooted:
  assumes "list_all plain_name cs" shows "\<not> has_prefix (rel_path cs) ''/''"
proof (cases cs)
  case Nil
  then show ?thesis by (simp add: rel_path_def)
next
  case (Cons c cs')
  with assms obtain x xs where x: "c = x # xs" "x \<noteq> slash"
    by (cases c) (auto simp: plain_name_def)
  obtain t where "rel_path cs = c @ t" using Cons by (cases cs') (auto simp: rel_path_def)
  then have "rel_path cs = x # xs @ t" using x by simp
  then show ?thesis using x(2) by (auto simp: has_prefix_def)
qed

lemma rel_path_Nil [simp]: "rel_path [] = []"
  by (simp add: rel_path_def)

lemma rel_path_not_Nil: "cs \<noteq> [] \<Longrightarrow> list_all plain_name cs \<Longrightarrow> rel_path cs \<noteq> []"
  by (cases cs rule: list.exhaust; cases "tl cs") (auto simp: rel_path_def plain_name_def)

lemma path_clean_rel_path [simp]:
  "cs \<noteq> [] \<Longrightarrow> list_all plain_name cs \<Longrightarrow> path_clean (rel_path cs) = rel_path cs"
  using rel_path_not_rooted[of cs] rel_path_not_Nil[of cs] split_rel_path[of cs]
  by (simp add: path_clean_def Let_def) (simp add: rel_path_def)

lemma join_with_append:
  "xs \<noteq> [] \<Longrightarrow> ys \<noteq> [] \<Longrightarrow> join_with sep (xs @ ys) = join_with sep xs @ sep @ join_with sep ys"
proof (induction sep xs rule: join_with.induct)
  case (2 sep p)
  then show ?case by (cases ys) auto
qed auto

lemma rel_path_snoc: "cs \<noteq> [] \<Longrightarrow> rel_path (cs @ [c]) = rel_path cs @ slash # c"
  by (simp add: rel_path_def join_with_append)

lemma path_split_rel_path:
  "cs \<noteq> [] \<Longrightarrow> plain_name c \<Longrightarrow> path_split (rel_path (cs @ [c])) = (rel_path cs @ ''/'', c)"
  by (simp add: rel_path_snoc plain_name_def)


lemma split_on_join: "split_on c (a @ c # b) = split_on c a @ split_on c b"
proof (induction a)
  case Nil
  then show ?case by simp
next
  case (Cons d a)
  then show ?case by (cases "split_on c a") auto
qed

lemma clean_comps_append:
  "list_all plain_name cs \<Longrightarrow> clean_comps r st (cs @ ds) = clean_comps r (rev cs @ st) ds"
  by (induction cs arbitrary: st) (auto simp: plain_name_def)

lemma path_clean_trailing [simp]:
  assumes "cs \<noteq> []" and "list_all plain_name cs"
  shows "path_clean (rel_path cs @ ''/'') = rel_path cs"
proof -
  have "split_on slash (rel_path cs @ ''/'') = cs @ [[]]"
    using split_on_join[of slash "rel_path cs" "[]"] split_rel_path[OF assms] by simp
  moreover have "\<not> has_prefix (rel_path cs @ ''/'') ''/''"
    using rel_path_not_rooted[OF assms(2)] rel_path_not_Nil[OF assms]
    by (cases "rel_path cs") auto
  ultimately show ?thesis
    using assms rel_path_not_Nil[OF assms]
    by (simp add: path_clean_def clean_comps_append) (simp add: rel_path_def)
qed

lemma path_dir_rel_path [simp]:
  "cs \<noteq> [] \<Longrightarrow> list_all plain_name cs \<Longrightarrow> plain_name b \<Longrightarrow> path_dir (rel_path (cs @ [b])) = rel_path cs"
  by (simp add: path_dir_def path_split_rel_path)

lemma path_join_rel_path [simp]:
  assumes "cs \<noteq> []" and "list_all plain_name cs" and "plain_name b"
  shows "path_join [rel_path cs, b] = rel_path (cs @ [b])"
proof -
  have "rel_path cs \<noteq> []" "b \<noteq> []" using rel_path_not_Nil[OF assms(1,2)] assms(3) by (auto simp: plain_name_def)
  moreover have "rel_path cs @ ''/'' @ b = rel_path (cs @ [b])" using assms(1) by (simp add: rel_path_snoc)
  ultimately show ?thesis
    using assms by (simp add: path_join_def)
qed

lemma path_base_rel_path [simp]:
  assumes "plain_name b" shows "path_base (rel_path (cs @ [b])) = b"
proof -
  have b: "b \<noteq> []" "slash \<notin> set b" using assms by (auto simp: plain_name_def)
  then obtain c r where c: "rev b = c # r" "c \<noteq> slash" by (cases "rev b") auto
  obtain t where t: "rel_path (cs @ [b]) = t @ b" "t = [] \<or> (\<exists>u. t = u @ [slash])"
    by (cases "cs = []") (auto simp: rel_path_snoc, simp add: rel_path_def)
  have "dropWhile (\<lambda>c. c = slash) (rev (t @ b)) = rev (t @ b)" using c by simp
  moreover have "snd (path_split (t @ b)) = b" using t(2) b by auto
  ultimately show ?thesis using b t(1) by (simp add: path_base_def Let_def)
qed

end
