(* ===== verification/Helper.thy ===== *)
theory Helper
  imports Wire GoPath "HOL-Library.List_Lexorder" "HOL-Library.Char_ord"
begin

text \<open>
  The helper process, \<^verbatim>\<open>src/internal/helper/helper.go\<close> and \<^verbatim>\<open>src/internal/helper/ops.go\<close>: the
  resolution of paths, the dispatch of one request, the listing of a directory within one
  frame, and the reply.

  The kernel is a parameter: a record with one function per system call the package makes,
  over the kernel's state \<open>'w\<close>. Nothing is assumed of it. The numbers of flags and errnos
  are those of Linux on amd64.
\<close>

type_synonym fd = nat
type_synonym errno = uint32

text \<open>The errors the calls return: an errno, one wrapped in a \<^verbatim>\<open>PathError\<close>, any other.\<close>

datatype go_err = Errno errno | PathError go_err | OtherError

text \<open>What \<^verbatim>\<open>fstat\<close> fills in; the kernel's nanoseconds are 64 bits wide.\<close>

record unix_stat =
  us_mode :: uint32
  us_uid :: uint32
  us_gid :: uint32
  us_size :: int64
  us_mtim_sec :: int64
  us_mtim_nsec :: int64
  us_ino :: uint64
  us_nlink :: uint64

text \<open>An entry \<^verbatim>\<open>(*os.File).ReadDir\<close> reports: the name and the type bits of its \<^verbatim>\<open>FileMode\<close>.\<close>

type_synonym os_entry = "string \<times> uint32"

record 'w kernel =
  k_openat2 :: "fd \<Rightarrow> string \<Rightarrow> uint64 \<Rightarrow> uint64 \<Rightarrow> uint64 \<Rightarrow> 'w \<Rightarrow> (go_err + fd) \<times> 'w"
  k_mkdirat :: "fd \<Rightarrow> string \<Rightarrow> uint32 \<Rightarrow> 'w \<Rightarrow> go_err option \<times> 'w"
  k_fchmodat :: "fd \<Rightarrow> string \<Rightarrow> uint32 \<Rightarrow> 'w \<Rightarrow> go_err option \<times> 'w"
  k_unlinkat :: "fd \<Rightarrow> string \<Rightarrow> nat \<Rightarrow> 'w \<Rightarrow> go_err option \<times> 'w"
  k_linkat :: "fd \<Rightarrow> string \<Rightarrow> fd \<Rightarrow> string \<Rightarrow> 'w \<Rightarrow> go_err option \<times> 'w"
  k_renameat2 :: "fd \<Rightarrow> string \<Rightarrow> fd \<Rightarrow> string \<Rightarrow> uint32 \<Rightarrow> 'w \<Rightarrow> go_err option \<times> 'w"
  k_fstat :: "fd \<Rightarrow> 'w \<Rightarrow> (go_err + unix_stat) \<times> 'w"
  k_fstatat :: "fd \<Rightarrow> string \<Rightarrow> nat \<Rightarrow> 'w \<Rightarrow> (go_err + unix_stat) \<times> 'w"
  k_fsetxattr :: "fd \<Rightarrow> string \<Rightarrow> uint8 list \<Rightarrow> 'w \<Rightarrow> go_err option \<times> 'w"
  k_fgetxattr_size :: "fd \<Rightarrow> string \<Rightarrow> 'w \<Rightarrow> (go_err + nat) \<times> 'w"
  k_fgetxattr :: "fd \<Rightarrow> string \<Rightarrow> nat \<Rightarrow> 'w \<Rightarrow> (go_err + uint8 list) \<times> 'w"
  k_readdir :: "fd \<Rightarrow> 'w \<Rightarrow> (go_err + os_entry list) \<times> 'w"
  k_close :: "fd \<Rightarrow> 'w \<Rightarrow> 'w"

abbreviation (input) O_CLOEXEC :: uint64 where "O_CLOEXEC \<equiv> 0x80000"
abbreviation (input) O_PATH :: uint64 where "O_PATH \<equiv> 0x200000"
abbreviation (input) O_DIRECTORY :: uint64 where "O_DIRECTORY \<equiv> 0x10000"
abbreviation (input) O_NOFOLLOW :: uint64 where "O_NOFOLLOW \<equiv> 0x20000"
abbreviation (input) AT_REMOVEDIR :: nat where "AT_REMOVEDIR \<equiv> 0x200"
abbreviation (input) AT_SYMLINK_NOFOLLOW :: nat where "AT_SYMLINK_NOFOLLOW \<equiv> 0x100"
abbreviation (input) EIO :: uint32 where "EIO \<equiv> 5"
abbreviation (input) EINVAL :: uint32 where "EINVAL \<equiv> 22"
abbreviation (input) EOVERFLOW :: uint32 where "EOVERFLOW \<equiv> 75"
abbreviation (input) EOPNOTSUPP :: uint32 where "EOPNOTSUPP \<equiv> 95"

text \<open>\<^verbatim>\<open>RESOLVE_BENEATH | RESOLVE_NO_MAGICLINKS\<close>.\<close>

definition resolve_flags :: uint64 where
  "resolve_flags = 0x08 OR 0x02"

fun errno_of :: "go_err \<Rightarrow> errno" where
  "errno_of (Errno e) = e"
| "errno_of (PathError e) = errno_of e"
| "errno_of OtherError = EIO"

definition empty_response :: "uint64 \<Rightarrow> response" where
  "empty_response i = \<lparr>rs_id = i, rs_has = 0, rs_errno = 0, rs_stat = None, rs_entries = [], rs_value = []\<rparr>"

text \<open>A reply and the descriptor that goes with it; \<open>None\<close> is the code's -1.\<close>

definition fail_resp :: "uint64 \<Rightarrow> go_err \<Rightarrow> response \<times> fd option" where
  "fail_resp i e = ((empty_response i)\<lparr>rs_errno := errno_of e\<rparr>, None)"

definition ok_resp :: "uint64 \<Rightarrow> response \<times> fd option" where
  "ok_resp i = (empty_response i, None)"

section \<open>Resolution\<close>

definition resolve_path :: "'w kernel \<Rightarrow> fd \<Rightarrow> string \<Rightarrow> uint64 \<Rightarrow> uint64 \<Rightarrow> 'w \<Rightarrow> (go_err + fd) \<times> 'w" where
  "resolve_path K root rel flags mode w =
     (let rel = (if rel = [] then ''.'' else rel)
      in k_openat2 K root rel (flags OR O_CLOEXEC) mode resolve_flags w)"

definition nul :: char where "nul = char_of (0 :: nat)"

definition resolve_parent :: "'w kernel \<Rightarrow> fd \<Rightarrow> string \<Rightarrow> 'w \<Rightarrow> (go_err + fd \<times> string) \<times> 'w" where
  "resolve_parent K root rel w =
     (case path_split rel of (dir, base) \<Rightarrow>
        if base = [] \<or> base = ''.'' \<or> base = ''..'' \<or> nul \<in> set base then (Inl (Errno EINVAL), w)
        else
          (let dir = (if dir = [] then ''.'' else dir)
           in case resolve_path K root dir (O_PATH OR O_DIRECTORY) 0 w of
                (Inl e, w) \<Rightarrow> (Inl e, w)
              | (Inr f, w) \<Rightarrow> (Inr (f, base), w)))"

definition stat_of :: "unix_stat \<Rightarrow> stat" where
  "stat_of s = \<lparr>st_mode = us_mode s, st_uid = us_uid s, st_gid = us_gid s, st_size = us_size s,
     st_mtime_sec = us_mtim_sec s, st_mtime_nsec = ucast (us_mtim_nsec s), st_ino = us_ino s,
     st_nlink = us_nlink s\<rparr>"

section \<open>Listing a directory\<close>

abbreviation (input) entry_fixed :: nat where "entry_fixed \<equiv> 2 + 1 + 1"

definition stat_size :: nat where "stat_size = 4 + 4 + 4 + 8 + 8 + 4 + 8 + 8"

definition headroom :: nat where "headroom = 8 + 4 + 1 + 4"

text \<open>The bits of \<^verbatim>\<open>os.FileMode\<close>, and the DT values of getdents.\<close>

definition mode_type :: uint32 where
  "mode_type = 0x80000000 OR 0x08000000 OR 0x04000000 OR 0x02000000 OR 0x01000000 OR 0x00200000 OR 0x00080000"

definition dirent_type :: "uint32 \<Rightarrow> uint8" where
  "dirent_type t =
     (if t AND mode_type = 0 then 8
      else if t AND 0x80000000 \<noteq> 0 then 4
      else if t AND 0x08000000 \<noteq> 0 then 10
      else if t AND 0x04000000 \<noteq> 0 \<and> t AND 0x00200000 \<noteq> 0 then 2
      else if t AND 0x04000000 \<noteq> 0 then 6
      else if t AND 0x02000000 \<noteq> 0 then 1
      else if t AND 0x01000000 \<noteq> 0 then 12
      else 0)"

text \<open>
  The loop over the sorted entries: what is left of the budget, the cursor, and the response
  so far.
\<close>

fun read_dir_loop ::
  "'w kernel \<Rightarrow> fd \<Rightarrow> string \<Rightarrow> bool \<Rightarrow> os_entry list \<Rightarrow> nat \<Rightarrow> response \<Rightarrow> 'w \<Rightarrow> response \<times> 'w" where
  "read_dir_loop K f after with_stat [] budget resp w = (resp, w)"
| "read_dir_loop K f after with_stat ((name, t) # es) budget resp w =
     (if after \<noteq> [] \<and> name \<le> after then read_dir_loop K f after with_stat es budget resp w
      else
        (let cost = entry_fixed + length name + (if with_stat then stat_size else 0)
         in if cost > budget then (resp\<lparr>rs_has := rs_has resp OR HasMore\<rparr>, w)
            else
              (case (if with_stat then
                       (case k_fstatat K f name AT_SYMLINK_NOFOLLOW w of
                          (Inl e, w) \<Rightarrow> (None, w)
                        | (Inr s, w) \<Rightarrow> (Some (stat_of s), w))
                     else (None, w)) of (st, w) \<Rightarrow>
                 read_dir_loop K f after with_stat es (budget - cost)
                   (resp\<lparr>rs_entries := rs_entries resp @
                      [\<lparr>de_name = name, de_type = dirent_type t, de_stat = st\<rparr>]\<rparr>) w)))"

definition read_dir :: "'w kernel \<Rightarrow> fd \<Rightarrow> request \<Rightarrow> 'w \<Rightarrow> (response \<times> fd option) \<times> 'w" where
  "read_dir K root req w =
     (case resolve_path K root (rq_path req) O_DIRECTORY 0 w of
        (Inl e, w) \<Rightarrow> (fail_resp (rq_id req) e, w)
      | (Inr f, w) \<Rightarrow>
          (case k_readdir K f w of
             (Inl e, w) \<Rightarrow> (fail_resp (rq_id req) e, k_close K f w)
           | (Inr ents, w) \<Rightarrow>
               (case read_dir_loop K f (rq_name req) (rq_flags req AND FlagWithStat \<noteq> 0)
                       (sort_by (\<lambda>a b. fst a \<le> fst b) ents) (max_frame - headroom)
                       ((empty_response (rq_id req))\<lparr>rs_has := HasEntries\<rparr>) w of
                  (resp, w) \<Rightarrow> ((resp, None), k_close K f w))))"

section \<open>Dispatch\<close>

text \<open>The outcome of a call that only succeeds or fails, then the deferred closes.\<close>

definition finish :: "uint64 \<Rightarrow> go_err option \<Rightarrow> response \<times> fd option" where
  "finish i r = (case r of Some e \<Rightarrow> fail_resp i e | None \<Rightarrow> ok_resp i)"

definition op_mkdir :: "'w kernel \<Rightarrow> fd \<Rightarrow> request \<Rightarrow> 'w \<Rightarrow> (response \<times> fd option) \<times> 'w" where
  "op_mkdir K root req w =
     (case resolve_parent K root (rq_path req) w of
        (Inl e, w) \<Rightarrow> (fail_resp (rq_id req) e, w)
      | (Inr (d, base), w) \<Rightarrow>
          (case k_mkdirat K d base (rq_mode req AND 0x1FF) w of
             (Some e, w) \<Rightarrow> (fail_resp (rq_id req) e, k_close K d w)
           | (None, w) \<Rightarrow>
               (if rq_mode req AND NOT 0x1FF \<noteq> 0 then
                  (case k_fchmodat K d base (rq_mode req AND 0xFFF) w of
                     (Some e, w) \<Rightarrow>
                       (case k_unlinkat K d base AT_REMOVEDIR w of
                          (_, w) \<Rightarrow> (fail_resp (rq_id req) e, k_close K d w))
                   | (None, w) \<Rightarrow> (ok_resp (rq_id req), k_close K d w))
                else (ok_resp (rq_id req), k_close K d w))))"

definition op_unlink :: "'w kernel \<Rightarrow> fd \<Rightarrow> request \<Rightarrow> 'w \<Rightarrow> (response \<times> fd option) \<times> 'w" where
  "op_unlink K root req w =
     (case resolve_parent K root (rq_path req) w of
        (Inl e, w) \<Rightarrow> (fail_resp (rq_id req) e, w)
      | (Inr (d, base), w) \<Rightarrow>
          (case k_unlinkat K d base (if rq_op req = OpRmdir then AT_REMOVEDIR else 0) w of
             (r, w) \<Rightarrow> (finish (rq_id req) r, k_close K d w)))"

definition op_rename :: "'w kernel \<Rightarrow> fd \<Rightarrow> request \<Rightarrow> 'w \<Rightarrow> (response \<times> fd option) \<times> 'w" where
  "op_rename K root req w =
     (case resolve_parent K root (rq_path req) w of
        (Inl e, w) \<Rightarrow> (fail_resp (rq_id req) e, w)
      | (Inr (od, obase), w) \<Rightarrow>
          (case resolve_parent K root (rq_path2 req) w of
             (Inl e, w) \<Rightarrow> (fail_resp (rq_id req) e, k_close K od w)
           | (Inr (nd, nbase), w) \<Rightarrow>
               (case (if rq_op req = OpLink then k_linkat K od obase nd nbase w
                      else k_renameat2 K od obase nd nbase (rq_flags req) w) of
                  (r, w) \<Rightarrow> (finish (rq_id req) r, k_close K od (k_close K nd w)))))"

definition op_stat :: "'w kernel \<Rightarrow> fd \<Rightarrow> request \<Rightarrow> 'w \<Rightarrow> (response \<times> fd option) \<times> 'w" where
  "op_stat K root req w =
     (let flags = (if rq_flags req AND FlagNoFollow \<noteq> 0 then O_PATH OR O_NOFOLLOW else O_PATH)
      in case resolve_path K root (rq_path req) flags 0 w of
           (Inl e, w) \<Rightarrow> (fail_resp (rq_id req) e, w)
         | (Inr f, w) \<Rightarrow>
             (case k_fstat K f w of
                (Inl e, w) \<Rightarrow> (fail_resp (rq_id req) e, k_close K f w)
              | (Inr s, w) \<Rightarrow>
                  (((empty_response (rq_id req))\<lparr>rs_stat := Some (stat_of s)\<rparr>, None), k_close K f w)))"

definition op_chmod :: "'w kernel \<Rightarrow> fd \<Rightarrow> request \<Rightarrow> 'w \<Rightarrow> (response \<times> fd option) \<times> 'w" where
  "op_chmod K root req w =
     (if rq_flags req AND FlagNoFollow \<noteq> 0 then (fail_resp (rq_id req) (Errno EOPNOTSUPP), w)
      else
        (case resolve_parent K root (rq_path req) w of
           (Inl e, w) \<Rightarrow> (fail_resp (rq_id req) e, w)
         | (Inr (d, base), w) \<Rightarrow>
             (case k_fchmodat K d base (rq_mode req) w of
                (r, w) \<Rightarrow> (finish (rq_id req) r, k_close K d w))))"

definition op_set_xattr :: "'w kernel \<Rightarrow> fd \<Rightarrow> request \<Rightarrow> 'w \<Rightarrow> (response \<times> fd option) \<times> 'w" where
  "op_set_xattr K root req w =
     (case resolve_path K root (rq_path req) O_NOFOLLOW 0 w of
        (Inl e, w) \<Rightarrow> (fail_resp (rq_id req) e, w)
      | (Inr f, w) \<Rightarrow>
          (case k_fsetxattr K f (rq_name req) (rq_value req) w of
             (r, w) \<Rightarrow> (finish (rq_id req) r, k_close K f w)))"

definition op_get_xattr :: "'w kernel \<Rightarrow> fd \<Rightarrow> request \<Rightarrow> 'w \<Rightarrow> (response \<times> fd option) \<times> 'w" where
  "op_get_xattr K root req w =
     (case resolve_path K root (rq_path req) O_NOFOLLOW 0 w of
        (Inl e, w) \<Rightarrow> (fail_resp (rq_id req) e, w)
      | (Inr f, w) \<Rightarrow>
          (case k_fgetxattr_size K f (rq_name req) w of
             (Inl e, w) \<Rightarrow> (fail_resp (rq_id req) e, k_close K f w)
           | (Inr n, w) \<Rightarrow>
               (case k_fgetxattr K f (rq_name req) n w of
                  (Inl e, w) \<Rightarrow> (fail_resp (rq_id req) e, k_close K f w)
                | (Inr v, w) \<Rightarrow>
                    (((empty_response (rq_id req))\<lparr>rs_has := HasValue, rs_value := v\<rparr>, None),
                     k_close K f w))))"

definition dispatch :: "'w kernel \<Rightarrow> fd \<Rightarrow> request \<Rightarrow> 'w \<Rightarrow> (response \<times> fd option) \<times> 'w" where
  "dispatch K root req w =
     (if rq_op req = OpOpen then
        (case resolve_path K root (rq_path req) (ucast (rq_flags req)) (ucast (rq_mode req)) w of
           (Inl e, w) \<Rightarrow> (fail_resp (rq_id req) e, w)
         | (Inr f, w) \<Rightarrow> (((empty_response (rq_id req))\<lparr>rs_has := HasFD\<rparr>, Some f), w))
      else if rq_op req = OpMkdir then op_mkdir K root req w
      else if rq_op req = OpUnlink \<or> rq_op req = OpRmdir then op_unlink K root req w
      else if rq_op req = OpRename \<or> rq_op req = OpLink then op_rename K root req w
      else if rq_op req = OpStat then op_stat K root req w
      else if rq_op req = OpChmod then op_chmod K root req w
      else if rq_op req = OpSetXattr then op_set_xattr K root req w
      else if rq_op req = OpGetXattr then op_get_xattr K root req w
      else if rq_op req = OpReadDir then read_dir K root req w
      else (fail_resp (rq_id req) (Errno EINVAL), w))"

text \<open>
  \<open>reply\<close> gives the frame to send, if any, and the descriptor that rides along; \<open>serve_one\<close>
  is one request from frame to frame, after which the helper's own copy of the descriptor is
  closed.
\<close>

definition reply :: "response \<Rightarrow> fd option \<Rightarrow> (uint8 list \<times> fd option) option" where
  "reply resp f =
     (case response_marshal resp of
        Inr frame \<Rightarrow> Some (frame, f)
      | Inl _ \<Rightarrow>
          (case response_marshal ((empty_response (rs_id resp))\<lparr>rs_errno := EOVERFLOW\<rparr>) of
             Inl _ \<Rightarrow> None
           | Inr frame \<Rightarrow> Some (frame, None)))"

definition serve_one ::
  "'w kernel \<Rightarrow> fd \<Rightarrow> uint8 list \<Rightarrow> 'w \<Rightarrow> (uint8 list \<times> fd option) option \<times> 'w" where
  "serve_one K root frame w =
     (case unmarshal_request frame of
        Inl _ \<Rightarrow> (None, w)
      | Inr req \<Rightarrow>
          (case dispatch K root req w of
             ((resp, f), w) \<Rightarrow>
               (reply resp f, (case f of None \<Rightarrow> w | Some d \<Rightarrow> k_close K d w))))"

text \<open>
  The reading loop of \<^verbatim>\<open>Serve\<close>: the frames it hands to goroutines before it stops, and the
  error it returns. A read is a datagram or an error; \<open>None\<close> is EOF or a closed socket.
\<close>

fun serve_loop :: "(go_err option + uint8 list) list \<Rightarrow> uint8 list list \<times> go_err option" where
  "serve_loop [] = ([], None)"
| "serve_loop (Inl e # rs) = ([], e)"
| "serve_loop (Inr b # rs) =
     (if b = [] then ([], None) else (case serve_loop rs of (fs, e) \<Rightarrow> (b # fs, e)))"


section \<open>What reaches the kernel\<close>

text \<open>
  A kernel that also records the calls it was given. \<open>SysAt\<close> is a call that resolves one name
  under a directory descriptor (mkdirat, fchmodat, unlinkat, linkat, renameat2), \<open>SysUse\<close> a
  call on an open descriptor.
\<close>

datatype sys_event =
    SysOpen fd uint64 "fd option"
  | SysAt fd string
  | SysUse fd
  | SysClose fd

fun opt_of :: "'e + 'a \<Rightarrow> 'a option" where
  "opt_of (Inl e) = None"
| "opt_of (Inr a) = Some a"

definition logged :: "'w kernel \<Rightarrow> ('w \<times> sys_event list) kernel" where
  "logged K = \<lparr>
     k_openat2 = (\<lambda>r p fl m res (w, tr). case k_openat2 K r p fl m res w of
       (x, w) \<Rightarrow> (x, (w, tr @ [SysOpen r res (opt_of x)]))),
     k_mkdirat = (\<lambda>d b m (w, tr). case k_mkdirat K d b m w of (x, w) \<Rightarrow> (x, (w, tr @ [SysAt d b]))),
     k_fchmodat = (\<lambda>d b m (w, tr). case k_fchmodat K d b m w of (x, w) \<Rightarrow> (x, (w, tr @ [SysAt d b]))),
     k_unlinkat = (\<lambda>d b fl (w, tr). case k_unlinkat K d b fl w of (x, w) \<Rightarrow> (x, (w, tr @ [SysAt d b]))),
     k_linkat = (\<lambda>d b d' b' (w, tr). case k_linkat K d b d' b' w of
       (x, w) \<Rightarrow> (x, (w, tr @ [SysAt d b, SysAt d' b']))),
     k_renameat2 = (\<lambda>d b d' b' fl (w, tr). case k_renameat2 K d b d' b' fl w of
       (x, w) \<Rightarrow> (x, (w, tr @ [SysAt d b, SysAt d' b']))),
     k_fstat = (\<lambda>f (w, tr). case k_fstat K f w of (x, w) \<Rightarrow> (x, (w, tr @ [SysUse f]))),
     k_fstatat = (\<lambda>f n fl (w, tr). case k_fstatat K f n fl w of (x, w) \<Rightarrow> (x, (w, tr @ [SysUse f]))),
     k_fsetxattr = (\<lambda>f n v (w, tr). case k_fsetxattr K f n v w of (x, w) \<Rightarrow> (x, (w, tr @ [SysUse f]))),
     k_fgetxattr_size = (\<lambda>f n (w, tr). case k_fgetxattr_size K f n w of (x, w) \<Rightarrow> (x, (w, tr @ [SysUse f]))),
     k_fgetxattr = (\<lambda>f n z (w, tr). case k_fgetxattr K f n z w of (x, w) \<Rightarrow> (x, (w, tr @ [SysUse f]))),
     k_readdir = (\<lambda>f (w, tr). case k_readdir K f w of (x, w) \<Rightarrow> (x, (w, tr @ [SysUse f]))),
     k_close = (\<lambda>f (w, tr). (k_close K f w, tr @ [SysClose f])) \<rparr>"

lemma logged_sel [simp]:
  "k_openat2 (logged K) r p fl m res (w, tr) =
     (case k_openat2 K r p fl m res w of (x, w) \<Rightarrow> (x, (w, tr @ [SysOpen r res (opt_of x)])))"
  "k_mkdirat (logged K) d b mm (w, tr) = (case k_mkdirat K d b mm w of (y, w) \<Rightarrow> (y, (w, tr @ [SysAt d b])))"
  "k_fchmodat (logged K) d b mm (w, tr) = (case k_fchmodat K d b mm w of (y, w) \<Rightarrow> (y, (w, tr @ [SysAt d b])))"
  "k_unlinkat (logged K) d b g (w, tr) = (case k_unlinkat K d b g w of (y, w) \<Rightarrow> (y, (w, tr @ [SysAt d b])))"
  "k_linkat (logged K) d b d' b' (w, tr) =
     (case k_linkat K d b d' b' w of (y, w) \<Rightarrow> (y, (w, tr @ [SysAt d b, SysAt d' b'])))"
  "k_renameat2 (logged K) d b d' b' h (w, tr) =
     (case k_renameat2 K d b d' b' h w of (y, w) \<Rightarrow> (y, (w, tr @ [SysAt d b, SysAt d' b'])))"
  "k_fstat (logged K) f (w, tr) = (case k_fstat K f w of (z, w) \<Rightarrow> (z, (w, tr @ [SysUse f])))"
  "k_fstatat (logged K) f n g (w, tr) = (case k_fstatat K f n g w of (z, w) \<Rightarrow> (z, (w, tr @ [SysUse f])))"
  "k_fsetxattr (logged K) f n vv (w, tr) = (case k_fsetxattr K f n vv w of (y, w) \<Rightarrow> (y, (w, tr @ [SysUse f])))"
  "k_fgetxattr_size (logged K) f n (w, tr) =
     (case k_fgetxattr_size K f n w of (u, w) \<Rightarrow> (u, (w, tr @ [SysUse f])))"
  "k_fgetxattr (logged K) f n i (w, tr) =
     (case k_fgetxattr K f n i w of (t, w) \<Rightarrow> (t, (w, tr @ [SysUse f])))"
  "k_readdir (logged K) f (w, tr) = (case k_readdir K f w of (s, w) \<Rightarrow> (s, (w, tr @ [SysUse f])))"
  "k_close (logged K) f (w, tr) = (k_close K f w, tr @ [SysClose f])"
  by (simp_all add: logged_def)

text \<open>
  The discipline of a helper serving \<open>root\<close>: every path is resolved from the root with the
  resolve flags, a name is handed to a call only when it is one plain component and the
  directory is a descriptor that was opened that way and is still open, and a descriptor is
  closed once. The state is the list of open descriptors, \<open>None\<close> after a violation.
\<close>

fun sys_step :: "fd \<Rightarrow> fd list option \<Rightarrow> sys_event \<Rightarrow> fd list option" where
  "sys_step root None ev = None"
| "sys_step root (Some live) (SysOpen r res x) =
     (if r = root \<and> res = resolve_flags then Some (case x of None \<Rightarrow> live | Some f \<Rightarrow> f # live) else None)"
| "sys_step root (Some live) (SysAt d b) =
     (if d \<in> set live \<and> plain_name b \<and> nul \<notin> set b then Some live else None)"
| "sys_step root (Some live) (SysUse f) = (if f \<in> set live then Some live else None)"
| "sys_step root (Some live) (SysClose f) = (if f \<in> set live then Some (remove1 f live) else None)"

definition sys_check :: "fd \<Rightarrow> sys_event list \<Rightarrow> fd list option" where
  "sys_check root tr = foldl (sys_step root) (Some []) tr"

lemma sys_check_Nil [simp]: "sys_check root [] = Some []"
  by (simp add: sys_check_def)

lemma sys_check_snoc [simp]: "sys_check root (tr @ [e]) = sys_step root (sys_check root tr) e"
  by (simp add: sys_check_def)

lemma sys_check_snoc2 [simp]:
  "sys_check root (tr @ [e, e']) = sys_step root (sys_step root (sys_check root tr) e) e'"
  by (simp add: sys_check_def)

lemma resolve_path_logged:
  "resolve_path (logged K) root rel fl m (w, tr) =
     (case resolve_path K root rel fl m w of
        (x, w) \<Rightarrow> (x, (w, tr @ [SysOpen root resolve_flags (opt_of x)])))"
  by (simp add: resolve_path_def)

lemma resolve_parent_logged:
  assumes "resolve_parent (logged K) root rel (w, tr) = (x, (w', tr'))" and "sys_check root tr = Some live"
  shows "case x of
      Inl e \<Rightarrow> sys_check root tr' = Some live
    | Inr (d, b) \<Rightarrow> sys_check root tr' = Some (d # live) \<and> plain_name b \<and> nul \<notin> set b"
proof (cases "path_split rel")
  case (Pair dir base)
  then have "slash \<notin> set base" by (rule path_split_base)
  with assms Pair show ?thesis
    by (auto simp: resolve_parent_def resolve_path_logged Let_def plain_name_def
        split: if_splits prod.splits sum.splits)
qed

lemma read_dir_loop_logged:
  assumes "read_dir_loop (logged K) f after ws es budget resp (w, tr) = (resp', (w', tr'))"
    and "sys_check root tr = Some live" and "f \<in> set live"
  shows "sys_check root tr' = Some live"
  using assms
proof (induction es arbitrary: budget resp w tr)
  case Nil
  then show ?case by simp
next
  case (Cons e es)
  obtain name t where e: "e = (name, t)" by (cases e)
  obtain x v where x: "k_fstatat K f name AT_SYMLINK_NOFOLLOW w = (x, v)" by (cases "k_fstatat K f name AT_SYMLINK_NOFOLLOW w")
  have l: "k_fstatat (logged K) f name AT_SYMLINK_NOFOLLOW (w, tr) = (x, (v, tr @ [SysUse f]))"
    using x by simp
  show ?case
    using Cons.prems Cons.IH[of _ _ w tr] Cons.IH[of _ _ v "tr @ [SysUse f]"] e l
    by (auto simp: Let_def split: if_splits sum.splits)
qed


text \<open>What every operation's lemma says: the descriptors left open are those it returns.\<close>

definition keeps_discipline :: "fd \<Rightarrow> ((response \<times> fd option) \<times> 'w \<times> sys_event list) \<Rightarrow> bool" where
  "keeps_discipline root out \<longleftrightarrow>
     sys_check root (snd (snd out)) = Some (case snd (fst out) of None \<Rightarrow> [] | Some d \<Rightarrow> [d])"

lemma fail_fd [simp]: "snd (fail_resp i e) = None" "snd (ok_resp i) = None" "snd (finish i r) = None"
  by (auto simp: fail_resp_def ok_resp_def finish_def split: option.splits)

lemma parent_cases:
  assumes "resolve_parent (logged K) root rel (w, tr) = (x, (v, tr'))" and "sys_check root tr = Some live"
  obtains e where "x = Inl e" "sys_check root tr' = Some live"
    | d b where "x = Inr (d, b)" "sys_check root tr' = Some (d # live)" "plain_name b" "nul \<notin> set b"
  using resolve_parent_logged[OF assms] by (cases x) auto

lemma path_cases:
  assumes "resolve_path (logged K) root rel fl m (w, tr) = (x, (v, tr'))" and "sys_check root tr = Some live"
  obtains e where "x = Inl e" "sys_check root tr' = Some live"
    | f where "x = Inr f" "sys_check root tr' = Some (f # live)"
  using assms by (cases x) (auto simp: resolve_path_logged split: prod.splits)

lemma op_mkdir_discipline: "keeps_discipline root (op_mkdir (logged K) root req (w, []))"
proof -
  obtain x v tr where r: "resolve_parent (logged K) root (rq_path req) (w, []) = (x, (v, tr))"
    by (metis prod.collapse)
  show ?thesis
    by (rule parent_cases[OF r sys_check_Nil])
       (auto simp: op_mkdir_def r keeps_discipline_def split: option.splits prod.splits)
qed

lemma op_unlink_discipline: "keeps_discipline root (op_unlink (logged K) root req (w, []))"
proof -
  obtain x v tr where r: "resolve_parent (logged K) root (rq_path req) (w, []) = (x, (v, tr))"
    by (metis prod.collapse)
  show ?thesis
    by (rule parent_cases[OF r sys_check_Nil])
       (auto simp: op_unlink_def r keeps_discipline_def split: option.splits prod.splits)
qed

lemma op_chmod_discipline: "keeps_discipline root (op_chmod (logged K) root req (w, []))"
proof -
  obtain x v tr where r: "resolve_parent (logged K) root (rq_path req) (w, []) = (x, (v, tr))"
    by (metis prod.collapse)
  show ?thesis
    by (rule parent_cases[OF r sys_check_Nil])
       (auto simp: op_chmod_def r keeps_discipline_def split: option.splits prod.splits)
qed

lemma op_rename_discipline: "keeps_discipline root (op_rename (logged K) root req (w, []))"
proof -
  obtain x v tr where r: "resolve_parent (logged K) root (rq_path req) (w, []) = (x, (v, tr))"
    by (metis prod.collapse)
  show ?thesis
  proof (rule parent_cases[OF r sys_check_Nil])
    fix e assume "x = Inl e" "sys_check root tr = Some []"
    then show ?thesis by (simp add: op_rename_def r keeps_discipline_def)
  next
    fix d b assume x: "x = Inr (d, b)" and tr: "sys_check root tr = Some [d]"
      and b: "plain_name b" "nul \<notin> set b"
    obtain y v2 tr2 where r2: "resolve_parent (logged K) root (rq_path2 req) (v, tr) = (y, (v2, tr2))"
      by (metis prod.collapse)
    show ?thesis
      by (rule parent_cases[OF r2 tr])
         (use b x in \<open>auto simp: op_rename_def r r2 keeps_discipline_def split: prod.splits\<close>)
  qed
qed

lemma op_stat_discipline: "keeps_discipline root (op_stat (logged K) root req (w, []))"
proof -
  let ?fl = "if rq_flags req AND FlagNoFollow \<noteq> 0 then O_PATH OR O_NOFOLLOW else O_PATH"
  obtain x v tr where r: "resolve_path (logged K) root (rq_path req) ?fl 0 (w, []) = (x, (v, tr))"
    by (metis prod.collapse)
  show ?thesis
    by (rule path_cases[OF r sys_check_Nil])
       (auto simp: op_stat_def Let_def r[simplified] keeps_discipline_def split: sum.splits prod.splits)
qed

lemma op_set_xattr_discipline: "keeps_discipline root (op_set_xattr (logged K) root req (w, []))"
proof -
  obtain x v tr where r: "resolve_path (logged K) root (rq_path req) O_NOFOLLOW 0 (w, []) = (x, (v, tr))"
    by (metis prod.collapse)
  show ?thesis
    by (rule path_cases[OF r sys_check_Nil])
       (auto simp: op_set_xattr_def r keeps_discipline_def split: prod.splits)
qed

lemma op_get_xattr_discipline: "keeps_discipline root (op_get_xattr (logged K) root req (w, []))"
proof -
  obtain x v tr where r: "resolve_path (logged K) root (rq_path req) O_NOFOLLOW 0 (w, []) = (x, (v, tr))"
    by (metis prod.collapse)
  show ?thesis
    by (rule path_cases[OF r sys_check_Nil])
       (auto simp: op_get_xattr_def r keeps_discipline_def split: sum.splits prod.splits)
qed

lemma read_dir_discipline: "keeps_discipline root (read_dir (logged K) root req (w, []))"
proof -
  obtain x v tr where r: "resolve_path (logged K) root (rq_path req) O_DIRECTORY 0 (w, []) = (x, (v, tr))"
    by (metis prod.collapse)
  show ?thesis
  proof (rule path_cases[OF r sys_check_Nil])
    fix e assume "x = Inl e" "sys_check root tr = Some []"
    then show ?thesis by (simp add: read_dir_def r keeps_discipline_def)
  next
    fix f assume x: "x = Inr f" and tr: "sys_check root tr = Some [f]"
    obtain y v2 where y: "k_readdir K f v = (y, v2)" by (cases "k_readdir K f v")
    then have l: "k_readdir (logged K) f (v, tr) = (y, (v2, tr @ [SysUse f]))" by simp
    show ?thesis
    proof (cases y)
      case (Inl e)
      with x tr l show ?thesis by (simp add: read_dir_def r keeps_discipline_def)
    next
      case (Inr ents)
      let ?loop = "read_dir_loop (logged K) f (rq_name req) (rq_flags req AND FlagWithStat \<noteq> 0)
        (sort_by (\<lambda>a b. fst a \<le> fst b) ents) (max_frame - headroom)
        ((empty_response (rq_id req))\<lparr>rs_has := HasEntries\<rparr>) (v2, tr @ [SysUse f])"
      obtain resp v3 tr3 where loop: "?loop = (resp, (v3, tr3))" by (metis prod.collapse)
      have "sys_check root tr3 = Some [f]"
        by (rule read_dir_loop_logged[OF loop]) (use tr in simp_all)
      with Inr x l loop show ?thesis
        by (simp add: read_dir_def r keeps_discipline_def)
    qed
  qed
qed

lemma dispatch_discipline: "keeps_discipline root (dispatch (logged K) root req (w, []))"
proof -
  have "keeps_discipline root
      (case resolve_path (logged K) root (rq_path req) (ucast (rq_flags req)) (ucast (rq_mode req)) (w, []) of
           (Inl e, w) \<Rightarrow> (fail_resp (rq_id req) e, w)
         | (Inr f, w) \<Rightarrow> (((empty_response (rq_id req))\<lparr>rs_has := HasFD\<rparr>, Some f), w))"
    by (auto simp: resolve_path_logged keeps_discipline_def sys_check_def split: prod.splits sum.splits)
  moreover have "keeps_discipline root (fail_resp (rq_id req) e, (w, []))" for e
    by (simp add: keeps_discipline_def)
  ultimately show ?thesis
    unfolding dispatch_def
    by (simp add: op_mkdir_discipline op_unlink_discipline op_rename_discipline op_stat_discipline
        op_chmod_discipline op_set_xattr_discipline op_get_xattr_discipline read_dir_discipline)
qed

text \<open>C5: Whatever bytes the helper is sent, every path is resolved from its root with
  RESOLVE_BENEATH, every name handed to a call that creates, removes or changes a name is a
  single plain component in a directory resolved that way, only open descriptors are used, and
  when the request has been served every descriptor it opened has been closed exactly once.\<close>

theorem helper_beneath_root:
  "sys_check root (snd (snd (serve_one (logged K) root frame (w, [])))) = Some []"
proof (cases "unmarshal_request frame")
  case (Inl e)
  then show ?thesis by (simp add: serve_one_def)
next
  case (Inr req)
  obtain resp f v tr where d: "dispatch (logged K) root req (w, []) = ((resp, f), (v, tr))"
    by (metis prod.collapse)
  with dispatch_discipline[of root K req w]
  have "sys_check root tr = Some (case f of None \<Rightarrow> [] | Some d \<Rightarrow> [d])"
    by (simp add: keeps_discipline_def)
  with Inr d show ?thesis
    by (cases f) (simp_all add: serve_one_def)
qed


section \<open>A listing fits its frame\<close>

definition entry_cost :: "bool \<Rightarrow> string \<Rightarrow> nat" where
  "entry_cost ws name = entry_fixed + length name + (if ws then stat_size else 0)"

text \<open>The entries a listing resumed after \<open>after\<close> still has to report.\<close>

definition pending :: "string \<Rightarrow> os_entry list \<Rightarrow> os_entry list" where
  "pending after es = filter (\<lambda>e. \<not> (after \<noteq> [] \<and> fst e \<le> after)) es"

definition entries_len :: "dir_entry list \<Rightarrow> nat" where
  "entries_len es = length (concat (map enc_entry es))"

lemma entries_len_simps [simp]:
  "entries_len [] = 0" "entries_len (es @ fs) = entries_len es + entries_len fs"
  "entries_len (e # es) = length (enc_entry e) + entries_len es"
  by (simp_all add: entries_len_def)

lemma length_enc_stat: "length (enc_stat s) = stat_size"
  by (simp add: enc_stat_def append_stat_def Let_def stat_size_def)

lemma length_enc_entry_cost:
  "\<not> ws \<longrightarrow> st = None \<Longrightarrow> length (enc_entry \<lparr>de_name = n, de_type = t, de_stat = st\<rparr>) \<le> entry_cost ws n"
  by (cases st) (auto simp: enc_entry_def enc_str_def entry_cost_def length_enc_stat)

definition listing_step :: "bool \<Rightarrow> os_entry list \<Rightarrow> nat \<Rightarrow> response \<Rightarrow> response \<Rightarrow> nat \<Rightarrow> bool" where
  "listing_step ws es budget resp resp' k \<longleftrightarrow>
     k \<le> length es \<and>
     map de_name (rs_entries resp') = map de_name (rs_entries resp) @ map fst (take k es) \<and>
     rs_has resp' = (if k < length es then rs_has resp OR HasMore else rs_has resp) \<and>
     resp'\<lparr>rs_has := rs_has resp, rs_entries := rs_entries resp\<rparr> = resp \<and>
     entries_len (rs_entries resp') \<le> entries_len (rs_entries resp) + budget \<and>
     (es \<noteq> [] \<and> entry_cost ws (fst (hd es)) \<le> budget \<longrightarrow> 0 < k)"

lemma read_dir_loop_step:
  assumes "read_dir_loop K f after ws es budget resp w = (resp', w')"
  shows "\<exists>k. listing_step ws (pending after es) budget resp resp' k"
  using assms
proof (induction es arbitrary: budget resp w)
  case Nil
  then show ?case by (auto simp: listing_step_def pending_def)
next
  case (Cons e es)
  obtain name t where e: "e = (name, t)" by (cases e)
  show ?case
  proof (cases "after \<noteq> [] \<and> name \<le> after")
    case True
    with Cons.prems e have "read_dir_loop K f after ws es budget resp w = (resp', w')" by simp
    from Cons.IH[OF this] True e show ?thesis by (simp add: pending_def)
  next
    case False
    then have p: "pending after (e # es) = e # pending after es" using e by (auto simp: pending_def)
    show ?thesis
    proof (cases "entry_cost ws name > budget")
      case True
      then have "resp' = resp\<lparr>rs_has := rs_has resp OR HasMore\<rparr>"
        using Cons.prems False e by (auto simp: entry_cost_def Let_def)
      with True e show ?thesis unfolding p
        by (intro exI[of _ 0]) (simp add: listing_step_def)
    next
      case fits: False
      obtain st v where st: "\<not> ws \<longrightarrow> st = None" and
        rec: "read_dir_loop K f after ws es (budget - entry_cost ws name)
          (resp\<lparr>rs_entries := rs_entries resp @ [\<lparr>de_name = name, de_type = dirent_type t, de_stat = st\<rparr>]\<rparr>) v
          = (resp', w')"
        using Cons.prems False fits e
        by (auto simp: entry_cost_def Let_def split: if_splits prod.splits sum.splits)
      from Cons.IH[OF rec] obtain k where
        k: "listing_step ws (pending after es) (budget - entry_cost ws name)
          (resp\<lparr>rs_entries := rs_entries resp @ [\<lparr>de_name = name, de_type = dirent_type t, de_stat = st\<rparr>]\<rparr>) resp' k"
        by blast
      have "resp'\<lparr>rs_has := rs_has resp, rs_entries := rs_entries resp\<rparr> = resp"
        using k by (cases resp'; cases resp) (simp add: listing_step_def)
      then have "listing_step ws (e # pending after es) budget resp resp' (Suc k)"
        using k fits length_enc_entry_cost[OF st, of name "dirent_type t"] e
        by (auto simp: listing_step_def)
      then show ?thesis unfolding p by blast
    qed
  qed
qed

definition listing_response :: "response \<Rightarrow> bool" where
  "listing_response r \<longleftrightarrow> rs_stat r = None \<and> (rs_has r = HasEntries \<or> rs_has r = HasEntries OR HasMore) \<and>
     rs_value r = [] \<and> entries_len (rs_entries r) \<le> max_frame - headroom"

lemma entries_fit: "entries_len es < 2 ^ 16 \<Longrightarrow> e \<in> set es \<Longrightarrow> str_fits (de_name e)"
  by (induction es) (auto simp: enc_entry_def enc_str_def str_fits_def)

lemma entries_count: "length es \<le> entries_len es"
  using length_entries[of es] by (simp add: entries_len_def)

lemma listing_response_marshal:
  assumes "listing_response r"
  shows "\<exists>b. response_marshal r = Inr b"
proof -
  have len: "entries_len (rs_entries r) \<le> 65519"
    using assms by (simp add: listing_response_def max_frame_def headroom_def)
  have hw: "has_written r AND HasEntries \<noteq> 0" "has_written r AND HasValue = 0"
    using assms by (auto simp: listing_response_def has_written_def Let_def)
  have "rs_has r AND NOT has_known = 0"
    using assms by (auto simp: listing_response_def has_known_def)
  moreover have "fields_fit r"
    using assms len entries_fit[of "rs_entries r"] entries_count[of "rs_entries r"]
    by (auto simp: listing_response_def fields_fit_def)
  moreover have "length (enc_response r) \<le> max_frame"
    using assms len hw by (simp add: enc_response_def listing_response_def entries_len_def max_frame_def)
  ultimately show ?thesis by (auto simp: response_marshal_enc)
qed


lemma read_dir_result:
  assumes "resolve_path K root (rq_path req) O_DIRECTORY 0 w = (Inr f, w1)"
    and "k_readdir K f w1 = (Inr ents, w2)"
    and "read_dir K root req w = ((resp, g), w')"
  shows "\<exists>k. listing_step (rq_flags req AND FlagWithStat \<noteq> 0)
      (pending (rq_name req) (sort_by (\<lambda>a b. fst a \<le> fst b) ents)) (max_frame - headroom)
      ((empty_response (rq_id req))\<lparr>rs_has := HasEntries\<rparr>) resp k \<and> g = None"
proof -
  let ?loop = "read_dir_loop K f (rq_name req) (rq_flags req AND FlagWithStat \<noteq> 0)
    (sort_by (\<lambda>a b. fst a \<le> fst b) ents) (max_frame - headroom)
    ((empty_response (rq_id req))\<lparr>rs_has := HasEntries\<rparr>) w2"
  obtain w3 where "?loop = (resp, w3)" and "g = None"
    using assms by (auto simp: read_dir_def split: prod.splits)
  with read_dir_loop_step[OF this(1)] show ?thesis by blast
qed

lemma listing_step_response:
  assumes "listing_step ws es (max_frame - headroom)
    ((empty_response i)\<lparr>rs_has := HasEntries\<rparr>) resp k"
  shows "listing_response resp" "rs_errno resp = 0" "rs_id resp = i"
    "rs_has resp AND HasMore \<noteq> 0 \<longleftrightarrow> k < length es"
    "map de_name (rs_entries resp) = map fst (take k es)"
  using assms
  by (cases resp; auto simp: listing_step_def listing_response_def empty_response_def split: if_splits)+

lemma read_dir_reply:
  assumes "read_dir K root req w = ((resp, f), w')"
  shows "listing_response resp \<and> f = None \<or> (\<exists>e. (resp, f) = fail_resp (rq_id req) e)"
proof -
  obtain x w1 where x: "resolve_path K root (rq_path req) O_DIRECTORY 0 w = (x, w1)" by (metis prod.collapse)
  show ?thesis
  proof (cases x)
    case (Inl e)
    with x assms have "(resp, f) = fail_resp (rq_id req) e" by (simp add: read_dir_def)
    then show ?thesis by blast
  next
    case (Inr g)
    obtain y w2 where y: "k_readdir K g w1 = (y, w2)" by (metis prod.collapse)
    show ?thesis
    proof (cases y)
      case (Inl e)
      with \<open>x = Inr g\<close> x y assms have "(resp, f) = fail_resp (rq_id req) e" by (simp add: read_dir_def)
      then show ?thesis by blast
    next
      case (Inr ents)
      with x y \<open>x = Inr g\<close> have "resolve_path K root (rq_path req) O_DIRECTORY 0 w = (Inr g, w1)"
        "k_readdir K g w1 = (Inr ents, w2)" by simp_all
      from read_dir_result[OF this assms] show ?thesis
        by (auto dest: listing_step_response(1))
    qed
  qed
qed

definition plain_response :: "response \<Rightarrow> bool" where
  "plain_response r \<longleftrightarrow> rs_entries r = [] \<and> rs_value r = [] \<and> (rs_has r = 0 \<or> rs_has r = HasFD)"

lemma plain_response_marshal:
  assumes "plain_response r" shows "\<exists>b. response_marshal r = Inr b"
proof -
  have "rs_has r AND NOT has_known = 0" "has_written r AND HasEntries = 0" "rs_has r AND HasValue = 0"
    using assms by (auto simp: plain_response_def has_known_def has_written_def Let_def)
  with assms show ?thesis
    by (auto simp: response_marshal_enc plain_response_def fields_fit_def enc_response_def
        length_enc_stat stat_size_def max_frame_def split: option.splits)
qed

lemma plain_fail [simp]:
  "plain_response (fst (fail_resp i e))" "plain_response (fst (ok_resp i))" "plain_response (fst (finish i r))"
  "plain_response ((empty_response i)\<lparr>rs_has := 1\<rparr>)" "plain_response ((empty_response i)\<lparr>rs_stat := s\<rparr>)"
  "plain_response ((empty_response i)\<lparr>rs_errno := n\<rparr>)"
  by (auto simp: plain_response_def fail_resp_def ok_resp_def finish_def empty_response_def split: option.splits)

lemma plain_ops:
  "plain_response (fst (fst (op_mkdir K root req w)))"
  "plain_response (fst (fst (op_unlink K root req w)))"
  "plain_response (fst (fst (op_rename K root req w)))"
  "plain_response (fst (fst (op_stat K root req w)))"
  "plain_response (fst (fst (op_chmod K root req w)))"
  "plain_response (fst (fst (op_set_xattr K root req w)))"
  by (simp_all add: op_mkdir_def op_unlink_def op_rename_def op_stat_def op_chmod_def
      op_set_xattr_def Let_def split: prod.splits sum.splits option.splits)

lemma dispatch_reply:
  assumes "rq_op req \<noteq> OpGetXattr" and "dispatch K root req w = ((resp, f), w')"
  shows "\<exists>b. response_marshal resp = Inr b"
proof (cases "rq_op req = OpReadDir")
  case True
  with assms(2) have "read_dir K root req w = ((resp, f), w')" by (simp add: dispatch_def)
  from read_dir_reply[OF this] plain_fail(1)[of "rq_id req"]
  have "listing_response resp \<or> plain_response resp" by (metis fst_conv)
  then show ?thesis by (auto dest: listing_response_marshal plain_response_marshal)
next
  case False
  have "plain_response (fst (fst (dispatch K root req w)))"
    using assms(1) False unfolding dispatch_def
    by (simp add: plain_ops split: prod.splits sum.splits)
  with assms(2) show ?thesis by (simp add: plain_response_marshal)
qed

text \<open>C6: Apart from GETXATTR, the answer the helper computes always fits one frame and is sent as
  it is, descriptor included: neither a long directory nor anything else the kernel returns
  turns it into an error or silence.\<close>

theorem reply_always_fits:
  assumes "rq_op req \<noteq> OpGetXattr"
    and "dispatch K root req w = ((resp, f), w')"
  shows "\<exists>b. reply resp f = Some (b, f) \<and> response_marshal resp = Inr b \<and> length b \<le> max_frame"
proof -
  obtain b where "response_marshal resp = Inr b" using dispatch_reply[OF assms] by blast
  then show ?thesis by (auto simp: reply_def response_marshal_enc split: if_splits)
qed

text \<open>A kernel in which every path is one directory with two files, for concrete runs.\<close>

definition sample_kernel :: "unit kernel" where
  "sample_kernel = \<lparr>
     k_openat2 = (\<lambda>r p fl m res w. (Inr 7, w)),
     k_mkdirat = (\<lambda>d b m w. (None, w)), k_fchmodat = (\<lambda>d b m w. (None, w)),
     k_unlinkat = (\<lambda>d b fl w. (None, w)), k_linkat = (\<lambda>d b d' b' w. (None, w)),
     k_renameat2 = (\<lambda>d b d' b' fl w. (None, w)), k_fstat = (\<lambda>f w. (Inl (Errno EIO), w)),
     k_fstatat = (\<lambda>f n fl w. (Inl (Errno EIO), w)), k_fsetxattr = (\<lambda>f n v w. (None, w)),
     k_fgetxattr_size = (\<lambda>f n w. (Inr 0, w)), k_fgetxattr = (\<lambda>f n z w. (Inr [], w)),
     k_readdir = (\<lambda>f w. (Inr [(''b'', 0), (''a'', 0)], w)), k_close = (\<lambda>f w. w) \<rparr>"

definition sample_listing :: request where
  "sample_listing = \<lparr>rq_id = 5, rq_op = OpReadDir, rq_flags = 0, rq_mode = 0, rq_path = ''docs'',
     rq_path2 = [], rq_name = [], rq_value = []\<rparr>"

definition sample_answer :: response where
  "sample_answer = \<lparr>rs_id = 5, rs_has = HasEntries, rs_errno = 0, rs_stat = None,
     rs_entries = [\<lparr>de_name = ''a'', de_type = 8, de_stat = None\<rparr>,
                   \<lparr>de_name = ''b'', de_type = 8, de_stat = None\<rparr>], rs_value = []\<rparr>"

lemma reply_always_fits_witness:
  "\<exists>b. dispatch sample_kernel 3 sample_listing () = ((sample_answer, None), ()) \<and>
       reply sample_answer None = Some (b, None) \<and> length b \<le> max_frame"
proof -
  have op: "rq_op sample_listing \<noteq> OpGetXattr" by (simp add: sample_listing_def)
  have d: "dispatch sample_kernel 3 sample_listing () = ((sample_answer, None), ())"
    by (simp add: dispatch_def read_dir_def resolve_path_def sample_kernel_def sample_listing_def
        sample_answer_def empty_response_def max_frame_def headroom_def Let_def dirent_type_def
        less_eq_char_def)
  from reply_always_fits[OF op d] d show ?thesis by blast
qed

text \<open>
  GETXATTR is the exception: a value longer than the frame leaves room for is answered with
  EOVERFLOW instead.
\<close>

lemma get_xattr_overflow:
  assumes "max_frame - 17 < length v" and "length v < 2 ^ 32"
  shows "reply ((empty_response i)\<lparr>rs_has := HasValue, rs_value := v\<rparr>) None =
    Some (enc_response ((empty_response i)\<lparr>rs_errno := EOVERFLOW\<rparr>), None)"
proof -
  let ?r = "(empty_response i)\<lparr>rs_has := HasValue, rs_value := v\<rparr>"
  have "has_written ?r AND HasEntries = 0" "has_written ?r AND HasValue \<noteq> 0"
    by (simp_all add: has_written_def empty_response_def)
  then have "length (enc_response ?r) = 17 + length v"
    by (simp add: enc_response_def enc_bytes_def empty_response_def)
  with assms(1) have big: "max_frame < length (enc_response ?r)" by (simp add: max_frame_def)
  have "fields_fit ?r" using assms(2) by (simp add: fields_fit_def empty_response_def)
  moreover have "rs_has ?r AND NOT has_known = 0" by (simp add: has_known_def)
  ultimately have 1: "response_marshal ?r = Inl ErrTooLarge" using big by (simp add: response_marshal_enc)
  let ?e = "(empty_response i)\<lparr>rs_errno := EOVERFLOW\<rparr>"
  obtain b where b: "response_marshal ?e = Inr b" using plain_response_marshal[of ?e] by auto
  then have "b = enc_response ?e" by (simp add: response_marshal_enc split: if_splits)
  with 1 b show ?thesis by (simp add: reply_def) (simp add: empty_response_def)
qed


end
