(* ===== verification/GoTime.thy ===== *)
theory GoTime
  imports GoStrings
begin

text \<open>
  The part of Go's package \<^verbatim>\<open>time\<close> the program prints: the civil date and time of an instant
  in UTC, and the layouts it formats with. An instant counts nanoseconds from
  0001-01-01T00:00:00Z, as in the prelude.
\<close>

definition day_seconds :: int where "day_seconds = 86400"

text \<open>
  The proleptic Gregorian date of a day number (day 0 is 0001-01-01), counting years from
  March: \<open>doe\<close> is the day of the 400-year era, \<open>yoe\<close> its year, \<open>doy\<close> the day of the year.
\<close>

definition civil_of_days :: "int \<Rightarrow> int \<times> int \<times> int" where
  "civil_of_days n =
     (let z = n + 306;
          era = z div 146097;
          doe = z mod 146097;
          yoe = (doe - doe div 1460 + doe div 36524 - doe div 146096) div 365;
          doy = doe - (365 * yoe + yoe div 4 - yoe div 100);
          mp = (5 * doy + 2) div 153;
          d = doy - (153 * mp + 2) div 5 + 1;
          m = (if mp < 10 then mp + 3 else mp - 9);
          y = yoe + era * 400 + (if m \<le> 2 then 1 else 0)
      in (y, m, d))"

text \<open>A number with at least \<open>n\<close> digits.\<close>

definition pad_nat :: "nat \<Rightarrow> nat \<Rightarrow> string" where
  "pad_nat n v = (let s = format_nat v in replicate (n - length s) CHR ''0'' @ s)"

definition date_string :: "time \<Rightarrow> string" where
  "date_string t =
     (case civil_of_days (t div 1000000000 div day_seconds) of (y, m, d) \<Rightarrow>
        pad_nat 4 (nat y) @ ''-'' @ pad_nat 2 (nat m) @ ''-'' @ pad_nat 2 (nat d))"

definition clock_string :: "char \<Rightarrow> time \<Rightarrow> string" where
  "clock_string c t =
     (let s = nat (t div 1000000000 mod day_seconds)
      in pad_nat 2 (s div 3600) @ [c] @ pad_nat 2 (s div 60 mod 60) @ [c] @ pad_nat 2 (s mod 60))"

text \<open>\<^verbatim>\<open>Format("2006-01-02T15-04-05")\<close> and \<^verbatim>\<open>Format(time.RFC3339)\<close> in UTC.\<close>

definition format_stamp :: "time \<Rightarrow> string" where
  "format_stamp t = date_string t @ ''T'' @ clock_string CHR ''-'' t"

definition format_rfc3339 :: "time \<Rightarrow> string" where
  "format_rfc3339 t = date_string t @ ''T'' @ clock_string CHR '':'' t @ ''Z''"

definition digit_char :: "char \<Rightarrow> bool" where
  "digit_char c \<longleftrightarrow> 48 \<le> (of_char c :: nat) \<and> of_char c < (58 :: nat)"

lemma pad_nat_digits: "c \<in> set (pad_nat n v) \<Longrightarrow> digit_char c"
  by (auto simp: pad_nat_def Let_def digit_char_def dest: format_nat_digits)

lemma pad_nat_not_Nil [simp]: "pad_nat n v \<noteq> []"
  by (simp add: pad_nat_def Let_def)

text \<open>The stamp of the trash has neither a colon nor a slash.\<close>

lemma format_stamp_chars:
  "c \<in> set (format_stamp t) \<Longrightarrow> digit_char c \<or> c = CHR ''-'' \<or> c = CHR ''T''"
  by (auto simp: format_stamp_def date_string_def clock_string_def Let_def
      split: prod.splits dest: pad_nat_digits)

lemma format_stamp_safe [simp]:
  "CHR ''/'' \<notin> set (format_stamp t)" "CHR '':'' \<notin> set (format_stamp t)"
  using format_stamp_chars[of "CHR ''/''" t] format_stamp_chars[of "CHR '':''" t]
  by (auto simp: digit_char_def)

lemma format_stamp_head: "\<exists>c s. format_stamp t = c # s \<and> digit_char c"
proof -
  obtain y m d where "civil_of_days (t div 1000000000 div day_seconds) = (y, m, d)"
    by (metis prod.collapse)
  moreover obtain c s where "pad_nat 4 (nat y) = c # s" by (cases "pad_nat 4 (nat y)") auto
  moreover from this have "digit_char c" using pad_nat_digits[of c 4 "nat y"] by simp
  ultimately show ?thesis by (simp add: format_stamp_def date_string_def)
qed

end
