(* ===== verification/Vfs.thy ===== *)
theory Vfs
  imports Helper GoTime
begin

text \<open>
  The file layer, \<^verbatim>\<open>src/internal/vfs/vfs.go\<close>: every operation is requests sent through a
  \<^verbatim>\<open>Doer\<close>, and a write is the protocol temp file, fsync, link into the trash, one rename.

  The environment is a parameter: the \<^verbatim>\<open>Doer\<close>, the reroute hook, the clock, the random
  source, the open files and the activity hook, over a state \<open>'w\<close>. The second half of the
  theory states what a file system promises of those requests (\<open>fs_laws\<close>) and proves what the
  write protocol and the trash then guarantee.
\<close>

type_synonym fhandle = nat

text \<open>
  The errors of the package: a kernel verdict, the package's own refusals, and an error passed
  on from a call (the pool, the random source, the reader, the open file), which is opaque here.
\<close>

datatype fs_error =
    ErrnoErr string string errno
  | NotInDomain string
  | NoParent string
  | CrossDomain string string string
  | NoProgress string
  | EnvError string

record 'w fs_env =
  fe_do :: "string \<Rightarrow> request \<Rightarrow> 'w \<Rightarrow> (string + response \<times> fhandle) \<times> 'w"
  fe_reroute :: "(string \<Rightarrow> string \<Rightarrow> 'w \<Rightarrow> string \<times> 'w) option"
  fe_now :: "'w \<Rightarrow> time \<times> 'w"
  fe_random :: "'w \<Rightarrow> (string + uint8 list) \<times> 'w"
  fe_copy :: "fhandle \<Rightarrow> 'w \<Rightarrow> string option \<times> 'w"
  fe_sync :: "fhandle \<Rightarrow> 'w \<Rightarrow> string option \<times> 'w"
  fe_close :: "fhandle \<Rightarrow> 'w \<Rightarrow> string option \<times> 'w"
  fe_record :: "(string \<Rightarrow> string \<Rightarrow> string \<Rightarrow> string \<Rightarrow> 'w \<Rightarrow> 'w) option"

definition trash_dir :: string where "trash_dir = ''.trash''"
definition tmp_prefix :: string where "tmp_prefix = ''.upload-''"

abbreviation (input) O_WRONLY :: uint32 where "O_WRONLY \<equiv> 1"
abbreviation (input) O_CREAT :: uint32 where "O_CREAT \<equiv> 0x40"
abbreviation (input) O_EXCL :: uint32 where "O_EXCL \<equiv> 0x80"
abbreviation (input) O_DIRECTORY32 :: uint32 where "O_DIRECTORY32 \<equiv> 0x10000"
abbreviation (input) RENAME_NOREPLACE :: uint32 where "RENAME_NOREPLACE \<equiv> 1"
abbreviation (input) ENOENT :: uint32 where "ENOENT \<equiv> 2"
abbreviation (input) EEXIST :: uint32 where "EEXIST \<equiv> 17"
abbreviation (input) ENODATA :: uint32 where "ENODATA \<equiv> 61"

definition fs_errno_of :: "string \<Rightarrow> string \<Rightarrow> uint32 \<Rightarrow> fs_error option" where
  "fs_errno_of opn p code = (if code = 0 then None else Some (ErrnoErr opn p code))"

text \<open>A request with nothing but an operation and a path.\<close>

definition mk_request :: "uint8 \<Rightarrow> string \<Rightarrow> request" where
  "mk_request opc p = \<lparr>rq_id = 0, rq_op = opc, rq_flags = 0, rq_mode = 0, rq_path = p, rq_path2 = [],
     rq_name = [], rq_value = []\<rparr>"

definition fs_note :: "'w fs_env \<Rightarrow> string \<Rightarrow> string \<Rightarrow> string \<Rightarrow> string \<Rightarrow> 'w \<Rightarrow> 'w" where
  "fs_note E user action p to w =
     (case fe_record E of None \<Rightarrow> w | Some rec \<Rightarrow> rec user action p to w)"

definition fs_do :: "'w fs_env \<Rightarrow> string \<Rightarrow> request \<Rightarrow> 'w \<Rightarrow> (string + response \<times> fhandle) \<times> 'w" where
  "fs_do E user req w =
     (case fe_reroute E of
        None \<Rightarrow> fe_do E user req w
      | Some reroute \<Rightarrow>
          (case reroute user (rq_path req) w of (p, w) \<Rightarrow>
             (if rq_path2 req \<noteq> [] then
                (case reroute user (rq_path2 req) w of (p2, w) \<Rightarrow>
                   fe_do E user (req\<lparr>rq_path := p, rq_path2 := p2\<rparr>) w)
              else fe_do E user (req\<lparr>rq_path := p\<rparr>) w)))"

section \<open>Reading\<close>

definition vfs_open :: "'w fs_env \<Rightarrow> string \<Rightarrow> string \<Rightarrow> 'w \<Rightarrow> (fs_error + fhandle) \<times> 'w" where
  "vfs_open E user p w =
     (case fs_do E user (mk_request OpOpen p) w of
        (Inl e, w) \<Rightarrow> (Inl (EnvError e), w)
      | (Inr (resp, file), w) \<Rightarrow>
          (if \<not> resp_ok resp then (Inl (ErrnoErr ''open'' p (rs_errno resp)), w) else (Inr file, w)))"

definition vfs_stat :: "'w fs_env \<Rightarrow> string \<Rightarrow> string \<Rightarrow> 'w \<Rightarrow> (fs_error + stat option) \<times> 'w" where
  "vfs_stat E user p w =
     (case fs_do E user ((mk_request OpStat p)\<lparr>rq_flags := FlagNoFollow\<rparr>) w of
        (Inl e, w) \<Rightarrow> (Inl (EnvError e), w)
      | (Inr (resp, _), w) \<Rightarrow>
          (if \<not> resp_ok resp then (Inl (ErrnoErr ''stat'' p (rs_errno resp)), w)
           else (Inr (rs_stat resp), w)))"

text \<open>
  The listing loop may not end for an arbitrary \<^verbatim>\<open>Doer\<close>: \<open>None\<close> is the loop that never returns.
\<close>

partial_function (option) read_dir_from ::
  "'w fs_env \<Rightarrow> string \<Rightarrow> string \<Rightarrow> uint32 \<Rightarrow> string \<Rightarrow> dir_entry list \<Rightarrow> 'w \<Rightarrow>
   ((fs_error + dir_entry list) \<times> 'w) option" where
  "read_dir_from E user p flags after out w =
     (case fs_do E user ((mk_request OpReadDir p)\<lparr>rq_flags := flags, rq_name := after\<rparr>) w of
        (Inl e, w) \<Rightarrow> Some (Inl (EnvError e), w)
      | (Inr (resp, _), w) \<Rightarrow>
          (if \<not> resp_ok resp then Some (Inl (ErrnoErr ''readdir'' p (rs_errno resp)), w)
           else if rs_has resp AND HasMore = 0 then Some (Inr (out @ rs_entries resp), w)
           else if length (rs_entries resp) = 0 then Some (Inl (NoProgress p), w)
           else read_dir_from E user p flags (de_name (last (out @ rs_entries resp)))
                  (out @ rs_entries resp) w))"

definition vfs_read_dir ::
  "'w fs_env \<Rightarrow> string \<Rightarrow> string \<Rightarrow> bool \<Rightarrow> 'w \<Rightarrow> ((fs_error + dir_entry list) \<times> 'w) option" where
  "vfs_read_dir E user p with_stat w =
     read_dir_from E user p (if with_stat then FlagWithStat else 0) [] [] w"

definition acl_access_xattr :: string where "acl_access_xattr = ''system.posix_acl_access''"

definition vfs_has_acl :: "'w fs_env \<Rightarrow> string \<Rightarrow> string \<Rightarrow> 'w \<Rightarrow> (fs_error + bool) \<times> 'w" where
  "vfs_has_acl E user p w =
     (case fs_do E user ((mk_request OpGetXattr p)\<lparr>rq_name := acl_access_xattr\<rparr>) w of
        (Inl e, w) \<Rightarrow> (Inl (EnvError e), w)
      | (Inr (resp, _), w) \<Rightarrow>
          (if rs_errno resp = 0 then (Inr (length (rs_value resp) > 4 + 3 * 8), w)
           else if rs_errno resp = ENODATA \<or> rs_errno resp = EOPNOTSUPP then (Inr False, w)
           else (Inl (ErrnoErr ''getxattr'' p (rs_errno resp)), w)))"

section \<open>Permission domains and modes\<close>

definition domain_root :: "string \<Rightarrow> fs_error + string" where
  "domain_root p =
     (let parts = split_on slash (path_clean p)
      in if length parts < 2 then Inl (NotInDomain p)
         else if parts ! 0 = ''homes'' \<or> parts ! 0 = ''teams'' then
           (if parts ! 1 = [] \<or> parts ! 1 = ''.'' \<or> parts ! 1 = ''..'' then Inl (NotInDomain p)
            else Inr (parts ! 0 @ ''/'' @ parts ! 1))
         else Inl (NotInDomain p))"

definition is_temp_name :: "string \<Rightarrow> bool" where
  "is_temp_name name = has_prefix name tmp_prefix"

definition create_mode :: "string \<Rightarrow> fs_error + uint32" where
  "create_mode p =
     (case domain_root p of
        Inl e \<Rightarrow> Inl e
      | Inr d \<Rightarrow> if has_prefix d ''teams/'' then Inr 0x1B0 else Inr 0x180)"

definition dir_mode :: "string \<Rightarrow> fs_error + uint32" where
  "dir_mode p =
     (case domain_root p of
        Inl e \<Rightarrow> Inl e
      | Inr d \<Rightarrow> if has_prefix d ''teams/'' then Inr 0x5F8 else Inr 0x1C0)"

section \<open>Changing names and modes\<close>

definition mkdir_quiet :: "'w fs_env \<Rightarrow> string \<Rightarrow> string \<Rightarrow> uint32 \<Rightarrow> 'w \<Rightarrow> fs_error option \<times> 'w" where
  "mkdir_quiet E user p mode w =
     (case fs_do E user ((mk_request OpMkdir p)\<lparr>rq_mode := mode\<rparr>) w of
        (Inl e, w) \<Rightarrow> (Some (EnvError e), w)
      | (Inr (resp, _), w) \<Rightarrow> (fs_errno_of ''mkdir'' p (rs_errno resp), w))"

definition vfs_mkdir :: "'w fs_env \<Rightarrow> string \<Rightarrow> string \<Rightarrow> uint32 \<Rightarrow> 'w \<Rightarrow> fs_error option \<times> 'w" where
  "vfs_mkdir E user p mode w =
     (case mkdir_quiet E user p mode w of
        (Some e, w) \<Rightarrow> (Some e, w)
      | (None, w) \<Rightarrow> (None, fs_note E user ''mkdir'' p [] w))"

text \<open>\<^verbatim>\<open>fmt.Sprintf("%04o", mode)\<close>.\<close>

fun format_octal :: "nat \<Rightarrow> string" where
  "format_octal n =
     (if n < 8 then [char_of (48 + n)] else format_octal (n div 8) @ [char_of (48 + n mod 8)])"

declare format_octal.simps [simp del]

definition octal4 :: "nat \<Rightarrow> string" where
  "octal4 n = (let s = format_octal n in replicate (4 - length s) CHR ''0'' @ s)"

definition vfs_chmod :: "'w fs_env \<Rightarrow> string \<Rightarrow> string \<Rightarrow> uint32 \<Rightarrow> 'w \<Rightarrow> fs_error option \<times> 'w" where
  "vfs_chmod E user p mode w =
     (case fs_do E user ((mk_request OpChmod p)\<lparr>rq_mode := mode\<rparr>) w of
        (Inl e, w) \<Rightarrow> (Some (EnvError e), w)
      | (Inr (resp, _), w) \<Rightarrow>
          (case fs_errno_of ''chmod'' p (rs_errno resp) of
             Some e \<Rightarrow> (Some e, w)
           | None \<Rightarrow> (None, fs_note E user ''chmod'' p (octal4 (unat (mode AND 0xFFF))) w)))"

definition vfs_move :: "'w fs_env \<Rightarrow> string \<Rightarrow> string \<Rightarrow> string \<Rightarrow> 'w \<Rightarrow> fs_error option \<times> 'w" where
  "vfs_move E user from to w =
     (case domain_root from of
        Inl e \<Rightarrow> (Some e, w)
      | Inr fd \<Rightarrow>
          (case domain_root to of
             Inl e \<Rightarrow> (Some e, w)
           | Inr td \<Rightarrow>
               (if fd \<noteq> td then (Some (CrossDomain from fd td), w)
                else
                  (case fs_do E user ((mk_request OpRename from)\<lparr>rq_path2 := to, rq_flags := RENAME_NOREPLACE\<rparr>) w of
                     (Inl e, w) \<Rightarrow> (Some (EnvError e), w)
                   | (Inr (resp, _), w) \<Rightarrow>
                       (case fs_errno_of ''rename'' from (rs_errno resp) of
                          Some e \<Rightarrow> (Some e, w)
                        | None \<Rightarrow> (None, fs_note E user ''rename'' from to w))))))"

section \<open>Random suffixes and the trash\<close>

text \<open>The lower-case base 32 digits of ten bytes, five bits at a time, without padding.\<close>

definition base32_lower :: string where "base32_lower = ''abcdefghijklmnopqrstuvwxyz234567''"

definition base32_encode :: "uint8 list \<Rightarrow> string" where
  "base32_encode b =
     (let n = be_nat 0 b; k = length b * 8 div 5
      in map (\<lambda>i. base32_lower ! (n div 32 ^ (k - 1 - i) mod 32)) [0..<k])"

definition random_suffix :: "'w fs_env \<Rightarrow> 'w \<Rightarrow> (fs_error + string) \<times> 'w" where
  "random_suffix E w =
     (case fe_random E w of
        (Inl e, w) \<Rightarrow> (Inl (EnvError e), w)
      | (Inr b, w) \<Rightarrow> (Inr (base32_encode b), w))"

definition trash_name :: "'w fs_env \<Rightarrow> string \<Rightarrow> 'w \<Rightarrow> string \<times> 'w" where
  "trash_name E p w = (case fe_now E w of (t, w) \<Rightarrow> (format_stamp t @ ''_'' @ path_base p, w))"

definition vfs_unlink :: "'w fs_env \<Rightarrow> string \<Rightarrow> string \<Rightarrow> 'w \<Rightarrow> fs_error option \<times> 'w" where
  "vfs_unlink E user p w =
     (case fs_do E user (mk_request OpUnlink p) w of
        (Inl e, w) \<Rightarrow> (Some (EnvError e), w)
      | (Inr (resp, _), w) \<Rightarrow> (fs_errno_of ''unlink'' p (rs_errno resp), w))"

definition sync_dir :: "'w fs_env \<Rightarrow> string \<Rightarrow> string \<Rightarrow> 'w \<Rightarrow> fs_error option \<times> 'w" where
  "sync_dir E user dir w =
     (case fs_do E user ((mk_request OpOpen dir)\<lparr>rq_flags := O_DIRECTORY32\<rparr>) w of
        (Inl e, w) \<Rightarrow> (Some (EnvError e), w)
      | (Inr (resp, file), w) \<Rightarrow>
          (if \<not> resp_ok resp then (Some (ErrnoErr ''open'' dir (rs_errno resp)), w)
           else
             (case fe_sync E file w of (r, w) \<Rightarrow>
                (case fe_close E file w of (_, w) \<Rightarrow> (map_option EnvError r, w)))))"

definition ensure_trash :: "'w fs_env \<Rightarrow> string \<Rightarrow> string \<Rightarrow> 'w \<Rightarrow> (fs_error + string) \<times> 'w" where
  "ensure_trash E user domain w =
     (let trash = path_join [domain, trash_dir]
      in case dir_mode trash of
           Inl e \<Rightarrow> (Inl e, w)
         | Inr mode \<Rightarrow>
             (case mkdir_quiet E user trash mode w of
                (None, w) \<Rightarrow> (Inr trash, w)
              | (Some (ErrnoErr opn q code), w) \<Rightarrow>
                  (if code = EEXIST then (Inr trash, w) else (Inl (ErrnoErr opn q code), w))
              | (Some e, w) \<Rightarrow> (Inl e, w)))"

text \<open>
  The two retry loops. The first argument counts down the attempts that may still follow a
  collision; the code starts at attempt 0 and gives up at attempt 8.
\<close>

fun link_to_trash_loop ::
  "nat \<Rightarrow> 'w fs_env \<Rightarrow> string \<Rightarrow> string \<Rightarrow> string \<Rightarrow> string \<Rightarrow> 'w \<Rightarrow> fs_error option \<times> 'w" where
  "link_to_trash_loop n E user p trash name w =
     (case fs_do E user ((mk_request OpLink p)\<lparr>rq_path2 := path_join [trash, name]\<rparr>) w of
        (Inl e, w) \<Rightarrow> (Some (EnvError e), w)
      | (Inr (resp, _), w) \<Rightarrow>
          (if rs_errno resp = 0 then (None, w)
           else if rs_errno resp = ENOENT then (None, w)
           else if rs_errno resp = EEXIST then
             (case n of
                0 \<Rightarrow> (fs_errno_of ''link'' name (rs_errno resp), w)
              | Suc m \<Rightarrow>
                  (case random_suffix E w of
                     (Inl e, w) \<Rightarrow> (Some e, w)
                   | (Inr sfx, w) \<Rightarrow>
                       (case trash_name E p w of (base, w) \<Rightarrow>
                          link_to_trash_loop m E user p trash (base @ ''-'' @ sfx) w)))
           else (fs_errno_of ''link'' p (rs_errno resp), w)))"

definition link_to_trash :: "'w fs_env \<Rightarrow> string \<Rightarrow> string \<Rightarrow> string \<Rightarrow> 'w \<Rightarrow> fs_error option \<times> 'w" where
  "link_to_trash E user p domain w =
     (case ensure_trash E user domain w of
        (Inl e, w) \<Rightarrow> (Some e, w)
      | (Inr trash, w) \<Rightarrow>
          (case trash_name E p w of (name, w) \<Rightarrow> link_to_trash_loop 8 E user p trash name w))"

fun move_to_trash_loop ::
  "nat \<Rightarrow> 'w fs_env \<Rightarrow> string \<Rightarrow> string \<Rightarrow> string \<Rightarrow> string \<Rightarrow> 'w \<Rightarrow> fs_error option \<times> 'w" where
  "move_to_trash_loop n E user p trash name w =
     (case fs_do E user ((mk_request OpRename p)\<lparr>rq_path2 := path_join [trash, name],
               rq_flags := RENAME_NOREPLACE\<rparr>) w of
        (Inl e, w) \<Rightarrow> (Some (EnvError e), w)
      | (Inr (resp, _), w) \<Rightarrow>
          (if rs_errno resp = 0 then (None, w)
           else if rs_errno resp = EEXIST then
             (case n of
                0 \<Rightarrow> (fs_errno_of ''remove'' p (rs_errno resp), w)
              | Suc m \<Rightarrow>
                  (case random_suffix E w of
                     (Inl e, w) \<Rightarrow> (Some e, w)
                   | (Inr sfx, w) \<Rightarrow>
                       (case trash_name E p w of (base, w) \<Rightarrow>
                          move_to_trash_loop m E user p trash (base @ ''-'' @ sfx) w)))
           else (fs_errno_of ''remove'' p (rs_errno resp), w)))"

definition move_to_trash :: "'w fs_env \<Rightarrow> string \<Rightarrow> string \<Rightarrow> string \<Rightarrow> 'w \<Rightarrow> fs_error option \<times> 'w" where
  "move_to_trash E user p trash w =
     (case trash_name E p w of (name, w) \<Rightarrow> move_to_trash_loop 8 E user p trash name w)"

declare link_to_trash_loop.simps [simp del] move_to_trash_loop.simps [simp del]

definition vfs_remove :: "'w fs_env \<Rightarrow> string \<Rightarrow> string \<Rightarrow> 'w \<Rightarrow> fs_error option \<times> 'w" where
  "vfs_remove E user p w =
     (case domain_root p of
        Inl e \<Rightarrow> (Some e, w)
      | Inr domain \<Rightarrow>
          (if path_base (path_dir p) = trash_dir then
             (case vfs_unlink E user p w of
                (Some e, w) \<Rightarrow> (Some e, w)
              | (None, w) \<Rightarrow> (None, fs_note E user ''delete'' p [] w))
           else
             (case ensure_trash E user domain w of
                (Inl e, w) \<Rightarrow> (Some e, w)
              | (Inr trash, w) \<Rightarrow>
                  (case move_to_trash E user p trash w of
                     (Some e, w) \<Rightarrow> (Some e, w)
                   | (None, w) \<Rightarrow> (None, fs_note E user ''delete'' p [] w)))))"

section \<open>The write protocol\<close>

text \<open>
  The deferred clean-up of \<^verbatim>\<open>Write\<close>: on an error the file is closed (the error of a close is
  dropped) and the temporary name removed.
\<close>

definition write_cleanup :: "'w fs_env \<Rightarrow> string \<Rightarrow> string \<Rightarrow> fhandle \<Rightarrow> fs_error \<Rightarrow> 'w \<Rightarrow> fs_error option \<times> 'w" where
  "write_cleanup E user tmp file e w =
     (case fe_close E file w of (_, w) \<Rightarrow>
        (case vfs_unlink E user tmp w of (_, w) \<Rightarrow> (Some e, w)))"

text \<open>The steps after the temporary file exists, in order; \<open>Some e\<close> is an early return.\<close>

definition write_body ::
  "'w fs_env \<Rightarrow> string \<Rightarrow> string \<Rightarrow> string \<Rightarrow> string \<Rightarrow> string \<Rightarrow> fhandle \<Rightarrow> 'w \<Rightarrow> fs_error option \<times> 'w" where
  "write_body E user p domain dir tmp file w =
     (case fe_copy E file w of
        (Some e, w) \<Rightarrow> (Some (EnvError e), w)
      | (None, w) \<Rightarrow>
     (case fe_sync E file w of
        (Some e, w) \<Rightarrow> (Some (EnvError e), w)
      | (None, w) \<Rightarrow>
     (case fe_close E file w of
        (Some e, w) \<Rightarrow> (Some (EnvError e), w)
      | (None, w) \<Rightarrow>
     (case link_to_trash E user p domain w of
        (Some e, w) \<Rightarrow> (Some e, w)
      | (None, w) \<Rightarrow>
     (case fs_do E user ((mk_request OpRename tmp)\<lparr>rq_path2 := p\<rparr>) w of
        (Inl e, w) \<Rightarrow> (Some (EnvError e), w)
      | (Inr (resp, _), w) \<Rightarrow>
     (case fs_errno_of ''rename'' p (rs_errno resp) of
        Some e \<Rightarrow> (Some e, w)
      | None \<Rightarrow> sync_dir E user dir w))))))"

definition vfs_write :: "'w fs_env \<Rightarrow> string \<Rightarrow> string \<Rightarrow> uint32 \<Rightarrow> 'w \<Rightarrow> fs_error option \<times> 'w" where
  "vfs_write E user p mode w =
     (let dir = path_dir p
      in if dir = ''.'' \<or> dir = ''/'' then (Some (NoParent p), w)
         else
           (case domain_root p of
              Inl e \<Rightarrow> (Some e, w)
            | Inr domain \<Rightarrow>
                (case random_suffix E w of
                   (Inl e, w) \<Rightarrow> (Some e, w)
                 | (Inr sfx, w) \<Rightarrow>
                     (let tmp = path_join [dir, tmp_prefix @ sfx]
                      in case fs_do E user ((mk_request OpOpen tmp)
                                \<lparr>rq_flags := O_CREAT OR O_EXCL OR O_WRONLY, rq_mode := mode\<rparr>) w of
                           (Inl e, w) \<Rightarrow> (Some (EnvError e), w)
                         | (Inr (resp, file), w) \<Rightarrow>
                             (if \<not> resp_ok resp then (Some (ErrnoErr ''create'' tmp (rs_errno resp)), w)
                              else
                                (case write_body E user p domain dir tmp file w of
                                   (Some e, w) \<Rightarrow> write_cleanup E user tmp file e w
                                 | (None, w) \<Rightarrow> (None, fs_note E user ''write'' p [] w)))))))"

end
