(* ===== verification/WriteProtocol.thy ===== *)
theory WriteProtocol
  imports Vfs
begin

text \<open>
  What a file system promises of the requests of \<open>Vfs\<close> (\<open>fs_laws\<close>), and what the write
  protocol and the trash guarantee on top of it. A name is a list of plain components and
  \<open>ino w\<close> gives the file each name leads to; the promises are those of link(2), rename(2),
  unlink(2), mkdir(2) and open(2), for one actor.
\<close>

type_synonym names = "string list \<Rightarrow> nat option"

definition plain_path :: "string list \<Rightarrow> bool" where
  "plain_path cs \<longleftrightarrow> cs \<noteq> [] \<and> list_all plain_name cs"

lemma plain_pathD: "plain_path cs \<Longrightarrow> cs \<noteq> []" "plain_path cs \<Longrightarrow> list_all plain_name cs"
  by (simp_all add: plain_path_def)

definition rename_effect :: "string list \<Rightarrow> string list \<Rightarrow> names \<Rightarrow> names \<Rightarrow> bool" where
  "rename_effect a b m m' \<longleftrightarrow>
     m a \<noteq> None \<and>
     (if m a = m b then m' = m
      else m' a = None \<and> m' b = m a \<and> (\<forall>q. \<not> prefix a q \<and> \<not> prefix b q \<longrightarrow> m' q = m q))"

definition req_effect :: "request \<Rightarrow> string list \<Rightarrow> string list \<Rightarrow> names \<Rightarrow> names \<Rightarrow> bool" where
  "req_effect r a b m m' \<longleftrightarrow>
     (if rq_op r = OpLink then m b = None \<and> m a \<noteq> None \<and> m' = m(b := m a)
      else if rq_op r = OpRename then
        (rq_flags r AND RENAME_NOREPLACE \<noteq> 0 \<longrightarrow> m b = None) \<and> rename_effect a b m m'
      else if rq_op r = OpUnlink then m a \<noteq> None \<and> m' = m(a := None)
      else if rq_op r = OpMkdir then m a = None \<and> (\<exists>i. m' = m(a \<mapsto> i))
      else if rq_op r = OpOpen \<and> rq_flags r AND O_CREAT \<noteq> 0 \<and> rq_flags r AND O_EXCL \<noteq> 0 then
        m a = None \<and> (\<exists>i. i \<notin> ran m \<and> m' = m(a \<mapsto> i))
      else if rq_op r = OpOpen \<and> rq_flags r AND O_CREAT \<noteq> 0 then True
      else m' = m)"

definition outcome_ok :: "request \<Rightarrow> string list \<Rightarrow> string list \<Rightarrow> string + response \<times> fhandle \<Rightarrow>
    names \<Rightarrow> names \<Rightarrow> bool" where
  "outcome_ok r a b x m m' \<longleftrightarrow>
     (case x of
        Inl _ \<Rightarrow> m' = m \<or> req_effect r a b m m'
      | Inr (resp, _) \<Rightarrow>
          (if rs_errno resp = 0 then req_effect r a b m m'
           else m' = m \<and>
             (rq_op r = OpLink \<and> rs_errno resp = ENOENT \<longrightarrow> m a = None \<or> m (butlast b) = None) \<and>
             (rq_op r = OpMkdir \<and> rs_errno resp = EEXIST \<longrightarrow> m a \<noteq> None)))"

definition fs_laws :: "('w \<Rightarrow> names) \<Rightarrow> 'w fs_env \<Rightarrow> bool" where
  "fs_laws ino E \<longleftrightarrow>
     (\<forall>user req a b w x w'.
        fe_do E user req w = (x, w') \<and> rq_path req = rel_path a \<and> plain_path a \<and>
        rq_path2 req = rel_path b \<and> (b = [] \<or> plain_path b) \<longrightarrow>
        outcome_ok req a b x (ino w) (ino w')) \<and>
     (\<forall>w. ino (snd (fe_now E w)) = ino w) \<and> (\<forall>w. ino (snd (fe_random E w)) = ino w) \<and>
     (\<forall>f w. ino (snd (fe_copy E f w)) = ino w) \<and> (\<forall>f w. ino (snd (fe_sync E f w)) = ino w) \<and>
     (\<forall>f w. ino (snd (fe_close E f w)) = ino w) \<and>
     (\<forall>rec user act p to w. fe_record E = Some rec \<longrightarrow> ino (rec user act p to w) = ino w) \<and>
     fe_reroute E = None"

lemma fs_lawsD:
  assumes "fs_laws ino E"
  shows "fe_do E user req w = (x, w') \<Longrightarrow> rq_path req = rel_path a \<Longrightarrow> plain_path a \<Longrightarrow>
      rq_path2 req = rel_path b \<Longrightarrow> b = [] \<or> plain_path b \<Longrightarrow> outcome_ok req a b x (ino w) (ino w')"
    and "fe_now E w = (t, w') \<Longrightarrow> ino w' = ino w"
    and "fe_random E w = (y, w') \<Longrightarrow> ino w' = ino w"
    and "fe_copy E f w = (z, w') \<Longrightarrow> ino w' = ino w"
    and "fe_sync E f w = (z, w') \<Longrightarrow> ino w' = ino w"
    and "fe_close E f w = (z, w') \<Longrightarrow> ino w' = ino w"
    and "fe_record E = Some rec \<Longrightarrow> ino (rec user act p to w) = ino w"
  using assms unfolding fs_laws_def by - (metis, (metis snd_conv)+)

text \<open>An environment that also records the names after every request.\<close>

definition observed :: "('w \<Rightarrow> names) \<Rightarrow> 'w fs_env \<Rightarrow> ('w \<times> names list) fs_env" where
  "observed ino E = \<lparr>
     fe_do = (\<lambda>user req (w, h). case fe_do E user req w of (x, w) \<Rightarrow> (x, (w, h @ [ino w]))),
     fe_reroute = None,
     fe_now = (\<lambda>(w, h). case fe_now E w of (t, w) \<Rightarrow> (t, (w, h))),
     fe_random = (\<lambda>(w, h). case fe_random E w of (t, w) \<Rightarrow> (t, (w, h))),
     fe_copy = (\<lambda>f (w, h). case fe_copy E f w of (t, w) \<Rightarrow> (t, (w, h))),
     fe_sync = (\<lambda>f (w, h). case fe_sync E f w of (t, w) \<Rightarrow> (t, (w, h))),
     fe_close = (\<lambda>f (w, h). case fe_close E f w of (t, w) \<Rightarrow> (t, (w, h))),
     fe_record = map_option (\<lambda>rec user act p to (w, h). (rec user act p to w, h)) (fe_record E) \<rparr>"

definition ino_of :: "('w \<Rightarrow> names) \<Rightarrow> 'w \<times> names list \<Rightarrow> names" where
  "ino_of ino wh = ino (fst wh)"

section \<open>One step\<close>

text \<open>
  A state of the monitored run: every state so far satisfied \<open>safe\<close>, and the present one
  satisfies the stronger \<open>phase\<close>.
\<close>

definition at_phase :: "(names \<Rightarrow> bool) \<Rightarrow> (names \<Rightarrow> bool) \<Rightarrow> ('w \<Rightarrow> names) \<Rightarrow> 'w \<times> names list \<Rightarrow> bool" where
  "at_phase safe phase ino wh \<longleftrightarrow> (\<forall>m \<in> set (snd wh). safe m) \<and> phase (ino (fst wh))"

lemma at_phaseD: "at_phase safe phase ino wh \<Longrightarrow> phase (ino (fst wh))"
  "at_phase safe phase ino wh \<Longrightarrow> m \<in> set (snd wh) \<Longrightarrow> safe m"
  by (auto simp: at_phase_def)

lemma at_phase_mono: "at_phase safe P ino wh \<Longrightarrow> (\<And>m. P m \<Longrightarrow> Q m) \<Longrightarrow> at_phase safe Q ino wh"
  by (auto simp: at_phase_def)

lemma fs_do_step:
  assumes laws: "fs_laws ino E"
    and d: "fs_do (observed ino E) user req wh = (x, wh')"
    and ph: "at_phase safe P ino wh"
    and a: "rq_path req = rel_path a" "plain_path a" "rq_path2 req = rel_path b" "b = [] \<or> plain_path b"
    and Q: "\<And>m m'. P m \<Longrightarrow> outcome_ok req a b x m m' \<Longrightarrow> Q m' \<and> safe m'"
  shows "at_phase safe Q ino wh'"
proof -
  obtain w h where wh: "wh = (w, h)" by (cases wh)
  obtain v where v: "fe_do E user req w = (x, v)" "wh' = (v, h @ [ino v])"
    using d wh by (auto simp: fs_do_def observed_def split: prod.splits)
  have "outcome_ok req a b x (ino w) (ino v)"
    using fs_lawsD(1)[OF laws v(1) a] .
  with Q[of "ino w" "ino v"] ph wh v show ?thesis by (auto simp: at_phase_def)
qed

lemma env_step:
  assumes laws: "fs_laws ino E" and ph: "at_phase safe P ino wh"
  shows "fe_now (observed ino E) wh = (t, wh') \<Longrightarrow> at_phase safe P ino wh'"
    "fe_random (observed ino E) wh = (y, wh') \<Longrightarrow> at_phase safe P ino wh'"
    "fe_copy (observed ino E) f wh = (z, wh') \<Longrightarrow> at_phase safe P ino wh'"
    "fe_sync (observed ino E) f wh = (z, wh') \<Longrightarrow> at_phase safe P ino wh'"
    "fe_close (observed ino E) f wh = (z, wh') \<Longrightarrow> at_phase safe P ino wh'"
    "at_phase safe P ino (fs_note (observed ino E) user act p to wh)"
  using ph fs_lawsD[OF laws]
  by (cases wh, auto simp: observed_def at_phase_def fs_note_def split: prod.splits option.splits)+

section \<open>Names of the trash and of uploads\<close>

lemma plain_name_append: "plain_name (c # s) \<Longrightarrow> slash \<notin> set t \<Longrightarrow> c \<noteq> CHR ''.'' \<Longrightarrow> plain_name (c # s @ t)"
  by (auto simp: plain_name_def)

lemma plain_stamp:
  assumes "slash \<notin> set s" shows "plain_name (format_stamp t @ s)"
proof -
  obtain c r where c: "format_stamp t = c # r" "digit_char c" using format_stamp_head by blast
  moreover have "slash \<notin> set (c # r)" using c format_stamp_safe(1)[of t] by metis
  moreover have "\<not> digit_char CHR ''.''" by (simp add: digit_char_def)
  ultimately show ?thesis using assms by (auto simp: plain_name_def)
qed

lemma base32_safe: "slash \<notin> set (base32_encode b)"
proof -
  have "base32_lower ! (n mod 32) \<in> set base32_lower" for n
    by (rule nth_mem) (simp add: base32_lower_def)
  moreover have "slash \<notin> set base32_lower" by (simp add: base32_lower_def)
  ultimately show ?thesis by (auto simp: base32_encode_def Let_def)
qed

lemma plain_tmp: "slash \<notin> set s \<Longrightarrow> plain_name (tmp_prefix @ s)"
  by (simp add: plain_name_def tmp_prefix_def)

lemma plain_trash [simp]: "plain_name trash_dir"
  by (simp add: plain_name_def trash_dir_def)

lemma random_suffix_plain: "random_suffix E w = (Inr s, w') \<Longrightarrow> slash \<notin> set s"
  by (auto simp: random_suffix_def base32_safe split: prod.splits sum.splits)

lemma trash_name_plain:
  "trash_name E p w = (n, w') \<Longrightarrow> slash \<notin> set (path_base p) \<Longrightarrow> slash \<notin> set s \<Longrightarrow> plain_name (n @ s)"
  by (auto simp: trash_name_def intro!: plain_stamp split: prod.splits)


section \<open>The trash directory\<close>

text \<open>The trash of the domain \<open>d/o\<close>, and an old version kept in it under another name than \<open>P\<close>.\<close>

definition trash_of :: "string \<Rightarrow> string \<Rightarrow> string list" where
  "trash_of d own = [d, own, trash_dir]"

definition domain_name :: "string \<Rightarrow> string \<Rightarrow> bool" where
  "domain_name d own \<longleftrightarrow> (d = ''homes'' \<or> d = ''teams'') \<and> plain_name own"

definition kept :: "string list \<Rightarrow> string list \<Rightarrow> nat \<Rightarrow> names \<Rightarrow> bool" where
  "kept T P old m \<longleftrightarrow> (\<exists>n. plain_name n \<and> T @ [n] \<noteq> P \<and> m (T @ [n]) = Some old)"

lemma domain_name_plain: "domain_name d own \<Longrightarrow> plain_name d \<and> plain_name own"
  by (auto simp: domain_name_def plain_name_def)

lemma plain_trash_of: "domain_name d own \<Longrightarrow> plain_path (trash_of d own)"
  by (auto simp: trash_of_def plain_path_def dest: domain_name_plain)

lemma domain_root_rel_path:
  assumes "domain_name d own" and "list_all plain_name cs"
  shows "domain_root (rel_path (d # own # cs)) = Inr (rel_path [d, own])"
proof -
  have "list_all plain_name (d # own # cs)" using assms domain_name_plain by simp
  then have "split_on slash (path_clean (rel_path (d # own # cs))) = d # own # cs"
    by (simp add: split_rel_path)
  then show ?thesis using assms(1)
    by (auto simp: domain_root_def Let_def domain_name_def plain_name_def) (simp_all add: rel_path_def)
qed

lemma trash_path: "domain_name d own \<Longrightarrow> path_join [rel_path [d, own], trash_dir] = rel_path (trash_of d own)"
  using path_join_rel_path[of "[d, own]" trash_dir] domain_name_plain[of d own]
  by (simp add: trash_of_def)

lemma dir_mode_trash: "domain_name d own \<Longrightarrow> \<exists>mode. dir_mode (rel_path (trash_of d own)) = Inr mode"
  using domain_root_rel_path[of d own "[trash_dir]"] by (simp add: dir_mode_def trash_of_def)

lemma req_simps [simp]:
  "rq_op (mk_request opc p) = opc" "rq_path (mk_request opc p) = p" "rq_path2 (mk_request opc p) = []"
  "rq_flags (mk_request opc p) = 0"
  by (simp_all add: mk_request_def)

lemma ensure_trash_step:
  assumes laws: "fs_laws ino E" and dn: "domain_name d own"
    and e: "ensure_trash (observed ino E) user (rel_path [d, own]) wh = (y, wh')"
    and ph: "at_phase safe Q ino wh"
    and Q: "\<And>m. Q m \<Longrightarrow> safe m"
    and stable: "\<And>m i. Q m \<Longrightarrow> m (trash_of d own) = None \<Longrightarrow> Q (m(trash_of d own \<mapsto> i))"
  shows "(\<exists>err. y = Inl err) \<and> at_phase safe Q ino wh' \<or>
    y = Inr (rel_path (trash_of d own)) \<and> at_phase safe (\<lambda>m. Q m \<and> m (trash_of d own) \<noteq> None) ino wh'"
proof -
  let ?T = "trash_of d own"
  obtain mode where mode: "dir_mode (rel_path ?T) = Inr mode" using dir_mode_trash[OF dn] by blast
  let ?req = "(mk_request OpMkdir (rel_path ?T))\<lparr>rq_mode := mode\<rparr>"
  obtain x v where x: "fs_do (observed ino E) user ?req wh = (x, v)" by (metis prod.collapse)
  have step: "at_phase safe R ino v"
    if "\<And>m m'. Q m \<Longrightarrow> outcome_ok ?req ?T [] x m m' \<Longrightarrow> R m' \<and> safe m'" for R
    by (rule fs_do_step[OF laws x ph _ _ _ _ that]) (use plain_trash_of[OF dn] in simp_all)
  have eff: "Q m \<Longrightarrow> req_effect ?req ?T [] m m' \<Longrightarrow> Q m' \<and> m' ?T \<noteq> None" for m m'
    using stable by (auto simp: req_effect_def)
  show ?thesis
  proof (cases x)
    case (Inl err)
    have "at_phase safe Q ino v"
      by (rule step) (use Inl eff Q in \<open>auto simp: outcome_ok_def\<close>)
    with e x Inl mode dn show ?thesis
      by (cases err) (auto simp: ensure_trash_def trash_path mkdir_quiet_def Let_def split: if_splits)
  next
    case (Inr rf)
    then obtain resp f where rf: "x = Inr (resp, f)" by (cases rf) auto
    show ?thesis
    proof (cases "rs_errno resp = 0 \<or> rs_errno resp = EEXIST")
      case True
      have "at_phase safe (\<lambda>m. Q m \<and> m ?T \<noteq> None) ino v"
        by (rule step) (use rf True eff Q in \<open>auto simp: outcome_ok_def\<close>)
      with True e x rf mode dn show ?thesis
        by (auto simp: ensure_trash_def trash_path mkdir_quiet_def fs_errno_of_def)
    next
      case False
      have "at_phase safe Q ino v"
        by (rule step) (use rf False Q in \<open>auto simp: outcome_ok_def\<close>)
      with False e x rf mode dn show ?thesis
        by (auto simp: ensure_trash_def trash_path mkdir_quiet_def fs_errno_of_def)
    qed
  qed
qed

lemma path_base_plain:
  "plain_path P \<Longrightarrow> slash \<notin> set (path_base (rel_path P))"
proof -
  assume "plain_path P"
  then obtain cs b where "P = cs @ [b]" "plain_name b"
    by (cases P rule: rev_cases) (auto simp: plain_path_def)
  then show ?thesis by (simp add: plain_name_def)
qed

lemma random_suffix_step:
  assumes "fs_laws ino E" "at_phase safe Q ino wh" "random_suffix (observed ino E) wh = (y, wh')"
  shows "at_phase safe Q ino wh'"
proof -
  obtain t v where "fe_random (observed ino E) wh = (t, v)" by (metis prod.collapse)
  with env_step(2)[OF assms(1,2) this] assms(3) show ?thesis
    by (auto simp: random_suffix_def split: sum.splits)
qed

lemma trash_name_step:
  assumes "fs_laws ino E" "at_phase safe Q ino wh" "trash_name (observed ino E) p wh = (y, wh')"
  shows "at_phase safe Q ino wh'"
proof -
  obtain t v where "fe_now (observed ino E) wh = (t, v)" by (metis prod.collapse)
  with env_step(1)[OF assms(1,2) this] assms(3) show ?thesis
    by (auto simp: trash_name_def)
qed

lemma link_loop_step:
  assumes laws: "fs_laws ino E" and dn: "domain_name d own" and P: "plain_path P"
    and Q: "\<And>m. Q m \<Longrightarrow> safe m \<and> m P = Some old \<and> m (trash_of d own) \<noteq> None"
    and stable: "\<And>m n. Q m \<Longrightarrow> m (trash_of d own @ [n]) = None \<Longrightarrow>
        Q (m(trash_of d own @ [n] := m P))"
    and l: "link_to_trash_loop k (observed ino E) user (rel_path P) (rel_path (trash_of d own)) name wh = (r, wh')"
    and name: "plain_name name" and ph: "at_phase safe Q ino wh"
  shows "at_phase safe Q ino wh' \<and> (r = None \<longrightarrow> at_phase safe (\<lambda>m. Q m \<and> kept (trash_of d own) P old m) ino wh')"
  using l name ph
proof (induction k arbitrary: name wh rule: less_induct)
  case (less k name wh)
  note l = less.prems(1) and n = less.prems(2) and ph = less.prems(3) and IH = less.IH
  have base: "slash \<notin> set (path_base (rel_path P))" by (rule path_base_plain[OF P])
  let ?T = "trash_of d own"
  show ?case
  proof -
    have T: "plain_path ?T" "plain_path (?T @ [name])"
      using plain_trash_of[OF dn] n by (auto simp: plain_path_def)
    have j: "path_join [rel_path ?T, name] = rel_path (?T @ [name])"
      using T n by (simp add: plain_path_def)
    let ?req = "(mk_request OpLink (rel_path P))\<lparr>rq_path2 := rel_path (?T @ [name])\<rparr>"
    obtain x v where x: "fs_do (observed ino E) user ?req wh = (x, v)" by (metis prod.collapse)
    have step: "at_phase safe R ino v"
      if "\<And>m m'. Q m \<Longrightarrow> outcome_ok ?req P (?T @ [name]) x m m' \<Longrightarrow> R m' \<and> safe m'" for R
      by (rule fs_do_step[OF laws x ph _ _ _ _ that]) (use T P in simp_all)
    have eff: "Q m' \<and> kept ?T P old m' \<and> safe m'" if "Q m" "req_effect ?req P (?T @ [name]) m m'" for m m'
    proof -
      have m: "m P = Some old" "m (?T @ [name]) = None" "m' = m(?T @ [name] := m P)"
        using that Q by (auto simp: req_effect_def)
      then have "?T @ [name] \<noteq> P" by force
      with m have "kept ?T P old m'" using n by (auto simp: kept_def)
      with m stable[OF that(1) m(2)] Q show ?thesis by metis
    qed
    have failed: "at_phase safe Q ino v"
      by (rule step) (use eff Q in \<open>auto simp: outcome_ok_def split: sum.splits if_splits\<close>)
    show ?thesis
    proof (cases x)
      case (Inl e)
      with l x failed show ?thesis by (auto simp: link_to_trash_loop.simps j)
    next
      case (Inr rf)
      then obtain resp f where rf: "x = Inr (resp, f)" by (cases rf) auto
      consider "rs_errno resp = 0" | "rs_errno resp = ENOENT" | "rs_errno resp = EEXIST"
        | "rs_errno resp \<noteq> 0" "rs_errno resp \<noteq> ENOENT" "rs_errno resp \<noteq> EEXIST" by blast
      then show ?thesis
      proof cases
        case 1
        have "at_phase safe (\<lambda>m. Q m \<and> kept ?T P old m) ino v"
          by (rule step) (use rf 1 eff in \<open>auto simp: outcome_ok_def\<close>)
        with 1 l x rf failed show ?thesis by (auto simp: link_to_trash_loop.simps j)
      next
        case 2
        have "at_phase safe (\<lambda>m. False) ino v"
          by (rule step) (use rf 2 Q in \<open>fastforce simp: outcome_ok_def butlast_append\<close>)
        then show ?thesis by (simp add: at_phase_def)
      next
        case 3
        show ?thesis
        proof (cases k)
          case 0
          with 3 l x rf failed show ?thesis
            by (auto simp: link_to_trash_loop.simps j fs_errno_of_def)
        next
          case (Suc i)
          obtain y v1 where y: "random_suffix (observed ino E) v = (y, v1)" by (metis prod.collapse)
          have ph1: "at_phase safe Q ino v1" by (rule random_suffix_step[OF laws failed y])
          show ?thesis
          proof (cases y)
            case (Inl e)
            with 3 l x rf y Suc ph1 show ?thesis by (auto simp: link_to_trash_loop.simps j)
          next
            case (Inr sfx)
            obtain nm v2 where nm: "trash_name (observed ino E) (rel_path P) v1 = (nm, v2)"
              by (metis prod.collapse)
            have ph2: "at_phase safe Q ino v2" by (rule trash_name_step[OF laws ph1 nm])
            have "plain_name (nm @ ''-'' @ sfx)"
              using trash_name_plain[OF nm base] random_suffix_plain[of _ v sfx v1] y Inr by simp
            with IH[of i "nm @ ''-'' @ sfx" v2] ph2 3 l x rf y Suc Inr nm show ?thesis
              by (auto simp: link_to_trash_loop.simps j)
          qed
        qed
      next
        case 4
        with l x rf failed show ?thesis
          by (auto simp: link_to_trash_loop.simps j fs_errno_of_def)
      qed
    qed
  qed
qed


section \<open>The write protocol\<close>

text \<open>Throughout a write, the old version is at its name, or another is and the old one is kept.\<close>

definition never_lost :: "string list \<Rightarrow> string list \<Rightarrow> nat \<Rightarrow> names \<Rightarrow> bool" where
  "never_lost T P old m \<longleftrightarrow> m P = Some old \<or> (m P \<noteq> None \<and> kept T P old m)"

definition uploading :: "string list \<Rightarrow> string list \<Rightarrow> nat \<Rightarrow> names \<Rightarrow> bool" where
  "uploading P U old m \<longleftrightarrow> m P = Some old \<and> (\<exists>new. new \<noteq> old \<and> m U = Some new)"

definition replaced :: "string list \<Rightarrow> string list \<Rightarrow> string list \<Rightarrow> nat \<Rightarrow> names \<Rightarrow> bool" where
  "replaced T P U old m \<longleftrightarrow> (\<exists>new. new \<noteq> old \<and> m P = Some new) \<and> m U = None \<and> kept T P old m"

lemma never_lostI: "uploading P U old m \<Longrightarrow> never_lost T P old m" "replaced T P U old m \<Longrightarrow> never_lost T P old m"
  by (auto simp: never_lost_def uploading_def replaced_def)

lemma prefix_trash_entry:
  "prefix X (trash_of d own @ [n]) \<Longrightarrow> 3 \<le> length X \<Longrightarrow> X = trash_of d own \<or> X = trash_of d own @ [n]"
proof -
  assume "prefix X (trash_of d own @ [n])" and len: "3 \<le> length X"
  then consider "X = trash_of d own @ [n]" | "prefix X (trash_of d own)" by (auto simp: prefix_snoc)
  then show ?thesis
  proof cases
    case 2
    then have "length X = length (trash_of d own)"
      using len prefix_length_le[OF 2] by (simp add: trash_of_def)
    with 2 show ?thesis by (auto simp: prefix_def)
  qed simp
qed

text \<open>The name written and the temporary name beside it.\<close>

definition write_names :: "string \<Rightarrow> string \<Rightarrow> string list \<Rightarrow> string list \<Rightarrow> bool" where
  "write_names d own P U \<longleftrightarrow>
     domain_name d own \<and> P \<noteq> trash_of d own \<and>
     (\<exists>cs b s. P = [d, own] @ cs @ [b] \<and> U = [d, own] @ cs @ [tmp_prefix @ s] \<and>
        list_all plain_name (cs @ [b]) \<and> slash \<notin> set s)"

lemma write_names_plain:
  assumes "write_names d own P U" shows "plain_path P" "plain_path U" "domain_name d own"
  using assms plain_tmp domain_name_plain[of d own] by (auto simp: write_names_def plain_path_def)

lemma write_names_prefix:
  assumes "write_names d own P U"
  shows "prefix P (trash_of d own @ [n]) \<Longrightarrow> P = trash_of d own @ [n]"
    and "prefix U (trash_of d own @ [n]) \<Longrightarrow> U = trash_of d own @ [n]"
proof -
  have "3 \<le> length P" "3 \<le> length U" "P \<noteq> trash_of d own" "U \<noteq> trash_of d own"
    using assms by (auto simp: write_names_def trash_of_def tmp_prefix_def trash_dir_def append_eq_Cons_conv)
  then show "prefix P (trash_of d own @ [n]) \<Longrightarrow> P = trash_of d own @ [n]"
    and "prefix U (trash_of d own @ [n]) \<Longrightarrow> U = trash_of d own @ [n]"
    using prefix_trash_entry by blast+
qed

lemma rename_replaces:
  assumes wn: "write_names d own P U" and up: "uploading P U old m" and k: "kept (trash_of d own) P old m"
    and r: "rename_effect U P m m'"
  shows "replaced (trash_of d own) P U old m'"
proof -
  obtain new where new: "new \<noteq> old" "m U = Some new" "m P = Some old"
    using up by (auto simp: uploading_def)
  with r have m': "m' U = None" "m' P = Some new" and
    other: "\<And>q. \<not> prefix U q \<Longrightarrow> \<not> prefix P q \<Longrightarrow> m' q = m q"
    by (auto simp: rename_effect_def)
  obtain n where n: "plain_name n" "trash_of d own @ [n] \<noteq> P" "m (trash_of d own @ [n]) = Some old"
    using k by (auto simp: kept_def)
  then have "U \<noteq> trash_of d own @ [n]" using new by auto
  then have "m' (trash_of d own @ [n]) = Some old"
    using other[of "trash_of d own @ [n]"] write_names_prefix[OF wn, of n] n by auto
  then show ?thesis using m' new n by (auto simp: replaced_def kept_def)
qed

lemma unlink_keeps:
  assumes "uploading P U old m \<or> replaced T P U old m" and "m U \<noteq> None" and "m' = m(U := None)"
  shows "never_lost T P old m'"
  using assms by (auto simp: uploading_def replaced_def never_lost_def)

lemma fs_note_observed: "at_phase safe Q ino wh \<Longrightarrow> fs_laws ino E \<Longrightarrow>
  at_phase safe Q ino (fs_note (observed ino E) user act p to wh)"
  by (rule env_step(6))

lemma link_step:
  assumes laws: "fs_laws ino E" and wn: "write_names d own P U"
    and l: "link_to_trash (observed ino E) user (rel_path P) (rel_path [d, own]) wh = (r, wh')"
    and ph: "at_phase (never_lost (trash_of d own) P old) (uploading P U old) ino wh"
  shows "at_phase (never_lost (trash_of d own) P old)
    (\<lambda>m. uploading P U old m \<and> (r = None \<longrightarrow> kept (trash_of d own) P old m)) ino wh'"
proof -
  let ?T = "trash_of d own"
  let ?Q = "\<lambda>m. uploading P U old m \<and> m ?T \<noteq> None"
  have dn: "domain_name d own" and plain: "plain_path P" using write_names_plain[OF wn] by auto
  obtain y w1 where y: "ensure_trash (observed ino E) user (rel_path [d, own]) wh = (y, w1)"
    by (metis prod.collapse)
  have y': "(\<exists>err. y = Inl err) \<and> at_phase (never_lost ?T P old) (uploading P U old) ino w1 \<or>
    y = Inr (rel_path ?T) \<and> at_phase (never_lost ?T P old) ?Q ino w1"
    by (rule ensure_trash_step[OF laws dn y ph]) (auto simp: uploading_def never_lost_def)
  show ?thesis
  proof (cases y)
    case (Inl e)
    with y' y l show ?thesis by (auto simp: link_to_trash_def elim: at_phase_mono)
  next
    case (Inr t)
    with y' have t: "y = Inr (rel_path ?T)" and q: "at_phase (never_lost ?T P old) ?Q ino w1" by auto
    obtain n w2 where n: "trash_name (observed ino E) (rel_path P) w1 = (n, w2)" by (metis prod.collapse)
    have q2: "at_phase (never_lost ?T P old) ?Q ino w2" by (rule trash_name_step[OF laws q n])
    have pn: "plain_name n" using trash_name_plain[OF n path_base_plain[OF plain], of "[]"] by simp
    have loop: "link_to_trash_loop 8 (observed ino E) user (rel_path P) (rel_path ?T) n w2 = (r, wh')"
      using l y t n by (simp add: link_to_trash_def)
    have res: "at_phase (never_lost ?T P old) ?Q ino wh' \<and>
        (r = None \<longrightarrow> at_phase (never_lost ?T P old) (\<lambda>m. ?Q m \<and> kept ?T P old m) ino wh')"
      by (rule link_loop_step[OF laws dn plain _ _ loop pn q2])
         (auto simp: uploading_def never_lost_def)
    show ?thesis
    proof (cases r)
      case None
      with res have "at_phase (never_lost ?T P old) (\<lambda>m. ?Q m \<and> kept ?T P old m) ino wh'" by simp
      then show ?thesis by (rule at_phase_mono) simp
    next
      case (Some e)
      from res have "at_phase (never_lost ?T P old) ?Q ino wh'" by simp
      then show ?thesis by (rule at_phase_mono) (simp add: Some)
    qed
  qed
qed

lemma sync_dir_step:
  assumes laws: "fs_laws ino E" and D: "plain_path D"
    and s: "sync_dir (observed ino E) user (rel_path D) wh = (r, wh')"
    and ph: "at_phase safe Q ino wh" and Q: "\<And>m. Q m \<Longrightarrow> safe m"
  shows "at_phase safe Q ino wh'"
proof -
  let ?req = "(mk_request OpOpen (rel_path D))\<lparr>rq_flags := O_DIRECTORY32\<rparr>"
  obtain x v where x: "fs_do (observed ino E) user ?req wh = (x, v)" by (metis prod.collapse)
  have v: "at_phase safe Q ino v"
    by (rule fs_do_step[OF laws x ph, of D "[]"])
       (use D Q in \<open>auto simp: outcome_ok_def req_effect_def split: sum.splits if_splits\<close>)
  show ?thesis
  proof (cases x)
    case (Inl e)
    with s x v show ?thesis by (simp add: sync_dir_def)
  next
    case (Inr rf)
    then obtain resp f where rf: "x = Inr (resp, f)" by (cases rf) auto
    obtain r1 w1 where 1: "fe_sync (observed ino E) f v = (r1, w1)" by (metis prod.collapse)
    obtain r2 w2 where 2: "fe_close (observed ino E) f w1 = (r2, w2)" by (metis prod.collapse)
    note w2 = env_step(5)[OF laws env_step(4)[OF laws v 1] 2]
    with s x rf v 1 2 show ?thesis by (auto simp: sync_dir_def split: if_splits)
  qed
qed

lemma publish_step:
  assumes laws: "fs_laws ino E" and wn: "write_names d own P U"
    and x: "fs_do (observed ino E) user ((mk_request OpRename (rel_path U))\<lparr>rq_path2 := rel_path P\<rparr>) wh = (x, wh')"
    and ph: "at_phase (never_lost (trash_of d own) P old)
      (\<lambda>m. uploading P U old m \<and> kept (trash_of d own) P old m) ino wh"
  shows "at_phase (never_lost (trash_of d own) P old)
    (\<lambda>m. if \<exists>resp f. x = Inr (resp, f) \<and> rs_errno resp = 0 then replaced (trash_of d own) P U old m
         else uploading P U old m \<or> replaced (trash_of d own) P U old m) ino wh'"
proof (rule fs_do_step[OF laws x ph, of U P])
  let ?req = "(mk_request OpRename (rel_path U))\<lparr>rq_path2 := rel_path P\<rparr>"
  let ?T = "trash_of d own"
  fix m m'
  assume m: "uploading P U old m \<and> kept ?T P old m" and out: "outcome_ok ?req U P x m m'"
  have eff: "replaced ?T P U old m'" if "req_effect ?req U P m m'"
    using that m by (intro rename_replaces[OF wn]) (auto simp: req_effect_def)
  have "if \<exists>resp f. x = Inr (resp, f) \<and> rs_errno resp = 0 then replaced ?T P U old m'
    else uploading P U old m' \<or> replaced ?T P U old m'"
    using out eff m by (auto simp: outcome_ok_def split: sum.splits if_splits)
  then show "(if \<exists>resp f. x = Inr (resp, f) \<and> rs_errno resp = 0 then replaced ?T P U old m'
    else uploading P U old m' \<or> replaced ?T P U old m') \<and> never_lost ?T P old m'"
    by (auto intro: never_lostI split: if_splits)
qed (use write_names_plain[OF wn] in auto)

lemma write_body_step:
  assumes laws: "fs_laws ino E" and wn: "write_names d own P U"
    and w: "write_body (observed ino E) user (rel_path P) (rel_path [d, own]) (rel_path (butlast P))
      (rel_path U) f wh = (r, wh')"
    and ph: "at_phase (never_lost (trash_of d own) P old) (uploading P U old) ino wh"
  shows "at_phase (never_lost (trash_of d own) P old)
      (\<lambda>m. (r \<noteq> None \<and> uploading P U old m) \<or> replaced (trash_of d own) P U old m) ino wh'"
proof -
  let ?T = "trash_of d own"
  let ?safe = "never_lost ?T P old"
  let ?fin = "\<lambda>r m. (r \<noteq> None \<and> uploading P U old m) \<or> replaced ?T P U old m"
  have early: "at_phase ?safe (?fin (Some e)) ino v" if "at_phase ?safe (uploading P U old) ino v" for v e
    using that by (rule at_phase_mono) simp
  have PU: "P \<noteq> U" if "uploading P U old m" for m using that by (auto simp: uploading_def)
  have dn: "domain_name d own" and plain: "plain_path P" "plain_path U" using write_names_plain[OF wn] by auto
  obtain r1 w1 where 1: "fe_copy (observed ino E) f wh = (r1, w1)" by (metis prod.collapse)
  note ph1 = env_step(3)[OF laws ph 1]
  show ?thesis
  proof (cases r1)
    case (Some e)
    with w 1 early[OF ph1] show ?thesis by (auto simp: write_body_def)
  next
    case None
    note r1 = this
    obtain r2 w2 where 2: "fe_sync (observed ino E) f w1 = (r2, w2)" by (metis prod.collapse)
    note ph2 = env_step(4)[OF laws ph1 2]
    show ?thesis
    proof (cases r2)
      case (Some e)
      with w 1 2 r1 early[OF ph2] show ?thesis by (auto simp: write_body_def)
    next
      case None
      note r2 = this
      obtain r3 w3 where 3: "fe_close (observed ino E) f w2 = (r3, w3)" by (metis prod.collapse)
      note ph3 = env_step(5)[OF laws ph2 3]
      show ?thesis
      proof (cases r3)
        case (Some e)
        with w 1 2 3 r1 r2 early[OF ph3] show ?thesis by (auto simp: write_body_def)
      next
        case None
        note r3 = this
        obtain r4 w4 where 4: "link_to_trash (observed ino E) user (rel_path P) (rel_path [d, own]) w3 = (r4, w4)"
          by (metis prod.collapse)
        note ph4 = link_step[OF laws wn 4 ph3]
        show ?thesis
        proof (cases r4)
          case (Some e)
          with ph4 have "at_phase ?safe (uploading P U old) ino w4" by (auto elim: at_phase_mono)
          with w 1 2 3 4 r1 r2 r3 Some early[of w4 e] show ?thesis by (auto simp: write_body_def)
        next
          case None
          with ph4 have ph4: "at_phase ?safe (\<lambda>m. uploading P U old m \<and> kept ?T P old m) ino w4" by simp
          obtain x w5 where 5: "fs_do (observed ino E) user
              ((mk_request OpRename (rel_path U))\<lparr>rq_path2 := rel_path P\<rparr>) w4 = (x, w5)"
            by (metis prod.collapse)
          note ph5 = publish_step[OF laws wn 5 ph4]
          show ?thesis
          proof (cases "\<exists>resp f. x = Inr (resp, f) \<and> rs_errno resp = 0")
            case True
            have "at_phase ?safe (replaced ?T P U old) ino w5"
              by (rule at_phase_mono[OF ph5]) (use True in simp)
            moreover have "sync_dir (observed ino E) user (rel_path (butlast P)) w5 = (r, wh')"
              using True w 1 2 3 4 5 r1 r2 r3 None by (auto simp: write_body_def fs_errno_of_def)
            moreover have "plain_path (butlast P)" using wn domain_name_plain[OF dn]
              by (auto simp: write_names_def plain_path_def butlast_append)
            ultimately have "at_phase ?safe (replaced ?T P U old) ino wh'"
              using sync_dir_step[OF laws] never_lostI(2) by metis
            then show ?thesis by (rule at_phase_mono) simp
          next
            case False
            have "at_phase ?safe (\<lambda>m. uploading P U old m \<or> replaced ?T P U old m) ino w5"
              by (rule at_phase_mono[OF ph5]) (use False in \<open>simp split: if_splits\<close>)
            moreover have "r \<noteq> None \<and> wh' = w5"
              using False w 1 2 3 4 5 r1 r2 r3 None
              by (auto simp: write_body_def fs_errno_of_def split: sum.splits if_splits)
            ultimately show ?thesis by (auto elim: at_phase_mono)
          qed
        qed
      qed
    qed
  qed
qed


lemma write_cleanup_step:
  assumes laws: "fs_laws ino E" and U: "plain_path U"
    and c: "write_cleanup (observed ino E) user (rel_path U) f e wh = (r, wh')"
    and ph: "at_phase (never_lost T P old) (\<lambda>m. uploading P U old m \<or> replaced T P U old m) ino wh"
  shows "at_phase (never_lost T P old) (never_lost T P old) ino wh'" "r = Some e"
proof -
  obtain z v where z: "fe_close (observed ino E) f wh = (z, v)" by (metis prod.collapse)
  obtain x v1 where x: "fs_do (observed ino E) user (mk_request OpUnlink (rel_path U)) v = (x, v1)"
    by (metis prod.collapse)
  have "at_phase (never_lost T P old) (never_lost T P old) ino v1"
  proof (rule fs_do_step[OF laws x env_step(5)[OF laws ph z], of U "[]"])
    fix m m'
    assume m: "uploading P U old m \<or> replaced T P U old m"
      and out: "outcome_ok (mk_request OpUnlink (rel_path U)) U [] x m m'"
    have "m' = m \<or> (m U \<noteq> None \<and> m' = m(U := None))"
      using out by (auto simp: outcome_ok_def req_effect_def split: sum.splits if_splits)
    then have "never_lost T P old m'" using m unlink_keeps[OF m] never_lostI by metis
    then show "never_lost T P old m' \<and> never_lost T P old m'" by simp
  qed (use U in simp_all)
  then show "at_phase (never_lost T P old) (never_lost T P old) ino wh'" "r = Some e"
    using c z x by (auto simp: write_cleanup_def vfs_unlink_def split: sum.splits)
qed

lemma vfs_write_observed:
  assumes laws: "fs_laws ino E" and dn: "domain_name d own" and plain: "list_all plain_name (cs @ [b])"
    and P: "P = [d, own] @ cs @ [b]" and PT: "P \<noteq> trash_of d own"
    and w: "vfs_write (observed ino E) user (rel_path P) mode wh = (r, wh')"
    and ph: "at_phase (never_lost (trash_of d own) P old) (\<lambda>m. m P = Some old) ino wh"
  shows "at_phase (never_lost (trash_of d own) P old)
    (\<lambda>m. never_lost (trash_of d own) P old m \<and>
         (r = None \<longrightarrow> (\<exists>new. new \<noteq> old \<and> m P = Some new) \<and> kept (trash_of d own) P old m)) ino wh'"
proof -
  let ?T = "trash_of d own"
  let ?D = "[d, own] @ cs"
  let ?safe = "never_lost ?T P old"
  let ?fin = "\<lambda>r m. ?safe m \<and> (r = None \<longrightarrow> (\<exists>new. new \<noteq> old \<and> m P = Some new) \<and> kept ?T P old m)"
  have D: "plain_path ?D" "plain_name b" using plain domain_name_plain[OF dn] by (auto simp: plain_path_def)
  have bl: "butlast P = ?D" by (simp add: P butlast_append)
  have dir: "path_dir (rel_path P) = rel_path ?D"
    using path_dir_rel_path[of ?D b] D P by (simp add: plain_path_def)
  have dir_ok: "rel_path ?D \<noteq> ''.''" "rel_path ?D \<noteq> ''/''"
    using dn by (cases cs; auto simp: domain_name_def rel_path_def)+
  have dom: "domain_root (rel_path P) = Inr (rel_path [d, own])"
    using domain_root_rel_path[OF dn plain] P by simp
  have early: "at_phase ?safe (?fin (Some e)) ino v" if "at_phase ?safe ?safe ino v" for v e
    using that by (rule at_phase_mono) simp
  have ph0: "at_phase ?safe ?safe ino v" if "at_phase ?safe (\<lambda>m. m P = Some old) ino v" for v
    using that by (rule at_phase_mono) (simp add: never_lost_def)
  obtain y w1 where y: "random_suffix (observed ino E) wh = (y, w1)" by (metis prod.collapse)
  note ph1 = random_suffix_step[OF laws ph y]
  show ?thesis
  proof (cases y)
    case (Inl e)
    with w y dir dir_ok dom early[OF ph0[OF ph1], of e] show ?thesis by (auto simp: vfs_write_def)
  next
    case (Inr sfx)
    let ?U = "?D @ [tmp_prefix @ sfx]"
    have sfx: "slash \<notin> set sfx" using random_suffix_plain[of "observed ino E" wh sfx w1] y Inr by simp
    have wn: "write_names d own P ?U"
      using dn plain P PT sfx by (auto simp: write_names_def)
    have U: "plain_path ?U" by (rule write_names_plain(2)[OF wn])
    have tmp: "path_join [rel_path ?D, tmp_prefix @ sfx] = rel_path ?U"
      using path_join_rel_path[of ?D] D plain_tmp[OF sfx] by (simp add: plain_path_def)
    let ?req = "(mk_request OpOpen (rel_path ?U))\<lparr>rq_flags := O_CREAT OR O_EXCL OR O_WRONLY, rq_mode := mode\<rparr>"
    obtain x w2 where x: "fs_do (observed ino E) user ?req w1 = (x, w2)" by (metis prod.collapse)
    have eff: "uploading P ?U old m'" if m: "m P = Some old" and e: "req_effect ?req ?U [] m m'" for m m'
    proof -
      obtain i where "m ?U = None" "i \<notin> ran m" "m' = m(?U \<mapsto> i)"
        using e by (auto simp: req_effect_def)
      moreover from this m have "i \<noteq> old" "P \<noteq> ?U" by (auto simp: ran_def)
      ultimately show ?thesis using m by (auto simp: uploading_def)
    qed
    have step: "at_phase ?safe R ino w2"
      if "\<And>m m'. m P = Some old \<Longrightarrow> outcome_ok ?req ?U [] x m m' \<Longrightarrow> R m' \<and> ?safe m'" for R
      by (rule fs_do_step[OF laws x ph1 _ _ _ _ that]) (use U in simp_all)
    have failed: "at_phase ?safe ?safe ino w2"
    proof (rule step)
      fix m m' assume "m P = Some old" "outcome_ok ?req ?U [] x m m'"
      then have "m' P = Some old \<or> uploading P ?U old m'"
        using eff[of m m'] by (auto simp: outcome_ok_def split: sum.splits if_splits)
      then have "?safe m'" using never_lostI(1) by (metis never_lost_def)
      then show "?safe m' \<and> ?safe m'" by simp
    qed
    show ?thesis
    proof (cases "\<exists>resp f. x = Inr (resp, f) \<and> rs_errno resp = 0")
      case False
      then have "r \<noteq> None \<and> wh' = w2"
        using w y Inr dir dir_ok dom tmp x
        by (auto simp: vfs_write_def resp_ok_def Let_def split: sum.splits if_splits)
      with early[OF failed] show ?thesis by auto
    next
      case True
      then obtain resp f where rf: "x = Inr (resp, f)" "rs_errno resp = 0" by blast
      have ph2: "at_phase ?safe (uploading P ?U old) ino w2"
      proof (rule step)
        fix m m' assume m: "m P = Some old" and out: "outcome_ok ?req ?U [] x m m'"
        have "uploading P ?U old m'" by (rule eff) (use m out rf in \<open>simp_all add: outcome_ok_def\<close>)
        then show "uploading P ?U old m' \<and> ?safe m'" using never_lostI(1) by blast
      qed
      obtain r3 w3 where body: "write_body (observed ino E) user (rel_path P) (rel_path [d, own])
          (rel_path (butlast P)) (rel_path ?U) f w2 = (r3, w3)" by (metis prod.collapse)
      note ph3 = write_body_step[OF laws wn body ph2]
      show ?thesis
      proof (cases r3)
        case None
        have "at_phase ?safe (?fin None) ino w3"
          by (rule at_phase_mono[OF ph3]) (use None never_lostI(2) in \<open>auto simp: replaced_def\<close>)
        note fin = fs_note_observed[OF this laws, of user "''write''" "rel_path P" "[]"]
        have "r = None \<and> wh' = fs_note (observed ino E) user ''write'' (rel_path P) [] w3"
          using None w y Inr dir dir_ok dom tmp x rf body bl
          by (auto simp: vfs_write_def resp_ok_def Let_def)
        with fin show ?thesis by simp
      next
        case (Some e)
        have ph4: "at_phase ?safe (\<lambda>m. uploading P ?U old m \<or> replaced ?T P ?U old m) ino w3"
          by (rule at_phase_mono[OF ph3]) auto
        have "write_cleanup (observed ino E) user (rel_path ?U) f e w3 = (r, wh')"
          using Some w y Inr dir dir_ok dom tmp x rf body bl by (simp add: vfs_write_def resp_ok_def Let_def)
        from write_cleanup_step[OF laws U this ph4] early show ?thesis by simp
      qed
    qed
  qed
qed

text \<open>C1: Overwriting a file never loses a version. After every single request of a write the
  name still leads to a file, and that is the old version or the old version is in the trash of
  its own domain; when the write reports success the name leads to a new file and the old
  version is in the trash.\<close>

theorem write_never_loses_a_version:
  assumes "fs_laws ino E" and "domain_name d own" and "list_all plain_name (cs @ [b])"
    and "P = [d, own] @ cs @ [b]" and "P \<noteq> trash_of d own" and "ino w P = Some old"
    and "vfs_write (observed ino E) user (rel_path P) mode (w, []) = (r, (w', hist))"
  shows "(\<forall>m \<in> set (hist @ [ino w']). m P = Some old \<or> m P \<noteq> None \<and> kept (trash_of d own) P old m) \<and>
    (r = None \<longrightarrow> (\<exists>new. new \<noteq> old \<and> ino w' P = Some new) \<and> kept (trash_of d own) P old (ino w'))"
  using vfs_write_observed[OF assms(1-5,7), of old] assms(6)
  by (auto simp: at_phase_def never_lost_def)


section \<open>A file system for concrete runs\<close>

text \<open>
  Names are an association list; a new file gets the next number. Directories hold nothing
  but their own name, which is enough for the protocol.
\<close>

type_synonym disk = "(string list \<times> nat) list"

definition fresh_ino :: "disk \<Rightarrow> nat" where
  "fresh_ino w = Suc (foldr max (map snd w) 0)"

definition answer :: "errno \<Rightarrow> response \<times> fhandle" where
  "answer e = ((empty_response 0)\<lparr>rs_errno := e\<rparr>, 1)"

definition comps_of :: "string \<Rightarrow> string list" where
  "comps_of s = (if s = [] then [] else split_on slash s)"

definition disk_do :: "string \<Rightarrow> request \<Rightarrow> disk \<Rightarrow> (string + response \<times> fhandle) \<times> disk" where
  "disk_do user req w =
     (let a = comps_of (rq_path req); b = comps_of (rq_path2 req); m = map_of w
      in if rq_op req = OpLink then
           (if m b \<noteq> None then (Inr (answer EEXIST), w)
            else case m a of None \<Rightarrow> (Inr (answer ENOENT), w) | Some i \<Rightarrow> (Inr (answer 0), (b, i) # w))
         else if rq_op req = OpRename then
           (case m a of
              None \<Rightarrow> (Inr (answer ENOENT), w)
            | Some i \<Rightarrow>
                if rq_flags req AND RENAME_NOREPLACE \<noteq> 0 \<and> m b \<noteq> None then (Inr (answer EEXIST), w)
                else if m b = Some i then (Inr (answer 0), w)
                else (Inr (answer 0), (b, i) # filter (\<lambda>e. fst e \<noteq> a \<and> fst e \<noteq> b) w))
         else if rq_op req = OpUnlink then
           (if m a = None then (Inr (answer ENOENT), w) else (Inr (answer 0), filter (\<lambda>e. fst e \<noteq> a) w))
         else if rq_op req = OpMkdir \<or> rq_op req = OpOpen \<and> rq_flags req AND O_CREAT \<noteq> 0 then
           (if m a \<noteq> None then (Inr (answer EEXIST), w) else (Inr (answer 0), (a, fresh_ino w) # w))
         else (Inr (answer 0), w))"

definition disk_env :: "disk fs_env" where
  "disk_env = \<lparr>fe_do = disk_do, fe_reroute = None, fe_now = (\<lambda>w. (0, w)),
     fe_random = (\<lambda>w. (Inr [0, 0, 0, 0, 0, 0, 0, 0, 0, 0], w)), fe_copy = (\<lambda>f w. (None, w)),
     fe_sync = (\<lambda>f w. (None, w)), fe_close = (\<lambda>f w. (None, w)), fe_record = None\<rparr>"

lemma fresh_ino: "fresh_ino w \<notin> ran (map_of w)"
proof -
  have "i \<in> set is \<Longrightarrow> i \<le> foldr max is (0 :: nat)" for i "is" by (induction "is") auto
  then have "i < fresh_ino w" if "i \<in> set (map snd w)" for i using that by (auto simp: fresh_ino_def less_Suc_eq_le)
  then show ?thesis by (force simp: ran_def dest: map_of_SomeD)
qed

lemma map_of_filter_neq: "map_of (filter (\<lambda>e. fst e \<noteq> a \<and> fst e \<noteq> b) w) = (map_of w)(a := None, b := None)"
  "map_of (filter (\<lambda>e. fst e \<noteq> a) w) = (map_of w)(a := None)"
  by (induction w) (auto simp: fun_eq_iff)

lemma comps_of_rel_path: "a = [] \<or> plain_path a \<Longrightarrow> comps_of (rel_path a) = a"
  using rel_path_not_Nil[of a] split_rel_path[of a] by (auto simp: plain_path_def comps_of_def)

lemma disk_laws: "fs_laws map_of disk_env"
proof -
  have "outcome_ok req a b x (map_of w) (map_of w')"
    if d: "disk_do user req w = (x, w')" and a: "rq_path req = rel_path a" "plain_path a"
      and b: "rq_path2 req = rel_path b" "b = [] \<or> plain_path b"
    for user req a b w x w'
  proof -
    have "comps_of (rel_path b) = b" "comps_of (rel_path a) = a"
      using a b comps_of_rel_path by blast+
    then show ?thesis
      using d a(1) b(1) fresh_ino[of w]
      by (auto simp: disk_do_def outcome_ok_def req_effect_def rename_effect_def answer_def
          empty_response_def Let_def map_of_filter_neq fun_eq_iff split: if_splits option.splits)
  qed
  then show ?thesis unfolding fs_laws_def disk_env_def by simp blast
qed

text \<open>A home with one file, which is overwritten.\<close>

definition sample_disk :: disk where
  "sample_disk = [([''homes'', ''alice'', ''a''], 1), ([''homes'', ''alice''], 0), ([''homes''], 2)]"


lemma sample_strings:
  "base32_encode [0, 0, 0, 0, 0, 0, 0, 0, 0, 0] = ''aaaaaaaaaaaaaaaa''"
  "format_stamp 0 = ''0001-01-01T00-00-00''"
  "path_dir ''homes/alice/a'' = ''homes/alice''"
  "path_join [''homes/alice'', ''.upload-aaaaaaaaaaaaaaaa''] = ''homes/alice/.upload-aaaaaaaaaaaaaaaa''"
  "domain_root ''homes/alice/a'' = Inr ''homes/alice''"
  "path_join [''homes/alice'', trash_dir] = ''homes/alice/.trash''"
  "path_base ''homes/alice/a'' = ''a''"
  "dir_mode ''homes/alice/.trash'' = Inr 0x1C0"
  "path_join [''homes/alice/.trash'', ''0001-01-01T00-00-00_a''] = ''homes/alice/.trash/0001-01-01T00-00-00_a''"
  by (simp add: base32_encode_def base32_lower_def upt_rec) code_simp+

lemmas sample_defs = sample_strings observed_def disk_env_def random_suffix_def tmp_prefix_def
  fs_do_def disk_do_def mk_request_def answer_def empty_response_def resp_ok_def Let_def comps_of_def
  sample_disk_def ensure_trash_def mkdir_quiet_def fs_errno_of_def trash_name_def sync_dir_def

lemma sample_write_ok:
  "fst (vfs_write (observed map_of disk_env) ''alice'' ''homes/alice/a'' 384 (sample_disk, [])) = None"
  by (simp add: vfs_write_def write_body_def link_to_trash_def link_to_trash_loop.simps[of 8] sample_defs)

lemma sample_path: "''homes/alice/a'' = rel_path [''homes'', ''alice'', ''a'']"
  by (simp add: rel_path_def)

lemma write_never_loses_a_version_witness:
  "\<exists>w' hist new. vfs_write (observed map_of disk_env) ''alice'' ''homes/alice/a'' 384 (sample_disk, []) =
     (None, (w', hist)) \<and> new \<noteq> 1 \<and> map_of w' [''homes'', ''alice'', ''a''] = Some new \<and>
     kept (trash_of ''homes'' ''alice'') [''homes'', ''alice'', ''a''] 1 (map_of w')"
proof -
  obtain w' hist where w: "vfs_write (observed map_of disk_env) ''alice''
      (rel_path [''homes'', ''alice'', ''a'']) 384 (sample_disk, []) = (None, (w', hist))"
    using sample_write_ok unfolding sample_path by (metis prod.collapse)
  have "domain_name ''homes'' ''alice''" "list_all plain_name ([] @ [''a''])"
    "[''homes'', ''alice'', ''a''] \<noteq> trash_of ''homes'' ''alice''"
    "map_of sample_disk [''homes'', ''alice'', ''a''] = Some 1"
    by (simp_all add: domain_name_def plain_name_def trash_of_def trash_dir_def sample_disk_def)
  from write_never_loses_a_version[OF disk_laws this(1,2) _ this(3,4) w] w
  show ?thesis unfolding sample_path by auto
qed

section \<open>Deleting\<close>

text \<open>
  A deletion moves the file: everything else that was there stays as it was. \<open>m0\<close> are the
  names before it, of which every name's parent exists.
\<close>

definition closed_tree :: "names \<Rightarrow> bool" where
  "closed_tree m \<longleftrightarrow> (\<forall>q x. m (q @ [x]) \<noteq> None \<longrightarrow> q = [] \<or> m q \<noteq> None)"

lemma closed_tree_prefix: "closed_tree m \<Longrightarrow> prefix a q \<Longrightarrow> a \<noteq> [] \<Longrightarrow> m q \<noteq> None \<Longrightarrow> m a \<noteq> None"
proof (induction q rule: rev_induct)
  case Nil
  then show ?case by simp
next
  case (snoc x q)
  show ?case
  proof (cases "a = q @ [x]")
    case False
    with snoc.prems have a: "prefix a q" by (simp add: prefix_snoc)
    then have "q \<noteq> []" using snoc.prems(3) by auto
    then have "m q \<noteq> None" using snoc.prems(1,4) by (auto simp: closed_tree_def)
    then show ?thesis using snoc.IH snoc.prems a by blast
  qed (use snoc.prems in simp)
qed

definition untouched :: "names \<Rightarrow> names \<Rightarrow> bool" where
  "untouched m0 m \<longleftrightarrow> (\<forall>q i. m0 q = Some i \<longrightarrow> m q = Some i)"

definition moved :: "names \<Rightarrow> string list \<Rightarrow> string list \<Rightarrow> names \<Rightarrow> bool" where
  "moved m0 T P m \<longleftrightarrow> m P = None \<and> (\<exists>n. plain_name n \<and> T @ [n] \<noteq> P \<and> m (T @ [n]) = m0 P) \<and>
     (\<forall>q i. m0 q = Some i \<longrightarrow> \<not> prefix P q \<longrightarrow> m q = Some i)"

lemma move_effect:
  assumes "closed_tree m0" and "untouched m0 m" and "m0 P \<noteq> None" and "plain_name n" and "P \<noteq> []"
    and "req_effect ((mk_request OpRename p)\<lparr>rq_path2 := p2, rq_flags := RENAME_NOREPLACE\<rparr>) P (T @ [n]) m m'"
  shows "moved m0 T P m'"
proof -
  have free: "m (T @ [n]) = None" and ren: "rename_effect P (T @ [n]) m m'"
    using assms(6) by (auto simp: req_effect_def)
  have P: "m P = m0 P" using assms(2,3) by (auto simp: untouched_def)
  then have ne: "m P \<noteq> m (T @ [n])" using assms(3) free by simp
  then have m': "m' P = None" "m' (T @ [n]) = m P" and
    other: "\<And>q. \<not> prefix P q \<Longrightarrow> \<not> prefix (T @ [n]) q \<Longrightarrow> m' q = m q"
    using ren by (auto simp: rename_effect_def)
  have "m' q = Some i" if q: "m0 q = Some i" "\<not> prefix P q" for q i
  proof -
    have "\<not> prefix (T @ [n]) q"
      using closed_tree_prefix[OF assms(1), of "T @ [n]" q] q free assms(2)
      by (auto simp: untouched_def)
    then show ?thesis using other q assms(2) by (auto simp: untouched_def)
  qed
  then show ?thesis using m' ne P assms(4) by (auto simp: moved_def)
qed

lemma move_loop_step:
  assumes laws: "fs_laws ino E" and dn: "domain_name d own" and P: "plain_path P"
    and tree: "closed_tree m0" "m0 P \<noteq> None"
    and l: "move_to_trash_loop k (observed ino E) user (rel_path P) (rel_path (trash_of d own)) name wh = (r, wh')"
    and name: "plain_name name"
    and ph: "at_phase (\<lambda>m. untouched m0 m \<or> moved m0 (trash_of d own) P m) (untouched m0) ino wh"
  shows "at_phase (\<lambda>m. untouched m0 m \<or> moved m0 (trash_of d own) P m)
    (\<lambda>m. (r \<noteq> None \<and> untouched m0 m) \<or> moved m0 (trash_of d own) P m) ino wh'"
  using l name ph
proof (induction k arbitrary: name wh rule: less_induct)
  case (less k name wh)
  note l = less.prems(1) and n = less.prems(2) and ph = less.prems(3) and IH = less.IH
  let ?T = "trash_of d own"
  let ?safe = "\<lambda>m. untouched m0 m \<or> moved m0 ?T P m"
  have base: "slash \<notin> set (path_base (rel_path P))" by (rule path_base_plain[OF P])
  have T: "plain_path ?T" "plain_path (?T @ [name])"
    using plain_trash_of[OF dn] n by (auto simp: plain_path_def)
  have j: "path_join [rel_path ?T, name] = rel_path (?T @ [name])"
    using T n by (simp add: plain_path_def)
  let ?req = "(mk_request OpRename (rel_path P))\<lparr>rq_path2 := rel_path (?T @ [name]), rq_flags := RENAME_NOREPLACE\<rparr>"
  obtain x v where x: "fs_do (observed ino E) user ?req wh = (x, v)" by (metis prod.collapse)
  have step: "at_phase ?safe R ino v"
    if "\<And>m m'. untouched m0 m \<Longrightarrow> outcome_ok ?req P (?T @ [name]) x m m' \<Longrightarrow> R m' \<and> ?safe m'" for R
    by (rule fs_do_step[OF laws x ph _ _ _ _ that]) (use T P in simp_all)
  have eff: "moved m0 ?T P m'" if "untouched m0 m" "req_effect ?req P (?T @ [name]) m m'" for m m'
    using move_effect[OF tree(1) that(1) tree(2) n _ that(2)] P by (simp add: plain_path_def)
  show ?case
  proof (cases "\<exists>resp f. x = Inr (resp, f)")
    case False
    then obtain e where e: "x = Inl e" by (cases x) auto
    have "at_phase ?safe (\<lambda>m. untouched m0 m \<or> moved m0 ?T P m) ino v"
      by (rule step) (use e eff in \<open>auto simp: outcome_ok_def\<close>)
    with l x e show ?thesis by (auto simp: move_to_trash_loop.simps j elim: at_phase_mono)
  next
    case True
    then obtain resp f where rf: "x = Inr (resp, f)" by blast
    show ?thesis
    proof (cases "rs_errno resp = 0")
      case True
      have "at_phase ?safe (moved m0 ?T P) ino v"
        by (rule step) (use rf True eff in \<open>auto simp: outcome_ok_def\<close>)
      with True l x rf show ?thesis by (auto simp: move_to_trash_loop.simps j elim: at_phase_mono)
    next
      case False
      note err = this
      have un: "at_phase ?safe (untouched m0) ino v"
        by (rule step) (use rf False in \<open>auto simp: outcome_ok_def\<close>)
      have fin: "at_phase ?safe (\<lambda>m. (Some e \<noteq> None \<and> untouched m0 m) \<or> moved m0 ?T P m) ino v'"
        if "at_phase ?safe (untouched m0) ino v'" for e :: fs_error and v'
        using that by (rule at_phase_mono) simp
      show ?thesis
      proof (cases "rs_errno resp = EEXIST \<and> k \<noteq> 0")
        case False
        then have "\<exists>e. r = Some e \<and> wh' = v"
          using err l x rf
          by (auto simp: move_to_trash_loop.simps j fs_errno_of_def split: nat.splits if_splits)
        with fin[OF un] show ?thesis by auto
      next
        case True
        then obtain i where k: "k = Suc i" by (cases k) auto
        obtain y v1 where y: "random_suffix (observed ino E) v = (y, v1)" by (metis prod.collapse)
        have ph1: "at_phase ?safe (untouched m0) ino v1" by (rule random_suffix_step[OF laws un y])
        show ?thesis
        proof (cases y)
          case (Inl e)
          then have "r = Some e \<and> wh' = v1"
            using True k l x rf y by (auto simp: move_to_trash_loop.simps j)
          with fin[OF ph1] show ?thesis by auto
        next
          case (Inr sfx)
          obtain nm v2 where nm: "trash_name (observed ino E) (rel_path P) v1 = (nm, v2)"
            by (metis prod.collapse)
          have ph2: "at_phase ?safe (untouched m0) ino v2" by (rule trash_name_step[OF laws ph1 nm])
          have "plain_name (nm @ ''-'' @ sfx)"
            using trash_name_plain[OF nm base] random_suffix_plain[of _ v sfx v1] y Inr by simp
          with IH[of i "nm @ ''-'' @ sfx" v2] ph2 True k l x rf y Inr nm show ?thesis
            by (simp add: move_to_trash_loop.simps j)
        qed
      qed
    qed
  qed
qed


lemma vfs_remove_observed:
  assumes "fs_laws ino E" and "domain_name d own" and "list_all plain_name (cs @ [b])"
    and "P = [d, own] @ cs @ [b]" and "P \<noteq> trash_of d own" and "last ([d, own] @ cs) \<noteq> trash_dir"
    and "closed_tree (ino w)" and "ino w P = Some old"
    and "vfs_remove (observed ino E) user (rel_path P) (w, []) = (r, (w', hist))"
  shows "at_phase (\<lambda>m. untouched (ino w) m \<or> moved (ino w) (trash_of d own) P m)
    (\<lambda>m. (r \<noteq> None \<and> untouched (ino w) m) \<or> moved (ino w) (trash_of d own) P m) ino (w', hist)"
proof -
  let ?T = "trash_of d own"
  let ?D = "[d, own] @ cs"
  let ?safe = "\<lambda>m. untouched (ino w) m \<or> moved (ino w) ?T P m"
  have D: "plain_path ?D" "plain_name b" and P: "plain_path P"
    using assms(3,4) domain_name_plain[OF assms(2)] by (auto simp: plain_path_def)
  have dir: "path_dir (rel_path P) = rel_path ?D"
    using path_dir_rel_path[of ?D b] D assms(4) by (simp add: plain_path_def)
  have "plain_name (last ?D)" using D(1) last_in_set[of ?D] by (auto simp: plain_path_def list_all_iff)
  then have "path_base (rel_path (butlast ?D @ [last ?D])) = last ?D" by (rule path_base_rel_path)
  moreover have "butlast ?D @ [last ?D] = ?D" by (rule append_butlast_last_id) simp
  ultimately have base: "path_base (rel_path ?D) \<noteq> trash_dir" using assms(6) by metis
  have dom: "domain_root (rel_path P) = Inr (rel_path [d, own])"
    using domain_root_rel_path[OF assms(2,3)] assms(4) by simp
  have ph: "at_phase ?safe (untouched (ino w)) ino (w, [])"
    by (simp add: at_phase_def untouched_def)
  obtain y w1 where y: "ensure_trash (observed ino E) user (rel_path [d, own]) (w, []) = (y, w1)"
    by (metis prod.collapse)
  have y': "(\<exists>err. y = Inl err) \<and> at_phase ?safe (untouched (ino w)) ino w1 \<or>
    y = Inr (rel_path ?T) \<and> at_phase ?safe (\<lambda>m. untouched (ino w) m \<and> m ?T \<noteq> None) ino w1"
    by (rule ensure_trash_step[OF assms(1,2) y ph]) (auto simp: untouched_def)
  show ?thesis
  proof (cases y)
    case (Inl e)
    with assms(9) y dom dir base have "r = Some e \<and> (w', hist) = w1" by (simp add: vfs_remove_def)
    with y' Inl show ?thesis by (auto elim: at_phase_mono)
  next
    case (Inr t)
    then have t: "y = Inr (rel_path ?T)" and w1: "at_phase ?safe (untouched (ino w)) ino w1"
      using y' by (auto elim: at_phase_mono)
    obtain n w2 where n: "trash_name (observed ino E) (rel_path P) w1 = (n, w2)" by (metis prod.collapse)
    have w2: "at_phase ?safe (untouched (ino w)) ino w2" by (rule trash_name_step[OF assms(1) w1 n])
    have pn: "plain_name n" using trash_name_plain[OF n path_base_plain[OF P], of "[]"] by simp
    obtain r3 w3 where l: "move_to_trash_loop 8 (observed ino E) user (rel_path P) (rel_path ?T) n w2 = (r3, w3)"
      by (metis prod.collapse)
    have w3: "at_phase ?safe (\<lambda>m. (r3 \<noteq> None \<and> untouched (ino w) m) \<or> moved (ino w) ?T P m) ino w3"
      by (rule move_loop_step[OF assms(1,2) P assms(7) _ l pn w2]) (simp add: assms(8))
    show ?thesis
    proof (cases r3)
      case None
      have "r = None \<and> (w', hist) = fs_note (observed ino E) user ''delete'' (rel_path P) [] w3"
        using None assms(9) y dom dir base t n l by (auto simp: vfs_remove_def move_to_trash_def)
      with fs_note_observed[OF w3 assms(1), of user "''delete''" "rel_path P" "[]"] None show ?thesis by simp
    next
      case (Some e)
      have "r = Some e \<and> (w', hist) = w3"
        using Some assms(9) y dom dir base t n l by (simp add: vfs_remove_def move_to_trash_def)
      with w3 Some show ?thesis by simp
    qed
  qed
qed



lemma sample_remove_ok:
  "fst (vfs_remove (observed map_of disk_env) ''alice'' ''homes/alice/a'' (sample_disk, [])) = None"
proof -
  have "path_base ''homes/alice'' \<noteq> trash_dir" by code_simp
  then show ?thesis
    by (simp add: vfs_remove_def move_to_trash_def move_to_trash_loop.simps[of 8] fs_note_def sample_defs)
qed

lemma sample_tree: "closed_tree (map_of sample_disk)"
proof -
  have "map_of sample_disk (q @ [x]) \<noteq> None \<Longrightarrow> q = [] \<or> q = [''homes''] \<or> q = [''homes'', ''alice'']" for q x
    by (cases q; cases "tl q"; cases "tl (tl q)")
       (auto simp: sample_disk_def split: if_splits)
  moreover have "map_of sample_disk [''homes''] \<noteq> None" "map_of sample_disk [''homes'', ''alice''] \<noteq> None"
    by (simp_all add: sample_disk_def)
  ultimately show ?thesis unfolding closed_tree_def by blast
qed


end
