(* ===== verification/Listing.thy ===== *)
theory Listing
  imports Vfs
begin

text \<open>
  A listing end to end: \<^verbatim>\<open>FS.ReadDir\<close> of \<^verbatim>\<open>src/internal/vfs/vfs.go\<close>, its requests and answers
  through the wire format, and the helper's \<^verbatim>\<open>readDir\<close> behind it.
\<close>

text \<open>
  One exchange with a helper: the request is encoded, served and the reply decoded. A frame
  that is not answered is the pool's error.
\<close>

definition wire_do :: "'w kernel \<Rightarrow> fd \<Rightarrow> string \<Rightarrow> request \<Rightarrow> 'w \<Rightarrow> (string + response \<times> fhandle) \<times> 'w" where
  "wire_do K root user req w =
     (case request_marshal req of
        Inl _ \<Rightarrow> (Inl ''encode'', w)
      | Inr frame \<Rightarrow>
          (case serve_one K root frame w of
             (None, w) \<Rightarrow> (Inl ''no answer'', w)
           | (Some (b, f), w) \<Rightarrow>
               (case unmarshal_response b of
                  Inl _ \<Rightarrow> (Inl ''decode'', w)
                | Inr resp \<Rightarrow> (Inr (resp, case f of None \<Rightarrow> 0 | Some d \<Rightarrow> d), w))))"

text \<open>A directory whose contents do not change while it is listed.\<close>

definition lists :: "'w kernel \<Rightarrow> fd \<Rightarrow> string \<Rightarrow> os_entry list \<Rightarrow> bool" where
  "lists K root p ents \<longleftrightarrow>
     (\<forall>w. \<exists>f w1 w2. resolve_path K root p O_DIRECTORY 0 w = (Inr f, w1) \<and> k_readdir K f w1 = (Inr ents, w2))"

definition good_names :: "os_entry list \<Rightarrow> bool" where
  "good_names ents \<longleftrightarrow> distinct (map fst ents) \<and> (\<forall>n \<in> set (map fst ents). n \<noteq> [] \<and> length n \<le> 255)"

definition by_name :: "os_entry list \<Rightarrow> os_entry list" where
  "by_name ents = sort_by (\<lambda>a b. fst a \<le> fst b) ents"

lemma by_name_sorted: "sorted_wrt (\<lambda>a b. fst a \<le> fst b) (by_name ents)"
  unfolding by_name_def by (rule sorted_wrt_sort_by) (rule total_preorder_key)

lemma distinct_by_name: "distinct (map fst ents) \<Longrightarrow> distinct (map fst (by_name ents))"
  unfolding by_name_def
  by (metis distinct_map distinct_sort_by set_sort_by)

lemma by_name_strict:
  assumes "distinct (map fst ents)"
  shows "sorted_wrt (\<lambda>a b. fst a < fst b) (by_name ents)"
proof -
  have "sorted_wrt (\<lambda>a b. fst a < fst b) xs"
    if "sorted_wrt (\<lambda>a b. fst a \<le> fst b) xs" "distinct (map fst xs)" for xs :: "os_entry list"
    using that by (induction xs) (force simp: less_le)+
  then show ?thesis using by_name_sorted distinct_by_name[OF assms] by blast
qed

lemma pending_drop:
  assumes "sorted_wrt (\<lambda>a b. fst a < fst b) es" and "k \<le> length es"
    and "\<And>e. e \<in> set es \<Longrightarrow> fst e \<noteq> []"
  shows "pending (if k = 0 then [] else fst (es ! (k - 1))) es = drop k es"
proof (cases k)
  case 0
  then show ?thesis by (simp add: pending_def)
next
  case (Suc j)
  let ?a = "fst (es ! j)"
  have j: "j < length es" using assms(2) Suc by simp
  then have a: "?a \<noteq> []" using assms(3)[of "es ! j"] by simp
  have lo: "fst e \<le> ?a" if "e \<in> set (take (Suc j) es)" for e
  proof -
    obtain i where i: "i < Suc j" "e = es ! i" using \<open>e \<in> _\<close> j by (auto simp: in_set_conv_nth)
    then show ?thesis
      using sorted_wrt_nth_less[OF assms(1), of i j] j by (cases "i = j") auto
  qed
  have hi: "\<not> fst e \<le> ?a" if "e \<in> set (drop (Suc j) es)" for e
  proof -
    obtain i where i: "i < length es - Suc j" "e = es ! (Suc j + i)"
      using \<open>e \<in> _\<close> by (auto simp: in_set_conv_nth)
    then have "Suc j + i < length es" "e = es ! (Suc j + i)" by auto
    then show ?thesis using sorted_wrt_nth_less[OF assms(1), of j "Suc j + i"] by auto
  qed
  have "pending ?a es = filter (\<lambda>e. \<not> fst e \<le> ?a) (take (Suc j) es @ drop (Suc j) es)"
    using a by (simp add: pending_def)
  also have "\<dots> = filter (\<lambda>e. \<not> fst e \<le> ?a) (take (Suc j) es) @ filter (\<lambda>e. \<not> fst e \<le> ?a) (drop (Suc j) es)"
    by (rule filter_append)
  also have "\<dots> = drop (Suc j) es" using lo hi by (auto simp: filter_empty_conv)
  finally show ?thesis using Suc by simp
qed

section \<open>One page\<close>

lemma listing_canon: "listing_response r \<Longrightarrow> canon r = r"
  by (cases r) (auto simp: listing_response_def canon_def has_written_def)

lemma list_request_marshal:
  assumes "length p \<le> 4096" and "length after \<le> 255"
  shows "\<exists>b. request_marshal ((mk_request OpReadDir p)\<lparr>rq_flags := fl, rq_name := after\<rparr>) = Inr b"
  using assms
  by (simp add: request_marshal_enc mk_request_def op_valid_def str_fits_def enc_request_def
      enc_str_def enc_bytes_def max_frame_def)

lemma list_page:
  assumes ls: "lists K root p ents" and g: "good_names ents" and p: "length p \<le> 4096"
    and k: "k \<le> length ents"
    and after: "after = (if k = 0 then [] else fst (by_name ents ! (k - 1)))"
  shows "\<exists>resp f w' j. wire_do K root user ((mk_request OpReadDir p)\<lparr>rq_flags := fl, rq_name := after\<rparr>) w
        = (Inr (resp, f), w') \<and>
      rs_errno resp = 0 \<and> map de_name (rs_entries resp) = map fst (take j (drop k (by_name ents))) \<and>
      (rs_has resp AND HasMore \<noteq> 0 \<longleftrightarrow> j < length ents - k) \<and> j \<le> length ents - k \<and> (k < length ents \<longrightarrow> 0 < j)"
proof -
  let ?es = "by_name ents"
  let ?req = "(mk_request OpReadDir p)\<lparr>rq_flags := fl, rq_name := after\<rparr>"
  have len: "length ?es = length ents" by (simp add: by_name_def)
  have names: "e \<in> set ?es \<Longrightarrow> fst e \<noteq> [] \<and> length (fst e) \<le> 255" for e
    using g by (auto simp: good_names_def by_name_def)
  have pend: "pending after ?es = drop k ?es"
    unfolding after
    by (rule pending_drop) (use by_name_strict g k len names in \<open>auto simp: good_names_def\<close>)
  have "length after \<le> 255" using after names[of "?es ! (k - 1)"] k len by auto
  then obtain b where b: "request_marshal ?req = Inr b" using list_request_marshal[OF p] by blast
  then have u: "unmarshal_request b = Inr ?req" by (simp add: request_codec_exact)
  obtain f w1 w2 where "resolve_path K root p O_DIRECTORY 0 w = (Inr f, w1)"
    "k_readdir K f w1 = (Inr ents, w2)" using ls unfolding lists_def by blast
  then have opened: "resolve_path K root (rq_path ?req) O_DIRECTORY 0 w = (Inr f, w1)"
    "k_readdir K f w1 = (Inr ents, w2)" by (simp_all add: mk_request_def)
  obtain resp g' w3 where d: "read_dir K root ?req w = ((resp, g'), w3)" by (metis prod.collapse)
  from read_dir_result[OF opened d] pend obtain j where
    j: "listing_step (fl AND FlagWithStat \<noteq> 0) (drop k ?es) (max_frame - headroom)
      ((empty_response 0)\<lparr>rs_has := HasEntries\<rparr>) resp j" and g': "g' = None"
    by (auto simp: mk_request_def by_name_def)
  note r = listing_step_response[OF j]
  obtain frame where frame: "response_marshal resp = Inr frame" using listing_response_marshal[OF r(1)] by blast
  have dec: "unmarshal_response frame = Inr resp"
    using response_roundtrip[OF frame] listing_canon[OF r(1)] by simp
  have "dispatch K root ?req w = ((resp, None), w3)" using d g' by (simp add: dispatch_def mk_request_def)
  then have "wire_do K root user ?req w = (Inr (resp, 0), w3)"
    using b u frame dec by (simp add: wire_do_def serve_one_def reply_def)
  moreover have "0 < j" if "k < length ents"
  proof -
    have "drop k ?es \<noteq> []" using that len by simp
    moreover from this have "length (fst (hd (drop k ?es))) \<le> 255" using names by (meson hd_in_set in_set_dropD)
    then have "entry_cost (fl AND FlagWithStat \<noteq> 0) (fst (hd (drop k ?es))) \<le> max_frame - headroom"
      by (simp add: entry_cost_def stat_size_def max_frame_def headroom_def)
    ultimately show ?thesis using j by (simp add: listing_step_def)
  qed
  moreover have "j \<le> length ents - k" using j len by (simp add: listing_step_def)
  ultimately show ?thesis using r len by (metis length_drop)
qed

section \<open>The loop\<close>

lemma read_dir_from_complete:
  assumes ls: "lists K root p ents" and g: "good_names ents" and p: "length p \<le> 4096"
    and E: "fe_do E = wire_do K root" "fe_reroute E = None"
  shows "k \<le> length ents \<Longrightarrow> map de_name out = map fst (take k (by_name ents)) \<Longrightarrow>
    after = (if k = 0 then [] else fst (by_name ents ! (k - 1))) \<Longrightarrow>
    \<exists>res w'. read_dir_from E user p fl after out w = Some (Inr res, w') \<and>
      map de_name res = map fst (by_name ents)"
proof (induction "length ents - k" arbitrary: k out after w rule: less_induct)
  case (less k out after w)
  let ?es = "by_name ents"
  have len: "length ?es = length ents" by (simp add: by_name_def)
  obtain resp f w1 j where page:
    "wire_do K root user ((mk_request OpReadDir p)\<lparr>rq_flags := fl, rq_name := after\<rparr>) w = (Inr (resp, f), w1)"
    "rs_errno resp = 0" "map de_name (rs_entries resp) = map fst (take j (drop k ?es))"
    "rs_has resp AND HasMore \<noteq> 0 \<longleftrightarrow> j < length ents - k" "j \<le> length ents - k" "k < length ents \<longrightarrow> 0 < j"
    using list_page[OF ls g p less.prems(1,3)] by blast
  have names: "map de_name (out @ rs_entries resp) = map fst (take (k + j) ?es)"
    using less.prems(2) page(3) by (simp add: take_add)
  have do: "fs_do E user ((mk_request OpReadDir p)\<lparr>rq_flags := fl, rq_name := after\<rparr>) w = (Inr (resp, f), w1)"
    using page(1) E by (simp add: fs_do_def)
  show ?case
  proof (cases "rs_has resp AND HasMore = 0")
    case True
    with page(4,5) have "k + j = length ?es" using less.prems(1) len by simp
    with True do page(2) names show ?thesis
      by (subst read_dir_from.simps) (simp add: resp_ok_def)
  next
    case False
    with page(4) have lt: "j < length ents - k" by simp
    then have j0: "0 < j" using page(6) by simp
    have n: "length (rs_entries resp) = j" using page(3) lt len by (metis length_map length_take length_drop min.absorb4)
    then have ne: "rs_entries resp \<noteq> []" using j0 by auto
    have last: "de_name (last (out @ rs_entries resp)) = fst (?es ! (k + j - 1))"
    proof -
      have "de_name (last (out @ rs_entries resp)) = last (map de_name (out @ rs_entries resp))"
        using ne by (simp add: last_map)
      also have "\<dots> = last (map fst (take (k + j) ?es))" by (simp only: names)
      also have "\<dots> = fst (?es ! (k + j - 1))"
      proof -
        have "take (k + j) ?es \<noteq> []" "length (take (k + j) ?es) = k + j" using lt j0 len by auto
        then show ?thesis using j0 by (simp add: last_map last_conv_nth)
      qed
      finally show ?thesis .
    qed
    have "\<exists>res w'. read_dir_from E user p fl (de_name (last (out @ rs_entries resp))) (out @ rs_entries resp) w1
        = Some (Inr res, w') \<and> map de_name res = map fst ?es"
      by (rule less.hyps[of "k + j"]) (use lt j0 names last in auto)
    with False do page(2) ne show ?thesis
      by (subst read_dir_from.simps) (simp add: resp_ok_def)
  qed
qed

text \<open>C3: Listing a directory of any size that does not change meanwhile returns, after finitely many
  requests, every entry exactly once in the order of their names: no entry is lost or repeated
  where a page ends, and the loop never reports that it made no progress.\<close>

theorem listing_is_complete:
  assumes "lists K root p ents" and "good_names ents" and "length p \<le> 4096"
    and "fe_do E = wire_do K root" and "fe_reroute E = None"
  shows "\<exists>out w'. vfs_read_dir E user p with_stat w = Some (Inr out, w') \<and>
    map de_name out = map fst (by_name ents) \<and> sorted_wrt (<) (map de_name out) \<and>
    set (map de_name out) = set (map fst ents)"
proof -
  obtain out w' where o: "vfs_read_dir E user p with_stat w = Some (Inr out, w')"
    "map de_name out = map fst (by_name ents)"
    using read_dir_from_complete[OF assms, of 0 "[]" "[]" user "if with_stat then FlagWithStat else 0" w]
    unfolding vfs_read_dir_def by auto
  moreover have "sorted_wrt (<) (map fst (by_name ents))"
    using by_name_strict assms(2) by (simp add: sorted_wrt_map good_names_def)
  moreover have "set (map fst (by_name ents)) = set (map fst ents)" by (simp add: by_name_def)
  ultimately show ?thesis by metis
qed

definition sample_fs_env :: "unit fs_env" where
  "sample_fs_env = \<lparr>fe_do = wire_do sample_kernel 3, fe_reroute = None, fe_now = (\<lambda>w. (0, w)),
     fe_random = (\<lambda>w. (Inr [], w)), fe_copy = (\<lambda>f w. (None, w)), fe_sync = (\<lambda>f w. (None, w)),
     fe_close = (\<lambda>f w. (None, w)), fe_record = None\<rparr>"

lemma listing_is_complete_witness:
  "\<exists>out w'. vfs_read_dir sample_fs_env ''alice'' ''docs'' False () = Some (Inr out, w') \<and>
     map de_name out = [''a'', ''b'']"
proof -
  have "lists sample_kernel 3 ''docs'' [(''b'', 0), (''a'', 0)]"
    by (simp add: lists_def resolve_path_def sample_kernel_def)
  moreover have "good_names [(''b'', 0), (''a'', 0)]" by (simp add: good_names_def)
  moreover have "length ''docs'' \<le> 4096" "fe_do sample_fs_env = wire_do sample_kernel 3" "fe_reroute sample_fs_env = None"
    by (simp_all add: sample_fs_env_def)
  ultimately obtain out w' where "vfs_read_dir sample_fs_env ''alice'' ''docs'' False () = Some (Inr out, w')"
    "map de_name out = map fst (by_name [(''b'', 0), (''a'', 0)])"
    using listing_is_complete[of sample_kernel 3 "''docs''" "[(''b'', 0), (''a'', 0)]" sample_fs_env "''alice''" False "()"]
    by blast
  moreover have "map fst (by_name [(''b'', 0), (''a'', 0)]) = [''a'', ''b'']"
    by (simp add: by_name_def less_eq_char_def)
  ultimately show ?thesis by auto
qed

end
