(* ===== verification/Statefile.thy ===== *)
theory Statefile
  imports GoPath
begin

text \<open>
  Read-modify-write on a state file that several replicas share,
  \<^verbatim>\<open>src/internal/statefile/statefile.go\<close>: the guard with its reload cache, \<^verbatim>\<open>Fresh\<close>, \<^verbatim>\<open>Seen\<close>,
  \<^verbatim>\<open>Write\<close>, the advisory lock and the atomic replacement. The disk is a parameter with one
  function per call over a state \<open>'w\<close>; the bytes of a file are an abstract type \<open>'b\<close>.

  The locale \<open>replicated_store\<close> is the contract between the guard and the stores that use it
  (share links, identities, the request queue, sign-in epochs): what their \<open>load\<close> and
  \<open>marshal\<close> callbacks owe it, and what every store then gets from the guard.
\<close>

section \<open>The disk\<close>

datatype stat_res = NotExist | StatErr string | StatOk time int

record ('b, 'w) sf_disk =
  sd_stat :: "string \<Rightarrow> 'w \<Rightarrow> stat_res \<times> 'w"
  sd_read :: "string \<Rightarrow> 'w \<Rightarrow> (string + 'b) \<times> 'w"
  sd_mkdir_all :: "string \<Rightarrow> 'w \<Rightarrow> string option \<times> 'w"
  sd_open_lock :: "string \<Rightarrow> 'w \<Rightarrow> (string + nat) \<times> 'w"
  sd_flock :: "nat \<Rightarrow> bool \<Rightarrow> 'w \<Rightarrow> string option \<times> 'w"
  sd_close_lock :: "nat \<Rightarrow> 'w \<Rightarrow> 'w"
  sd_create_temp :: "string \<Rightarrow> string \<Rightarrow> 'w \<Rightarrow> (string + string) \<times> 'w"
  sd_chmod :: "string \<Rightarrow> 'w \<Rightarrow> string option \<times> 'w"
  sd_write :: "string \<Rightarrow> 'b \<Rightarrow> 'w \<Rightarrow> string option \<times> 'w"
  sd_sync :: "string \<Rightarrow> 'w \<Rightarrow> string option \<times> 'w"
  sd_close :: "string \<Rightarrow> 'w \<Rightarrow> string option \<times> 'w"
  sd_rename :: "string \<Rightarrow> string \<Rightarrow> 'w \<Rightarrow> string option \<times> 'w"
  sd_remove :: "string \<Rightarrow> 'w \<Rightarrow> 'w"

text \<open>An error of the disk with what was being done, or one a callback returned.\<close>

datatype 'e sf_error = SfDisk string string | SfClient 'e

text \<open>
  What a JSON document is to its store: no bytes at all, bytes that do not parse, or a value.
\<close>

datatype 'a doc = EmptyDoc | BadDoc | Doc 'a

section \<open>The guard\<close>

record guard =
  g_path :: string
  g_mtime :: time
  g_size :: int
  g_loaded :: bool

definition guard_new :: "string \<Rightarrow> guard" where
  "guard_new p = \<lparr>g_path = p, g_mtime = 0, g_size = 0, g_loaded = False\<rparr>"

text \<open>
  \<open>load\<close> gets the file's bytes, or \<open>None\<close> for a file that does not exist; it may change the
  caller's state \<open>'s\<close> even when it fails. A nil guard is \<open>None\<close>.
\<close>

definition guard_fresh ::
  "('b, 'w) sf_disk \<Rightarrow> ('b option \<Rightarrow> 's \<Rightarrow> 'e option \<times> 's) \<Rightarrow> guard option \<Rightarrow> 's \<Rightarrow> 'w \<Rightarrow>
   'e sf_error option \<times> guard option \<times> 's \<times> 'w" where
  "guard_fresh D load g s w =
     (case g of
        None \<Rightarrow> (None, g, s, w)
      | Some gd \<Rightarrow>
          (if g_path gd = [] then (None, g, s, w)
           else
             (case sd_stat D (g_path gd) w of
                (NotExist, w) \<Rightarrow>
                  (if g_loaded gd then (None, g, s, w)
                   else
                     (case load None s of
                        (Some e, s) \<Rightarrow> (Some (SfClient e), g, s, w)
                      | (None, s) \<Rightarrow> (None, Some (gd\<lparr>g_loaded := True\<rparr>), s, w)))
              | (StatErr e, w) \<Rightarrow> (Some (SfDisk ''stat'' e), g, s, w)
              | (StatOk mtime sz, w) \<Rightarrow>
                  (if g_loaded gd \<and> mtime = g_mtime gd \<and> sz = g_size gd then (None, g, s, w)
                   else
                     (case sd_read D (g_path gd) w of
                        (Inl e, w) \<Rightarrow> (Some (SfDisk ''read'' e), g, s, w)
                      | (Inr data, w) \<Rightarrow>
                          (case load (Some data) s of
                             (Some e, s) \<Rightarrow> (Some (SfClient e), g, s, w)
                           | (None, s) \<Rightarrow>
                               (None, Some (gd\<lparr>g_mtime := mtime, g_size := sz, g_loaded := True\<rparr>), s, w)))))))"

definition guard_seen :: "('b, 'w) sf_disk \<Rightarrow> guard option \<Rightarrow> 'w \<Rightarrow> guard option \<times> 'w" where
  "guard_seen D g w =
     (case g of
        None \<Rightarrow> (g, w)
      | Some gd \<Rightarrow>
          (if g_path gd = [] then (g, w)
           else
             (case sd_stat D (g_path gd) w of
                (StatOk mtime sz, w) \<Rightarrow> (Some (gd\<lparr>g_mtime := mtime, g_size := sz, g_loaded := True\<rparr>), w)
              | (_, w) \<Rightarrow> (Some (gd\<lparr>g_loaded := True\<rparr>), w))))"

definition sf_lock :: "('b, 'w) sf_disk \<Rightarrow> string \<Rightarrow> 'w \<Rightarrow> ('e sf_error + nat) \<times> 'w" where
  "sf_lock D lock_path w =
     (case sd_mkdir_all D (path_dir lock_path) w of
        (Some e, w) \<Rightarrow> (Inl (SfDisk ''mkdir'' e), w)
      | (None, w) \<Rightarrow>
          (case sd_open_lock D lock_path w of
             (Inl e, w) \<Rightarrow> (Inl (SfDisk ''open lock'' e), w)
           | (Inr f, w) \<Rightarrow>
               (case sd_flock D f True w of
                  (Some e, w) \<Rightarrow> (Inl (SfDisk ''lock'' e), sd_close_lock D f w)
                | (None, w) \<Rightarrow> (Inr f, w))))"

definition sf_unlock :: "('b, 'w) sf_disk \<Rightarrow> nat \<Rightarrow> 'w \<Rightarrow> 'w" where
  "sf_unlock D f w = (case sd_flock D f False w of (_, w) \<Rightarrow> sd_close_lock D f w)"

text \<open>The deferred \<^verbatim>\<open>os.Remove(name)\<close> runs on every return after the temporary file exists.\<close>

definition sf_replace :: "('b, 'w) sf_disk \<Rightarrow> string \<Rightarrow> 'b \<Rightarrow> 'w \<Rightarrow> 'e sf_error option \<times> 'w" where
  "sf_replace D path data w =
     (let dir = path_dir path
      in case sd_mkdir_all D dir w of
           (Some e, w) \<Rightarrow> (Some (SfDisk ''mkdir'' e), w)
         | (None, w) \<Rightarrow>
             (case sd_create_temp D dir (path_base path @ ''.tmp-*'') w of
                (Inl e, w) \<Rightarrow> (Some (SfDisk ''create'' e), w)
              | (Inr name, w) \<Rightarrow>
                  (case sd_chmod D name w of
                     (Some e, w) \<Rightarrow>
                       (case sd_close D name w of (_, w) \<Rightarrow> (Some (SfDisk ''chmod'' e), sd_remove D name w))
                   | (None, w) \<Rightarrow>
                       (case sd_write D name data w of
                          (Some e, w) \<Rightarrow>
                            (case sd_close D name w of (_, w) \<Rightarrow> (Some (SfDisk ''write'' e), sd_remove D name w))
                        | (None, w) \<Rightarrow>
                            (case sd_sync D name w of
                               (Some e, w) \<Rightarrow>
                                 (case sd_close D name w of (_, w) \<Rightarrow> (Some (SfDisk ''sync'' e), sd_remove D name w))
                             | (None, w) \<Rightarrow>
                                 (case sd_close D name w of
                                    (Some e, w) \<Rightarrow> (Some (SfDisk ''close'' e), sd_remove D name w)
                                  | (None, w) \<Rightarrow>
                                      (case sd_rename D name path w of
                                         (r, w) \<Rightarrow> (map_option (SfDisk ''rename'') r, sd_remove D name w))))))))"

definition guard_write ::
  "('b, 'w) sf_disk \<Rightarrow> ('b option \<Rightarrow> 's \<Rightarrow> 'e option \<times> 's) \<Rightarrow> ('s \<Rightarrow> ('e + bool) \<times> 's) \<Rightarrow> ('s \<Rightarrow> 'e + 'b) \<Rightarrow>
   guard option \<Rightarrow> 's \<Rightarrow> 'w \<Rightarrow> 'e sf_error option \<times> guard option \<times> 's \<times> 'w" where
  "guard_write D load mutate marshal g s w =
     (case g of
        None \<Rightarrow> (case mutate s of (Inl e, s) \<Rightarrow> (Some (SfClient e), g, s, w) | (Inr _, s) \<Rightarrow> (None, g, s, w))
      | Some gd \<Rightarrow>
          (if g_path gd = [] then
             (case mutate s of (Inl e, s) \<Rightarrow> (Some (SfClient e), g, s, w) | (Inr _, s) \<Rightarrow> (None, g, s, w))
           else
             (case sf_lock D (g_path gd @ ''.lock'') w of
                (Inl e, w) \<Rightarrow> (Some e, g, s, w)
              | (Inr l, w) \<Rightarrow>
                  (case guard_fresh D load g s w of
                     (Some e, g, s, w) \<Rightarrow> (Some e, g, s, sf_unlock D l w)
                   | (None, g, s, w) \<Rightarrow>
                       (case mutate s of
                          (Inl e, s) \<Rightarrow> (Some (SfClient e), g, s, sf_unlock D l w)
                        | (Inr changed, s) \<Rightarrow>
                            (if \<not> changed then (None, g, s, sf_unlock D l w)
                             else
                               (case marshal s of
                                  Inl e \<Rightarrow> (Some (SfClient e), g, s, sf_unlock D l w)
                                | Inr data \<Rightarrow>
                                    (case sf_replace D (g_path gd) data w of
                                       (Some e, w) \<Rightarrow> (Some e, g, s, sf_unlock D l w)
                                     | (None, w) \<Rightarrow>
                                         (case sd_stat D (g_path gd) w of
                                            (StatOk mtime sz, w) \<Rightarrow>
                                              (None, map_option (\<lambda>gd. gd\<lparr>g_mtime := mtime, g_size := sz,
                                                 g_loaded := True\<rparr>) g, s, sf_unlock D l w)
                                          | (_, w) \<Rightarrow> (None, g, s, sf_unlock D l w))))))))))"

section \<open>What the disk promises\<close>

record 'b stored =
  sf_data :: 'b
  sf_mtime :: time
  sf_size :: int

text \<open>
  \<open>file w\<close> is the state file at \<open>p\<close>, \<open>temp w name\<close> the bytes written to a temporary file. A
  call that fails changes neither; only a rename onto \<open>p\<close> changes the file, to the bytes of the
  file renamed, with whatever stamp the file system gives it.
\<close>

definition disk_laws :: "string \<Rightarrow> ('w \<Rightarrow> 'b stored option) \<Rightarrow> ('w \<Rightarrow> string \<Rightarrow> 'b option) \<Rightarrow> ('b, 'w) sf_disk \<Rightarrow> bool" where
  "disk_laws p file temp D \<longleftrightarrow>
     (\<forall>w r w'. sd_stat D p w = (r, w') \<longrightarrow> file w' = file w \<and> temp w' = temp w \<and>
        (case r of NotExist \<Rightarrow> file w = None | StatErr _ \<Rightarrow> True
         | StatOk t n \<Rightarrow> (\<exists>f. file w = Some f \<and> sf_mtime f = t \<and> sf_size f = n))) \<and>
     (\<forall>w r w'. sd_read D p w = (r, w') \<longrightarrow> file w' = file w \<and> temp w' = temp w \<and>
        (case r of Inl _ \<Rightarrow> True | Inr b \<Rightarrow> (\<exists>f. file w = Some f \<and> sf_data f = b))) \<and>
     (\<forall>d w. file (snd (sd_mkdir_all D d w)) = file w) \<and>
     (\<forall>q w. file (snd (sd_open_lock D q w)) = file w) \<and>
     (\<forall>f b w. file (snd (sd_flock D f b w)) = file w) \<and>
     (\<forall>f w. file (sd_close_lock D f w) = file w) \<and>
     (\<forall>d q w. file (snd (sd_create_temp D d q w)) = file w) \<and>
     (\<forall>q w. file (snd (sd_chmod D q w)) = file w) \<and>
     (\<forall>q b w. file (snd (sd_write D q b w)) = file w \<and>
        (fst (sd_write D q b w) = None \<longrightarrow> temp (snd (sd_write D q b w)) q = Some b)) \<and>
     (\<forall>q w. file (snd (sd_sync D q w)) = file w \<and> temp (snd (sd_sync D q w)) = temp w) \<and>
     (\<forall>q w. file (snd (sd_close D q w)) = file w \<and> temp (snd (sd_close D q w)) = temp w) \<and>
     (\<forall>q w. if fst (sd_rename D q p w) = None
        then (\<exists>f. file (snd (sd_rename D q p w)) = Some f \<and> temp w q = Some (sf_data f))
        else file (snd (sd_rename D q p w)) = file w) \<and>
     (\<forall>q w. file (sd_remove D q w) = file w)"

lemma disk_stat:
  assumes "disk_laws p file temp D" and "sd_stat D p w = (r, w')"
  shows "file w' = file w" "r = NotExist \<Longrightarrow> file w = None"
    "r = StatOk t n \<Longrightarrow> \<exists>f. file w = Some f \<and> sf_mtime f = t \<and> sf_size f = n"
proof -
  have "file w' = file w \<and> (case r of NotExist \<Rightarrow> file w = None | StatErr _ \<Rightarrow> True
      | StatOk t n \<Rightarrow> (\<exists>f. file w = Some f \<and> sf_mtime f = t \<and> sf_size f = n))"
    using assms(1)[unfolded disk_laws_def, THEN conjunct1, rule_format, OF assms(2)] by simp
  then show "file w' = file w" "r = NotExist \<Longrightarrow> file w = None"
    "r = StatOk t n \<Longrightarrow> \<exists>f. file w = Some f \<and> sf_mtime f = t \<and> sf_size f = n" by auto
qed

lemma disk_read:
  assumes "disk_laws p file temp D" and "sd_read D p w = (r, w')"
  shows "file w' = file w" "r = Inr b \<Longrightarrow> \<exists>f. file w = Some f \<and> sf_data f = b"
proof -
  have "file w' = file w \<and> (case r of Inl _ \<Rightarrow> True | Inr b \<Rightarrow> (\<exists>f. file w = Some f \<and> sf_data f = b))"
    using assms(1)[unfolded disk_laws_def, THEN conjunct2, THEN conjunct1, rule_format, OF assms(2)] by simp
  then show "file w' = file w" "r = Inr b \<Longrightarrow> \<exists>f. file w = Some f \<and> sf_data f = b" by auto
qed

lemma disk_same:
  assumes "disk_laws p file temp D"
  shows "sd_mkdir_all D d w = (a1, w') \<Longrightarrow> file w' = file w"
    "sd_open_lock D q w = (a2, w') \<Longrightarrow> file w' = file w"
    "sd_flock D f b w = (a3, w') \<Longrightarrow> file w' = file w"
    "file (sd_close_lock D f w) = file w"
    "sd_create_temp D d q w = (a4, w') \<Longrightarrow> file w' = file w"
    "sd_chmod D q w = (a5, w') \<Longrightarrow> file w' = file w"
    "sd_write D q x w = (a6, w') \<Longrightarrow> file w' = file w"
    "sd_sync D q w = (a7, w') \<Longrightarrow> file w' = file w \<and> temp w' = temp w"
    "sd_close D q w = (a8, w') \<Longrightarrow> file w' = file w \<and> temp w' = temp w"
    "file (sd_remove D q w) = file w"
  using assms unfolding disk_laws_def by (metis snd_conv)+

lemma disk_write:
  "disk_laws p file temp D \<Longrightarrow> sd_write D q b w = (None, w') \<Longrightarrow> temp w' q = Some b \<and> file w' = file w"
  unfolding disk_laws_def by (metis fst_conv snd_conv)

lemma disk_rename:
  assumes "disk_laws p file temp D" and "sd_rename D q p w = (r, w')"
  shows "if r = None then \<exists>f. file w' = Some f \<and> temp w q = Some (sf_data f) else file w' = file w"
proof -
  have "if fst (sd_rename D q p w) = None
      then (\<exists>f. file (snd (sd_rename D q p w)) = Some f \<and> temp w q = Some (sf_data f))
      else file (snd (sd_rename D q p w)) = file w"
    using assms(1) unfolding disk_laws_def by blast
  then show ?thesis by (simp only: assms(2) fst_conv snd_conv)
qed

lemma sf_unlock_file: "disk_laws p file temp D \<Longrightarrow> file (sf_unlock D f w) = file w"
  by (auto simp: sf_unlock_def disk_same(4) dest: disk_same(3) split: prod.splits)

lemma sf_lock_file:
  assumes laws: "disk_laws p file temp D" and l: "sf_lock D q w = (r, w')"
  shows "file w' = file w"
  using l
  by (auto simp: sf_lock_def disk_same(4)[OF laws] dest!: disk_same(1-3)[OF laws]
      split: prod.splits option.splits sum.splits)

text \<open>The replacement is all or nothing.\<close>

lemma sf_replace_atomic:
  assumes laws: "disk_laws p file temp D" and r: "sf_replace D p data w = (r, w')"
  shows "r = None \<Longrightarrow> \<exists>f. file w' = Some f \<and> sf_data f = data"
    and "r \<noteq> None \<Longrightarrow> file w' = file w"
proof -
  note same = disk_same[OF laws]
  have "(r = None \<longrightarrow> (\<exists>f. file w' = Some f \<and> sf_data f = data)) \<and> (r \<noteq> None \<longrightarrow> file w' = file w)"
    using r
    by (auto simp: sf_replace_def Let_def same(10) split: prod.splits option.splits sum.splits if_splits
        dest!: same(1,5,6,8,9) disk_write[OF laws] disk_rename[OF laws] same(7)[where ?a6.0 = "Some e" for e])
  then show "r = None \<Longrightarrow> \<exists>f. file w' = Some f \<and> sf_data f = data"
    and "r \<noteq> None \<Longrightarrow> file w' = file w" by auto
qed


section \<open>What the stores owe the guard, and get from it\<close>

text \<open>
  \<open>rep t b s\<close>: at the instant \<open>t\<close> (and later) the state \<open>s\<close> stands for the document \<open>b\<close>, \<open>None\<close>
  for no file. A replica is coherent with the file when a stamp that matches what it saw
  really means that it holds the file's contents.
\<close>

definition coherent ::
  "(time \<Rightarrow> 'b option \<Rightarrow> 's \<Rightarrow> bool) \<Rightarrow> string \<Rightarrow> time \<Rightarrow> guard option \<Rightarrow> 's \<Rightarrow> 'b stored option \<Rightarrow> bool" where
  "coherent rep p t g s fo \<longleftrightarrow>
     (case g of
        None \<Rightarrow> False
      | Some gd \<Rightarrow>
          g_path gd = p \<and> p \<noteq> [] \<and>
          (g_loaded gd \<longrightarrow>
             (case fo of
                None \<Rightarrow> rep t None s
              | Some f \<Rightarrow>
                  g_mtime gd = sf_mtime f \<and> g_size gd = sf_size f \<longrightarrow> rep t (Some (sf_data f)) s)))"

text \<open>The file now has a stamp this replica has not seen.\<close>

definition unseen :: "guard option \<Rightarrow> 'b stored \<Rightarrow> bool" where
  "unseen g f \<longleftrightarrow> (case g of None \<Rightarrow> False
     | Some gd \<Rightarrow> g_loaded gd \<longrightarrow> g_mtime gd \<noteq> sf_mtime f \<or> g_size gd \<noteq> sf_size f)"

text \<open>A mutation that reports no change, or fails, leaves the state as it was.\<close>

definition quiet :: "('s \<Rightarrow> ('e + bool) \<times> 's) \<Rightarrow> bool" where
  "quiet mutate \<longleftrightarrow> (\<forall>s r s'. mutate s = (r, s') \<longrightarrow> r \<noteq> Inr True \<longrightarrow> s' = s)"

definition preserves :: "('s \<Rightarrow> bool) \<Rightarrow> ('s \<Rightarrow> ('e + bool) \<times> 's) \<Rightarrow> bool" where
  "preserves ok mutate \<longleftrightarrow> (\<forall>s r s'. ok s \<longrightarrow> mutate s = (r, s') \<longrightarrow> ok s')"

definition always_writes :: "('s \<Rightarrow> ('e + bool) \<times> 's) \<Rightarrow> bool" where
  "always_writes mutate \<longleftrightarrow> (\<forall>s s'. mutate s \<noteq> (Inr False, s'))"

locale replicated_store =
  fixes load :: "time \<Rightarrow> 'b option \<Rightarrow> 's \<Rightarrow> 'e option \<times> 's"
    and marshal :: "time \<Rightarrow> 's \<Rightarrow> 'e + 'b"
    and rep :: "time \<Rightarrow> 'b option \<Rightarrow> 's \<Rightarrow> bool"
    and wf :: "'s \<Rightarrow> bool"
  assumes load_rep: "load t x s = (None, s') \<Longrightarrow> rep t x s'"
    and rep_wf: "rep t x s \<Longrightarrow> wf s"
    and marshal_rep: "wf s \<Longrightarrow> marshal t s = Inr b \<Longrightarrow> rep t (Some b) s"
    and rep_mono: "rep t x s \<Longrightarrow> t \<le> t' \<Longrightarrow> rep t' x s"
begin

lemma coherent_mono: "coherent rep p t g s fo \<Longrightarrow> t \<le> t' \<Longrightarrow> coherent rep p t' g s fo"
  by (auto simp: coherent_def split: option.splits intro: rep_mono)

lemma coherent_start: "p \<noteq> [] \<Longrightarrow> coherent rep p t (Some (guard_new p)) s fo"
  by (simp add: coherent_def guard_new_def)

lemma coherent_unseen:
  assumes "coherent rep p t g s fo" and "unseen g f"
  shows "coherent rep p t g s (Some f)"
  using assms by (auto simp: coherent_def unseen_def split: option.splits)

text \<open>A read: when the reload succeeds the state stands for what is on disk.\<close>

lemma fresh_current:
  assumes laws: "disk_laws p file temp D" and coh: "coherent rep p t0 g s (file w)" and t: "t0 \<le> t"
    and f: "guard_fresh D (load t) g s w = (r, g', s', w')"
  shows "file w' = file w" "coherent rep p t g' s' (file w)"
    "r = None \<Longrightarrow> rep t (map_option sf_data (file w)) s'"
proof -
  from coh obtain gd where g: "g = Some gd" "g_path gd = p" "p \<noteq> []"
    by (auto simp: coherent_def split: option.splits)
  note coh = coherent_mono[OF coh t]
  obtain st w1 where st: "sd_stat D p w = (st, w1)" by (metis prod.collapse)
  note stat = disk_stat[OF laws st]
  have "file w' = file w \<and> coherent rep p t g' s' (file w) \<and> (r = None \<longrightarrow> rep t (map_option sf_data (file w)) s')"
  proof (cases st)
    case NotExist
    then have none: "file w = None" using stat(2) by simp
    show ?thesis
    proof (cases "g_loaded gd")
      case True
      with f g st NotExist coh none stat(1) show ?thesis by (auto simp: guard_fresh_def coherent_def)
    next
      case False
      obtain e s1 where "load t None s = (e, s1)" by (metis prod.collapse)
      with f g st NotExist coh none stat(1) False load_rep[of t None s] show ?thesis
        by (cases e) (auto simp: guard_fresh_def coherent_def)
    qed
  next
    case (StatErr e)
    with f g st coh stat(1) show ?thesis by (auto simp: guard_fresh_def)
  next
    case (StatOk mt sz)
    then obtain fl where fl: "file w = Some fl" "sf_mtime fl = mt" "sf_size fl = sz" using stat(3) by blast
    show ?thesis
    proof (cases "g_loaded gd \<and> mt = g_mtime gd \<and> sz = g_size gd")
      case True
      with f g st StatOk coh fl stat(1) show ?thesis by (auto simp: guard_fresh_def coherent_def)
    next
      case False
      obtain rd w2 where rd: "sd_read D p w1 = (rd, w2)" by (metis prod.collapse)
      note read = disk_read[OF laws rd]
      show ?thesis
      proof (cases rd)
        case (Inl e)
        with False f g st StatOk coh fl stat(1) rd read(1) show ?thesis by (auto simp: guard_fresh_def)
      next
        case (Inr b)
        then have b: "sf_data fl = b" using read(2) fl stat(1) by auto
        obtain e s1 where ld: "load t (Some b) s = (e, s1)" by (metis prod.collapse)
        have eqs: "r = map_option SfClient e" "s' = s1" "w' = w2"
          "g' = (if e = None then Some (gd\<lparr>g_mtime := mt, g_size := sz, g_loaded := True\<rparr>) else g)"
          using False f g st StatOk rd Inr ld by (cases e; auto simp: guard_fresh_def)+
        have "coherent rep p t g' s' (file w)"
          using eqs g fl b False load_rep[of t "Some b" s s1] ld
          by (cases e) (auto simp: coherent_def)
        with eqs fl b load_rep[of t "Some b" s s1] ld read(1) stat(1) show ?thesis
          by (cases e) auto
      qed
    qed
  qed
  then show "file w' = file w" "coherent rep p t g' s' (file w)"
    "r = None \<Longrightarrow> rep t (map_option sf_data (file w)) s'" by auto
qed

text \<open>
  A write that succeeds is the mutation of the newest committed document, whatever the
  replica happened to hold; one that fails leaves the file as it was.
\<close>

lemma write_serial:
  assumes laws: "disk_laws p file temp D" and coh: "coherent rep p t0 g s (file w)" and t: "t0 \<le> t"
    and mut: "preserves wf mutate"
    and wr: "guard_write D (load t) mutate (marshal t) g s w = (r, g', s', w')"
  shows "r \<noteq> None \<Longrightarrow> file w' = file w"
    and "r = None \<Longrightarrow> \<exists>s1 changed. wf s1 \<and> rep t (map_option sf_data (file w)) s1 \<and> mutate s1 = (Inr changed, s') \<and>
      (if changed then \<exists>f. file w' = Some f \<and> marshal t s' = Inr (sf_data f) \<and> coherent rep p t g' s' (file w')
       else file w' = file w \<and> (quiet mutate \<longrightarrow> coherent rep p t g' s' (file w')))"
proof -
  from coh obtain gd where g: "g = Some gd" "g_path gd = p" "p \<noteq> []"
    by (auto simp: coherent_def split: option.splits)
  note un = sf_unlock_file[OF laws]
  obtain l w1 where l: "sf_lock D (p @ ''.lock'') w = (l :: 'e sf_error + nat, w1)" by (metis prod.collapse)
  have f1: "file w1 = file w" by (rule sf_lock_file[OF laws l])
  have "(r \<noteq> None \<longrightarrow> file w' = file w) \<and> (r = None \<longrightarrow>
    (\<exists>s1 changed. wf s1 \<and> rep t (map_option sf_data (file w)) s1 \<and> mutate s1 = (Inr changed, s') \<and>
      (if changed then \<exists>f. file w' = Some f \<and> marshal t s' = Inr (sf_data f) \<and> coherent rep p t g' s' (file w')
       else file w' = file w \<and> (quiet mutate \<longrightarrow> coherent rep p t g' s' (file w')))))"
  proof (cases l)
    case (Inl e)
    with wr g l f1 show ?thesis by (auto simp: guard_write_def)
  next
    case (Inr lk)
    obtain r2 g2 s2 w2 where fr: "guard_fresh D (load t) g s w1 = (r2, g2, s2, w2)" by (metis prod.collapse)
    have coh1: "coherent rep p t0 g s (file w1)" using coh f1 by simp
    note fresh = fresh_current[OF laws coh1 t fr]
    show ?thesis
    proof (cases r2)
      case (Some e)
      with wr g l Inr fr fresh(1) f1 un show ?thesis by (auto simp: guard_write_def)
    next
      case None
      then have rep: "rep t (map_option sf_data (file w)) s2" using fresh(3) f1 by simp
      have wf2: "wf s2" by (rule rep_wf[OF rep])
      obtain m s3 where m: "mutate s2 = (m, s3)" by (metis prod.collapse)
      have coh2: "quiet mutate \<Longrightarrow> m \<noteq> Inr True \<Longrightarrow> coherent rep p t g2 s3 (file w)"
        using fresh(2) f1 m by (auto simp: quiet_def)
      show ?thesis
      proof (cases "m = Inr True")
        case False
        show ?thesis
        proof (cases m)
          case (Inl e)
          with wr g l \<open>l = Inr lk\<close> fr None m fresh(1) f1 un show ?thesis by (auto simp: guard_write_def)
        next
          case (Inr ch)
          then have "m = Inr False" using False by (cases ch) auto
          moreover from this have "r = None" "s' = s3" "g' = g2" "file w' = file w"
            using wr g l \<open>l = Inr lk\<close> fr None m fresh(1) f1 un by (auto simp: guard_write_def)
          ultimately show ?thesis using wf2 rep m coh2 by (auto intro!: exI[of _ s2] exI[of _ False])
        qed
      next
        case True
        obtain gd2 where g2: "g2 = Some gd2" "g_path gd2 = p"
          using fresh(2) by (auto simp: coherent_def split: option.splits)
        show ?thesis
        proof (cases "marshal t s3")
          case (Inl e)
          with wr g l Inr fr None m True fresh(1) f1 un show ?thesis by (auto simp: guard_write_def)
        next
          case (Inr b)
          obtain r4 w4 where rp: "sf_replace D p b w2 = (r4 :: 'e sf_error option, w4)" by (metis prod.collapse)
          note atomic = sf_replace_atomic[OF laws rp]
          show ?thesis
          proof (cases r4)
            case (Some e)
            with wr g l \<open>l = Inr lk\<close> fr None m True Inr rp atomic(2) fresh(1) f1 un show ?thesis
              by (auto simp: guard_write_def)
          next
            case r4: None
            then obtain f where f: "file w4 = Some f" "sf_data f = b" using atomic(1) by blast
            obtain st w5 where st: "sd_stat D p w4 = (st, w5)" by (metis prod.collapse)
            have f5: "file w5 = Some f" using disk_stat(1)[OF laws st] f by simp
            have rep3: "rep t (Some b) s3"
              using mut wf2 m marshal_rep[OF _ Inr] by (auto simp: preserves_def)
            have out: "r = None" "s' = s3" "file w' = Some f" "\<exists>gd'. g' = Some gd' \<and> g_path gd' = p"
              using wr g l \<open>l = Inr lk\<close> fr None m True Inr rp r4 st f5 un g2
              by (cases st; auto simp: guard_write_def)+
            then have "coherent rep p t g' s' (file w')"
              using rep3 f(2) g(3) by (auto simp: coherent_def)
            with out wf2 rep m True Inr f show ?thesis by auto
          qed
        qed
      qed
    qed
  qed
  then show "r \<noteq> None \<Longrightarrow> file w' = file w"
    and "r = None \<Longrightarrow> \<exists>s1 changed. wf s1 \<and> rep t (map_option sf_data (file w)) s1 \<and> mutate s1 = (Inr changed, s') \<and>
      (if changed then \<exists>f. file w' = Some f \<and> marshal t s' = Inr (sf_data f) \<and> coherent rep p t g' s' (file w')
       else file w' = file w \<and> (quiet mutate \<longrightarrow> coherent rep p t g' s' (file w')))" by auto
qed

end


section \<open>A disk in memory, for concrete runs\<close>

text \<open>One state file and the temporary files by name; every rename gets the next stamp.\<close>

record 'b ram =
  ram_file :: "'b stored option"
  ram_temp :: "string \<Rightarrow> 'b option"
  ram_clock :: int

definition ram_disk :: "('b, 'b ram) sf_disk" where
  "ram_disk = \<lparr>
     sd_stat = (\<lambda>q w. (case ram_file w of None \<Rightarrow> NotExist | Some f \<Rightarrow> StatOk (sf_mtime f) (sf_size f), w)),
     sd_read = (\<lambda>q w. (case ram_file w of None \<Rightarrow> Inl ''absent'' | Some f \<Rightarrow> Inr (sf_data f), w)),
     sd_mkdir_all = (\<lambda>q w. (None, w)), sd_open_lock = (\<lambda>q w. (Inr 3, w)),
     sd_flock = (\<lambda>f b w. (None, w)), sd_close_lock = (\<lambda>f w. w),
     sd_create_temp = (\<lambda>d q w. (Inr ''tmp'', w)), sd_chmod = (\<lambda>q w. (None, w)),
     sd_write = (\<lambda>q b w. (None, w\<lparr>ram_temp := (ram_temp w)(q \<mapsto> b)\<rparr>)),
     sd_sync = (\<lambda>q w. (None, w)), sd_close = (\<lambda>q w. (None, w)),
     sd_rename = (\<lambda>q p w. case ram_temp w q of
         None \<Rightarrow> (Some ''absent'', w)
       | Some b \<Rightarrow> (None, w\<lparr>ram_file := Some \<lparr>sf_data = b, sf_mtime = ram_clock w, sf_size = 1\<rparr>,
                           ram_clock := ram_clock w + 1\<rparr>)),
     sd_remove = (\<lambda>q w. w\<lparr>ram_temp := (ram_temp w)(q := None)\<rparr>) \<rparr>"

definition ram_start :: "'b ram" where
  "ram_start = \<lparr>ram_file = None, ram_temp = (\<lambda>_. None), ram_clock = 1\<rparr>"

lemma ram_disk_laws: "disk_laws p ram_file ram_temp ram_disk"
  unfolding disk_laws_def ram_disk_def by (auto split: option.splits)

lemmas ram_defs = ram_disk_def ram_start_def guard_write_def guard_fresh_def guard_new_def
  sf_lock_def sf_unlock_def sf_replace_def Let_def

end
