(* ===== verification/Share.thy ===== *)
theory Share
  imports Statefile "HOL-Library.AList" "HOL-Library.List_Lexorder" "HOL-Library.Char_ord"
begin

text \<open>
  Capability links, \<^verbatim>\<open>src/internal/share/share.go\<close> and \<^verbatim>\<open>src/internal/share/file.go\<close>: the links,
  the store and its persistence through the guard of \<open>Statefile\<close>, and every operation.

  The Go map of links is an association list with distinct keys; what is written to disk is
  the list of links. The hash (SHA-256) is the parameter \<open>sha\<close>, random bytes are arguments,
  and \<open>now\<close> is the instant an operation runs at. Times count nanoseconds.
\<close>

definition max_lifetime :: duration where "max_lifetime = 30 * 24 * hour"
definition default_lifetime :: duration where "default_lifetime = 7 * 24 * hour"

datatype share_error = ErrNotFound | ErrPassword | ErrRequired | ErrLoad | ErrRandom string | ErrSave string

record link =
  l_token :: string
  l_owner :: string
  l_path :: string
  l_created :: time
  l_expires :: time
  l_salt :: "uint8 list"
  l_hash :: "uint8 list"

definition link_protected :: "link \<Rightarrow> bool" where
  "link_protected l = (length (l_hash l) > 0)"

definition link_expired :: "time \<Rightarrow> link \<Rightarrow> bool" where
  "link_expired now l = (now > l_expires l)"

type_synonym link_map = "(string \<times> link) list"

definition hash_password :: "(uint8 list \<Rightarrow> uint8 list) \<Rightarrow> uint8 list \<Rightarrow> uint8 list \<Rightarrow> uint8 list" where
  "hash_password sha salt pw = sha (salt @ pw)"

section \<open>Persistence\<close>

fun share_load_links :: "time \<Rightarrow> link list \<Rightarrow> link_map \<Rightarrow> link_map" where
  "share_load_links now [] m = m"
| "share_load_links now (l # ls) m =
     (if l_token l = [] \<or> link_expired now l then share_load_links now ls m
      else share_load_links now ls (AList.update (l_token l) l m))"

definition share_load :: "time \<Rightarrow> link list doc option \<Rightarrow> link_map \<Rightarrow> share_error option \<times> link_map" where
  "share_load now data m =
     (case data of
        Some BadDoc \<Rightarrow> (Some ErrLoad, m)
      | Some (Doc links) \<Rightarrow> (None, share_load_links now links [])
      | _ \<Rightarrow> (None, []))"

definition share_snapshot :: "time \<Rightarrow> link_map \<Rightarrow> link list" where
  "share_snapshot now m =
     sort_by (\<lambda>a b. l_token a \<le> l_token b) (filter (\<lambda>l. \<not> link_expired now l) (map snd m))"

definition share_marshal :: "time \<Rightarrow> link_map \<Rightarrow> share_error + link list doc" where
  "share_marshal now m = Inr (Doc (share_snapshot now m))"

text \<open>
  The store: the guard and the links, and the optional \<^verbatim>\<open>Save\<close> of the in-memory mode.
\<close>

record 'w share_store =
  ss_guard :: "guard option"
  ss_m :: link_map
  ss_save :: "(link list \<Rightarrow> 'w \<Rightarrow> string option \<times> 'w) option"

type_synonym 'w share_disk = "(link list doc, 'w) sf_disk"

definition new_store :: "'w share_store" where
  "new_store = \<lparr>ss_guard = None, ss_m = [], ss_save = None\<rparr>"

definition share_fresh :: "'w share_disk \<Rightarrow> time \<Rightarrow> 'w share_store \<Rightarrow> 'w \<Rightarrow> 'w share_store \<times> 'w" where
  "share_fresh D now s w =
     (case guard_fresh D (share_load now) (ss_guard s) (ss_m s) w of
        (_, g, m, w) \<Rightarrow> (s\<lparr>ss_guard := g, ss_m := m\<rparr>, w))"

definition share_commit ::
  "'w share_disk \<Rightarrow> time \<Rightarrow> (link_map \<Rightarrow> (share_error + bool) \<times> link_map) \<Rightarrow> 'w share_store \<Rightarrow> 'w \<Rightarrow>
   share_error sf_error option \<times> 'w share_store \<times> 'w" where
  "share_commit D now mutate s w =
     (case ss_guard s of
        Some _ \<Rightarrow>
          (case guard_write D (share_load now) mutate (share_marshal now) (ss_guard s) (ss_m s) w of
             (r, g, m, w) \<Rightarrow> (r, s\<lparr>ss_guard := g, ss_m := m\<rparr>, w))
      | None \<Rightarrow>
          (case mutate (ss_m s) of
             (Inl e, m) \<Rightarrow> (Some (SfClient e), s\<lparr>ss_m := m\<rparr>, w)
           | (Inr changed, m) \<Rightarrow>
               (if \<not> changed then (None, s\<lparr>ss_m := m\<rparr>, w)
                else
                  (case ss_save s of
                     None \<Rightarrow> (None, s\<lparr>ss_m := m\<rparr>, w)
                   | Some save \<Rightarrow>
                       (case save (share_snapshot now m) w of
                          (r, w) \<Rightarrow> (map_option (\<lambda>e. SfClient (ErrSave e)) r, s\<lparr>ss_m := m\<rparr>, w))))))"

definition new_file_store :: "'w share_disk \<Rightarrow> time \<Rightarrow> string \<Rightarrow> 'w \<Rightarrow> (share_error sf_error + 'w share_store) \<times> 'w" where
  "new_file_store D now path w =
     (case guard_fresh D (share_load now) (Some (guard_new path)) [] w of
        (Some e, _, _, w) \<Rightarrow> (Inl e, w)
      | (None, g, m, w) \<Rightarrow> (Inr (new_store\<lparr>ss_guard := g, ss_m := m\<rparr>), w))"

section \<open>Operations\<close>

definition clamp_lifetime :: "duration \<Rightarrow> duration" where
  "clamp_lifetime lifetime =
     (let lifetime = (if lifetime \<le> 0 then default_lifetime else lifetime)
      in if lifetime > max_lifetime then max_lifetime else lifetime)"

text \<open>\<open>raw\<close> and \<open>salt\<close> are what \<^verbatim>\<open>rand.Read\<close> fills in.\<close>

definition make_link ::
  "(uint8 list \<Rightarrow> uint8 list) \<Rightarrow> time \<Rightarrow> uint8 list \<Rightarrow> uint8 list \<Rightarrow> string \<Rightarrow> string \<Rightarrow> uint8 list \<Rightarrow> duration \<Rightarrow> link" where
  "make_link sha now raw salt owner path pw lifetime =
     (let l = \<lparr>l_token = base64url raw, l_owner = owner, l_path = path, l_created = now,
               l_expires = now + clamp_lifetime lifetime, l_salt = [], l_hash = []\<rparr>
      in if pw \<noteq> [] then l\<lparr>l_salt := salt, l_hash := hash_password sha salt pw\<rparr> else l)"

definition share_create ::
  "(uint8 list \<Rightarrow> uint8 list) \<Rightarrow> 'w share_disk \<Rightarrow> time \<Rightarrow> (string + uint8 list) \<Rightarrow> (string + uint8 list) \<Rightarrow>
   string \<Rightarrow> string \<Rightarrow> uint8 list \<Rightarrow> duration \<Rightarrow> 'w share_store \<Rightarrow> 'w \<Rightarrow>
   (share_error sf_error + link) \<times> 'w share_store \<times> 'w" where
  "share_create sha D now raw salt owner path pw lifetime s w =
     (if owner = [] \<or> path = [] then (Inl (SfClient ErrRequired), s, w)
      else
        (case raw of
           Inl e \<Rightarrow> (Inl (SfClient (ErrRandom e)), s, w)
         | Inr raw \<Rightarrow>
             (case (if pw \<noteq> [] then salt else Inr []) of
                Inl e \<Rightarrow> (Inl (SfClient (ErrRandom e)), s, w)
              | Inr salt \<Rightarrow>
                  (let l = make_link sha now raw salt owner path pw lifetime
                   in case share_commit D now (\<lambda>m. (Inr True, AList.update (l_token l) l m)) s w of
                        (Some e, s, w) \<Rightarrow> (Inl e, s, w)
                      | (None, s, w) \<Rightarrow> (Inr l, s, w)))))"

definition share_resolve ::
  "(uint8 list \<Rightarrow> uint8 list) \<Rightarrow> 'w share_disk \<Rightarrow> time \<Rightarrow> string \<Rightarrow> uint8 list \<Rightarrow> 'w share_store \<Rightarrow> 'w \<Rightarrow>
   (share_error + link) \<times> 'w share_store \<times> 'w" where
  "share_resolve sha D now token pw s w =
     (case share_fresh D now s w of
        (s, w) \<Rightarrow>
          (case map_of (ss_m s) token of
             None \<Rightarrow> (Inl ErrNotFound, s, w)
           | Some l \<Rightarrow>
               (if link_expired now l then
                  (Inl ErrNotFound, s\<lparr>ss_m := AList.delete token (ss_m s)\<rparr>, w)
                else if link_protected l \<and> l_hash l \<noteq> hash_password sha (l_salt l) pw then
                  (Inl ErrPassword, s, w)
                else (Inr l, s, w))))"

definition share_get :: "'w share_disk \<Rightarrow> time \<Rightarrow> string \<Rightarrow> 'w share_store \<Rightarrow> 'w \<Rightarrow> (share_error + link) \<times> 'w share_store \<times> 'w" where
  "share_get D now token s w =
     (case share_fresh D now s w of
        (s, w) \<Rightarrow>
          (case map_of (ss_m s) token of
             None \<Rightarrow> (Inl ErrNotFound, s, w)
           | Some l \<Rightarrow> if link_expired now l then (Inl ErrNotFound, s, w) else (Inr l, s, w)))"

definition revoke_mutate :: "string \<Rightarrow> string \<Rightarrow> link_map \<Rightarrow> (share_error + bool) \<times> link_map" where
  "revoke_mutate owner token m =
     (case map_of m token of
        None \<Rightarrow> (Inl ErrNotFound, m)
      | Some l \<Rightarrow> if l_owner l \<noteq> owner then (Inl ErrNotFound, m) else (Inr True, AList.delete token m))"

definition share_revoke ::
  "'w share_disk \<Rightarrow> time \<Rightarrow> string \<Rightarrow> string \<Rightarrow> 'w share_store \<Rightarrow> 'w \<Rightarrow> share_error sf_error option \<times> 'w share_store \<times> 'w" where
  "share_revoke D now owner token s w = share_commit D now (revoke_mutate owner token) s w"

definition share_list_by_owner :: "'w share_disk \<Rightarrow> time \<Rightarrow> string \<Rightarrow> 'w share_store \<Rightarrow> 'w \<Rightarrow> link list \<times> 'w share_store \<times> 'w" where
  "share_list_by_owner D now owner s w =
     (case share_fresh D now s w of
        (s, w) \<Rightarrow>
          (sort_by (\<lambda>a b. l_created a \<ge> l_created b)
             (map (\<lambda>l. l\<lparr>l_hash := [], l_salt := []\<rparr>)
                (filter (\<lambda>l. l_owner l = owner \<and> \<not> link_expired now l) (map snd (ss_m s)))), s, w))"

definition sweep_mutate :: "time \<Rightarrow> link_map \<Rightarrow> (share_error + bool) \<times> link_map" where
  "sweep_mutate now m =
     (let live = filter (\<lambda>e. \<not> link_expired now (snd e)) m
      in (Inr (length live \<noteq> length m), live))"

definition share_sweep :: "'w share_disk \<Rightarrow> time \<Rightarrow> 'w share_store \<Rightarrow> 'w \<Rightarrow> share_error sf_error option \<times> 'w share_store \<times> 'w" where
  "share_sweep D now s w = share_commit D now (sweep_mutate now) s w"

definition share_len :: "'w share_disk \<Rightarrow> time \<Rightarrow> 'w share_store \<Rightarrow> 'w \<Rightarrow> nat \<times> 'w share_store \<times> 'w" where
  "share_len D now s w =
     (case share_fresh D now s w of (s, w) \<Rightarrow> (length (share_snapshot now (ss_m s)), s, w))"


section \<open>The links of a document and of a store\<close>

definition keyed :: "link_map \<Rightarrow> bool" where
  "keyed m \<longleftrightarrow> distinct (map fst m) \<and> (\<forall>(k, l) \<in> set m. l_token l = k \<and> k \<noteq> [])"

text \<open>The link a token names at an instant, in memory and in a document.\<close>

definition live :: "time \<Rightarrow> link_map \<Rightarrow> string \<Rightarrow> link option" where
  "live t m k = (case map_of m k of None \<Rightarrow> None | Some l \<Rightarrow> if link_expired t l then None else Some l)"

fun doc_links :: "link list doc option \<Rightarrow> link list" where
  "doc_links (Some (Doc ls)) = ls"
| "doc_links x = []"

definition doc_map :: "link list doc option \<Rightarrow> link_map" where
  "doc_map x = map (\<lambda>l. (l_token l, l)) (doc_links x)"

definition share_rep :: "time \<Rightarrow> link list doc option \<Rightarrow> link_map \<Rightarrow> bool" where
  "share_rep t x m \<longleftrightarrow> keyed m \<and> (keyed (doc_map x) \<longrightarrow> (\<forall>t' \<ge> t. live t' m = live t' (doc_map x)))"

lemma link_expired_mono: "link_expired t l \<Longrightarrow> t \<le> t' \<Longrightarrow> link_expired t' l"
  by (simp add: link_expired_def)

lemma live_Some: "live t m k = Some l \<longleftrightarrow> map_of m k = Some l \<and> \<not> link_expired t l"
  by (auto simp: live_def split: option.splits)

lemma live_None: "live t m k = None \<longleftrightarrow> (\<forall>l. map_of m k = Some l \<longrightarrow> link_expired t l)"
  by (auto simp: live_def split: option.splits)

lemma keyed_Nil [simp]: "keyed []"
  by (simp add: keyed_def)

lemma set_alist_update: "(a, b) \<in> set (AList.update k v m) \<Longrightarrow> (a, b) = (k, v) \<or> (a, b) \<in> set m"
  by (induction m) (auto split: if_splits)

lemma keyed_update: "keyed m \<Longrightarrow> l_token l \<noteq> [] \<Longrightarrow> keyed (AList.update (l_token l) l m)"
  unfolding keyed_def
  by (auto simp: AList.distinct_update dest!: set_alist_update)

lemma keyed_delete: "keyed m \<Longrightarrow> keyed (AList.delete k m)"
  unfolding keyed_def by (auto simp: AList.delete_eq intro: distinct_map_filterI)

lemma keyed_filter: "keyed m \<Longrightarrow> keyed (filter P m)"
  unfolding keyed_def by (auto simp: distinct_map_filterI)

lemma keyed_load_links: "keyed m \<Longrightarrow> keyed (share_load_links t ls m)"
  by (induction ls arbitrary: m) (auto intro: keyed_update)

lemma map_of_load_links:
  "keyed (map (\<lambda>l. (l_token l, l)) ls) \<Longrightarrow>
   map_of (share_load_links t ls m) k =
     (case map_of (map (\<lambda>l. (l_token l, l)) ls) k of
        Some l \<Rightarrow> if link_expired t l then map_of m k else Some l
      | None \<Rightarrow> map_of m k)"
proof (induction ls arbitrary: m)
  case Nil
  then show ?case by simp
next
  case (Cons l ls)
  then have k: "keyed (map (\<lambda>l. (l_token l, l)) ls)" "l_token l \<noteq> []" and
    n: "l_token l \<notin> l_token ` set ls"
    by (auto simp: keyed_def o_def)
  then have "map_of (map (\<lambda>l. (l_token l, l)) ls) (l_token l) = None"
    by (auto simp: map_of_eq_None_iff o_def)
  with Cons.IH[OF k(1)] k(2) show ?case
    by (auto simp: update_conv' split: option.splits)
qed

interpretation share: replicated_store share_load share_marshal share_rep keyed
proof unfold_locales
  show "share_rep t x m'" if "share_load t x m = (None, m')" for t x m m'
  proof -
    have "live t' (share_load_links t ls []) = live t' (map (\<lambda>l. (l_token l, l)) ls)"
      if "keyed (map (\<lambda>l. (l_token l, l)) ls)" "t \<le> t'" for t' ls
      by (rule ext) (auto simp: live_def map_of_load_links[OF that(1)] split: option.splits
          dest: link_expired_mono[OF _ that(2)])
    with that show ?thesis
      by (auto simp: share_load_def share_rep_def doc_map_def keyed_load_links split: option.splits doc.splits)
  qed
  show "keyed m" if "share_rep t x m" for t x m
    using that by (simp add: share_rep_def)
  show "share_rep t (Some b) m" if "keyed m" "share_marshal t m = Inr b" for t m b
  proof -
    let ?ls = "share_snapshot t m"
    have set: "set ?ls = {l. \<exists>k. (k, l) \<in> set m \<and> \<not> link_expired t l}"
      by (force simp: share_snapshot_def image_iff)
    have mk: "map_of m k = Some l \<longleftrightarrow> (k, l) \<in> set m" for k l
      using \<open>keyed m\<close> by (auto simp: keyed_def intro: map_of_SomeD)
    have "live t' m k = live t' (map (\<lambda>l. (l_token l, l)) ?ls) k"
      if kd: "keyed (map (\<lambda>l. (l_token l, l)) ?ls)" and t: "t \<le> t'" for t' k
    proof -
      have "map_of (map (\<lambda>l. (l_token l, l)) ?ls) k = Some l \<longleftrightarrow> l \<in> set ?ls \<and> l_token l = k" for l
        using kd by (auto simp: keyed_def map_of_eq_Some_iff)
      moreover have "l \<in> set ?ls \<and> l_token l = k \<longleftrightarrow> map_of m k = Some l \<and> \<not> link_expired t l" for l
        using set mk \<open>keyed m\<close> by (auto simp: keyed_def)
      ultimately have "live t' (map (\<lambda>l. (l_token l, l)) ?ls) k = Some l \<longleftrightarrow> live t' m k = Some l" for l
        using link_expired_mono[of t l t'] t by (auto simp: live_Some)
      then show ?thesis by (metis not_Some_eq)
    qed
    with \<open>keyed m\<close> \<open>share_marshal t m = Inr b\<close> show ?thesis
      by (auto simp: share_marshal_def share_rep_def doc_map_def)
  qed
  show "share_rep t' x m" if "share_rep t x m" "t \<le> t'" for t t' x m
    using that by (auto simp: share_rep_def)
qed

lemma keyed_snapshot: "keyed m \<Longrightarrow> keyed (doc_map (Some (Doc (share_snapshot t m))))"
proof -
  assume m: "keyed m"
  let ?ls = "filter (\<lambda>l. \<not> link_expired t l) (map snd m)"
  have inj: "map l_token (map snd m) = map fst m"
    using m by (auto simp: keyed_def intro!: map_cong)
  then have "distinct (map l_token (map snd m))" using m by (simp only: keyed_def)
  then have "distinct (map l_token ?ls)" by (rule distinct_map_filterI)
  then have "distinct (map l_token (share_snapshot t m))"
    unfolding share_snapshot_def by (simp add: distinct_map)
  moreover have "l \<in> set (share_snapshot t m) \<Longrightarrow> l_token l \<noteq> []" for l
    using m by (auto simp: share_snapshot_def keyed_def)
  ultimately show ?thesis by (auto simp: keyed_def doc_map_def o_def)
qed


section \<open>Replicas\<close>

text \<open>A replica's store over the state file at \<open>p\<close>, at the instant \<open>t\<close>.\<close>

definition share_replica :: "string \<Rightarrow> time \<Rightarrow> 'w share_store \<Rightarrow> link list doc stored option \<Rightarrow> bool" where
  "share_replica p t s fo \<longleftrightarrow> coherent share_rep p t (ss_guard s) (ss_m s) fo"

text \<open>What is committed on disk, as a map from tokens to live links.\<close>

definition committed :: "time \<Rightarrow> link list doc stored option \<Rightarrow> string \<Rightarrow> link option" where
  "committed t fo = live t (doc_map (map_option sf_data fo))"

definition file_keyed :: "link list doc stored option \<Rightarrow> bool" where
  "file_keyed fo \<longleftrightarrow> keyed (doc_map (map_option sf_data fo))"

definition reload_ok :: "'w share_disk \<Rightarrow> time \<Rightarrow> 'w share_store \<Rightarrow> 'w \<Rightarrow> bool" where
  "reload_ok D t s w \<longleftrightarrow> fst (guard_fresh D (share_load t) (ss_guard s) (ss_m s) w) = None"

lemma share_fresh_current:
  assumes "disk_laws p file temp D" and "share_replica p t0 s (file w)" and "t0 \<le> t"
    and "share_fresh D t s w = (s', w')"
  shows "file w' = file w" "share_replica p t s' (file w)"
    "reload_ok D t s w \<Longrightarrow> file_keyed (file w) \<Longrightarrow> live t (ss_m s') = committed t (file w)"
proof -
  obtain r g m v where f: "guard_fresh D (share_load t) (ss_guard s) (ss_m s) w = (r, g, m, v)"
    by (metis prod.collapse)
  have s': "ss_guard s' = g" "ss_m s' = m" "w' = v"
    using assms(4) f by (auto simp: share_fresh_def)
  have coh: "coherent share_rep p t0 (ss_guard s) (ss_m s) (file w)"
    using assms(2) by (auto simp: share_replica_def)
  note c = share.fresh_current[OF assms(1) coh assms(3) f]
  show "file w' = file w" using c(1) s' by simp
  show "share_replica p t s' (file w)" using c(2) s' by (simp add: share_replica_def)
  show "live t (ss_m s') = committed t (file w)" if "reload_ok D t s w" "file_keyed (file w)"
    using that c(3) s' f by (auto simp: reload_ok_def file_keyed_def committed_def share_rep_def)
qed

lemma share_commit_serial:
  assumes laws: "disk_laws p file temp D" and s: "share_replica p t0 s (file w)" and t: "t0 \<le> t"
    and mut: "preserves keyed mutate" and ch: "always_writes mutate"
    and c: "share_commit D t mutate s w = (None, s', w')"
  shows "\<exists>m1 f. keyed m1 \<and> mutate m1 = (Inr True, ss_m s') \<and> keyed (ss_m s') \<and>
    (file_keyed (file w) \<longrightarrow> live t m1 = committed t (file w)) \<and>
    file w' = Some f \<and> sf_data f = Doc (share_snapshot t (ss_m s')) \<and>
    file_keyed (file w') \<and> share_replica p t s' (file w') \<and>
    (\<forall>t' \<ge> t. committed t' (file w') = live t' (ss_m s'))"
proof -
  have coh: "coherent share_rep p t0 (ss_guard s) (ss_m s) (file w)"
    using s by (auto simp: share_replica_def)
  then obtain gd where g: "ss_guard s = Some gd" by (auto simp: coherent_def split: option.splits)
  obtain r g' m w2 where wr: "guard_write D (share_load t) mutate (share_marshal t) (ss_guard s) (ss_m s) w = (r, g', m, w2)"
    by (metis prod.collapse)
  have s': "r = None" "ss_guard s' = g'" "ss_m s' = m" "w2 = w'"
    using c g wr by (auto simp: share_commit_def)
  obtain m1 changed where m1: "keyed m1" "share_rep t (map_option sf_data (file w)) m1"
    "mutate m1 = (Inr changed, m)" and
    res: "if changed then \<exists>f. file w' = Some f \<and> share_marshal t m = Inr (sf_data f) \<and> coherent share_rep p t g' m (file w')
      else file w' = file w \<and> (quiet mutate \<longrightarrow> coherent share_rep p t g' m (file w'))"
    using share.write_serial(2)[OF laws coh t mut wr s'(1)] s'(4) by metis
  have "changed" using ch m1(3) by (cases changed) (auto simp: always_writes_def)
  then obtain f where f: "file w' = Some f" "Doc (share_snapshot t m) = sf_data f"
    "coherent share_rep p t g' m (file w')"
    using res by (auto simp: share_marshal_def)
  have km: "keyed m" using mut m1(1,3) by (auto simp: preserves_def)
  have fk: "file_keyed (file w')" using f keyed_snapshot[OF km, of t] by (simp add: file_keyed_def)
  have "share_rep t (Some (sf_data f)) m"
    using share.marshal_rep[OF km, of t] f(2) by (simp add: share_marshal_def)
  then have "\<forall>t' \<ge> t. committed t' (file w') = live t' m"
    using fk f by (simp add: share_rep_def committed_def file_keyed_def)
  moreover have "file_keyed (file w) \<longrightarrow> live t m1 = committed t (file w)"
    using m1(2) by (simp add: share_rep_def committed_def file_keyed_def)
  ultimately show ?thesis
    using m1 \<open>changed\<close> f fk km s' by (auto simp: share_replica_def)
qed

lemma share_resolve_live:
  assumes "share_resolve sha D t token pw s w = (r, s', w')" and "share_fresh D t s w = (s1, w1)"
  shows "r = (case live t (ss_m s1) token of None \<Rightarrow> Inl ErrNotFound
    | Some l \<Rightarrow> if link_protected l \<and> l_hash l \<noteq> hash_password sha (l_salt l) pw then Inl ErrPassword else Inr l)"
  using assms by (auto simp: share_resolve_def live_def split: option.splits if_splits)

lemma live_delete: "live t (AList.delete k m) = (live t m)(k := None)"
  by (rule ext) (simp add: live_def AList.delete_conv' split: option.splits)

lemma live_update: "\<not> link_expired t l \<Longrightarrow> live t (AList.update k l m) = (live t m)(k \<mapsto> l)"
  by (rule ext) (simp add: live_def update_conv' split: option.splits)




text \<open>Two replicas that have both loaded a file with one link, for concrete runs.\<close>

definition sample_link :: link where
  "sample_link = \<lparr>l_token = ''tok'', l_owner = ''alice'', l_path = ''homes/alice/a'', l_created = 1,
     l_expires = 100, l_salt = [], l_hash = []\<rparr>"

definition sample_ram :: "link list doc ram" where
  "sample_ram = ram_start\<lparr>ram_file := Some \<lparr>sf_data = Doc [sample_link], sf_mtime = 5, sf_size = 1\<rparr>, ram_clock := 6\<rparr>"

definition sample_replica :: "link list doc ram share_store" where
  "sample_replica = \<lparr>ss_guard = Some \<lparr>g_path = ''links'', g_mtime = 5, g_size = 1, g_loaded = True\<rparr>,
     ss_m = [(''tok'', sample_link)], ss_save = None\<rparr>"

lemma sample_replica_ok: "share_replica ''links'' 7 sample_replica (ram_file sample_ram)"
  by (simp add: share_replica_def coherent_def sample_replica_def sample_ram_def keyed_def share_rep_def
      doc_map_def sample_link_def)

lemma sample_file_keyed: "file_keyed (ram_file sample_ram)"
  by (simp add: file_keyed_def sample_ram_def doc_map_def keyed_def sample_link_def)

lemmas share_sample_defs = ram_defs sample_ram_def sample_replica_def sample_link_def share_commit_def
  share_load_def share_marshal_def share_snapshot_def link_expired_def



end
