(* ===== verification/Auth.thy ===== *)
theory Auth
  imports GoPath
begin

text \<open>
  Credentials, \<^verbatim>\<open>src/internal/auth/auth.go\<close> and \<^verbatim>\<open>src/internal/auth/gate.go\<close>: account names,
  password rules, the two Samba tools asked over stdin, and the gate that says whether an
  account may sign in.

  A command is run through the parameter \<open>run\<close> (stdin, program, arguments), and names are
  looked up through the parameter \<open>resolve\<close>, both over a state \<open>'w\<close>.
\<close>

datatype auth_error = ErrUnavailable string | ErrWeakPassword string | ErrBadName string | ErrRun string

type_synonym 'w runner = "string \<Rightarrow> string \<Rightarrow> string list \<Rightarrow> 'w \<Rightarrow> (string + string) \<times> 'w"
type_synonym ('c, 'w) resolver = "string \<Rightarrow> 'w \<Rightarrow> (string + 'c) \<times> 'w"

section \<open>Names and passwords\<close>

definition lower_alpha :: "char \<Rightarrow> bool" where
  "lower_alpha c \<longleftrightarrow> 97 \<le> (of_char c :: nat) \<and> of_char c \<le> (122 :: nat)"

definition upper_alpha :: "char \<Rightarrow> bool" where
  "upper_alpha c \<longleftrightarrow> 65 \<le> (of_char c :: nat) \<and> of_char c \<le> (90 :: nat)"

definition digit :: "char \<Rightarrow> bool" where
  "digit c \<longleftrightarrow> 48 \<le> (of_char c :: nat) \<and> of_char c \<le> (57 :: nat)"

definition name_char :: "char \<Rightarrow> bool" where
  "name_char c \<longleftrightarrow> lower_alpha c \<or> digit c \<or> c = CHR ''_'' \<or> c = CHR ''.'' \<or> c = CHR ''-''"

text \<open>The regular expression \<^verbatim>\<open>^[a-z_][a-z0-9_.-]{0,31}$\<close>.\<close>

definition valid_name :: "string \<Rightarrow> bool" where
  "valid_name s =
     (case s of
        [] \<Rightarrow> False
      | c # r \<Rightarrow> (lower_alpha c \<or> c = CHR ''_'') \<and> list_all name_char r \<and> length r \<le> 31)"

definition min_password_length :: nat where "min_password_length = 8"
definition max_password_length :: nat where "max_password_length = 256"

definition newline :: char where "newline = byte 10"

definition check_password :: "string \<Rightarrow> auth_error option" where
  "check_password pw =
     (if length pw < min_password_length then Some (ErrWeakPassword ''at least 8 characters'')
      else if length pw > max_password_length then Some (ErrWeakPassword ''at most 256 bytes'')
      else if contains_any pw [newline, byte 13, byte 0] then Some (ErrWeakPassword ''no newlines or null bytes'')
      else None)"

definition password_set :: "'w runner \<Rightarrow> string \<Rightarrow> string \<Rightarrow> string \<Rightarrow> 'w \<Rightarrow> auth_error option \<times> 'w" where
  "password_set run path user pw w =
     (if \<not> valid_name user then (Some (ErrBadName user), w)
      else
        (case check_password pw of
           Some e \<Rightarrow> (Some e, w)
         | None \<Rightarrow>
             (let bin = (if path = [] then ''smbpasswd'' else path)
              in case run (pw @ [newline] @ pw @ [newline]) bin [''-s'', ''-a'', user] w of
                   (Inl e, w) \<Rightarrow> (Some (ErrRun e), w)
                 | (Inr _, w) \<Rightarrow> (None, w))))"

section \<open>ntlm_auth\<close>

definition ntlm_bin :: "string \<Rightarrow> string" where
  "ntlm_bin path = (if path = [] then ''ntlm_auth'' else path)"

definition hex_upper :: string where "hex_upper = ''0123456789ABCDEF''"

fun escape_cred :: "string \<Rightarrow> string" where
  "escape_cred [] = []"
| "escape_cred (c # s) =
     (if lower_alpha c \<or> upper_alpha c \<or> digit c \<or> c = CHR ''-'' \<or> c = CHR ''.'' \<or> c = CHR ''_'' \<or> c = CHR ''~''
      then c # escape_cred s
      else CHR ''%'' # hex_upper ! (of_char c div 16) # hex_upper ! (of_char c mod 16) # escape_cred s)"

definition parse_verdict :: "string \<Rightarrow> auth_error + bool" where
  "parse_verdict out =
     (let line = fst (cut (trim_space out) newline)
      in if line = ''OK'' \<or> has_prefix line ''OK '' then Inr True
         else if line = ''ERR'' \<or> has_prefix line ''ERR '' then Inr False
         else Inl (ErrUnavailable line))"

definition ntlm_stdin :: "string \<Rightarrow> string \<Rightarrow> string" where
  "ntlm_stdin user pw = escape_cred user @ '' '' @ escape_cred pw @ [newline]"

definition authenticate :: "'w runner \<Rightarrow> string \<Rightarrow> string \<Rightarrow> string \<Rightarrow> 'w \<Rightarrow> (auth_error + bool) \<times> 'w" where
  "authenticate run path user pw w =
     (if \<not> valid_name user then (Inr False, w)
      else if pw = [] then (Inr False, w)
      else
        (case run (ntlm_stdin user pw) (ntlm_bin path) [''--helper-protocol=squid-2.5-basic''] w of
           (Inl e, w) \<Rightarrow> (Inl (ErrUnavailable e), w)
         | (Inr out, w) \<Rightarrow> (parse_verdict out, w)))"

section \<open>The gate\<close>

record verdict =
  v_allowed :: bool
  v_reason :: string

definition denied :: "string \<Rightarrow> verdict" where
  "denied reason = \<lparr>v_allowed = False, v_reason = reason\<rparr>"

text \<open>The loop over the lines of \<^verbatim>\<open>pdbedit -L -v\<close>: the user of the record being read and the flags so far.\<close>

definition flags_line :: "string \<Rightarrow> string \<times> (string \<rightharpoonup> bool) \<Rightarrow> string \<times> (string \<rightharpoonup> bool)" where
  "flags_line line st =
     (case st of (current, accounts) \<Rightarrow>
        (case cut line CHR '':'' of (key, val, ok) \<Rightarrow>
           (if \<not> ok then st
            else
              (let key = trim_space key; val = trim_space val
               in if key = ''Unix username'' then (val, accounts(val \<mapsto> True))
                  else if key = ''Account Flags'' then
                    (if current \<noteq> [] then (current, accounts(current \<mapsto> \<not> str_contains val ''D'')) else st)
                  else st))))"

definition parse_account_flags :: "string \<Rightarrow> string \<rightharpoonup> bool" where
  "parse_account_flags out = snd (fold flags_line (split_on newline out) ([], Map.empty))"

definition may_sign_in ::
  "('c, 'w) resolver \<Rightarrow> 'w runner \<Rightarrow> string \<Rightarrow> string \<Rightarrow> 'w \<Rightarrow> (auth_error + verdict) \<times> 'w" where
  "may_sign_in resolve run pdbedit_bin user w =
     (if \<not> valid_name user then (Inr (denied ''not a possible account name''), w)
      else
        (case resolve user w of
           (Inl _, w) \<Rightarrow> (Inr (denied ''no such account on this server''), w)
         | (Inr _, w) \<Rightarrow>
             (let bin = (if pdbedit_bin = [] then ''pdbedit'' else pdbedit_bin)
              in case run [] bin [''-L'', ''-v''] w of
                   (Inl e, w) \<Rightarrow> (Inl (ErrUnavailable e), w)
                 | (Inr out, w) \<Rightarrow>
                     (case parse_account_flags out user of
                        None \<Rightarrow> (Inr (denied ''no SMB account''), w)
                      | Some enabled \<Rightarrow>
                          (if \<not> enabled then (Inr (denied ''account is suspended''), w)
                           else (Inr \<lparr>v_allowed = True, v_reason = []\<rparr>, w))))))"

definition gate_exists :: "('c, 'w) resolver \<Rightarrow> string \<Rightarrow> 'w \<Rightarrow> bool \<times> 'w" where
  "gate_exists resolve user w =
     (if \<not> valid_name user then (False, w)
      else (case resolve user w of (Inl _, w) \<Rightarrow> (False, w) | (Inr _, w) \<Rightarrow> (True, w)))"

section \<open>Names\<close>

lemma name_charD:
  "name_char c \<Longrightarrow> c \<noteq> CHR ''/'' \<and> c \<noteq> CHR '' '' \<and> c \<noteq> newline \<and> c \<noteq> CHR ''%''"
proof -
  assume "name_char c"
  moreover have "\<not> name_char CHR ''/''" "\<not> name_char CHR '' ''" "\<not> name_char newline" "\<not> name_char CHR ''%''"
    by (simp_all add: name_char_def lower_alpha_def digit_def newline_def byte_def char_of_eq_iff)
  ultimately show ?thesis by auto
qed

lemma valid_name_chars: "valid_name s \<Longrightarrow> list_all name_char s"
  by (auto simp: valid_name_def name_char_def split: list.splits)

lemma valid_name_plain:
  assumes "valid_name s" shows "plain_name s"
proof -
  have "slash \<notin> set s" using valid_name_chars[OF assms] name_charD by (auto simp: list_all_iff)
  moreover obtain c r where "s = c # r" "lower_alpha c \<or> c = CHR ''_''"
    using assms by (auto simp: valid_name_def split: list.splits)
  moreover have "\<not> lower_alpha CHR ''.''" by (simp add: lower_alpha_def)
  ultimately show ?thesis by (auto simp: plain_name_def)
qed

lemma valid_name_no_flag: "valid_name s \<Longrightarrow> hd s \<noteq> CHR ''-''"
  by (auto simp: valid_name_def lower_alpha_def split: list.splits)

lemma valid_name_length: "valid_name s \<Longrightarrow> 0 < length s \<and> length s \<le> 32"
  by (auto simp: valid_name_def split: list.splits)

lemma valid_name_not_Nil [simp]: "valid_name s \<Longrightarrow> s \<noteq> []"
  by (auto simp: valid_name_def)

section \<open>The request to ntlm_auth\<close>

text \<open>
  What a request means (a specification, not code of the repository): one line of two fields
  separated by the first space, each percent-decoded as RFC 3986 says.
\<close>

definition hex_val :: "char \<Rightarrow> nat option" where
  "hex_val c =
     (let n = (of_char c :: nat)
      in if 48 \<le> n \<and> n \<le> 57 then Some (n - 48)
         else if 65 \<le> n \<and> n \<le> 70 then Some (n - 55)
         else if 97 \<le> n \<and> n \<le> 102 then Some (n - 87) else None)"

fun unescape :: "string \<Rightarrow> string option" where
  "unescape [] = Some []"
| "unescape (c # s) =
     (if c = CHR ''%'' then
        (case s of
           h # l # r \<Rightarrow>
             (case (hex_val h, hex_val l, unescape r) of
                (Some a, Some b, Some t) \<Rightarrow> Some (char_of (a * 16 + b) # t)
              | _ \<Rightarrow> None)
         | _ \<Rightarrow> None)
      else map_option ((#) c) (unescape s))"

definition ntlm_read :: "string \<Rightarrow> (string \<times> string) option" where
  "ntlm_read input =
     (case cut (fst (cut input newline)) CHR '' '' of (u, p, ok) \<Rightarrow>
        if ok then (case (unescape u, unescape p) of (Some a, Some b) \<Rightarrow> Some (a, b) | _ \<Rightarrow> None)
        else None)"

lemma hex_upper_val: "n < 16 \<Longrightarrow> hex_val (hex_upper ! n) = Some n"
proof -
  have "list_all (\<lambda>n. hex_val (hex_upper ! n) = Some n) [0..<16]"
    by (simp add: upt_rec hex_upper_def hex_val_def)
  then show "n < 16 \<Longrightarrow> ?thesis" by (simp add: list_all_iff)
qed

lemma of_char_256: "(of_char c :: nat) < 256"
  by (cases c) simp

lemma hex_digits: "(of_char c :: nat) div 16 < 16" "(of_char c :: nat) mod 16 < 16"
  using of_char_256[of c] by (simp_all add: less_mult_imp_div_less)

lemma unescape_escape: "unescape (escape_cred s) = Some s"
proof (induction s)
  case Nil
  then show ?case by simp
next
  case (Cons c s)
  have c: "(of_char c :: nat) div 16 < 16" by (rule hex_digits(1))
  have "\<not> lower_alpha CHR ''%''" "\<not> upper_alpha CHR ''%''" "\<not> digit CHR ''%''"
    by (simp_all add: lower_alpha_def upper_alpha_def digit_def)
  moreover have "(of_char c :: nat) div 16 * 16 + of_char c mod 16 = of_char c" by simp
  ultimately show ?case using Cons c hex_upper_val[OF c] hex_upper_val[of "of_char c mod 16"]
    by auto
qed

definition cred_plain :: "char \<Rightarrow> bool" where
  "cred_plain c \<longleftrightarrow> (of_char c :: nat) \<noteq> 10 \<and> (of_char c :: nat) \<noteq> 32"

lemma hex_upper_plain: "n < 16 \<Longrightarrow> cred_plain (hex_upper ! n)"
proof -
  have "list_all (\<lambda>n. cred_plain (hex_upper ! n)) [0..<16]"
    by (simp add: upt_rec hex_upper_def cred_plain_def)
  then show "n < 16 \<Longrightarrow> ?thesis" by (simp add: list_all_iff)
qed

lemma escape_plain: "list_all cred_plain (escape_cred s)"
proof (induction s)
  case Nil
  then show ?case by simp
next
  case (Cons c s)
  have "cred_plain c" if "lower_alpha c \<or> upper_alpha c \<or> digit c"
    using that by (auto simp: cred_plain_def lower_alpha_def upper_alpha_def digit_def)
  moreover have "cred_plain CHR ''-''" "cred_plain CHR ''.''" "cred_plain CHR ''_''" "cred_plain CHR ''~''" "cred_plain CHR ''%''"
    by (simp_all add: cred_plain_def)
  ultimately show ?case using Cons hex_upper_plain hex_digits[of c] by auto
qed

lemma escape_safe: "CHR '' '' \<notin> set (escape_cred s)" "newline \<notin> set (escape_cred s)"
proof -
  have "\<not> cred_plain CHR '' ''" "\<not> cred_plain newline"
    by (simp_all add: cred_plain_def newline_def byte_def)
  then show "CHR '' '' \<notin> set (escape_cred s)" "newline \<notin> set (escape_cred s)"
    using escape_plain[of s] by (auto simp: list_all_iff)
qed

text \<open>C16: Whatever bytes a user name and a password hold, what is written to ntlm_auth is one request
  that reads back as exactly that name and that password: neither can add a field, end the line
  or be decoded into something else.\<close>

theorem credentials_cannot_restructure:
  "ntlm_read (ntlm_stdin user pw) = Some (user, pw)"
proof -
  have nl: "newline \<notin> set (escape_cred user @ '' '' @ escape_cred pw)"
    using escape_safe by (auto simp: newline_def byte_def char_of_eq_iff)
  have "cut (ntlm_stdin user pw) newline = (escape_cred user @ '' '' @ escape_cred pw, [], True)"
    using cut_append[OF nl, of "[]"] by (simp add: ntlm_stdin_def)
  moreover have "cut (escape_cred user @ '' '' @ escape_cred pw) CHR '' '' = (escape_cred user, escape_cred pw, True)"
    using cut_append[OF escape_safe(1), of user "escape_cred pw"] by simp
  ultimately show ?thesis by (simp add: ntlm_read_def unescape_escape)
qed

text \<open>The gate fails closed: an account may sign in exactly when its name is possible, the system
  resolves it, pdbedit could be asked and lists it as enabled; a tool that cannot be asked is an
  error, never a permission.\<close>

theorem gate_exact:
  "may_sign_in resolve run bin user w = (Inr v, w') \<and> v_allowed v \<longleftrightarrow>
   valid_name user \<and> v = \<lparr>v_allowed = True, v_reason = []\<rparr> \<and>
   (\<exists>c w1 out. resolve user w = (Inr c, w1) \<and>
      run [] (if bin = [] then ''pdbedit'' else bin) [''-L'', ''-v''] w1 = (Inr out, w') \<and>
      parse_account_flags out user = Some True)"
  by (auto simp: may_sign_in_def denied_def Let_def split: prod.splits sum.splits option.splits if_splits)

end
