(* ===== verification/Identity.thy ===== *)
theory Identity
  imports Auth Statefile "HOL-Library.AList" "HOL-Library.List_Lexorder" "HOL-Library.Char_ord"
begin

text \<open>
  Who an identity provider's subject is on this server, \<^verbatim>\<open>src/internal/identity/identity.go\<close>,
  and the file-backed store of \<^verbatim>\<open>src/internal/identity/file.go\<close>: the mappings with their two
  indexes, loading and marshalling, and every operation.

  The record is an association list from accounts to mappings, the indexes are maps. An
  operation's \<open>now\<close> is an argument, as in the code.
\<close>

datatype id_error =
    IdNoMapping string | IdTaken string | IdPinned string | IdBadAccount string | IdBadAddress string
  | IdParse | IdTwice string | IdAddressTwice string string string | IdSubjectTwice string string string
  | IdEmptySubject string | IdSave string

record mapping_entry =
  mp_account :: string
  mp_emails :: "string list"
  mp_issuer :: string
  mp_subject :: string
  mp_approved_by :: string
  mp_approved_at :: time
  mp_updated_at :: time

text \<open>The three maps of the store, kept together.\<close>

record id_maps =
  by_account :: "(string \<times> mapping_entry) list"
  by_email :: "string \<rightharpoonup> string"
  by_subject :: "string \<rightharpoonup> string"

definition id_reset :: id_maps where
  "id_reset = \<lparr>by_account = [], by_email = Map.empty, by_subject = Map.empty\<rparr>"

definition subject_key :: "string \<Rightarrow> string \<Rightarrow> string" where
  "subject_key issuer subject = issuer @ [byte 0] @ subject"

definition normalize_email :: "string \<Rightarrow> string" where
  "normalize_email s = to_lower (trim_space s)"

text \<open>
  The loop over runes refuses every code point up to the space and the delete; on bytes it is
  the same test, since the bytes of a longer encoding are all above it.
\<close>

definition valid_email :: "string \<Rightarrow> bool" where
  "valid_email s =
     (if s = [] \<or> length s > 254 then False
      else
        (case cut s CHR ''@'' of (loc, domain, ok) \<Rightarrow>
           (if \<not> ok \<or> loc = [] \<or> domain = [] \<or> str_contains domain ''@'' then False
            else if \<not> str_contains domain ''.'' then False
            else list_all (\<lambda>c. \<not> ((of_char c :: nat) \<le> 32 \<or> of_char c = (127 :: nat))) s)))"

section \<open>Loading and marshalling\<close>

text \<open>The addresses of one mapping: the index so far, and the normalised addresses.\<close>

fun id_load_emails ::
  "string \<Rightarrow> string list \<Rightarrow> string list \<Rightarrow> (string \<rightharpoonup> string) \<Rightarrow> (id_error + string list) \<times> (string \<rightharpoonup> string)" where
  "id_load_emails account [] acc ix = (Inr acc, ix)"
| "id_load_emails account (e # es) acc ix =
     (let e = normalize_email e
      in if \<not> valid_email e then (Inl (IdBadAddress e), ix)
         else
           (case ix e of
              Some other \<Rightarrow> (Inl (IdAddressTwice e other account), ix)
            | None \<Rightarrow> id_load_emails account es (acc @ [e]) (ix(e \<mapsto> account))))"

fun id_load_list :: "mapping_entry list \<Rightarrow> id_maps \<Rightarrow> id_error option \<times> id_maps" where
  "id_load_list [] s = (None, s)"
| "id_load_list (m # ms) s =
     (if \<not> valid_name (mp_account m) then (Some (IdBadAccount (mp_account m)), s)
      else if map_of (by_account s) (mp_account m) \<noteq> None then (Some (IdTwice (mp_account m)), s)
      else
        (case id_load_emails (mp_account m) (mp_emails m) [] (by_email s) of
           (Inl e, ix) \<Rightarrow> (Some e, s\<lparr>by_email := ix\<rparr>)
         | (Inr emails, ix) \<Rightarrow>
             (let m = m\<lparr>mp_emails := emails\<rparr>; s = s\<lparr>by_email := ix\<rparr>;
                  k = subject_key (mp_issuer m) (mp_subject m)
              in if mp_subject m \<noteq> [] then
                   (case by_subject s k of
                      Some other \<Rightarrow> (Some (IdSubjectTwice (mp_subject m) other (mp_account m)), s)
                    | None \<Rightarrow>
                        id_load_list ms (s\<lparr>by_subject := (by_subject s)(k \<mapsto> mp_account m),
                          by_account := by_account s @ [(mp_account m, m)]\<rparr>))
                 else id_load_list ms (s\<lparr>by_account := by_account s @ [(mp_account m, m)]\<rparr>))))"

definition id_load :: "time \<Rightarrow> mapping_entry list doc option \<Rightarrow> id_maps \<Rightarrow> id_error option \<times> id_maps" where
  "id_load now data s =
     (case data of
        Some BadDoc \<Rightarrow> (Some IdParse, s)
      | Some (Doc list) \<Rightarrow> id_load_list list id_reset
      | _ \<Rightarrow> (None, id_reset))"

definition id_list :: "id_maps \<Rightarrow> mapping_entry list" where
  "id_list s = sort_by (\<lambda>a b. mp_account a \<le> mp_account b) (map snd (by_account s))"

definition id_marshal :: "time \<Rightarrow> id_maps \<Rightarrow> id_error + mapping_entry list doc" where
  "id_marshal now s = Inr (Doc (id_list s))"

section \<open>The store\<close>

record 'w id_store =
  is_guard :: "guard option"
  is_maps :: id_maps
  is_save :: "(mapping_entry list \<Rightarrow> 'w \<Rightarrow> string option \<times> 'w) option"

type_synonym 'w id_disk = "(mapping_entry list doc, 'w) sf_disk"

definition id_new_store :: "'w id_store" where
  "id_new_store = \<lparr>is_guard = None, is_maps = id_reset, is_save = None\<rparr>"

definition id_fresh :: "'w id_disk \<Rightarrow> 'w id_store \<Rightarrow> 'w \<Rightarrow> 'w id_store \<times> 'w" where
  "id_fresh D s w =
     (case guard_fresh D (id_load 0) (is_guard s) (is_maps s) w of
        (_, g, m, w) \<Rightarrow> (s\<lparr>is_guard := g, is_maps := m\<rparr>, w))"

definition id_commit ::
  "'w id_disk \<Rightarrow> (id_maps \<Rightarrow> (id_error + bool) \<times> id_maps) \<Rightarrow> 'w id_store \<Rightarrow> 'w \<Rightarrow>
   id_error sf_error option \<times> 'w id_store \<times> 'w" where
  "id_commit D mutate s w =
     (case is_guard s of
        Some _ \<Rightarrow>
          (case guard_write D (id_load 0) mutate (id_marshal 0) (is_guard s) (is_maps s) w of
             (r, g, m, w) \<Rightarrow> (r, s\<lparr>is_guard := g, is_maps := m\<rparr>, w))
      | None \<Rightarrow>
          (case mutate (is_maps s) of
             (Inl e, m) \<Rightarrow> (Some (SfClient e), s\<lparr>is_maps := m\<rparr>, w)
           | (Inr changed, m) \<Rightarrow>
               (if \<not> changed then (None, s\<lparr>is_maps := m\<rparr>, w)
                else
                  (case is_save s of
                     None \<Rightarrow> (None, s\<lparr>is_maps := m\<rparr>, w)
                   | Some save \<Rightarrow>
                       (case save (id_list m) w of
                          (r, w) \<Rightarrow> (map_option (\<lambda>e. SfClient (IdSave e)) r, s\<lparr>is_maps := m\<rparr>, w))))))"

definition id_new_file_store :: "'w id_disk \<Rightarrow> string \<Rightarrow> 'w \<Rightarrow> (id_error sf_error + 'w id_store) \<times> 'w" where
  "id_new_file_store D path w =
     (case guard_fresh D (id_load 0) (Some (guard_new path)) id_reset w of
        (Some e, _, _, w) \<Rightarrow> (Inl e, w)
      | (None, g, m, w) \<Rightarrow> (Inr (id_new_store\<lparr>is_guard := g, is_maps := m\<rparr>), w))"

section \<open>Reads\<close>

definition id_list_op :: "'w id_disk \<Rightarrow> 'w id_store \<Rightarrow> 'w \<Rightarrow> mapping_entry list \<times> 'w id_store \<times> 'w" where
  "id_list_op D s w = (case id_fresh D s w of (s, w) \<Rightarrow> (id_list (is_maps s), s, w))"

definition id_by_subject :: "'w id_disk \<Rightarrow> string \<Rightarrow> string \<Rightarrow> 'w id_store \<Rightarrow> 'w \<Rightarrow> string option \<times> 'w id_store \<times> 'w" where
  "id_by_subject D issuer subject s w =
     (if subject = [] then (None, s, w)
      else (case id_fresh D s w of (s, w) \<Rightarrow> (by_subject (is_maps s) (subject_key issuer subject), s, w)))"

definition id_by_email :: "'w id_disk \<Rightarrow> string \<Rightarrow> 'w id_store \<Rightarrow> 'w \<Rightarrow> string option \<times> 'w id_store \<times> 'w" where
  "id_by_email D email s w =
     (let email = normalize_email email
      in if email = [] then (None, s, w)
         else (case id_fresh D s w of (s, w) \<Rightarrow> (by_email (is_maps s) email, s, w)))"

definition id_get :: "'w id_disk \<Rightarrow> string \<Rightarrow> 'w id_store \<Rightarrow> 'w \<Rightarrow> mapping_entry option \<times> 'w id_store \<times> 'w" where
  "id_get D account s w = (case id_fresh D s w of (s, w) \<Rightarrow> (map_of (by_account (is_maps s)) account, s, w))"

section \<open>Changes\<close>

definition set_account :: "mapping_entry \<Rightarrow> id_maps \<Rightarrow> id_maps" where
  "set_account m s = s\<lparr>by_account := AList.update (mp_account m) m (by_account s)\<rparr>"

definition pin_mutate :: "string \<Rightarrow> string \<Rightarrow> string \<Rightarrow> time \<Rightarrow> id_maps \<Rightarrow> (id_error + bool) \<times> id_maps" where
  "pin_mutate account issuer subject now s =
     (case map_of (by_account s) account of
        None \<Rightarrow> (Inl (IdNoMapping account), s)
      | Some m \<Rightarrow>
          (if mp_subject m \<noteq> [] then
             (if mp_subject m = subject \<and> mp_issuer m = issuer then (Inr False, s)
              else (Inl (IdPinned account), s))
           else
             (let k = subject_key issuer subject
              in case by_subject s k of
                   Some other \<Rightarrow> (Inl (IdTaken other), s)
                 | None \<Rightarrow>
                     (Inr True,
                      s\<lparr>by_account := AList.update account
                          (m\<lparr>mp_issuer := issuer, mp_subject := subject, mp_updated_at := now\<rparr>) (by_account s),
                        by_subject := (by_subject s)(k \<mapsto> account)\<rparr>))))"

definition id_pin ::
  "'w id_disk \<Rightarrow> string \<Rightarrow> string \<Rightarrow> string \<Rightarrow> time \<Rightarrow> 'w id_store \<Rightarrow> 'w \<Rightarrow> id_error sf_error option \<times> 'w id_store \<times> 'w" where
  "id_pin D account issuer subject now s w =
     (if subject = [] then (Some (SfClient (IdEmptySubject account)), s, w)
      else id_commit D (pin_mutate account issuer subject now) s w)"

definition sort_strings :: "string list \<Rightarrow> string list" where
  "sort_strings xs = sort_by (\<le>) xs"

definition attach_mutate :: "string \<Rightarrow> string \<Rightarrow> time \<Rightarrow> id_maps \<Rightarrow> (id_error + bool) \<times> id_maps" where
  "attach_mutate account email now s =
     (case map_of (by_account s) account of
        None \<Rightarrow> (Inl (IdNoMapping account), s)
      | Some m \<Rightarrow>
          (case by_email s email of
             Some other \<Rightarrow> if other = account then (Inr False, s) else (Inl (IdTaken other), s)
           | None \<Rightarrow>
               (Inr True,
                s\<lparr>by_account := AList.update account
                    (m\<lparr>mp_emails := sort_strings (mp_emails m @ [email]), mp_updated_at := now\<rparr>) (by_account s),
                  by_email := (by_email s)(email \<mapsto> account)\<rparr>)))"

definition id_attach_email ::
  "'w id_disk \<Rightarrow> string \<Rightarrow> string \<Rightarrow> time \<Rightarrow> 'w id_store \<Rightarrow> 'w \<Rightarrow> id_error sf_error option \<times> 'w id_store \<times> 'w" where
  "id_attach_email D account email now s w =
     (let email = normalize_email email
      in if \<not> valid_email email then (Some (SfClient (IdBadAddress email)), s, w)
         else id_commit D (attach_mutate account email now) s w)"

fun clean_emails :: "string list \<Rightarrow> id_error + string list" where
  "clean_emails [] = Inr []"
| "clean_emails (e # es) =
     (let e = normalize_email e
      in if \<not> valid_email e then Inl (IdBadAddress e)
         else (case clean_emails es of Inl x \<Rightarrow> Inl x | Inr cs \<Rightarrow> Inr (e # cs)))"

text \<open>The first address that answers for another account, with that account.\<close>

fun email_conflict :: "string \<Rightarrow> string list \<Rightarrow> (string \<rightharpoonup> string) \<Rightarrow> string option" where
  "email_conflict account [] ix = None"
| "email_conflict account (e # es) ix =
     (case ix e of
        Some other \<Rightarrow> if other \<noteq> account then Some other else email_conflict account es ix
      | None \<Rightarrow> email_conflict account es ix)"

fun add_emails :: "string \<Rightarrow> string list \<Rightarrow> string list \<Rightarrow> (string \<rightharpoonup> string) \<Rightarrow> string list \<times> (string \<rightharpoonup> string)" where
  "add_emails account [] have ix = (have, ix)"
| "add_emails account (e # es) have ix =
     (case ix e of
        Some _ \<Rightarrow> add_emails account es have ix
      | None \<Rightarrow> add_emails account es (have @ [e]) (ix(e \<mapsto> account)))"

definition fresh_mapping :: "string \<Rightarrow> string \<Rightarrow> time \<Rightarrow> mapping_entry" where
  "fresh_mapping account by now =
     \<lparr>mp_account = account, mp_emails = [], mp_issuer = [], mp_subject = [], mp_approved_by = by,
      mp_approved_at = now, mp_updated_at = 0\<rparr>"

text \<open>
  \<^verbatim>\<open>Approve\<close>'s change. The mapping is entered in the record as soon as it is made, and every later
  assignment through the pointer is an update of that entry.
\<close>

definition approve_apply ::
  "string \<Rightarrow> string \<Rightarrow> string \<Rightarrow> string list \<Rightarrow> string \<Rightarrow> time \<Rightarrow> id_maps \<Rightarrow> (id_error + bool) \<times> id_maps" where
  "approve_apply account issuer subject clean by now s =
     (let (m, s) =
        (case map_of (by_account s) account of
           Some m \<Rightarrow> (m, s)
         | None \<Rightarrow> (let m = fresh_mapping account by now
                    in (m, s\<lparr>by_account := AList.update account m (by_account s)\<rparr>)))
      in if subject \<noteq> [] \<and> mp_subject m \<noteq> [] \<and> (mp_subject m \<noteq> subject \<or> mp_issuer m \<noteq> issuer)
         then (Inl (IdPinned account), s)
         else
           (let (m, sx) =
              (if subject \<noteq> [] then
                 (m\<lparr>mp_issuer := issuer, mp_subject := subject\<rparr>,
                  (by_subject s)(subject_key issuer subject \<mapsto> account))
               else (m, by_subject s));
              (emails, ex) = add_emails account clean (mp_emails m) (by_email s);
              m = m\<lparr>mp_emails := sort_strings emails, mp_updated_at := now\<rparr>;
              m = (if mp_approved_by m = [] then m\<lparr>mp_approved_by := by, mp_approved_at := now\<rparr> else m)
            in (Inr True, \<lparr>by_account = AList.update account m (by_account s), by_email = ex, by_subject = sx\<rparr>)))"

definition approve_mutate ::
  "string \<Rightarrow> string \<Rightarrow> string \<Rightarrow> string list \<Rightarrow> string \<Rightarrow> time \<Rightarrow> id_maps \<Rightarrow> (id_error + bool) \<times> id_maps" where
  "approve_mutate account issuer subject clean by now s =
     (case email_conflict account clean (by_email s) of
        Some other \<Rightarrow> (Inl (IdTaken other), s)
      | None \<Rightarrow>
          (case (if subject \<noteq> [] then by_subject s (subject_key issuer subject) else None) of
             Some other \<Rightarrow>
               (if other \<noteq> account then (Inl (IdTaken other), s)
                else approve_apply account issuer subject clean by now s)
           | None \<Rightarrow> approve_apply account issuer subject clean by now s))"

definition id_approve ::
  "'w id_disk \<Rightarrow> string \<Rightarrow> string \<Rightarrow> string \<Rightarrow> string list \<Rightarrow> string \<Rightarrow> time \<Rightarrow> 'w id_store \<Rightarrow> 'w \<Rightarrow>
   (id_error sf_error + mapping_entry) \<times> 'w id_store \<times> 'w" where
  "id_approve D account issuer subject emails by now s w =
     (if \<not> valid_name account then (Inl (SfClient (IdBadAccount account)), s, w)
      else
        (case clean_emails emails of
           Inl e \<Rightarrow> (Inl (SfClient e), s, w)
         | Inr clean \<Rightarrow>
             (case id_commit D (approve_mutate account issuer subject clean by now) s w of
                (Some e, s, w) \<Rightarrow> (Inl e, s, w)
              | (None, s, w) \<Rightarrow> (Inr (the (map_of (by_account (is_maps s)) account)), s, w))))"

definition forget_mutate :: "string \<Rightarrow> id_maps \<Rightarrow> (id_error + bool) \<times> id_maps" where
  "forget_mutate account s =
     (case map_of (by_account s) account of
        None \<Rightarrow> (Inl (IdNoMapping account), s)
      | Some m \<Rightarrow>
          (Inr True,
           \<lparr>by_account = AList.delete account (by_account s),
             by_email = fold (\<lambda>e ix. ix(e := None)) (mp_emails m) (by_email s),
             by_subject =
               (if mp_subject m \<noteq> [] then (by_subject s)(subject_key (mp_issuer m) (mp_subject m) := None)
                else by_subject s)\<rparr>))"

definition id_forget :: "'w id_disk \<Rightarrow> string \<Rightarrow> 'w id_store \<Rightarrow> 'w \<Rightarrow> id_error sf_error option \<times> 'w id_store \<times> 'w" where
  "id_forget D account s w = id_commit D (forget_mutate account) s w"

definition detach_mutate :: "string \<Rightarrow> string \<Rightarrow> time \<Rightarrow> id_maps \<Rightarrow> (id_error + bool) \<times> id_maps" where
  "detach_mutate account email now s =
     (case map_of (by_account s) account of
        None \<Rightarrow> (Inl (IdNoMapping account), s)
      | Some m \<Rightarrow>
          (if email \<notin> set (mp_emails m) then (Inl (IdNoMapping email), s)
           else
             (Inr True,
              s\<lparr>by_account := AList.update account
                  (m\<lparr>mp_emails := filter (\<lambda>e. e \<noteq> email) (mp_emails m), mp_updated_at := now\<rparr>) (by_account s),
                by_email := (by_email s)(email := None)\<rparr>)))"

definition id_detach_email ::
  "'w id_disk \<Rightarrow> string \<Rightarrow> string \<Rightarrow> time \<Rightarrow> 'w id_store \<Rightarrow> 'w \<Rightarrow> id_error sf_error option \<times> 'w id_store \<times> 'w" where
  "id_detach_email D account email now s w =
     (let email = normalize_email email in id_commit D (detach_mutate account email now) s w)"

section \<open>The report against the roster\<close>

datatype problem_code = PcUnknown | PcStatus string

definition id_problem :: "(string \<rightharpoonup> string) \<Rightarrow> string \<Rightarrow> (string \<times> problem_code) option" where
  "id_problem status account =
     (case status account of
        None \<Rightarrow> Some (account, PcUnknown)
      | Some st \<Rightarrow> if st = ''disabled'' \<or> st = ''reserved'' then Some (account, PcStatus st) else None)"

definition id_check :: "'w id_disk \<Rightarrow> (string \<rightharpoonup> string) \<Rightarrow> 'w id_store \<Rightarrow> 'w \<Rightarrow> (string \<times> problem_code) list \<times> 'w id_store \<times> 'w" where
  "id_check D status s w =
     (case id_fresh D s w of
        (s, w) \<Rightarrow> (List.map_filter (id_problem status) (sort_strings (map fst (by_account (is_maps s)))), s, w))"

section \<open>Addresses\<close>

definition caseless :: "char \<Rightarrow> bool" where
  "caseless c \<longleftrightarrow> (\<forall>d. lower_char d = c \<longleftrightarrow> d = c)"

lemma caselessI: "(of_char c :: nat) < 65 \<or> 122 < (of_char c :: nat) \<Longrightarrow> caseless c"
proof -
  assume c: "(of_char c :: nat) < 65 \<or> 122 < (of_char c :: nat)"
  have "d = c" if "lower_char d = c" for d
  proof (rule ccontr)
    assume "d \<noteq> c"
    then have "65 \<le> (of_char d :: nat)" "(of_char d :: nat) \<le> 90" "c = char_of ((of_char d :: nat) + 32)"
      using that by (auto simp: lower_char_def Let_def split: if_splits)
    then show False using c by simp
  qed
  moreover have "lower_char c = c" using c by (auto simp: lower_char_def Let_def)
  ultimately show ?thesis by (auto simp: caseless_def)
qed

lemma has_prefix_to_lower: "list_all caseless r \<Longrightarrow> has_prefix (to_lower s) r \<longleftrightarrow> has_prefix s r"
proof (induction r arbitrary: s)
  case Nil
  then show ?case by simp
next
  case (Cons c r)
  then show ?case by (cases s) (simp_all add: to_lower_def, metis caseless_def)
qed

lemma space_runes_caseless: "list_all (list_all caseless) space_runes"
  unfolding space_runes_def byte_def by (simp add: caselessI)

lemma trimmed_to_lower: "trimmed (to_lower s) \<longleftrightarrow> trimmed s"
proof -
  have "list_all caseless r" if "r \<in> set space_runes" for r
    using that space_runes_caseless by (auto simp: list_all_iff)
  moreover have "rev (to_lower s) = to_lower (rev s)" by (simp add: to_lower_def rev_map)
  ultimately show ?thesis
    by (auto simp: trimmed_def clean_start_def has_prefix_to_lower)
qed

lemma normalize_idem [simp]: "normalize_email (normalize_email s) = normalize_email s"
  by (simp add: normalize_email_def trimmed_id trimmed_to_lower trim_space_trimmed)

section \<open>The indexes\<close>

abbreviation record_of :: "id_maps \<Rightarrow> string \<rightharpoonup> mapping_entry" where
  "record_of s \<equiv> map_of (by_account s)"

definition canonical :: "string \<Rightarrow> bool" where
  "canonical e \<longleftrightarrow> valid_email e \<and> normalize_email e = e"

definition entry_ok :: "string \<Rightarrow> mapping_entry \<Rightarrow> bool" where
  "entry_ok a m \<longleftrightarrow> mp_account m = a \<and> valid_name a \<and> distinct (mp_emails m) \<and> (\<forall>e \<in> set (mp_emails m). canonical e)"

definition entry_key :: "mapping_entry \<Rightarrow> string option" where
  "entry_key m = (if mp_subject m = [] then None else Some (subject_key (mp_issuer m) (mp_subject m)))"

text \<open>The indexes say exactly what the record says.\<close>

definition indexed :: "(string \<rightharpoonup> mapping_entry) \<Rightarrow> (string \<rightharpoonup> string) \<Rightarrow> (string \<rightharpoonup> string) \<Rightarrow> bool" where
  "indexed acc ems sub \<longleftrightarrow>
     (\<forall>a m. acc a = Some m \<longrightarrow> entry_ok a m) \<and>
     (\<forall>e a. ems e = Some a \<longleftrightarrow> (\<exists>m. acc a = Some m \<and> e \<in> set (mp_emails m))) \<and>
     (\<forall>k a. sub k = Some a \<longleftrightarrow> (\<exists>m. acc a = Some m \<and> entry_key m = Some k))"

definition id_wf :: "id_maps \<Rightarrow> bool" where
  "id_wf s \<longleftrightarrow> distinct (map fst (by_account s)) \<and> indexed (record_of s) (by_email s) (by_subject s)"

lemma indexedD:
  assumes "indexed acc ems sub"
  shows "acc a = Some m \<Longrightarrow> entry_ok a m"
    "ems e = Some a \<longleftrightarrow> (\<exists>m. acc a = Some m \<and> e \<in> set (mp_emails m))"
    "sub k = Some a \<longleftrightarrow> (\<exists>m. acc a = Some m \<and> entry_key m = Some k)"
  using assms by (auto simp: indexed_def)

lemma indexed_unique:
  assumes "indexed acc ems sub" and "acc a = Some m" and "acc b = Some n"
  shows "e \<in> set (mp_emails m) \<Longrightarrow> e \<in> set (mp_emails n) \<Longrightarrow> a = b"
    "entry_key m = Some k \<Longrightarrow> entry_key n = Some k \<Longrightarrow> a = b"
  using assms indexedD(2)[OF assms(1), of e a] indexedD(2)[OF assms(1), of e b]
    indexedD(3)[OF assms(1), of k a] indexedD(3)[OF assms(1), of k b] by auto

lemma indexed_own:
  assumes "indexed acc ems sub" and "acc a = Some m"
  shows "ems e = Some a \<longleftrightarrow> e \<in> set (mp_emails m)" "sub k = Some a \<longleftrightarrow> entry_key m = Some k"
  using assms indexedD(2)[OF assms(1), of e a] indexedD(3)[OF assms(1), of k a] by auto

text \<open>Replacing one account's mapping: its old addresses leave the index and the new ones enter it.\<close>

lemma indexed_update:
  assumes ix: "indexed acc ems sub" and ok: "entry_ok a m"
    and e: "\<And>e. ems' e = (if e \<in> set (mp_emails m) then Some a else if ems e = Some a then None else ems e)"
    and free_e: "\<And>e b. e \<in> set (mp_emails m) \<Longrightarrow> ems e = Some b \<Longrightarrow> b = a"
    and k: "\<And>k. sub' k = (if entry_key m = Some k then Some a else if sub k = Some a then None else sub k)"
    and free_k: "\<And>k b. entry_key m = Some k \<Longrightarrow> sub k = Some b \<Longrightarrow> b = a"
  shows "indexed (acc(a \<mapsto> m)) ems' sub'"
proof -
  have "ems' x = Some b \<longleftrightarrow> (\<exists>n. (acc(a \<mapsto> m)) b = Some n \<and> x \<in> set (mp_emails n))" for x b
    using e[of x] free_e[of x] indexedD(2)[OF ix, of x] indexed_unique(1)[OF ix] by (cases "b = a") auto
  moreover have "sub' x = Some b \<longleftrightarrow> (\<exists>n. (acc(a \<mapsto> m)) b = Some n \<and> entry_key n = Some x)" for x b
    using k[of x] free_k[of x] indexedD(3)[OF ix, of x] indexed_unique(2)[OF ix] by (cases "b = a") auto
  ultimately show ?thesis using indexedD(1)[OF ix] ok by (auto simp: indexed_def)
qed

lemma indexed_delete:
  assumes ix: "indexed acc ems sub"
    and e: "\<And>e. ems' e = (if ems e = Some a then None else ems e)"
    and k: "\<And>k. sub' k = (if sub k = Some a then None else sub k)"
  shows "indexed (acc(a := None)) ems' sub'"
proof -
  have "ems' x = Some b \<longleftrightarrow> (\<exists>n. (acc(a := None)) b = Some n \<and> x \<in> set (mp_emails n))" for x b
    using e[of x] indexedD(2)[OF ix, of x] indexed_unique(1)[OF ix] by (cases "b = a") auto
  moreover have "sub' x = Some b \<longleftrightarrow> (\<exists>n. (acc(a := None)) b = Some n \<and> entry_key n = Some x)" for x b
    using k[of x] indexedD(3)[OF ix, of x] indexed_unique(2)[OF ix] by (cases "b = a") auto
  ultimately show ?thesis using indexedD(1)[OF ix] by (auto simp: indexed_def)
qed

lemma wf_update:
  "id_wf s \<Longrightarrow> indexed ((record_of s)(a \<mapsto> m)) ems sub \<Longrightarrow>
   id_wf \<lparr>by_account = AList.update a m (by_account s), by_email = ems, by_subject = sub\<rparr>"
  by (simp add: id_wf_def AList.distinct_update update_conv')

lemma wf_delete:
  "id_wf s \<Longrightarrow> indexed ((record_of s)(a := None)) ems sub \<Longrightarrow>
   id_wf \<lparr>by_account = AList.delete a (by_account s), by_email = ems, by_subject = sub\<rparr>"
  by (simp add: id_wf_def AList.delete_conv' AList.distinct_delete)

lemma wf_reset [simp]: "id_wf id_reset"
  by (simp add: id_wf_def id_reset_def indexed_def)

section \<open>Every change keeps the indexes\<close>

lemma pin_wf: "subject \<noteq> [] \<Longrightarrow> preserves id_wf (pin_mutate account issuer subject now)"
proof (clarsimp simp: preserves_def)
  fix s r s'
  assume sub: "subject \<noteq> []" and wf: "id_wf s" and p: "pin_mutate account issuer subject now s = (r, s')"
  have ix: "indexed (record_of s) (by_email s) (by_subject s)" using wf by (simp add: id_wf_def)
  let ?k = "subject_key issuer subject"
  show "id_wf s'"
  proof (cases "s' = s")
    case False
    then obtain m where m: "record_of s account = Some m" "mp_subject m = []" "by_subject s ?k = None"
      and s': "s' = \<lparr>by_account = AList.update account
          (m\<lparr>mp_issuer := issuer, mp_subject := subject, mp_updated_at := now\<rparr>) (by_account s),
          by_email = by_email s, by_subject = (by_subject s)(?k \<mapsto> account)\<rparr>"
      using p by (auto simp: pin_mutate_def Let_def split: option.splits if_splits)
    have "indexed ((record_of s)(account \<mapsto> m\<lparr>mp_issuer := issuer, mp_subject := subject, mp_updated_at := now\<rparr>))
        (by_email s) ((by_subject s)(?k \<mapsto> account))"
    proof (rule indexed_update[OF ix], goal_cases)
      case 1
      then show ?case using indexedD(1)[OF ix m(1)] by (simp add: entry_ok_def)
    next
      case (2 e)
      then show ?case using indexed_own(1)[OF ix m(1)] by auto
    next
      case (3 e b)
      then show ?case using indexed_own(1)[OF ix m(1), of e] by auto
    next
      case (4 k)
      then show ?case using indexed_own(2)[OF ix m(1)] m sub by (auto simp: entry_key_def)
    next
      case (5 k b)
      then show ?case using m sub by (auto simp: entry_key_def)
    qed
    then show ?thesis unfolding s' by (rule wf_update[OF wf])
  qed (use wf in simp)
qed


lemma attach_wf: "canonical email \<Longrightarrow> preserves id_wf (attach_mutate account email now)"
proof (clarsimp simp: preserves_def)
  fix s r s'
  assume em: "canonical email" and wf: "id_wf s" and p: "attach_mutate account email now s = (r, s')"
  have ix: "indexed (record_of s) (by_email s) (by_subject s)" using wf by (simp add: id_wf_def)
  show "id_wf s'"
  proof (cases "s' = s")
    case False
    then obtain m where m: "record_of s account = Some m" "by_email s email = None"
      and s': "s' = \<lparr>by_account = AList.update account
          (m\<lparr>mp_emails := sort_strings (mp_emails m @ [email]), mp_updated_at := now\<rparr>) (by_account s),
          by_email = (by_email s)(email \<mapsto> account), by_subject = by_subject s\<rparr>"
      using p by (auto simp: attach_mutate_def split: option.splits if_splits)
    have fresh: "email \<notin> set (mp_emails m)" using indexed_own(1)[OF ix m(1), of email] m(2) by auto
    have "indexed ((record_of s)(account \<mapsto> m\<lparr>mp_emails := sort_strings (mp_emails m @ [email]), mp_updated_at := now\<rparr>))
        ((by_email s)(email \<mapsto> account)) (by_subject s)"
    proof (rule indexed_update[OF ix], goal_cases)
      case 1
      then show ?case using indexedD(1)[OF ix m(1)] em fresh by (simp add: entry_ok_def sort_strings_def)
    next
      case (2 e)
      then show ?case using indexed_own(1)[OF ix m(1), of e] by (auto simp: sort_strings_def)
    next
      case (3 e b)
      then show ?case using indexed_own(1)[OF ix m(1), of e] m(2) by (auto simp: sort_strings_def)
    next
      case (4 k)
      then show ?case using indexed_own(2)[OF ix m(1), of k] by (auto simp: entry_key_def)
    next
      case (5 k b)
      then show ?case using indexed_own(2)[OF ix m(1), of k] by (auto simp: entry_key_def)
    qed
    then show ?thesis unfolding s' by (rule wf_update[OF wf])
  qed (use wf in simp)
qed

lemma detach_wf: "preserves id_wf (detach_mutate account email now)"
proof (clarsimp simp: preserves_def)
  fix s r s'
  assume wf: "id_wf s" and p: "detach_mutate account email now s = (r, s')"
  have ix: "indexed (record_of s) (by_email s) (by_subject s)" using wf by (simp add: id_wf_def)
  show "id_wf s'"
  proof (cases "s' = s")
    case False
    then obtain m where m: "record_of s account = Some m" "email \<in> set (mp_emails m)"
      and s': "s' = \<lparr>by_account = AList.update account
          (m\<lparr>mp_emails := filter (\<lambda>e. e \<noteq> email) (mp_emails m), mp_updated_at := now\<rparr>) (by_account s),
          by_email = (by_email s)(email := None), by_subject = by_subject s\<rparr>"
      using p by (auto simp: detach_mutate_def split: option.splits if_splits)
    have "indexed ((record_of s)(account \<mapsto> m\<lparr>mp_emails := filter (\<lambda>e. e \<noteq> email) (mp_emails m), mp_updated_at := now\<rparr>))
        ((by_email s)(email := None)) (by_subject s)"
    proof (rule indexed_update[OF ix], goal_cases)
      case 1
      then show ?case using indexedD(1)[OF ix m(1)] by (simp add: entry_ok_def)
    next
      case (2 e)
      then show ?case using indexed_own(1)[OF ix m(1), of e] m(2) by auto
    next
      case (3 e b)
      then show ?case using indexed_own(1)[OF ix m(1), of e] by auto
    next
      case (4 k)
      then show ?case using indexed_own(2)[OF ix m(1), of k] by (auto simp: entry_key_def)
    next
      case (5 k b)
      then show ?case using indexed_own(2)[OF ix m(1), of k] by (auto simp: entry_key_def)
    qed
    then show ?thesis unfolding s' by (rule wf_update[OF wf])
  qed (use wf in simp)
qed

lemma fold_forget: "fold (\<lambda>e ix. ix(e := None)) es ix = (\<lambda>e. if e \<in> set es then None else ix e)"
  by (induction es arbitrary: ix) auto

lemma forget_wf: "preserves id_wf (forget_mutate account)"
proof (clarsimp simp: preserves_def)
  fix s r s'
  assume wf: "id_wf s" and p: "forget_mutate account s = (r, s')"
  have ix: "indexed (record_of s) (by_email s) (by_subject s)" using wf by (simp add: id_wf_def)
  show "id_wf s'"
  proof (cases "record_of s account")
    case None
    then show ?thesis using p wf by (simp add: forget_mutate_def)
  next
    case (Some m)
    let ?ems = "fold (\<lambda>e ix. ix(e := None)) (mp_emails m) (by_email s)"
    let ?sub = "if mp_subject m \<noteq> [] then (by_subject s)(subject_key (mp_issuer m) (mp_subject m) := None)
                else by_subject s"
    have s': "s' = \<lparr>by_account = AList.delete account (by_account s), by_email = ?ems, by_subject = ?sub\<rparr>"
      using p Some by (simp add: forget_mutate_def)
    have "indexed ((record_of s)(account := None)) ?ems ?sub"
    proof (rule indexed_delete[OF ix], goal_cases)
      case (1 e)
      then show ?case using indexed_own(1)[OF ix Some, of e] by (auto simp: fold_forget)
    next
      case (2 k)
      then show ?case using indexed_own(2)[OF ix Some, of k] by (auto simp: entry_key_def)
    qed
    then show ?thesis unfolding s' by (rule wf_delete[OF wf])
  qed
qed

lemma add_emails_spec:
  "add_emails a es have ix = (have', ix') \<Longrightarrow>
   (\<forall>e. ix' e = (if e \<in> set es \<and> ix e = None then Some a else ix e)) \<and>
   set have' = set have \<union> {e \<in> set es. ix e = None} \<and>
   (distinct have \<longrightarrow> (\<forall>e \<in> set have. ix e \<noteq> None) \<longrightarrow> distinct have')"
proof (induction es arbitrary: "have" ix)
  case Nil
  then show ?case by simp
next
  case (Cons e es)
  show ?case
  proof (cases "ix e")
    case None
    then have r: "add_emails a es (have @ [e]) (ix(e \<mapsto> a)) = (have', ix')" using Cons.prems by simp
    have d: "distinct (have @ [e])" if "distinct have" "\<forall>e \<in> set have. ix e \<noteq> None"
      using that None by auto
    show ?thesis using Cons.IH[OF r] None d by auto
  next
    case (Some b)
    then show ?thesis using Cons.IH[of "have" ix] Cons.prems by auto
  qed
qed


lemma email_conflict_None:
  "email_conflict account es ix = None \<Longrightarrow> e \<in> set es \<Longrightarrow> ix e = Some b \<Longrightarrow> b = account"
  by (induction es) (auto split: option.splits if_splits)

text \<open>The mapping an approval starts from.\<close>

definition base_entry :: "id_maps \<Rightarrow> string \<Rightarrow> string \<Rightarrow> time \<Rightarrow> mapping_entry" where
  "base_entry s account by now = (case record_of s account of Some m \<Rightarrow> m | None \<Rightarrow> fresh_mapping account by now)"

lemma base_own:
  assumes "indexed (record_of s) (by_email s) (by_subject s)" and "valid_name account"
  shows "by_email s e = Some account \<longleftrightarrow> e \<in> set (mp_emails (base_entry s account by now))"
    "by_subject s k = Some account \<longleftrightarrow> entry_key (base_entry s account by now) = Some k"
    "entry_ok account (base_entry s account by now)"
  using assms indexedD[OF assms(1)] indexed_own[OF assms(1), of account]
  by (auto simp: base_entry_def fresh_mapping_def entry_key_def entry_ok_def split: option.splits)

definition approved_entry :: "string \<Rightarrow> string \<Rightarrow> string list \<Rightarrow> string \<Rightarrow> time \<Rightarrow> mapping_entry \<Rightarrow> mapping_entry" where
  "approved_entry issuer subject emails by now m =
     (let m = (if subject \<noteq> [] then m\<lparr>mp_issuer := issuer, mp_subject := subject\<rparr> else m);
          m = m\<lparr>mp_emails := sort_strings emails, mp_updated_at := now\<rparr>
      in if mp_approved_by m = [] then m\<lparr>mp_approved_by := by, mp_approved_at := now\<rparr> else m)"

definition pinned_elsewhere :: "string \<Rightarrow> string \<Rightarrow> mapping_entry \<Rightarrow> bool" where
  "pinned_elsewhere issuer subject m \<longleftrightarrow>
     subject \<noteq> [] \<and> mp_subject m \<noteq> [] \<and> (mp_subject m \<noteq> subject \<or> mp_issuer m \<noteq> issuer)"

definition base_list :: "id_maps \<Rightarrow> string \<Rightarrow> string \<Rightarrow> time \<Rightarrow> (string \<times> mapping_entry) list" where
  "base_list s account by now =
     (case record_of s account of Some _ \<Rightarrow> by_account s
      | None \<Rightarrow> AList.update account (fresh_mapping account by now) (by_account s))"

lemma approve_apply_eq:
  "approve_apply account issuer subject clean by now s =
     (let m0 = base_entry s account by now; (emails, ex) = add_emails account clean (mp_emails m0) (by_email s)
      in if pinned_elsewhere issuer subject m0 then (Inl (IdPinned account), s)
         else (Inr True,
           \<lparr>by_account = AList.update account (approved_entry issuer subject emails by now m0) (base_list s account by now),
             by_email = ex,
             by_subject = (if subject \<noteq> [] then (by_subject s)(subject_key issuer subject \<mapsto> account) else by_subject s)\<rparr>))"
proof (cases "record_of s account")
  case None
  then show ?thesis
    by (simp add: approve_apply_def base_entry_def base_list_def pinned_elsewhere_def approved_entry_def
        fresh_mapping_def Let_def split: prod.splits)
next
  case (Some m)
  then show ?thesis
    by (simp add: approve_apply_def base_entry_def base_list_def pinned_elsewhere_def approved_entry_def
        Let_def split: prod.splits)
qed

text \<open>An approval either is refused and changes nothing, or finds no conflict and goes through.\<close>

lemma approve_cases:
  assumes a: "approve_mutate account issuer subject clean by now s = (r, s')"
  obtains (refused) e where "r = Inl e" "s' = s"
  | (applied) emails ex where "r = Inr True"
    "add_emails account clean (mp_emails (base_entry s account by now)) (by_email s) = (emails, ex)"
    "\<not> pinned_elsewhere issuer subject (base_entry s account by now)"
    "\<And>e b. e \<in> set clean \<Longrightarrow> by_email s e = Some b \<Longrightarrow> b = account"
    "\<And>b. subject \<noteq> [] \<Longrightarrow> by_subject s (subject_key issuer subject) = Some b \<Longrightarrow> b = account"
    "s' = \<lparr>by_account = AList.update account
             (approved_entry issuer subject emails by now (base_entry s account by now)) (base_list s account by now),
           by_email = ex,
           by_subject = (if subject \<noteq> [] then (by_subject s)(subject_key issuer subject \<mapsto> account) else by_subject s)\<rparr>"
proof (cases "\<exists>e. r = Inl e")
  case True
  then have "s' = s"
    using a by (auto simp: approve_mutate_def approve_apply_eq Let_def split: option.splits if_splits prod.splits)
  with True refused show ?thesis by blast
next
  case False
  then have c: "email_conflict account clean (by_email s) = None"
    using a by (auto simp: approve_mutate_def split: option.splits)
  have sub: "subject \<noteq> [] \<Longrightarrow> by_subject s (subject_key issuer subject) = Some b \<Longrightarrow> b = account" for b
    using a c False by (auto simp: approve_mutate_def split: option.splits if_splits)
  have ap: "approve_apply account issuer subject clean by now s = (r, s')"
    using a c False by (auto simp: approve_mutate_def split: option.splits if_splits)
  obtain emails ex where ad: "add_emails account clean (mp_emails (base_entry s account by now)) (by_email s) = (emails, ex)"
    by (metis prod.collapse)
  show ?thesis
    by (rule applied[OF _ ad _ _ sub]) (use ap ad False email_conflict_None[OF c] in
      \<open>auto simp: approve_apply_eq Let_def split: if_splits\<close>)
qed

lemma approve_wf:
  assumes "valid_name account" and "\<And>e. e \<in> set clean \<Longrightarrow> canonical e"
  shows "preserves id_wf (approve_mutate account issuer subject clean by now)"
proof (clarsimp simp: preserves_def)
  fix s r s'
  assume wf: "id_wf s" and p: "approve_mutate account issuer subject clean by now s = (r, s')"
  have ix: "indexed (record_of s) (by_email s) (by_subject s)" using wf by (simp add: id_wf_def)
  note own = base_own[OF ix assms(1)]
  show "id_wf s'"
    using p
  proof (cases rule: approve_cases)
    case refused
    then show ?thesis using wf by simp
  next
    case (applied emails ex)
    let ?b = "base_entry s account by now"
    let ?m = "approved_entry issuer subject emails by now ?b"
    have em: "set (mp_emails ?m) = set emails" "distinct (mp_emails ?m) = distinct emails" "mp_account ?m = mp_account ?b"
      by (simp_all add: approved_entry_def Let_def sort_strings_def)
    have key: "entry_key ?m = (if subject = [] then entry_key ?b else Some (subject_key issuer subject))"
      by (simp add: approved_entry_def Let_def entry_key_def)
    have key0: "subject \<noteq> [] \<Longrightarrow> entry_key ?b = None \<or> entry_key ?b = Some (subject_key issuer subject)"
      using applied(3) by (auto simp: pinned_elsewhere_def entry_key_def)
    note ad = add_emails_spec[OF applied(2)]
    have ex: "ex e = (if e \<in> set clean \<and> by_email s e = None then Some account else by_email s e)" for e
      using ad by blast
    have es: "set emails = set (mp_emails ?b) \<union> {e \<in> set clean. by_email s e = None}" using ad by blast
    have "distinct emails" using ad own(1,3) by (auto simp: entry_ok_def)
    moreover have "\<forall>e \<in> set emails. canonical e" using es own(3) assms(2) by (auto simp: entry_ok_def)
    ultimately have ok: "entry_ok account ?m" using em own(3) by (simp add: entry_ok_def)
    have "indexed ((record_of s)(account \<mapsto> ?m)) ex (by_subject s')"
    proof (rule indexed_update[OF ix ok], goal_cases)
      case (1 e)
      then show ?case using ex[of e] es em(1) own(1)[of e] by auto
    next
      case (2 e b)
      then show ?case using es em(1) own(1)[of e] by auto
    next
      case (3 k)
      then show ?case using own(2)[of k] key key0 applied(6) by auto
    next
      case (4 k b)
      then show ?case using own(2)[of k] key applied(5) by (auto split: if_splits)
    qed
    moreover have "distinct (map fst (by_account s'))" "record_of s' = (record_of s)(account \<mapsto> ?m)" "by_email s' = ex"
      using wf applied(6) by (auto simp: id_wf_def AList.distinct_update update_conv' base_list_def split: option.splits)
    ultimately show ?thesis by (simp add: id_wf_def)
  qed
qed

section \<open>Loading\<close>

lemma load_emails_spec:
  "id_load_emails a es acc ix = (Inr out, ix') \<Longrightarrow>
   \<exists>new. out = acc @ new \<and> new = map normalize_email es \<and> distinct new \<and> (\<forall>e \<in> set new. canonical e \<and> ix e = None) \<and>
     ix' = (\<lambda>e. if e \<in> set new then Some a else ix e)"
proof (induction es arbitrary: acc ix)
  case Nil
  then show ?case by simp
next
  case (Cons e es)
  let ?e = "normalize_email e"
  have v: "valid_email ?e" "ix ?e = None" and
    r: "id_load_emails a es (acc @ [?e]) (ix(?e \<mapsto> a)) = (Inr out, ix')"
    using Cons.prems by (auto simp: Let_def split: if_splits option.splits)
  from Cons.IH[OF r] obtain new where n: "out = (acc @ [?e]) @ new" "new = map normalize_email es" "distinct new"
    "\<forall>x \<in> set new. canonical x \<and> (ix(?e \<mapsto> a)) x = None"
    "ix' = (\<lambda>x. if x \<in> set new then Some a else (ix(?e \<mapsto> a)) x)" by blast
  have "?e \<notin> set new" using n(4) by auto
  then show ?case using n v by (intro exI[of _ "?e # new"]) (auto simp: canonical_def split: if_splits)
qed

lemma id_maps_updates:
  "s\<lparr>by_email := e, by_account := a\<rparr> = \<lparr>by_account = a, by_email = e, by_subject = by_subject s\<rparr>"
  "s\<lparr>by_email := e, by_subject := k, by_account := a\<rparr> = \<lparr>by_account = a, by_email = e, by_subject = k\<rparr>"
  for s :: id_maps
  by (cases s, simp)+

lemma wf_append:
  assumes wf: "id_wf s" and a: "record_of s a = None"
    and ok: "entry_ok a m" and ems: "ems = (\<lambda>e. if e \<in> set (mp_emails m) then Some a else by_email s e)"
    and free: "\<And>e. e \<in> set (mp_emails m) \<Longrightarrow> by_email s e = None"
    and sub: "sub = (case entry_key m of None \<Rightarrow> by_subject s | Some k \<Rightarrow> (by_subject s)(k \<mapsto> a))"
    and freek: "\<And>k. entry_key m = Some k \<Longrightarrow> by_subject s k = None"
  shows "id_wf \<lparr>by_account = by_account s @ [(a, m)], by_email = ems, by_subject = sub\<rparr>"
proof -
  have ix: "indexed (record_of s) (by_email s) (by_subject s)" using wf by (simp add: id_wf_def)
  have none: "by_email s e \<noteq> Some a" "by_subject s k \<noteq> Some a" for e k
    using indexedD(2,3)[OF ix] a by auto
  have "indexed ((record_of s)(a \<mapsto> m)) ems sub"
    by (rule indexed_update[OF ix ok]) (use none free freek ems sub in \<open>auto split: option.splits\<close>)
  moreover have "map_of (by_account s @ [(a, m)]) = (record_of s)(a \<mapsto> m)"
    using a by (auto simp: fun_eq_iff map_add_def split: option.splits)
  moreover have "a \<notin> fst ` set (by_account s)" using a by (simp add: map_of_eq_None_iff)
  ultimately show ?thesis using wf by (simp add: id_wf_def)
qed

lemma load_list_wf: "id_wf s \<Longrightarrow> id_load_list ms s = (None, s') \<Longrightarrow> id_wf s'"
proof (induction ms arbitrary: s)
  case Nil
  then show ?case by simp
next
  case (Cons m ms)
  obtain res ix where le: "id_load_emails (mp_account m) (mp_emails m) [] (by_email s) = (res, ix)" by (metis prod.collapse)
  have v: "valid_name (mp_account m)" "record_of s (mp_account m) = None"
    using Cons.prems(2) by (auto split: if_splits)
  obtain es where es: "res = Inr es" using Cons.prems(2) le v by (cases res) auto
  let ?m = "m\<lparr>mp_emails := es\<rparr>"
  obtain new where new: "es = new" "distinct new" "\<forall>e \<in> set new. canonical e \<and> by_email s e = None"
    "ix = (\<lambda>e. if e \<in> set new then Some (mp_account m) else by_email s e)"
    using load_emails_spec[OF le[unfolded es]] by auto
  have ok: "entry_ok (mp_account m) ?m" using new v by (simp add: entry_ok_def)
  show ?case
  proof (cases "mp_subject m = []")
    case True
    have "id_load_list ms \<lparr>by_account = by_account s @ [(mp_account m, ?m)], by_email = ix, by_subject = by_subject s\<rparr> = (None, s')"
      using Cons.prems(2) v le es True by (simp add: Let_def id_maps_updates)
    moreover have "id_wf \<lparr>by_account = by_account s @ [(mp_account m, ?m)], by_email = ix, by_subject = by_subject s\<rparr>"
      by (rule wf_append[OF Cons.prems(1) v(2) ok]) (use new True in \<open>auto simp: entry_key_def\<close>)
    ultimately show ?thesis using Cons.IH by blast
  next
    case False
    let ?k = "subject_key (mp_issuer m) (mp_subject m)"
    have k: "by_subject s ?k = None"
      using Cons.prems(2) v le es False by (auto simp: Let_def split: option.splits)
    have "id_load_list ms \<lparr>by_account = by_account s @ [(mp_account m, ?m)], by_email = ix,
        by_subject = (by_subject s)(?k \<mapsto> mp_account m)\<rparr> = (None, s')"
      using Cons.prems(2) v le es False k by (simp add: Let_def id_maps_updates)
    moreover have "id_wf \<lparr>by_account = by_account s @ [(mp_account m, ?m)], by_email = ix,
        by_subject = (by_subject s)(?k \<mapsto> mp_account m)\<rparr>"
      by (rule wf_append[OF Cons.prems(1) v(2) ok]) (use new False k in \<open>auto simp: entry_key_def\<close>)
    ultimately show ?thesis using Cons.IH by blast
  qed
qed

lemma id_load_wf: "id_load t x s = (None, s') \<Longrightarrow> id_wf s'"
  using load_list_wf[OF wf_reset] by (auto simp: id_load_def split: option.splits doc.splits)

text \<open>The mappings of a list do not contend for an account, an address or a subject.\<close>

definition apart :: "mapping_entry \<Rightarrow> mapping_entry \<Rightarrow> bool" where
  "apart m n \<longleftrightarrow> mp_account m \<noteq> mp_account n \<and> set (mp_emails m) \<inter> set (mp_emails n) = {} \<and>
     (entry_key m = None \<or> entry_key m \<noteq> entry_key n)"

lemma load_emails_canonical:
  "\<forall>e \<in> set es. canonical e \<and> ix e = None \<Longrightarrow> distinct es \<Longrightarrow>
   id_load_emails a es acc ix = (Inr (acc @ es), (\<lambda>e. if e \<in> set es then Some a else ix e))"
proof (induction es arbitrary: acc ix)
  case Nil
  then show ?case by simp
next
  case (Cons e es)
  have "id_load_emails a (e # es) acc ix = id_load_emails a es (acc @ [e]) (ix(e \<mapsto> a))"
    using Cons.prems by (simp add: canonical_def Let_def)
  also have "\<dots> = (Inr ((acc @ [e]) @ es), (\<lambda>x. if x \<in> set es then Some a else (ix(e \<mapsto> a)) x))"
    by (rule Cons.IH) (use Cons.prems in auto)
  finally show ?case by (auto simp: fun_eq_iff)
qed

lemma load_list_ok:
  assumes "\<forall>m \<in> set ms. entry_ok (mp_account m) m" and "sorted_wrt apart ms"
    and "\<forall>m \<in> set ms. record_of s (mp_account m) = None \<and> (\<forall>e \<in> set (mp_emails m). by_email s e = None) \<and>
          (\<forall>k. entry_key m = Some k \<longrightarrow> by_subject s k = None)"
  shows "\<exists>s'. id_load_list ms s = (None, s') \<and> by_account s' = by_account s @ map (\<lambda>m. (mp_account m, m)) ms"
  using assms
proof (induction ms arbitrary: s)
  case Nil
  then show ?case by simp
next
  case (Cons m ms)
  let ?ix = "\<lambda>e. if e \<in> set (mp_emails m) then Some (mp_account m) else by_email s e"
  let ?sub = "case entry_key m of None \<Rightarrow> by_subject s | Some k \<Rightarrow> (by_subject s)(k \<mapsto> mp_account m)"
  let ?s = "\<lparr>by_account = by_account s @ [(mp_account m, m)], by_email = ?ix, by_subject = ?sub\<rparr>"
  have le: "id_load_emails (mp_account m) (mp_emails m) [] (by_email s) = (Inr (mp_emails m), ?ix)"
    using load_emails_canonical[of "mp_emails m" "by_email s" "mp_account m" "[]"] Cons.prems
    by (simp add: entry_ok_def)
  have step: "id_load_list (m # ms) s = id_load_list ms ?s"
    using Cons.prems le by (cases "mp_subject m = []") (auto simp: entry_ok_def entry_key_def Let_def id_maps_updates)
  have ap: "apart m n" if "n \<in> set ms" for n using Cons.prems(2) that by simp
  have "record_of ?s (mp_account n) = None \<and> (\<forall>e \<in> set (mp_emails n). ?ix e = None) \<and>
        (\<forall>k. entry_key n = Some k \<longrightarrow> ?sub k = None)" if "n \<in> set ms" for n
    using ap[OF that] Cons.prems(3) that
    by (auto simp: apart_def map_add_def split: option.splits)
  then have "\<exists>s'. id_load_list ms ?s = (None, s') \<and> by_account s' = by_account ?s @ map (\<lambda>m. (mp_account m, m)) ms"
    using Cons.prems by (intro Cons.IH) auto
  then show ?case using step by auto
qed

section \<open>What a document stands for\<close>

text \<open>Two stores that answer every lookup alike.\<close>

definition same_maps :: "id_maps \<Rightarrow> id_maps \<Rightarrow> bool" where
  "same_maps s s' \<longleftrightarrow> record_of s = record_of s' \<and> by_email s = by_email s' \<and> by_subject s = by_subject s'"

lemma same_maps_refl [simp]: "same_maps s s"
  by (simp add: same_maps_def)

text \<open>The indexes are determined by the record.\<close>

lemma indexed_functional:
  assumes "indexed acc ems sub" and "indexed acc ems' sub'"
  shows "ems = ems'" "sub = sub'"
proof -
  show "ems = ems'" "sub = sub'" using assms by (auto simp: indexed_def intro!: map_eqI)
qed

lemma wf_same_record: "id_wf s \<Longrightarrow> id_wf s' \<Longrightarrow> record_of s = record_of s' \<Longrightarrow> same_maps s s'"
  using indexed_functional by (fastforce simp: id_wf_def same_maps_def)

lemma sorted_wrt_pairs:
  "distinct xs \<Longrightarrow> (\<And>x y. x \<in> set xs \<Longrightarrow> y \<in> set xs \<Longrightarrow> x \<noteq> y \<Longrightarrow> P x y) \<Longrightarrow> sorted_wrt P xs"
  by (induction xs) auto

lemma id_list_record:
  assumes "id_wf s"
  shows "map_of (map (\<lambda>m. (mp_account m, m)) (id_list s)) = record_of s" "distinct (id_list s)"
    "m \<in> set (id_list s) \<longleftrightarrow> record_of s (mp_account m) = Some m"
proof -
  have d: "distinct (map fst (by_account s))" using assms by (simp add: id_wf_def)
  have ok: "entry_ok a m" if "(a, m) \<in> set (by_account s)" for a m
    using assms that d indexedD(1) by (fastforce simp: id_wf_def)
  have "map mp_account (map snd (by_account s)) = map fst (by_account s)"
    using ok by (auto simp: entry_ok_def intro!: map_cong)
  then have dl: "distinct (map mp_account (map snd (by_account s)))" using d by (simp only:)
  then have "distinct (map snd (by_account s))" by (simp only: distinct_map)
  then show "distinct (id_list s)" by (simp add: id_list_def)
  have mem: "m \<in> set (id_list s) \<longleftrightarrow> (mp_account m, m) \<in> set (by_account s)" for m
  proof -
    have "(a, n) \<in> set (by_account s) \<Longrightarrow> (mp_account n, n) \<in> set (by_account s)" for a n
      using ok[of a n] by (simp add: entry_ok_def)
    then show ?thesis by (force simp: id_list_def)
  qed
  then show "m \<in> set (id_list s) \<longleftrightarrow> record_of s (mp_account m) = Some m"
    using d by (simp add: map_of_eq_Some_iff)
  have "inj_on mp_account (set (map snd (by_account s)))" using dl by (simp only: distinct_map)
  then have "distinct (map mp_account (id_list s))"
    using \<open>distinct (id_list s)\<close> by (simp add: distinct_map id_list_def)
  then have "map_of (map (\<lambda>m. (mp_account m, m)) (id_list s)) a = Some m \<longleftrightarrow> m \<in> set (id_list s) \<and> mp_account m = a" for a m
    by (auto simp: map_of_eq_Some_iff o_def)
  moreover have "m \<in> set (id_list s) \<and> mp_account m = a \<longleftrightarrow> record_of s a = Some m" for a m
    using mem[of m] ok[of a m] d by (auto simp: entry_ok_def map_of_eq_Some_iff)
  ultimately show "map_of (map (\<lambda>m. (mp_account m, m)) (id_list s)) = record_of s"
    by (intro map_eqI) simp
qed

text \<open>What is written loads again, and stands for the same maps.\<close>

lemma id_reload:
  assumes wf: "id_wf s"
  shows "\<exists>s'. id_load t (Some (Doc (id_list s))) r = (None, s') \<and> same_maps s' s"
proof -
  have ix: "indexed (record_of s) (by_email s) (by_subject s)" using wf by (simp add: id_wf_def)
  note rec = id_list_record[OF wf]
  have "sorted_wrt apart (id_list s)"
  proof (rule sorted_wrt_pairs[OF rec(2)])
    fix m n assume mn: "m \<in> set (id_list s)" "n \<in> set (id_list s)" "m \<noteq> n"
    then have r: "record_of s (mp_account m) = Some m" "record_of s (mp_account n) = Some n" using rec(3) by auto
    then have "mp_account m \<noteq> mp_account n" using mn(3) by auto
    then show "apart m n"
      using indexed_unique[OF ix r] by (cases "entry_key m") (auto simp: apart_def)
  qed
  moreover have "\<forall>m \<in> set (id_list s). entry_ok (mp_account m) m" using rec(3) indexedD(1)[OF ix] by blast
  ultimately have "\<exists>s'. id_load_list (id_list s) id_reset = (None, s') \<and>
      by_account s' = by_account id_reset @ map (\<lambda>m. (mp_account m, m)) (id_list s)"
    by (intro load_list_ok) (auto simp: id_reset_def)
  then obtain s' where s': "id_load_list (id_list s) id_reset = (None, s')" "record_of s' = record_of s"
    using rec(1) by (auto simp: id_reset_def)
  then have "same_maps s' s" using wf_same_record[OF load_list_wf[OF wf_reset s'(1)] wf] by simp
  then show ?thesis using s'(1) by (simp add: id_load_def)
qed

definition id_rep :: "time \<Rightarrow> mapping_entry list doc option \<Rightarrow> id_maps \<Rightarrow> bool" where
  "id_rep t x s \<longleftrightarrow> id_wf s \<and> (\<exists>s'. id_load t x id_reset = (None, s') \<and> same_maps s' s)"

interpretation identity: replicated_store id_load id_marshal id_rep id_wf
proof unfold_locales
  show "id_rep t x s'" if "id_load t x s = (None, s')" for t x s s'
    using that id_load_wf[OF that]
    by (auto simp: id_rep_def id_load_def split: option.splits doc.splits)
  show "id_wf s" if "id_rep t x s" for t x s using that by (simp add: id_rep_def)
  show "id_rep t (Some b) s" if "id_wf s" "id_marshal t s = Inr b" for t s b
    using id_reload[OF that(1)] that by (auto simp: id_rep_def id_marshal_def)
  show "id_rep t' x s" if "id_rep t x s" "t \<le> t'" for t t' x s
    using that by (auto simp: id_rep_def id_load_def)
qed

section \<open>Replicas\<close>

text \<open>A replica over the mapping file at \<open>p\<close>, and what is committed there.\<close>

definition id_replica :: "string \<Rightarrow> 'w id_store \<Rightarrow> mapping_entry list doc stored option \<Rightarrow> bool" where
  "id_replica p s fo \<longleftrightarrow> coherent id_rep p 0 (is_guard s) (is_maps s) fo"

definition id_committed :: "mapping_entry list doc stored option \<Rightarrow> id_maps" where
  "id_committed fo = snd (id_load 0 (map_option sf_data fo) id_reset)"

definition id_reload_ok :: "'w id_disk \<Rightarrow> 'w id_store \<Rightarrow> 'w \<Rightarrow> bool" where
  "id_reload_ok D s w \<longleftrightarrow> fst (guard_fresh D (id_load 0) (is_guard s) (is_maps s) w) = None"

lemma id_rep_committed: "id_rep 0 (map_option sf_data fo) s \<Longrightarrow> id_wf s \<and> same_maps s (id_committed fo)"
  by (auto simp: id_rep_def id_committed_def same_maps_def)

lemma id_fresh_current:
  assumes "disk_laws p file temp D" and "id_replica p s (file w)" and "id_fresh D s w = (s', w')"
  shows "file w' = file w" "id_replica p s' (file w)"
    "id_reload_ok D s w \<Longrightarrow> id_wf (is_maps s') \<and> same_maps (is_maps s') (id_committed (file w))"
proof -
  obtain r g m v where f: "guard_fresh D (id_load 0) (is_guard s) (is_maps s) w = (r, g, m, v)"
    by (metis prod.collapse)
  have s': "is_guard s' = g" "is_maps s' = m" "w' = v" using assms(3) f by (auto simp: id_fresh_def)
  note c = identity.fresh_current[OF assms(1) assms(2)[unfolded id_replica_def] order_refl f]
  show "file w' = file w" "id_replica p s' (file w)" using c(1,2) s' by (simp_all add: id_replica_def)
  show "id_wf (is_maps s') \<and> same_maps (is_maps s') (id_committed (file w))" if "id_reload_ok D s w"
    using that c(3) s' f id_rep_committed by (simp add: id_reload_ok_def)
qed

lemma id_commit_serial:
  assumes laws: "disk_laws p file temp D" and s: "id_replica p s (file w)"
    and mut: "preserves id_wf mutate" and c: "id_commit D mutate s w = (r, s', w')"
  shows "r \<noteq> None \<Longrightarrow> file w' = file w"
    and "r = None \<Longrightarrow> \<exists>m1 ch. id_wf m1 \<and> same_maps m1 (id_committed (file w)) \<and> mutate m1 = (Inr ch, is_maps s') \<and>
      id_wf (is_maps s') \<and>
      (if ch then \<exists>f. file w' = Some f \<and> sf_data f = Doc (id_list (is_maps s')) \<and> id_replica p s' (file w') \<and>
         same_maps (id_committed (file w')) (is_maps s')
       else file w' = file w)"
proof -
  have coh: "coherent id_rep p 0 (is_guard s) (is_maps s) (file w)" using s by (simp add: id_replica_def)
  then obtain gd where g: "is_guard s = Some gd" by (auto simp: coherent_def split: option.splits)
  obtain q g' m w2 where wr: "guard_write D (id_load 0) mutate (id_marshal 0) (is_guard s) (is_maps s) w = (q, g', m, w2)"
    by (metis prod.collapse)
  have s': "r = q" "is_guard s' = g'" "is_maps s' = m" "w2 = w'"
    using c g wr by (auto simp: id_commit_def)
  note ws = identity.write_serial[OF laws coh order_refl mut wr]
  show "r \<noteq> None \<Longrightarrow> file w' = file w" using ws(1) s' by simp
  assume "r = None"
  then obtain m1 ch where m1: "id_wf m1" "id_rep 0 (map_option sf_data (file w)) m1" "mutate m1 = (Inr ch, m)" and
    res: "if ch then \<exists>f. file w' = Some f \<and> id_marshal 0 m = Inr (sf_data f) \<and> coherent id_rep p 0 g' m (file w')
      else file w' = file w \<and> (quiet mutate \<longrightarrow> coherent id_rep p 0 g' m (file w'))"
    using ws(2) s' by metis
  have wf: "id_wf m" using mut m1(1,3) by (auto simp: preserves_def)
  have "same_maps (id_committed (file w')) m" if "file w' = Some f" "sf_data f = Doc (id_list m)" for f
    using id_reload[OF wf, of 0 id_reset] that by (auto simp: id_committed_def)
  then show "\<exists>m1 ch. id_wf m1 \<and> same_maps m1 (id_committed (file w)) \<and> mutate m1 = (Inr ch, is_maps s') \<and>
      id_wf (is_maps s') \<and>
      (if ch then \<exists>f. file w' = Some f \<and> sf_data f = Doc (id_list (is_maps s')) \<and> id_replica p s' (file w') \<and>
         same_maps (id_committed (file w')) (is_maps s')
       else file w' = file w)"
    using m1 res wf s' id_rep_committed[OF m1(2)]
    by (intro exI[of _ m1] exI[of _ ch]) (auto simp: id_replica_def id_marshal_def)
qed

section \<open>Sequences of operations\<close>

datatype id_op =
    OpPin string string string time
  | OpAttach string string time
  | OpApprove string string string "string list" string time
  | OpForget string
  | OpDetach string string time

text \<open>One operation, its answer left aside.\<close>

definition id_run :: "'w id_disk \<Rightarrow> id_op \<Rightarrow> 'w id_store \<times> 'w \<Rightarrow> 'w id_store \<times> 'w" where
  "id_run D op sw =
     (case sw of (s, w) \<Rightarrow>
        (case op of
           OpPin a i k t \<Rightarrow> snd (id_pin D a i k t s w)
         | OpAttach a e t \<Rightarrow> snd (id_attach_email D a e t s w)
         | OpApprove a i k es who t \<Rightarrow> snd (id_approve D a i k es who t s w)
         | OpForget a \<Rightarrow> snd (id_forget D a s w)
         | OpDetach a e t \<Rightarrow> snd (id_detach_email D a e t s w)))"

lemma clean_emails_canonical: "clean_emails es = Inr cs \<Longrightarrow> \<forall>e \<in> set cs. canonical e"
  by (induction es arbitrary: cs) (auto simp: Let_def canonical_def split: if_splits sum.splits)

lemma clean_emails_eq: "clean_emails es = Inr cs \<Longrightarrow> cs = map normalize_email es"
  by (induction es arbitrary: cs) (auto simp: Let_def split: if_splits sum.splits)

lemma preserves_quiet: "preserves P (\<lambda>s. (Inl e, s))"
  by (simp add: preserves_def)

text \<open>Every operation is refused at once, or commits a change that keeps the indexes.\<close>

definition id_change :: "id_op \<Rightarrow> (id_maps \<Rightarrow> (id_error + bool) \<times> id_maps) option" where
  "id_change op =
     (case op of
        OpPin a i k t \<Rightarrow> if k = [] then None else Some (pin_mutate a i k t)
      | OpAttach a e t \<Rightarrow> if valid_email (normalize_email e) then Some (attach_mutate a (normalize_email e) t) else None
      | OpApprove a i k es who t \<Rightarrow>
          if \<not> valid_name a then None
          else (case clean_emails es of Inl _ \<Rightarrow> None | Inr cs \<Rightarrow> Some (approve_mutate a i k cs who t))
      | OpForget a \<Rightarrow> Some (forget_mutate a)
      | OpDetach a e t \<Rightarrow> Some (detach_mutate a (normalize_email e) t))"

lemma id_run_commit:
  "id_run D op (s, w) = (case id_change op of None \<Rightarrow> (s, w) | Some mutate \<Rightarrow> snd (id_commit D mutate s w))"
  by (cases op) (auto simp: id_run_def id_change_def id_pin_def id_attach_email_def id_approve_def id_forget_def
      id_detach_email_def Let_def split: sum.splits prod.splits option.splits)

lemma id_change_wf: "id_change op = Some mutate \<Longrightarrow> preserves id_wf mutate"
  by (cases op) (auto simp: id_change_def pin_wf attach_wf approve_wf forget_wf detach_wf canonical_def
      dest: clean_emails_canonical split: if_splits sum.splits)

lemma id_commit_memory:
  "is_guard s = None \<Longrightarrow> id_commit D mutate s w = (r, s', w') \<Longrightarrow>
   is_guard s' = None \<and> is_maps s' = snd (mutate (is_maps s))"
  by (auto simp: id_commit_def split: prod.splits sum.splits if_splits option.splits)

lemma id_run_memory:
  assumes "is_guard s = None" and "id_wf (is_maps s)" and "fold (id_run D) ops (s, w) = (s', w')"
  shows "id_wf (is_maps s')"
  using assms
proof (induction ops arbitrary: s w)
  case Nil
  then show ?case by simp
next
  case (Cons op ops)
  obtain s1 w1 where r: "id_run D op (s, w) = (s1, w1)" by (metis prod.collapse)
  have "is_guard s1 = None \<and> id_wf (is_maps s1)"
  proof (cases "id_change op")
    case None
    then show ?thesis using r Cons.prems by (simp add: id_run_commit)
  next
    case (Some mutate)
    then obtain q where "id_commit D mutate s w = (q, s1, w1)" using r by (auto simp: id_run_commit) (metis prod.collapse)
    then show ?thesis
      using id_commit_memory[OF Cons.prems(1)] id_change_wf[OF Some] Cons.prems(2)
      by (auto simp: preserves_def) (metis prod.collapse)
  qed
  then show ?case using Cons r by auto
qed


text \<open>A pinned entry, and what every change but its own removal leaves of it.\<close>

definition pinned_to :: "string \<Rightarrow> string \<Rightarrow> string \<Rightarrow> id_maps \<Rightarrow> bool" where
  "pinned_to a issuer subject s \<longleftrightarrow>
     subject \<noteq> [] \<and> (\<exists>m. record_of s a = Some m \<and> mp_issuer m = issuer \<and> mp_subject m = subject)"

lemma pin_kept:
  assumes "pinned_to a issuer subject s" and "id_change op = Some mutate" and "op \<noteq> OpForget a"
    and "mutate s = (Inr ch, s')"
  shows "pinned_to a issuer subject s'"
proof (cases op)
  case (OpPin b i k t)
  then show ?thesis using assms
    by (auto simp: id_change_def pin_mutate_def pinned_to_def update_conv' Let_def split: if_splits option.splits)
next
  case (OpAttach b e t)
  then show ?thesis using assms
    by (auto simp: id_change_def attach_mutate_def pinned_to_def update_conv' split: if_splits option.splits)
next
  case (OpApprove b i k es who t)
  then obtain cs where m: "mutate = approve_mutate b i k cs who t"
    using assms(2) by (auto simp: id_change_def split: if_splits sum.splits)
  from assms(4)[unfolded m] show ?thesis
  proof (cases rule: approve_cases)
    case (applied emails ex)
    then show ?thesis using assms(1)
      by (auto simp: pinned_to_def base_entry_def base_list_def approved_entry_def pinned_elsewhere_def
          update_conv' Let_def split: option.splits)
  qed simp
next
  case (OpForget b)
  then show ?thesis using assms
    by (auto simp: id_change_def forget_mutate_def pinned_to_def AList.delete_conv' split: option.splits)
next
  case (OpDetach b e t)
  then show ?thesis using assms
    by (auto simp: id_change_def detach_mutate_def pinned_to_def update_conv' split: if_splits option.splits)
qed

lemma pinned_same: "same_maps s s' \<Longrightarrow> pinned_to a i k s \<longleftrightarrow> pinned_to a i k s'"
  by (simp add: pinned_to_def same_maps_def)

lemma id_commit_changed:
  assumes "disk_laws p file temp D" and "id_replica p s (file w)" and "preserves id_wf mutate"
    and "id_commit D mutate s w = (r, s', w')" and "file w' \<noteq> file w"
  shows "\<exists>m1 b f. same_maps m1 (id_committed (file w)) \<and> mutate m1 = (Inr b, is_maps s') \<and> id_wf (is_maps s') \<and>
    file w' = Some f \<and> sf_data f = Doc (id_list (is_maps s'))"
proof -
  note cs = id_commit_serial[OF assms(1-4)]
  have "r = None" using cs(1) assms(5) by blast
  from cs(2)[OF this] assms(5) show ?thesis
    by (elim exE conjE) (auto split: if_splits)
qed

lemma pinned_subject: "id_wf s \<Longrightarrow> pinned_to a issuer subject s \<Longrightarrow> by_subject s (subject_key issuer subject) = Some a"
proof -
  assume wf: "id_wf s" and p: "pinned_to a issuer subject s"
  then obtain m where m: "record_of s a = Some m" "entry_key m = Some (subject_key issuer subject)"
    by (auto simp: pinned_to_def entry_key_def)
  have "indexed (record_of s) (by_email s) (by_subject s)" using wf by (simp add: id_wf_def)
  from indexed_own(2)[OF this m(1)] m(2) show ?thesis by simp
qed

text \<open>C14: A pin is final. Once an account is committed as pinned to a directory object, whatever
  operation any replica then runs, however stale its memory, the account stays pinned to that
  object and the object keeps resolving to that account; only forgetting the account undoes it.\<close>

theorem pin_is_final:
  assumes "disk_laws p file temp D" and "id_replica p s (file w)"
    and "id_load 0 (map_option sf_data (file w)) r = (None, m)" and "pinned_to a issuer subject m"
    and "op \<noteq> OpForget a" and "id_run D op (s, w) = (s', w')"
  shows "\<exists>m'. id_load 0 (map_option sf_data (file w')) r = (None, m') \<and> pinned_to a issuer subject m' \<and>
    by_subject m' (subject_key issuer subject) = Some a"
proof (cases "file w' = file w")
  case True
  then show ?thesis using assms(3,4) pinned_subject[OF id_load_wf[OF assms(3)] assms(4)] by auto
next
  case False
  then obtain mutate where ch: "id_change op = Some mutate" using assms(6) by (auto simp: id_run_commit split: option.splits)
  then obtain q where c: "id_commit D mutate s w = (q, s', w')"
    using assms(6) by (auto simp: id_run_commit) (metis prod.collapse)
  obtain m1 b f where m1: "same_maps m1 (id_committed (file w))" "mutate m1 = (Inr b, is_maps s')"
    "id_wf (is_maps s')" "file w' = Some f" "sf_data f = Doc (id_list (is_maps s'))"
    using id_commit_changed[OF assms(1,2) id_change_wf[OF ch] c False] by blast
  have "id_committed (file w) = m"
    using assms(3) by (auto simp: id_committed_def id_load_def split: option.splits doc.splits)
  then have pin: "pinned_to a issuer subject (is_maps s')"
    using pin_kept[OF _ ch assms(5) m1(2)] assms(4) pinned_same[OF m1(1)] by simp
  obtain m' where "id_load 0 (map_option sf_data (file w')) r = (None, m')" "same_maps m' (is_maps s')"
    using id_reload[OF m1(3), of 0 r] m1(4,5) by auto
  moreover from this have "pinned_to a issuer subject m'" using pin pinned_same by blast
  ultimately show ?thesis using pinned_subject[OF id_load_wf] by blast
qed

lemma approve_effect:
  assumes "approve_mutate account issuer subject cs who now s = (Inr ch, s')"
  shows "ch" "subject \<noteq> [] \<Longrightarrow> by_subject s' (subject_key issuer subject) = Some account"
    "e \<in> set cs \<Longrightarrow> by_email s' e = Some account"
    "c \<noteq> account \<Longrightarrow> by_email s' e = Some c \<longleftrightarrow> by_email s e = Some c"
    "c \<noteq> account \<Longrightarrow> record_of s' c = record_of s c"
proof -
  from assms have "ch \<and> (subject \<noteq> [] \<longrightarrow> by_subject s' (subject_key issuer subject) = Some account) \<and>
      (e \<in> set cs \<longrightarrow> by_email s' e = Some account) \<and>
      (c \<noteq> account \<longrightarrow> (by_email s' e = Some c \<longleftrightarrow> by_email s e = Some c) \<and> record_of s' c = record_of s c)"
  proof (cases rule: approve_cases)
    case (applied emails ex)
    have "ex e = (if e \<in> set cs \<and> by_email s e = None then Some account else by_email s e)"
      using add_emails_spec[OF applied(2)] by blast
    then show ?thesis
      using applied(1,4,6) by (cases "by_email s e") (auto simp: base_list_def update_conv' split: option.splits)
  qed simp
  then show "ch" "subject \<noteq> [] \<Longrightarrow> by_subject s' (subject_key issuer subject) = Some account"
    "e \<in> set cs \<Longrightarrow> by_email s' e = Some account"
    "c \<noteq> account \<Longrightarrow> by_email s' e = Some c \<longleftrightarrow> by_email s e = Some c"
    "c \<noteq> account \<Longrightarrow> record_of s' c = record_of s c" by blast+
qed

text \<open>An approval holds on every replica. Once one replica has approved an account for a subject and
  some addresses, every other replica that can read the file resolves that subject and each of
  those addresses to the account; nobody else's address or record changes, so an approval never
  takes over another account's sign-in.\<close>

theorem approved_everywhere:
  assumes "disk_laws p file temp D" and "id_replica p s (file w)" and "id_replica p b (file w)"
    and "id_approve D account issuer subject emails who now s w = (Inr m, s', w1)"
    and "\<And>f. file w1 = Some f \<Longrightarrow> unseen (is_guard b) f" and "id_reload_ok D b w1"
  shows "(subject \<noteq> [] \<longrightarrow> fst (id_by_subject D issuer subject b w1) = Some account) \<and>
    (\<forall>e \<in> set emails. fst (id_by_email D e b w1) = Some account) \<and>
    (\<forall>e c. c \<noteq> account \<longrightarrow>
       (by_email (id_committed (file w1)) e = Some c \<longleftrightarrow> by_email (id_committed (file w)) e = Some c)) \<and>
    (\<forall>c. c \<noteq> account \<longrightarrow> map_of (by_account (id_committed (file w1))) c = map_of (by_account (id_committed (file w))) c)"
proof -
  obtain cs where cs: "clean_emails emails = Inr cs" and
    c: "id_commit D (approve_mutate account issuer subject cs who now) s w = (None, s', w1)" and v: "valid_name account"
    using assms(4) by (auto simp: id_approve_def split: if_splits sum.splits prod.splits option.splits)
  have can: "e \<in> set cs \<Longrightarrow> canonical e" for e using clean_emails_canonical[OF cs] by blast
  obtain m1 ch where m1: "id_wf m1" "same_maps m1 (id_committed (file w))"
    "approve_mutate account issuer subject cs who now m1 = (Inr ch, is_maps s')" "id_wf (is_maps s')" and
    res: "if ch then \<exists>f. file w1 = Some f \<and> sf_data f = Doc (id_list (is_maps s')) \<and> id_replica p s' (file w1) \<and>
         same_maps (id_committed (file w1)) (is_maps s') else file w1 = file w"
    using id_commit_serial(2)[OF assms(1,2) approve_wf[OF v can] c refl] by blast
  note new = approve_effect[OF m1(3)]
  obtain f where f: "file w1 = Some f" "same_maps (id_committed (file w1)) (is_maps s')" using res new(1) by auto
  have b: "id_replica p b (file w1)"
    using identity.coherent_unseen[OF _ assms(5)[OF f(1)], of p 0 "is_maps b" "file w"] assms(3) f(1)
    by (simp add: id_replica_def)
  obtain b' w2 where fr: "id_fresh D b w1 = (b', w2)" by (metis prod.collapse)
  have same: "same_maps (is_maps b') (is_maps s')"
    using id_fresh_current(3)[OF assms(1) b fr assms(6)] f(2) by (auto simp: same_maps_def)
  have "fst (id_by_email D e b w1) = Some account" if "e \<in> set emails" for e
  proof -
    have n: "normalize_email e \<in> set cs" using that clean_emails_eq[OF cs] by auto
    then have "normalize_email e \<noteq> []" using can[OF n] by (auto simp: canonical_def valid_email_def)
    then show ?thesis using n new(3) same fr by (simp add: id_by_email_def same_maps_def Let_def)
  qed
  then show ?thesis
    using new f(2) m1(2) same fr by (auto simp: id_by_subject_def same_maps_def)
qed

section \<open>Concrete runs\<close>

definition sample_ann :: mapping_entry where
  "sample_ann = \<lparr>mp_account = ''ann'', mp_emails = [], mp_issuer = [], mp_subject = [], mp_approved_by = ''root'',
     mp_approved_at = 1, mp_updated_at = 1\<rparr>"

definition sample_bob :: mapping_entry where
  "sample_bob = \<lparr>mp_account = ''bob'', mp_emails = [], mp_issuer = ''iss'', mp_subject = ''b1'', mp_approved_by = ''root'',
     mp_approved_at = 1, mp_updated_at = 1\<rparr>"

definition sample_maps :: id_maps where
  "sample_maps = \<lparr>by_account = [(''ann'', sample_ann), (''bob'', sample_bob)], by_email = Map.empty,
     by_subject = [subject_key ''iss'' ''b1'' \<mapsto> ''bob'']\<rparr>"

definition id_sample_ram :: "mapping_entry list doc ram" where
  "id_sample_ram = ram_start\<lparr>ram_file := Some \<lparr>sf_data = Doc [sample_ann, sample_bob], sf_mtime = 5, sf_size = 1\<rparr>, ram_clock := 6\<rparr>"

definition id_sample :: "mapping_entry list doc ram id_store" where
  "id_sample = \<lparr>is_guard = Some \<lparr>g_path = ''ids'', g_mtime = 5, g_size = 1, g_loaded = True\<rparr>, is_maps = sample_maps, is_save = None\<rparr>"

lemma sample_names: "valid_name ''ann''" "valid_name ''bob''"
  by (simp_all add: valid_name_def name_char_def lower_alpha_def)

lemma id_sample_load: "id_load t (Some (Doc [sample_ann, sample_bob])) r = (None, sample_maps)"
  by (simp add: id_load_def id_reset_def sample_names sample_ann_def sample_bob_def sample_maps_def Let_def)

lemma id_sample_replica: "id_replica ''ids'' id_sample (ram_file id_sample_ram)"
  using id_sample_load[of 0 id_reset] id_load_wf[OF id_sample_load[of 0 id_reset]]
  by (simp add: id_replica_def coherent_def id_sample_def id_sample_ram_def id_rep_def)


lemma pin_is_final_witness:
  "\<exists>s' w' m'. id_run ram_disk (OpPin ''ann'' ''iss'' ''a1'' 9) (id_sample, id_sample_ram) = (s', w') \<and>
     id_load 0 (map_option sf_data (ram_file w')) id_reset = (None, m') \<and>
     by_subject m' (subject_key ''iss'' ''b1'') = Some ''bob''"
proof -
  obtain s' w' where r: "id_run ram_disk (OpPin ''ann'' ''iss'' ''a1'' 9) (id_sample, id_sample_ram) = (s', w')"
    by (metis prod.collapse)
  have "id_load 0 (map_option sf_data (ram_file id_sample_ram)) id_reset = (None, sample_maps)"
    using id_sample_load by (simp add: id_sample_ram_def)
  moreover have "pinned_to ''bob'' ''iss'' ''b1'' sample_maps"
    by (simp add: pinned_to_def sample_maps_def sample_bob_def)
  ultimately show ?thesis
    using pin_is_final[OF ram_disk_laws id_sample_replica _ _ _ r] r by blast
qed

lemma sample_address: "canonical ''b@x.y''"
proof -
  have "trimmed ''b@x.y''"
    by (simp add: trimmed_def clean_start_def space_runes_def byte_def char_of_eq_iff)
  then have "normalize_email ''b@x.y'' = ''b@x.y''"
    by (simp add: normalize_email_def trimmed_id to_lower_def lower_char_def Let_def)
  then show ?thesis by (simp add: canonical_def valid_email_def str_contains_def)
qed

lemma approved_everywhere_witness:
  "\<exists>m s' w1. id_approve ram_disk ''ann'' ''iss'' ''a1'' [''b@x.y''] ''root'' 9 id_sample id_sample_ram = (Inr m, s', w1) \<and>
     fst (id_by_subject ram_disk ''iss'' ''a1'' id_sample w1) = Some ''ann'' \<and>
     fst (id_by_email ram_disk ''b@x.y'' id_sample w1) = Some ''ann''"
proof -
  obtain q s' w1 where r: "id_approve ram_disk ''ann'' ''iss'' ''a1'' [''b@x.y''] ''root'' 9 id_sample id_sample_ram = (q, s', w1)"
    by (metis prod.collapse)
  let ?am = "approve_mutate ''ann'' ''iss'' ''a1'' [''b@x.y''] ''root'' 9"
  obtain m2 where m2: "?am sample_maps = (Inr True, m2)"
    by (simp add: approve_mutate_def approve_apply_def sample_maps_def sample_ann_def subject_key_def Let_def)
  have ok: "(\<exists>m. q = Inr m)" "ram_file w1 = Some \<lparr>sf_data = Doc (id_list m2), sf_mtime = 6, sf_size = 1\<rparr>"
    using r m2 sample_names sample_address
    by (auto simp: id_approve_def canonical_def Let_def id_commit_def id_sample_def id_sample_ram_def ram_defs id_marshal_def)
  then obtain m where m: "q = Inr m" by blast
  have wf: "id_wf m2"
    using approve_wf[of "''ann''" "[''b@x.y'']" "''iss''" "''a1''" "''root''" 9] m2 sample_names sample_address id_load_wf[OF id_sample_load[of 0 id_reset]]
    by (auto simp: preserves_def)
  have un: "unseen (is_guard id_sample) f" if "ram_file w1 = Some f" for f
    using that ok(2) by (auto simp: unseen_def id_sample_def)
  have re: "id_reload_ok ram_disk id_sample w1"
  proof -
    obtain m3 where "id_load 0 (Some (Doc (id_list m2))) sample_maps = (None, m3)" using id_reload[OF wf] by blast
    then show ?thesis using ok(2) by (simp add: id_reload_ok_def guard_fresh_def ram_disk_def id_sample_def)
  qed
  from approved_everywhere[OF ram_disk_laws id_sample_replica id_sample_replica r[unfolded m] un re] r m
  show ?thesis by simp
qed

end
