(* ===== verification/Queue.thy ===== *)
theory Queue
  imports Identity
begin

text \<open>
  Identities waiting for an operator, \<^verbatim>\<open>src/internal/identity/queue.go\<close>, the file-backed queue and
  the journal of \<^verbatim>\<open>src/internal/identity/file.go\<close>.

  The queue is an association list from subject keys to requests. Go iterates over the map in
  no fixed order; among equally old rows the model evicts the first.
\<close>

definition default_request_ttl :: duration where "default_request_ttl = 14 * 24 * hour"
definition default_max_pending :: int where "default_max_pending = 500"

record id_request =
  rq_issuer :: string
  rq_subject :: string
  rq_emails :: "string list"
  rq_name :: string
  rq_first :: time
  rq_last :: time
  rq_count :: int

definition rq_key :: "id_request \<Rightarrow> string" where
  "rq_key r = subject_key (rq_issuer r) (rq_subject r)"

type_synonym request_map = "(string \<times> id_request) list"

record 'w id_queue =
  iq_guard :: "guard option"
  iq_m :: request_map
  iq_save :: "(id_request list \<Rightarrow> 'w \<Rightarrow> string option \<times> 'w) option"
  iq_ttl :: duration
  iq_max :: int

definition new_queue :: "'w id_queue" where
  "new_queue = \<lparr>iq_guard = None, iq_m = [], iq_save = None, iq_ttl = 0, iq_max = 0\<rparr>"

definition queue_ttl :: "'w id_queue \<Rightarrow> duration" where
  "queue_ttl q = (if iq_ttl q \<le> 0 then default_request_ttl else iq_ttl q)"

definition queue_max :: "'w id_queue \<Rightarrow> int" where
  "queue_max q = (if iq_max q \<le> 0 then default_max_pending else iq_max q)"

datatype queue_error = QParse | QNoSubject | QNoRequest | QSave string

section \<open>Persistence\<close>

fun queue_load_list :: "id_request list \<Rightarrow> request_map \<Rightarrow> request_map" where
  "queue_load_list [] m = m"
| "queue_load_list (r # rs) m =
     (if rq_subject r = [] then queue_load_list rs m
      else queue_load_list rs (AList.update (rq_key r) r m))"

definition queue_load :: "time \<Rightarrow> id_request list doc option \<Rightarrow> request_map \<Rightarrow> queue_error option \<times> request_map" where
  "queue_load now data m =
     (case data of
        Some BadDoc \<Rightarrow> (Some QParse, m)
      | Some (Doc rs) \<Rightarrow> (None, queue_load_list rs [])
      | _ \<Rightarrow> (None, []))"

definition queue_list :: "request_map \<Rightarrow> id_request list" where
  "queue_list m = sort_by (\<lambda>a b. rq_last a \<ge> rq_last b) (map snd m)"

definition queue_marshal :: "time \<Rightarrow> request_map \<Rightarrow> queue_error + id_request list doc" where
  "queue_marshal now m = Inr (Doc (queue_list m))"

type_synonym 'w queue_disk = "(id_request list doc, 'w) sf_disk"

definition queue_fresh :: "'w queue_disk \<Rightarrow> 'w id_queue \<Rightarrow> 'w \<Rightarrow> 'w id_queue \<times> 'w" where
  "queue_fresh D q w =
     (case guard_fresh D (queue_load 0) (iq_guard q) (iq_m q) w of
        (_, g, m, w) \<Rightarrow> (q\<lparr>iq_guard := g, iq_m := m\<rparr>, w))"

definition queue_commit ::
  "'w queue_disk \<Rightarrow> time \<Rightarrow> (request_map \<Rightarrow> (queue_error + bool) \<times> request_map) \<Rightarrow> 'w id_queue \<Rightarrow> 'w \<Rightarrow>
   queue_error sf_error option \<times> 'w id_queue \<times> 'w" where
  "queue_commit D now mutate q w =
     (case iq_guard q of
        Some _ \<Rightarrow>
          (case guard_write D (queue_load now) mutate (queue_marshal now) (iq_guard q) (iq_m q) w of
             (r, g, m, w) \<Rightarrow> (r, q\<lparr>iq_guard := g, iq_m := m\<rparr>, w))
      | None \<Rightarrow>
          (case mutate (iq_m q) of
             (Inl e, m) \<Rightarrow> (Some (SfClient e), q\<lparr>iq_m := m\<rparr>, w)
           | (Inr changed, m) \<Rightarrow>
               (if \<not> changed then (None, q\<lparr>iq_m := m\<rparr>, w)
                else
                  (case iq_save q of
                     None \<Rightarrow> (None, q\<lparr>iq_m := m\<rparr>, w)
                   | Some save \<Rightarrow>
                       (case save (queue_list m) w of
                          (r, w) \<Rightarrow> (map_option (\<lambda>e. SfClient (QSave e)) r, q\<lparr>iq_m := m\<rparr>, w))))))"

text \<open>\<^verbatim>\<open>NewFileQueue\<close> reads the file itself, keeps an empty queue when it is broken, and always
  primes the reload cache; \<open>absent\<close> tells \<^verbatim>\<open>os.ErrNotExist\<close> from another read error.\<close>

definition new_file_queue ::
  "'w queue_disk \<Rightarrow> (string \<Rightarrow> bool) \<Rightarrow> string \<Rightarrow> 'w \<Rightarrow> queue_error sf_error option \<times> 'w id_queue \<times> 'w" where
  "new_file_queue D absent path w =
     (let q = new_queue\<lparr>iq_guard := Some (guard_new path)\<rparr>
      in case (case sd_read D path w of
           (Inr data, w) \<Rightarrow>
             (case queue_load 0 (Some data) (iq_m q) of (e, m) \<Rightarrow> (map_option SfClient e, q\<lparr>iq_m := m\<rparr>, w))
         | (Inl e, w) \<Rightarrow> (if absent e then (None, q, w) else (Some (SfDisk ''read'' e), q, w))) of
         (err, q, w) \<Rightarrow>
           (case guard_seen D (iq_guard q) w of (g, w) \<Rightarrow> (err, q\<lparr>iq_guard := g\<rparr>, w)))"

section \<open>Operations\<close>

text \<open>A row too old for the sweep at \<open>now\<close>.\<close>

definition rq_stale :: "duration \<Rightarrow> time \<Rightarrow> id_request \<Rightarrow> bool" where
  "rq_stale ttl now r \<longleftrightarrow> rq_last r < now - ttl"

definition queue_sweep :: "duration \<Rightarrow> time \<Rightarrow> request_map \<Rightarrow> request_map" where
  "queue_sweep ttl now m = filter (\<lambda>(k, r). \<not> rq_stale ttl now r) m"

definition merge_strings :: "string list \<Rightarrow> string list \<Rightarrow> string list" where
  "merge_strings have add =
     sort_strings (remdups (filter (\<lambda>s. s \<noteq> []) (map normalize_email (have @ add))))"

fun oldest_row :: "request_map \<Rightarrow> (string \<times> time) option \<Rightarrow> (string \<times> time) option" where
  "oldest_row [] acc = acc"
| "oldest_row ((k, r) # m) acc =
     oldest_row m (case acc of
        None \<Rightarrow> Some (k, rq_last r)
      | Some (_, t) \<Rightarrow> if rq_last r < t then Some (k, rq_last r) else acc)"

lemma oldest_row_member:
  "oldest_row m acc = Some (k, t) \<Longrightarrow> acc = Some (k, t) \<or> (\<exists>r. (k, r) \<in> set m \<and> rq_last r = t)"
  by (induction m acc rule: oldest_row.induct) (auto split: option.splits if_splits)

lemma length_delete_member: "k \<in> fst ` set m \<Longrightarrow> length (AList.delete k m) < length m"
  by (auto simp: AList.delete_eq intro!: length_filter_less)

function queue_evict :: "int \<Rightarrow> request_map \<Rightarrow> request_map" where
  "queue_evict n m =
     (if int (length m) < n then m
      else (case oldest_row m None of None \<Rightarrow> m | Some (k, _) \<Rightarrow> queue_evict n (AList.delete k m)))"
  by pat_completeness auto
termination
  by (relation "measure (\<lambda>(n, m). length m)")
    (use length_delete_member oldest_row_member in \<open>force\<close>)+

declare queue_evict.simps [simp del]

definition record_mutate :: "duration \<Rightarrow> int \<Rightarrow> id_request \<Rightarrow> time \<Rightarrow> request_map \<Rightarrow> (queue_error + bool) \<times> request_map" where
  "record_mutate ttl mx req now m =
     (let m = queue_sweep ttl now m; k = rq_key req
      in case map_of m k of
           Some have \<Rightarrow>
             (Inr True, AList.update k
                (have\<lparr>rq_last := now, rq_count := rq_count have + 1, rq_name := rq_name req,
                   rq_emails := merge_strings (rq_emails have) (rq_emails req)\<rparr>) m)
         | None \<Rightarrow>
             (let m = queue_evict mx m;
                  req = req\<lparr>rq_first := now, rq_last := now, rq_count := 1,
                          rq_emails := merge_strings [] (rq_emails req)\<rparr>
              in (Inr True, AList.update k req m)))"

definition queue_record ::
  "'w queue_disk \<Rightarrow> id_request \<Rightarrow> time \<Rightarrow> 'w id_queue \<Rightarrow> 'w \<Rightarrow> queue_error sf_error option \<times> 'w id_queue \<times> 'w" where
  "queue_record D req now q w =
     (if rq_subject req = [] then (Some (SfClient QNoSubject), q, w)
      else queue_commit D now (record_mutate (queue_ttl q) (queue_max q) req now) q w)"

definition discard_mutate :: "string \<Rightarrow> string \<Rightarrow> request_map \<Rightarrow> (queue_error + bool) \<times> request_map" where
  "discard_mutate issuer subject m =
     (let k = subject_key issuer subject
      in case map_of m k of None \<Rightarrow> (Inl QNoRequest, m) | Some _ \<Rightarrow> (Inr True, AList.delete k m))"

definition queue_discard ::
  "'w queue_disk \<Rightarrow> time \<Rightarrow> string \<Rightarrow> string \<Rightarrow> 'w id_queue \<Rightarrow> 'w \<Rightarrow> queue_error sf_error option \<times> 'w id_queue \<times> 'w" where
  "queue_discard D now issuer subject q w = queue_commit D now (discard_mutate issuer subject) q w"

definition queue_sweep_op :: "'w queue_disk \<Rightarrow> time \<Rightarrow> 'w id_queue \<Rightarrow> 'w \<Rightarrow> queue_error sf_error option \<times> 'w id_queue \<times> 'w" where
  "queue_sweep_op D now q w =
     queue_commit D now
       (\<lambda>m. let m' = queue_sweep (queue_ttl q) now m in (Inr (length m \<noteq> length m'), m')) q w"

definition queue_list_op :: "'w queue_disk \<Rightarrow> time \<Rightarrow> 'w id_queue \<Rightarrow> 'w \<Rightarrow> id_request list \<times> 'w id_queue \<times> 'w" where
  "queue_list_op D now q w =
     (case queue_fresh D q w of
        (q, w) \<Rightarrow> (let m = queue_sweep (queue_ttl q) now (iq_m q) in (queue_list m, q\<lparr>iq_m := m\<rparr>, w)))"

definition queue_get :: "'w queue_disk \<Rightarrow> string \<Rightarrow> string \<Rightarrow> 'w id_queue \<Rightarrow> 'w \<Rightarrow> id_request option \<times> 'w id_queue \<times> 'w" where
  "queue_get D issuer subject q w =
     (case queue_fresh D q w of (q, w) \<Rightarrow> (map_of (iq_m q) (subject_key issuer subject), q, w))"

definition queue_len :: "'w queue_disk \<Rightarrow> 'w id_queue \<Rightarrow> 'w \<Rightarrow> nat \<times> 'w id_queue \<times> 'w" where
  "queue_len D q w = (case queue_fresh D q w of (q, w) \<Rightarrow> (length (iq_m q), q, w))"

section \<open>The journal\<close>

record journal_entry =
  je_at :: time
  je_by :: string
  je_action :: string
  je_account :: string
  je_issuer :: string
  je_subject :: string
  je_emails :: "string list"

text \<open>
  The calls on the journal's file. A line is an entry, or \<open>None\<close> for one that does not parse;
  the scanner gives up with an error on a line over a megabyte.
\<close>

record 'w journal_disk =
  jd_open_append :: "string \<Rightarrow> 'w \<Rightarrow> string option \<times> 'w"
  jd_write :: "string \<Rightarrow> journal_entry \<Rightarrow> 'w \<Rightarrow> string option \<times> 'w"
  jd_sync :: "string \<Rightarrow> 'w \<Rightarrow> string option \<times> 'w"
  jd_close :: "string \<Rightarrow> 'w \<Rightarrow> 'w"
  jd_open :: "string \<Rightarrow> 'w \<Rightarrow> (string + bool) \<times> 'w"
  jd_scan :: "string \<Rightarrow> 'w \<Rightarrow> (journal_entry option list \<times> string option) \<times> 'w"

definition journal_append :: "'w journal_disk \<Rightarrow> time \<Rightarrow> string option \<Rightarrow> journal_entry \<Rightarrow> 'w \<Rightarrow> string option \<times> 'w" where
  "journal_append D now j e w =
     (case j of
        None \<Rightarrow> (None, w)
      | Some path \<Rightarrow>
          (let e = (if je_at e = 0 then e\<lparr>je_at := now\<rparr> else e)
           in case jd_open_append D path w of
                (Some err, w) \<Rightarrow> (Some err, w)
              | (None, w) \<Rightarrow>
                  (case jd_write D path e w of
                     (Some err, w) \<Rightarrow> (Some err, jd_close D path w)
                   | (None, w) \<Rightarrow> (case jd_sync D path w of (r, w) \<Rightarrow> (r, jd_close D path w)))))"

text \<open>\<open>jd_open\<close> answers \<open>Inr False\<close> for a file that does not exist.\<close>

definition journal_tail :: "'w journal_disk \<Rightarrow> string option \<Rightarrow> int \<Rightarrow> 'w \<Rightarrow> (string + journal_entry list) \<times> 'w" where
  "journal_tail D j n w =
     (case j of
        None \<Rightarrow> (Inr [], w)
      | Some path \<Rightarrow>
          (if n \<le> 0 then (Inr [], w)
           else
             (case jd_open D path w of
                (Inl e, w) \<Rightarrow> (Inl e, w)
              | (Inr False, w) \<Rightarrow> (Inr [], w)
              | (Inr True, w) \<Rightarrow>
                  (case jd_scan D path w of
                     ((ls, err), w) \<Rightarrow>
                       (let all = List.map_filter (\<lambda>l. l) ls; w = jd_close D path w
                        in case err of
                             Some e \<Rightarrow> (Inl e, w)
                           | None \<Rightarrow>
                               (let all = (if int (length all) > n then drop (length all - nat n) all else all)
                                in (Inr (rev all), w)))))))"

section \<open>Rows\<close>

definition rows_ok :: "request_map \<Rightarrow> bool" where
  "rows_ok m \<longleftrightarrow> distinct (map fst m) \<and> (\<forall>(k, r) \<in> set m. rq_key r = k \<and> rq_subject r \<noteq> [])"

lemma map_of_filter_rows:
  "distinct (map fst m) \<Longrightarrow>
   map_of (filter (\<lambda>(k, r). P r) m) k = (case map_of m k of None \<Rightarrow> None | Some r \<Rightarrow> if P r then Some r else None)"
  by (induction m) (auto simp: map_of_eq_None_iff split: option.splits)

lemma rows_update: "rows_ok m \<Longrightarrow> rq_key r = k \<Longrightarrow> rq_subject r \<noteq> [] \<Longrightarrow> rows_ok (AList.update k r m)"
proof -
  assume m: "rows_ok m" and r: "rq_key r = k" "rq_subject r \<noteq> []"
  have d: "distinct (map fst (AList.update k r m))" using m by (simp add: rows_ok_def AList.distinct_update)
  have "rq_key b = a \<and> rq_subject b \<noteq> []" if "(a, b) \<in> set (AList.update k r m)" for a b
  proof -
    have "map_of (AList.update k r m) a = Some b" using that d by simp
    then have "a = k \<and> b = r \<or> map_of m a = Some b" by (auto simp: update_conv' split: if_splits)
    then show ?thesis using m r by (auto simp: rows_ok_def dest: map_of_SomeD)
  qed
  with d show ?thesis by (auto simp: rows_ok_def)
qed

lemma rows_filter: "rows_ok m \<Longrightarrow> rows_ok (filter P m)"
  by (auto simp: rows_ok_def distinct_map_filterI)

lemma rows_delete: "rows_ok m \<Longrightarrow> rows_ok (AList.delete k m)"
  by (simp add: AList.delete_eq rows_filter)

lemma rows_sweep: "rows_ok m \<Longrightarrow> rows_ok (queue_sweep ttl t m)"
  by (simp add: queue_sweep_def rows_filter)

lemma rows_load: "rows_ok m \<Longrightarrow> rows_ok (queue_load_list rs m)"
  by (induction rs arbitrary: m) (auto intro: rows_update)

lemma rows_evict: "rows_ok m \<Longrightarrow> rows_ok (queue_evict n m)"
proof (induction n m rule: queue_evict.induct)
  case (1 n m)
  then show ?case by (auto simp: queue_evict.simps[of n m] rows_delete split: option.splits)
qed

lemma map_of_load_rows:
  assumes "\<forall>r \<in> set rs. rq_subject r \<noteq> []" and "distinct (map rq_key rs)"
  shows "map_of (queue_load_list rs m) k =
    (case map_of (map (\<lambda>r. (rq_key r, r)) rs) k of None \<Rightarrow> map_of m k | Some r \<Rightarrow> Some r)"
  using assms
proof (induction rs arbitrary: m)
  case Nil
  then show ?case by simp
next
  case (Cons r rs)
  then have "map_of (map (\<lambda>r. (rq_key r, r)) rs) (rq_key r) = None" by (auto simp: map_of_eq_None_iff o_def)
  with Cons show ?case by (auto simp: update_conv' split: option.splits)
qed

text \<open>The rows that are still live at an instant, as a map.\<close>

definition live_rows :: "duration \<Rightarrow> time \<Rightarrow> request_map \<Rightarrow> string \<rightharpoonup> id_request" where
  "live_rows ttl t m = map_of (queue_sweep ttl t m)"

lemma live_rows_iff:
  "rows_ok m \<Longrightarrow> live_rows ttl t m k = Some r \<longleftrightarrow> map_of m k = Some r \<and> \<not> rq_stale ttl t r"
proof -
  assume "rows_ok m"
  then have "distinct (map fst m)" by (simp add: rows_ok_def)
  from map_of_filter_rows[OF this, of "\<lambda>r. \<not> rq_stale ttl t r" k] show ?thesis
    unfolding live_rows_def queue_sweep_def by (cases "map_of m k") (auto simp del: map_of_eq_Some_iff)
qed

lemma rq_stale_mono: "rq_stale ttl t r \<Longrightarrow> t \<le> t' \<Longrightarrow> rq_stale ttl t' r"
  by (simp add: rq_stale_def)

definition queue_rep :: "duration \<Rightarrow> time \<Rightarrow> id_request list doc option \<Rightarrow> request_map \<Rightarrow> bool" where
  "queue_rep ttl t x m \<longleftrightarrow>
     rows_ok m \<and> (\<exists>m'. queue_load t x [] = (None, m') \<and> (\<forall>t' \<ge> t. live_rows ttl t' m = live_rows ttl t' m'))"

lemma map_of_queue_list:
  assumes "rows_ok m"
  shows "map_of (queue_load_list (queue_list m) []) = map_of m" "length (queue_list m) = length m"
    "distinct (map rq_key (queue_list m))" "r \<in> set (queue_list m) \<longleftrightarrow> map_of m (rq_key r) = Some r"
proof -
  have "map rq_key (map snd m) = map fst m" using assms by (auto simp: rows_ok_def intro!: map_cong)
  then have dk: "distinct (map rq_key (map snd m))" using assms by (simp only: rows_ok_def)
  then have "distinct (map snd m)" "inj_on rq_key (set (map snd m))" by (simp_all only: distinct_map)
  then show d: "distinct (map rq_key (queue_list m))" by (simp add: queue_list_def distinct_map)
  show "length (queue_list m) = length m" by (simp add: queue_list_def)
  have snd: "r \<in> snd ` set m \<longleftrightarrow> (rq_key r, r) \<in> set m" for r using assms by (force simp: rows_ok_def image_iff)
  then show mem: "r \<in> set (queue_list m) \<longleftrightarrow> map_of m (rq_key r) = Some r" for r
    using assms by (simp add: queue_list_def rows_ok_def)
  have ne: "\<forall>r \<in> set (queue_list m). rq_subject r \<noteq> []" using assms by (auto simp: queue_list_def rows_ok_def)
  have "map_of (map (\<lambda>r. (rq_key r, r)) (queue_list m)) k = Some r \<longleftrightarrow> map_of m k = Some r" for k r
  proof -
    have "map_of (map (\<lambda>r. (rq_key r, r)) (queue_list m)) k = Some r \<longleftrightarrow> r \<in> set (queue_list m) \<and> rq_key r = k"
      using d by (auto simp: map_of_eq_Some_iff o_def)
    also have "\<dots> \<longleftrightarrow> map_of m k = Some r" using mem[of r] assms by (auto simp: rows_ok_def dest: map_of_SomeD)
    finally show ?thesis .
  qed
  then have "map_of (map (\<lambda>r. (rq_key r, r)) (queue_list m)) = map_of m" by (rule map_eqI)
  then show "map_of (queue_load_list (queue_list m) []) = map_of m"
    by (simp add: fun_eq_iff map_of_load_rows[OF ne d] split: option.splits)
qed

lemma live_rows_eq: "rows_ok m \<Longrightarrow> rows_ok m' \<Longrightarrow> map_of m = map_of m' \<Longrightarrow> live_rows ttl t m = live_rows ttl t m'"
  by (intro map_eqI) (simp add: live_rows_iff)

interpretation queue: replicated_store queue_load queue_marshal "queue_rep ttl" rows_ok for ttl
proof unfold_locales
  have nil: "rows_ok []" by (simp add: rows_ok_def)
  show "queue_rep ttl t x m'" if "queue_load t x m = (None, m')" for t x m m'
    using that rows_load[OF nil] nil
    by (auto simp: queue_rep_def queue_load_def split: option.splits doc.splits)
  show "rows_ok m" if "queue_rep ttl t x m" for t x m using that by (simp add: queue_rep_def)
  show "queue_rep ttl t (Some b) m" if "rows_ok m" "queue_marshal t m = Inr b" for t m b
    using that live_rows_eq[OF that(1) rows_load[OF nil]] map_of_queue_list(1)[OF that(1)]
    by (auto simp: queue_rep_def queue_load_def queue_marshal_def)
  show "queue_rep ttl t' x m" if "queue_rep ttl t x m" "t \<le> t'" for t t' x m
    using that by (auto simp: queue_rep_def queue_load_def)
qed

section \<open>Recording\<close>

lemma oldest_row_least:
  "oldest_row m acc = Some (k, t) \<Longrightarrow> (\<forall>(k', r) \<in> set m. t \<le> rq_last r) \<and> (\<forall>k' t'. acc = Some (k', t') \<longrightarrow> t \<le> t')"
proof (induction m acc rule: oldest_row.induct)
  case (1 acc)
  then show ?case by simp
next
  case (2 k r m acc)
  then show ?case by (fastforce split: option.splits if_splits prod.splits)
qed

lemma oldest_row_exists: "m \<noteq> [] \<or> acc \<noteq> None \<Longrightarrow> oldest_row m acc \<noteq> None"
  by (induction m acc rule: oldest_row.induct) (auto split: option.splits)

lemma evict_spec:
  assumes "rows_ok m" and "0 < n"
  shows "int (length (queue_evict n m)) < n \<and> set (queue_evict n m) \<subseteq> set m \<and>
    (\<forall>(k, r) \<in> set m - set (queue_evict n m). \<forall>(k', r') \<in> set (queue_evict n m). rq_last r \<le> rq_last r')"
  using assms
proof (induction n m rule: queue_evict.induct)
  case (1 n m)
  show ?case
  proof (cases "int (length m) < n")
    case True
    then show ?thesis by (simp add: queue_evict.simps[of n m])
  next
    case False
    then have "m \<noteq> []" using 1(3) by auto
    then obtain k t where o: "oldest_row m None = Some (k, t)" using oldest_row_exists[of m None] by auto
    let ?m = "AList.delete k m"
    have ev: "queue_evict n m = queue_evict n ?m" using False o by (simp add: queue_evict.simps[of n m])
    have ih: "int (length (queue_evict n ?m)) < n" "set (queue_evict n ?m) \<subseteq> set ?m"
      "\<forall>(k, r) \<in> set ?m - set (queue_evict n ?m). \<forall>(k', r') \<in> set (queue_evict n ?m). rq_last r \<le> rq_last r'"
      using 1(1)[OF False o refl rows_delete[OF 1(2)] 1(3)] by blast+
    have sub: "set ?m \<subseteq> set m" by (auto simp: AList.delete_eq)
    have del: "rq_last r = t" if "(k', r) \<in> set m - set ?m" for k' r
    proof -
      have "k' = k" using that by (auto simp: AList.delete_eq)
      moreover obtain r0 where "(k, r0) \<in> set m" "rq_last r0 = t" using oldest_row_member[OF o] by auto
      ultimately show ?thesis using that 1(2) by (auto simp: rows_ok_def dest: eq_key_imp_eq_value)
    qed
    have least: "t \<le> rq_last r" if "(k', r) \<in> set m" for k' r using oldest_row_least[OF o] that by blast
    have "\<forall>(k, r) \<in> set m - set (queue_evict n ?m). \<forall>(k', r') \<in> set (queue_evict n ?m). rq_last r \<le> rq_last r'"
    proof (clarify)
      fix a r b r'
      assume a: "(a, r) \<in> set m" "(a, r) \<notin> set (queue_evict n ?m)" and b: "(b, r') \<in> set (queue_evict n ?m)"
      show "rq_last r \<le> rq_last r'"
      proof (cases "(a, r) \<in> set ?m")
        case True
        then show ?thesis using ih(3) a b by blast
      next
        case False
        then have "rq_last r = t" using del a by blast
        then show ?thesis using least b ih(2) sub by blast
      qed
    qed
    then show ?thesis using ev ih sub by auto
  qed
qed

lemma queue_max_pos: "0 < queue_max q"
  by (simp add: queue_max_def default_max_pending_def)

lemma length_alist_update: "length (AList.update k v m) = (if k \<in> fst ` set m then length m else Suc (length m))"
  by (induction m) auto

text \<open>What recording does to the live rows.\<close>

lemma record_effect:
  assumes ok: "rows_ok m" and r: "record_mutate ttl n req now m = (q, m')" and s: "rq_subject req \<noteq> []" and n: "0 < n"
  defines "old \<equiv> live_rows ttl now m" and "k \<equiv> rq_key req"
  shows "q = Inr True" "rows_ok m'"
    "\<exists>r. map_of m' k = Some r \<and> rq_last r = now \<and> rq_name r = rq_name req \<and>
       rq_count r = (case old k of None \<Rightarrow> 1 | Some h \<Rightarrow> rq_count h + 1)"
    "k' \<noteq> k \<Longrightarrow> map_of m' k' = Some x \<Longrightarrow> old k' = Some x"
    "int (card (dom old)) \<le> n \<Longrightarrow> int (length m') \<le> n"
    "k' \<noteq> k \<Longrightarrow> old k' = Some x \<Longrightarrow> map_of m' k' \<noteq> Some x \<Longrightarrow> k'' \<noteq> k \<Longrightarrow> map_of m' k'' = Some y \<Longrightarrow> rq_last x \<le> rq_last y"
proof -
  let ?m = "queue_sweep ttl now m"
  have oks: "rows_ok ?m" by (rule rows_sweep[OF ok])
  have old: "old = map_of ?m" by (simp add: old_def live_rows_def)
  have card: "card (dom old) = length ?m"
    using oks distinct_card[of "map fst ?m"] by (simp add: old rows_ok_def dom_map_of_conv_image_fst)
  have "q = Inr True \<and> rows_ok m' \<and>
    (\<exists>r. map_of m' k = Some r \<and> rq_last r = now \<and> rq_name r = rq_name req \<and>
       rq_count r = (case old k of None \<Rightarrow> 1 | Some h \<Rightarrow> rq_count h + 1)) \<and>
    (\<forall>k' x. k' \<noteq> k \<longrightarrow> map_of m' k' = Some x \<longrightarrow> old k' = Some x) \<and>
    (int (card (dom old)) \<le> n \<longrightarrow> int (length m') \<le> n) \<and>
    (\<forall>k' x k'' y. k' \<noteq> k \<longrightarrow> old k' = Some x \<longrightarrow> map_of m' k' \<noteq> Some x \<longrightarrow> k'' \<noteq> k \<longrightarrow> map_of m' k'' = Some y \<longrightarrow> rq_last x \<le> rq_last y)"
  proof (cases "map_of ?m k")
    case (Some h)
    let ?h = "h\<lparr>rq_last := now, rq_count := rq_count h + 1, rq_name := rq_name req,
      rq_emails := merge_strings (rq_emails h) (rq_emails req)\<rparr>"
    have m': "m' = AList.update k ?h ?m" "q = Inr True" using r Some by (simp_all add: record_mutate_def k_def Let_def)
    have kh: "rq_key ?h = k" "rq_subject ?h \<noteq> []"
      using oks map_of_SomeD[OF Some] by (auto simp: rows_ok_def rq_key_def)
    have "length m' = length ?m"
      using map_of_SomeD[OF Some] unfolding m' by (force simp: length_alist_update)
    then show ?thesis
      using m' rows_update[OF oks kh] Some card by (auto simp: old update_conv')
  next
    case None
    let ?e = "queue_evict n ?m"
    let ?r = "req\<lparr>rq_first := now, rq_last := now, rq_count := 1, rq_emails := merge_strings [] (rq_emails req)\<rparr>"
    have m': "m' = AList.update k ?r ?e" "q = Inr True" using r None by (simp_all add: record_mutate_def k_def Let_def)
    note ev = evict_spec[OF oks n]
    have oke: "rows_ok ?e" by (rule rows_evict[OF oks])
    have kr: "rq_key ?r = k" "rq_subject ?r \<noteq> []" using s by (simp_all add: k_def rq_key_def)
    have "length m' \<le> Suc (length ?e)" unfolding m' by (simp add: length_alist_update)
    then have "int (length m') \<le> n" using ev by simp
    moreover have "map_of ?e a = Some x \<longleftrightarrow> (a, x) \<in> set ?e" "map_of ?m a = Some x \<longleftrightarrow> (a, x) \<in> set ?m" for a x
      using oks oke by (auto simp: rows_ok_def)
    moreover have "rq_last x \<le> rq_last y" if "(a, x) \<in> set ?m" "(a, x) \<notin> set ?e" "(b, y) \<in> set ?e" for a x b y
      using that ev by blast
    moreover have "set ?e \<subseteq> set ?m" using ev by blast
    ultimately show ?thesis
      using m' rows_update[OF oke kr] None by (auto simp: old update_conv' subset_iff)
  qed
  then show "q = Inr True" "rows_ok m'"
    "\<exists>r. map_of m' k = Some r \<and> rq_last r = now \<and> rq_name r = rq_name req \<and>
       rq_count r = (case old k of None \<Rightarrow> 1 | Some h \<Rightarrow> rq_count h + 1)"
    "k' \<noteq> k \<Longrightarrow> map_of m' k' = Some x \<Longrightarrow> old k' = Some x"
    "int (card (dom old)) \<le> n \<Longrightarrow> int (length m') \<le> n"
    "k' \<noteq> k \<Longrightarrow> old k' = Some x \<Longrightarrow> map_of m' k' \<noteq> Some x \<Longrightarrow> k'' \<noteq> k \<Longrightarrow> map_of m' k'' = Some y \<Longrightarrow> rq_last x \<le> rq_last y"
    by blast+
qed

section \<open>The committed queue\<close>

definition queue_replica :: "string \<Rightarrow> time \<Rightarrow> 'w id_queue \<Rightarrow> id_request list doc stored option \<Rightarrow> bool" where
  "queue_replica p t q fo \<longleftrightarrow> coherent (queue_rep (queue_ttl q)) p t (iq_guard q) (iq_m q) fo"

text \<open>The live rows of the file, as a map from subject keys.\<close>

definition queued :: "duration \<Rightarrow> time \<Rightarrow> id_request list doc stored option \<Rightarrow> string \<rightharpoonup> id_request" where
  "queued ttl t fo = live_rows ttl t (snd (queue_load t (map_option sf_data fo) []))"

text \<open>C15: The queue is bounded, keeps one row per directory object and drops the least recently seen.
  Whatever any replica remembers, recording an identity rewrites the newest committed queue: each
  subject has one row, the recorded one is there, seen now and counted once more; every other row
  is one that was queued, unchanged; a row left out was seen no later than any row kept; and a
  queue within its ceiling stays within it.\<close>

theorem queue_is_bounded:
  assumes "disk_laws p file temp D" and "queue_replica p t0 q (file w)" and "t0 \<le> now"
    and "queue_record D req now q w = (None, q', w')"
  defines "old \<equiv> queued (queue_ttl q) now (file w)"
  shows "\<exists>f rs. file w' = Some f \<and> sf_data f = Doc rs \<and> distinct (map rq_key rs) \<and>
    (\<exists>r \<in> set rs. rq_key r = rq_key req \<and> rq_last r = now \<and> rq_name r = rq_name req \<and>
       rq_count r = (case old (rq_key req) of None \<Rightarrow> 1 | Some h \<Rightarrow> rq_count h + 1)) \<and>
    (\<forall>r \<in> set rs. rq_key r \<noteq> rq_key req \<longrightarrow> old (rq_key r) = Some r) \<and>
    (\<forall>k x. k \<noteq> rq_key req \<and> old k = Some x \<and> x \<notin> set rs \<longrightarrow>
       (\<forall>r \<in> set rs. rq_key r \<noteq> rq_key req \<longrightarrow> rq_last x \<le> rq_last r)) \<and>
    (int (card (dom old)) \<le> queue_max q \<longrightarrow> int (length rs) \<le> queue_max q)"
proof -
  let ?mut = "record_mutate (queue_ttl q) (queue_max q) req now"
  have s: "rq_subject req \<noteq> []" and c: "queue_commit D now ?mut q w = (None, q', w')"
    using assms(4) by (auto simp: queue_record_def split: if_splits)
  have coh: "coherent (queue_rep (queue_ttl q)) p t0 (iq_guard q) (iq_m q) (file w)"
    using assms(2) by (simp add: queue_replica_def)
  then obtain gd where g: "iq_guard q = Some gd" by (auto simp: coherent_def split: option.splits)
  obtain r g' m v where wr: "guard_write D (queue_load now) ?mut (queue_marshal now) (iq_guard q) (iq_m q) w = (r, g', m, v)"
    by (metis prod.collapse)
  have r: "r = None" "v = w'" using c g wr by (auto simp: queue_commit_def)
  have pres: "preserves rows_ok ?mut" using record_effect(2)[OF _ _ s queue_max_pos] by (auto simp: preserves_def)
  obtain m1 ch where m1: "rows_ok m1" "queue_rep (queue_ttl q) now (map_option sf_data (file w)) m1" "?mut m1 = (Inr ch, m)" and
    res: "if ch then \<exists>f. file w' = Some f \<and> queue_marshal now m = Inr (sf_data f) \<and>
        coherent (queue_rep (queue_ttl q)) p now g' m (file w')
      else file w' = file w \<and> (quiet ?mut \<longrightarrow> coherent (queue_rep (queue_ttl q)) p now g' m (file w'))"
    using queue.write_serial(2)[OF assms(1) coh assms(3) pres wr r(1)] r(2) by metis
  have old: "old = live_rows (queue_ttl q) now m1"
    using m1(2) by (auto simp: old_def queued_def queue_rep_def)
  note e = record_effect[OF m1(1,3) s queue_max_pos, folded old]
  have okm: "rows_ok m" by (rule e(2))
  note ls = map_of_queue_list[OF okm]
  obtain f where f: "file w' = Some f" "sf_data f = Doc (queue_list m)"
    using res e(1) by (auto simp: queue_marshal_def)
  have mem: "r \<in> set (queue_list m)" if "map_of m k = Some r" for k r
    using that okm ls(4)[of r] by (auto simp: rows_ok_def dest: map_of_SomeD)
  have key: "rq_key r = k" if "map_of m k = Some r" for k r
    using that okm by (auto simp: rows_ok_def dest: map_of_SomeD)
  have "(\<exists>r \<in> set (queue_list m). rq_key r = rq_key req \<and> rq_last r = now \<and> rq_name r = rq_name req \<and>
       rq_count r = (case old (rq_key req) of None \<Rightarrow> 1 | Some h \<Rightarrow> rq_count h + 1))"
    using e(3) mem key by blast
  moreover have "\<forall>k x. k \<noteq> rq_key req \<and> old k = Some x \<and> x \<notin> set (queue_list m) \<longrightarrow>
       (\<forall>r \<in> set (queue_list m). rq_key r \<noteq> rq_key req \<longrightarrow> rq_last x \<le> rq_last r)"
    using e(6) ls(4) mem by blast
  moreover have "\<forall>r \<in> set (queue_list m). rq_key r \<noteq> rq_key req \<longrightarrow> old (rq_key r) = Some r"
    using e(4) ls(4) by blast
  ultimately show ?thesis using f ls(2,3) e(5) by auto
qed

text \<open>A queue with one row and a ceiling of one, for a concrete run.\<close>

definition sample_row :: id_request where
  "sample_row = \<lparr>rq_issuer = ''iss'', rq_subject = ''a'', rq_emails = [], rq_name = ''A'', rq_first = 1, rq_last = 1, rq_count = 1\<rparr>"

definition queue_sample_ram :: "id_request list doc ram" where
  "queue_sample_ram = ram_start\<lparr>ram_file := Some \<lparr>sf_data = Doc [sample_row], sf_mtime = 5, sf_size = 1\<rparr>, ram_clock := 6\<rparr>"

definition queue_sample :: "id_request list doc ram id_queue" where
  "queue_sample = \<lparr>iq_guard = Some \<lparr>g_path = ''q'', g_mtime = 5, g_size = 1, g_loaded = True\<rparr>,
     iq_m = [(subject_key ''iss'' ''a'', sample_row)], iq_save = None, iq_ttl = 100, iq_max = 1\<rparr>"

lemma queue_sample_load: "queue_load t (Some (Doc [sample_row])) r = (None, iq_m queue_sample)"
  by (simp add: queue_load_def queue_sample_def sample_row_def rq_key_def)

lemma queue_sample_replica: "queue_replica ''q'' 5 queue_sample (ram_file queue_sample_ram)"
proof -
  have "rows_ok (iq_m queue_sample)" by (simp add: rows_ok_def queue_sample_def sample_row_def rq_key_def)
  then have "queue_rep (queue_ttl queue_sample) 5 (Some (Doc [sample_row])) (iq_m queue_sample)"
    using queue_sample_load[of 5 "[]"] by (auto simp: queue_rep_def)
  then show ?thesis by (simp add: queue_replica_def coherent_def queue_sample_ram_def) (simp add: queue_sample_def)
qed

lemma record_always: "fst (record_mutate ttl n req now m) = Inr True"
  by (simp add: record_mutate_def Let_def split: option.splits)

lemma queue_is_bounded_witness:
  "\<exists>q' w' f rs. queue_record ram_disk (sample_row\<lparr>rq_subject := ''b''\<rparr>) 9 queue_sample queue_sample_ram = (None, q', w') \<and>
     ram_file w' = Some f \<and> sf_data f = Doc rs \<and> length rs \<le> 1 \<and> (\<exists>r \<in> set rs. rq_last r = 9)"
proof -
  obtain r q' w' where run: "queue_record ram_disk (sample_row\<lparr>rq_subject := ''b''\<rparr>) 9 queue_sample queue_sample_ram = (r, q', w')"
    by (metis prod.collapse)
  obtain m2 where "record_mutate (queue_ttl queue_sample) (queue_max queue_sample) (sample_row\<lparr>rq_subject := ''b''\<rparr>) 9
      (iq_m queue_sample) = (Inr True, m2)"
    using record_always[of _ _ _ _ "iq_m queue_sample"] by (metis prod.collapse)
  then have none: "r = None"
    using run by (auto simp: queue_record_def queue_commit_def queue_sample_def queue_sample_ram_def ram_defs
        queue_marshal_def sample_row_def split: prod.splits)
  have "queued (queue_ttl queue_sample) 9 (ram_file queue_sample_ram) = map_of (iq_m queue_sample)"
    using queue_sample_load[of 9 "[]"]
    by (simp add: queued_def queue_sample_ram_def live_rows_def queue_sweep_def queue_sample_def rq_stale_def
        queue_ttl_def sample_row_def)
  then have "card (dom (queued (queue_ttl queue_sample) 9 (ram_file queue_sample_ram))) = 1"
    by (simp add: queue_sample_def)
  moreover have "queue_max queue_sample = 1" by (simp add: queue_max_def queue_sample_def)
  ultimately show ?thesis
    using queue_is_bounded[OF ram_disk_laws queue_sample_replica _ run[unfolded none]] run none by auto
qed

end
