(* ===== verification/Session.thy ===== *)
theory Session
  imports Auth Statefile GoTime
begin

text \<open>
  Signed session cookies and the per-user epochs that close them, \<^verbatim>\<open>src/internal/server/session.go\<close>
  and \<^verbatim>\<open>src/internal/server/epoch.go\<close>. HMAC-SHA256 is the parameter \<open>hmac\<close> (key, message); the
  epoch file is on the disk of \<open>Statefile\<close>.
\<close>

section \<open>Base 64 read back\<close>

definition b64_val :: "char \<Rightarrow> nat option" where
  "b64_val c =
     (let n = (of_char c :: nat)
      in if 65 \<le> n \<and> n \<le> 90 then Some (n - 65)
         else if 97 \<le> n \<and> n \<le> 122 then Some (n - 71)
         else if 48 \<le> n \<and> n \<le> 57 then Some (n + 4)
         else if n = 45 then Some 62 else if n = 95 then Some 63 else None)"

fun b64_quanta :: "nat list \<Rightarrow> nat list option" where
  "b64_quanta [] = Some []"
| "b64_quanta [a] = None"
| "b64_quanta [a, b] = Some [a * 4 + b div 16]"
| "b64_quanta [a, b, c] = Some [a * 4 + b div 16, b mod 16 * 16 + c div 4]"
| "b64_quanta (a # b # c # d # r) =
     map_option (\<lambda>t. (a * 4 + b div 16) # (b mod 16 * 16 + c div 4) # (c mod 4 * 64 + d) # t) (b64_quanta r)"

text \<open>
  \<^verbatim>\<open>base64.RawURLEncoding\<close> on strings. The decoder skips line ends and does not look at the
  spare bits of the last character.
\<close>

definition b64_encode :: "string \<Rightarrow> string" where
  "b64_encode s = base64url_nats (map of_char s)"

definition b64_decode :: "string \<Rightarrow> string option" where
  "b64_decode s =
     (case those (map b64_val (filter (\<lambda>c. c \<noteq> byte 10 \<and> c \<noteq> byte 13) s)) of
        None \<Rightarrow> None
      | Some ns \<Rightarrow> map_option (map char_of) (b64_quanta ns))"

section \<open>The epoch file\<close>

text \<open>
  The bytes of the file: a map, or bytes \<^verbatim>\<open>json.Unmarshal\<close> reports an error on, with what it
  filled in before it did.
\<close>

datatype epoch_doc = EpochDoc "string \<rightharpoonup> int" | EpochBad "string \<rightharpoonup> int"

record epoch_store =
  ep_path :: string
  ep_m :: "string \<rightharpoonup> int"
  ep_mtime :: time

type_synonym 'w epoch_disk = "(epoch_doc, 'w) sf_disk"

definition new_epoch_store :: "string \<Rightarrow> epoch_store" where
  "new_epoch_store path = \<lparr>ep_path = path, ep_m = Map.empty, ep_mtime = 0\<rparr>"

definition unix_epoch :: time where "unix_epoch = 62135596800 * second"

definition unix_milli :: "time \<Rightarrow> int" where
  "unix_milli t = (t - unix_epoch) div 1000000"

definition epoch_not_before :: "'w epoch_disk \<Rightarrow> string \<Rightarrow> epoch_store \<Rightarrow> 'w \<Rightarrow> int \<times> epoch_store \<times> 'w" where
  "epoch_not_before D user e w =
     (case (case sd_stat D (ep_path e) w of
              (StatOk mtime _, w) \<Rightarrow>
                (if mtime \<noteq> ep_mtime e then
                   (case sd_read D (ep_path e) w of
                      (Inr (EpochDoc m), w) \<Rightarrow> (e\<lparr>ep_m := m, ep_mtime := mtime\<rparr>, w)
                    | (_, w) \<Rightarrow> (e, w))
                 else (e, w))
            | (_, w) \<Rightarrow> (e, w)) of
        (e, w) \<Rightarrow> (case ep_m e user of None \<Rightarrow> 0 | Some t \<Rightarrow> t, e, w))"

definition epoch_bump :: "'w epoch_disk \<Rightarrow> string \<Rightarrow> time \<Rightarrow> epoch_store \<Rightarrow> 'w \<Rightarrow> string option \<times> epoch_store \<times> 'w" where
  "epoch_bump D user at_time e w =
     (case sd_open_lock D (ep_path e @ ''.lock'') w of
        (Inl err, w) \<Rightarrow> (Some err, e, w)
      | (Inr lock, w) \<Rightarrow>
          (case sd_flock D lock True w of
             (Some err, w) \<Rightarrow> (Some err, e, sd_close_lock D lock w)
           | (None, w) \<Rightarrow>
               (case sd_read D (ep_path e) w of
                  (data, w) \<Rightarrow>
                    (let m = (case data of Inl _ \<Rightarrow> Map.empty | Inr (EpochDoc m) \<Rightarrow> m | Inr (EpochBad m) \<Rightarrow> m);
                         m = m(user \<mapsto> unix_milli at_time);
                         tmp = ep_path e @ ''.tmp''
                     in case sd_write D tmp (EpochDoc m) w of
                          (Some err, w) \<Rightarrow> (Some err, e, sf_unlock D lock w)
                        | (None, w) \<Rightarrow>
                            (case sd_rename D tmp (ep_path e) w of
                               (Some err, w) \<Rightarrow> (Some err, e, sf_unlock D lock w)
                             | (None, w) \<Rightarrow>
                                 (case sd_stat D (ep_path e) w of
                                    (st, w) \<Rightarrow>
                                      (None,
                                       e\<lparr>ep_m := m, ep_mtime := (case st of StatOk mtime _ \<Rightarrow> mtime | _ \<Rightarrow> ep_mtime e)\<rparr>,
                                       sf_unlock D lock w)))))))"

text \<open>The signing key from its file: trimmed, and at least sixteen bytes.\<close>

datatype key_error = KeyRead string | KeyShort nat

definition read_cookie_key :: "(string \<Rightarrow> 'w \<Rightarrow> (string + string) \<times> 'w) \<Rightarrow> string \<Rightarrow> 'w \<Rightarrow> (key_error + string option) \<times> 'w" where
  "read_cookie_key read path w =
     (if path = [] then (Inr None, w)
      else
        (case read path w of
           (Inl e, w) \<Rightarrow> (Inl (KeyRead e), w)
         | (Inr b, w) \<Rightarrow>
             (let b = trim_space b
              in if length b < 16 then (Inl (KeyShort (length b)), w) else (Inr (Some b), w))))"

section \<open>Sessions\<close>

record sessions =
  se_ttl :: duration
  se_key :: string
  se_epochs :: "epoch_store option"

definition new_sessions :: "duration \<Rightarrow> string \<Rightarrow> epoch_store option \<Rightarrow> string \<Rightarrow> sessions" where
  "new_sessions ttl key epochs random_key =
     \<lparr>se_ttl = (if ttl \<le> 0 then 12 * hour else ttl), se_key = (if key = [] then random_key else key), se_epochs = epochs\<rparr>"

definition se_sign :: "(string \<Rightarrow> string \<Rightarrow> string) \<Rightarrow> sessions \<Rightarrow> string \<Rightarrow> string" where
  "se_sign hmac s msg = b64_encode (hmac (se_key s) msg)"

definition bar :: char where "bar = CHR ''|''"

definition session_msg :: "string \<Rightarrow> time \<Rightarrow> duration \<Rightarrow> string" where
  "session_msg user now ttl = user @ [bar] @ format_int (unix_milli now) @ [bar] @ format_int (unix_milli (now + ttl))"

definition session_create :: "(string \<Rightarrow> string \<Rightarrow> string) \<Rightarrow> time \<Rightarrow> string \<Rightarrow> sessions \<Rightarrow> string" where
  "session_create hmac now user s =
     (let msg = session_msg user now (se_ttl s) in b64_encode msg @ ''.'' @ se_sign hmac s msg)"

text \<open>The signature check and the fields, before anything is compared with the clock.\<close>

definition session_verify :: "(string \<Rightarrow> string \<Rightarrow> string) \<Rightarrow> string \<Rightarrow> sessions \<Rightarrow> (string \<times> int \<times> int) option" where
  "session_verify hmac token s =
     (case cut token CHR ''.'' of
        (enc, got, ok) \<Rightarrow>
          (if \<not> ok then None
           else
             (case b64_decode enc of
                None \<Rightarrow> None
              | Some msg \<Rightarrow>
                  (if got \<noteq> se_sign hmac s msg then None
                   else
                     (case cut msg bar of
                        (user, rest, ok) \<Rightarrow>
                          (if \<not> ok then None
                           else
                             (case cut rest bar of
                                (iat, exp, ok) \<Rightarrow>
                                  (if \<not> ok then None
                                   else
                                     (case (parse_int iat, parse_int exp) of
                                        (Some iat, Some exp) \<Rightarrow> Some (user, iat, exp)
                                      | _ \<Rightarrow> None)))))))))"

definition session_lookup ::
  "(string \<Rightarrow> string \<Rightarrow> string) \<Rightarrow> 'w epoch_disk \<Rightarrow> time \<Rightarrow> string \<Rightarrow> sessions \<Rightarrow> 'w \<Rightarrow> string option \<times> sessions \<times> 'w" where
  "session_lookup hmac D now token s w =
     (case session_verify hmac token s of
        None \<Rightarrow> (None, s, w)
      | Some (user, iat, exp) \<Rightarrow>
          (if unix_milli now \<ge> exp then (None, s, w)
           else
             (case se_epochs s of
                None \<Rightarrow> (Some user, s, w)
              | Some e \<Rightarrow>
                  (case epoch_not_before D user e w of
                     (nb, e, w) \<Rightarrow> (if iat < nb then None else Some user, s\<lparr>se_epochs := Some e\<rparr>, w)))))"

definition session_delete_others :: "'w epoch_disk \<Rightarrow> time \<Rightarrow> string \<Rightarrow> sessions \<Rightarrow> 'w \<Rightarrow> int \<times> sessions \<times> 'w" where
  "session_delete_others D now user s w =
     (case se_epochs s of
        None \<Rightarrow> (0, s, w)
      | Some e \<Rightarrow>
          (case epoch_bump D user now e w of
             (Some _, e, w) \<Rightarrow> (0, s\<lparr>se_epochs := Some e\<rparr>, w)
           | (None, e, w) \<Rightarrow> (1, s\<lparr>se_epochs := Some e\<rparr>, w)))"

section \<open>Base 64 round trip\<close>

lemma b64_val_char: "b64_val (b64_char n) = Some (n mod 64)"
proof -
  have "list_all (\<lambda>i. b64_val (base64_alphabet ! i) = Some i) [0..<64]"
    by (simp add: upt_rec base64_alphabet_def b64_val_def)
  then show ?thesis by (simp add: list_all_iff b64_char_def)
qed

lemma b64_vals: "those (map b64_val (base64url_nats ns)) \<noteq> None"
  by (induction ns rule: base64url_nats.induct) (auto simp: b64_val_char)

lemma div_mod_digits: "x < k \<Longrightarrow> (y * k + x) div k = y" "x < k \<Longrightarrow> (y * k + x) mod k = x" for k :: nat
  by simp_all

lemma b64_split:
  assumes "a < 256" and "b < 256" and "c < (256 :: nat)"
  shows "a div 4 mod 64 * 4 + (a mod 4 * 16 + b div 16) mod 64 div 16 = a"
    "(a mod 4 * 16 + b div 16) mod 64 mod 16 * 16 + (b mod 16 * 4 + c div 64) mod 64 div 4 = b"
    "(b mod 16 * 4 + c div 64) mod 64 mod 4 * 64 + c mod 64 = c"
proof -
  have d: "a div 4 < 64" "b div 16 < 16" "c div 64 < 4" using assms by (simp_all add: less_mult_imp_div_less)
  have m: "a mod 4 \<le> 3" "b mod 16 \<le> 15" by (simp_all add: less_Suc_eq_le[symmetric])
  have "a mod 4 * 16 + b div 16 < 64" "b mod 16 * 4 + c div 64 < 64" using d m by simp_all
  then have e: "(a mod 4 * 16 + b div 16) mod 64 = a mod 4 * 16 + b div 16"
    "(b mod 16 * 4 + c div 64) mod 64 = b mod 16 * 4 + c div 64" "a div 4 mod 64 = a div 4"
    using d by simp_all
  show "a div 4 mod 64 * 4 + (a mod 4 * 16 + b div 16) mod 64 div 16 = a"
    unfolding e using div_mod_digits(1)[OF d(2)] by simp
  show "(a mod 4 * 16 + b div 16) mod 64 mod 16 * 16 + (b mod 16 * 4 + c div 64) mod 64 div 4 = b"
    unfolding e using div_mod_digits(2)[OF d(2)] div_mod_digits(1)[OF d(3)] by simp
  show "(b mod 16 * 4 + c div 64) mod 64 mod 4 * 64 + c mod 64 = c"
    unfolding e using div_mod_digits(2)[OF d(3)] by simp
qed

lemma b64_quanta_encode:
  "\<forall>n \<in> set ns. n < 256 \<Longrightarrow> those (map b64_val (base64url_nats ns)) = Some vs \<Longrightarrow> b64_quanta vs = Some ns"
proof (induction ns arbitrary: vs rule: base64url_nats.induct)
  case 1
  then show ?case by simp
next
  case (2 a)
  then show ?case by (auto simp: b64_val_char)
next
  case (3 a b)
  then show ?case by (auto simp: b64_val_char)
next
  case (4 a b c r)
  then obtain ws where ws: "those (map b64_val (base64url_nats r)) = Some ws" "b64_quanta ws = Some r"
    using b64_vals[of r] by auto
  have n: "a < 256" "b < 256" "c < 256" using 4 by auto
  have vs: "vs = [a div 4 mod 64, (a mod 4 * 16 + b div 16) mod 64, (b mod 16 * 4 + c div 64) mod 64, c mod 64] @ ws"
    using 4(3) ws(1) by (auto simp: b64_val_char)
  have "a div 4 mod 64 * 4 + (a mod 4 * 16 + b div 16) mod 64 div 16 = a"
    "(a mod 4 * 16 + b div 16) mod 64 mod 16 * 16 + (b mod 16 * 4 + c div 64) mod 64 div 4 = b"
    "(b mod 16 * 4 + c div 64) mod 64 mod 4 * 64 + c mod 64 = c"
    using b64_split[of a b c] n by simp_all
  then show ?case using ws(2) by (simp add: vs)
qed

lemma b64_char_safe: "b64_char n \<noteq> byte 10 \<and> b64_char n \<noteq> byte 13 \<and> b64_char n \<noteq> CHR ''.''"
proof -
  have "b64_val (byte 10) = None" "b64_val (byte 13) = None" "b64_val CHR ''.'' = None"
    by (simp_all add: b64_val_def byte_def)
  then show ?thesis using b64_val_char[of n] by (metis option.distinct(1))
qed

lemma b64_encode_chars: "c \<in> set (base64url_nats ns) \<Longrightarrow> \<exists>n. c = b64_char n"
  by (induction ns rule: base64url_nats.induct) auto

lemma b64_encode_safe: "CHR ''.'' \<notin> set (b64_encode s)"
  using b64_encode_chars b64_char_safe by (fastforce simp: b64_encode_def)

lemma b64_roundtrip: "b64_decode (b64_encode s) = Some s"
proof -
  let ?ns = "map of_char s :: nat list"
  have f: "filter (\<lambda>c. c \<noteq> byte 10 \<and> c \<noteq> byte 13) (b64_encode s) = b64_encode s"
    using b64_encode_chars b64_char_safe by (fastforce simp: b64_encode_def filter_id_conv)
  obtain vs where vs: "those (map b64_val (base64url_nats ?ns)) = Some vs" using b64_vals[of ?ns] by auto
  have "\<forall>n \<in> set ?ns. n < 256" using of_char_256 by auto
  from b64_quanta_encode[OF this vs] have "b64_quanta vs = Some ?ns" .
  then show ?thesis unfolding b64_decode_def f using vs by (simp add: b64_encode_def o_def)
qed

section \<open>Cookies\<close>

definition in_range :: "time \<Rightarrow> bool" where
  "in_range t \<longleftrightarrow> - (2 ^ 63) \<le> unix_milli t \<and> unix_milli t < 2 ^ 63"

lemma session_msg_parts:
  assumes "bar \<notin> set user"
  shows "cut (session_msg user now ttl) bar =
      (user, format_int (unix_milli now) @ [bar] @ format_int (unix_milli (now + ttl)), True)"
    "cut (format_int (unix_milli now) @ [bar] @ format_int (unix_milli (now + ttl))) bar =
      (format_int (unix_milli now), format_int (unix_milli (now + ttl)), True)"
  using assms by (simp_all add: session_msg_def bar_def)

lemma name_no_bar: "valid_name user \<Longrightarrow> bar \<notin> set user"
proof -
  assume "valid_name user"
  moreover have "\<not> name_char bar" by (simp add: name_char_def lower_alpha_def digit_def bar_def)
  ultimately show ?thesis using valid_name_chars by (auto simp: list_all_iff)
qed

lemma verify_created:
  assumes "valid_name user" and "in_range t" and "in_range (t + se_ttl s)"
    and "se_key s' = se_key s"
  shows "session_verify hmac (session_create hmac t user s) s' = Some (user, unix_milli t, unix_milli (t + se_ttl s))"
proof -
  have "CHR ''.'' \<notin> set (b64_encode (session_msg user t (se_ttl s)))" by (rule b64_encode_safe)
  then have "cut (session_create hmac t user s) CHR ''.'' =
      (b64_encode (session_msg user t (se_ttl s)), se_sign hmac s (session_msg user t (se_ttl s)), True)"
    by (simp add: session_create_def Let_def)
  then show ?thesis
    using assms session_msg_parts[OF name_no_bar[OF assms(1)], of t "se_ttl s"]
    by (simp add: session_verify_def b64_roundtrip se_sign_def parse_int_format in_range_def)
qed

lemma session_msg_inj:
  assumes "valid_name user" and "valid_name user'" and "in_range t" "in_range (t + ttl)" "in_range t'" "in_range (t' + ttl')"
    and "session_msg user t ttl = session_msg user' t' ttl'"
  shows "user = user' \<and> unix_milli t = unix_milli t' \<and> unix_milli (t + ttl) = unix_milli (t' + ttl')"
proof -
  note p = session_msg_parts[OF name_no_bar[OF assms(1)], of t ttl]
  note p' = session_msg_parts[OF name_no_bar[OF assms(2)], of t' ttl']
  have "user = user'" "format_int (unix_milli t) = format_int (unix_milli t')"
    "format_int (unix_milli (t + ttl)) = format_int (unix_milli (t' + ttl'))"
    using p p' assms(7) by auto
  then show ?thesis using assms(3-6) parse_int_format unfolding in_range_def by (metis option.inject)
qed

text \<open>C17: A cookie names whoever it was issued to. If the signature in a presented token is only ever
  that of a message the server signed, then the user a lookup answers was issued that cookie, it
  has not expired, and it was issued no earlier than the user's epoch.\<close>

theorem session_sound:
  assumes "\<And>msg. snd (snd (cut token CHR ''.'')) \<Longrightarrow> fst (snd (cut token CHR ''.'')) = se_sign hmac s msg \<Longrightarrow>
      \<exists>(user, t, ttl) \<in> issued. msg = session_msg user t ttl"
    and "\<forall>(user, t, ttl) \<in> issued. valid_name user \<and> in_range t \<and> in_range (t + ttl)"
    and "session_lookup hmac D now token s w = (Some user, s', w')"
  shows "\<exists>t ttl. (user, t, ttl) \<in> issued \<and> unix_milli now < unix_milli (t + ttl) \<and>
    (\<forall>e. se_epochs s = Some e \<longrightarrow> fst (epoch_not_before D user e w) \<le> unix_milli t)"
proof -
  obtain iat exp where v: "session_verify hmac token s = Some (user, iat, exp)" "unix_milli now < exp"
    "\<forall>e. se_epochs s = Some e \<longrightarrow> fst (epoch_not_before D user e w) \<le> iat"
    using assms(3) by (auto simp: session_lookup_def split: option.splits if_splits prod.splits)
  obtain enc got msg where c: "cut token CHR ''.'' = (enc, got, True)" "b64_decode enc = Some msg" "got = se_sign hmac s msg"
    using v(1) by (auto simp: session_verify_def split: option.splits if_splits prod.splits)
  obtain u t ttl where i: "(u, t, ttl) \<in> issued" "msg = session_msg u t ttl" using assms(1)[of msg] c by auto
  then have n: "valid_name u" "in_range t" "in_range (t + ttl)" using assms(2) by auto
  have "(user, iat, exp) = (u, unix_milli t, unix_milli (t + ttl))"
    using v(1) c i(2) n session_msg_parts[OF name_no_bar[OF n(1)], of t ttl]
    by (simp add: session_verify_def parse_int_format in_range_def)
  then show ?thesis using i(1) v(2,3) by auto
qed

section \<open>Closing the other sessions\<close>

text \<open>Reading the file never fails while it exists.\<close>

definition reads_ok :: "string \<Rightarrow> ('w \<Rightarrow> epoch_doc stored option) \<Rightarrow> 'w epoch_disk \<Rightarrow> bool" where
  "reads_ok p file D \<longleftrightarrow> (\<forall>w e. fst (sd_read D p w) = Inl e \<longrightarrow> file w = None)"

fun committed_epochs :: "epoch_doc stored option \<Rightarrow> string \<rightharpoonup> int" where
  "committed_epochs None = Map.empty"
| "committed_epochs (Some f) = (case sf_data f of EpochDoc m \<Rightarrow> m | EpochBad m \<Rightarrow> m)"

lemma bump_effect:
  assumes laws: "disk_laws (ep_path e) file temp D" and rd: "reads_ok (ep_path e) file D"
    and b: "epoch_bump D user t e w = (None, e', w')"
  shows "\<exists>f. file w' = Some f \<and> sf_data f = EpochDoc ((committed_epochs (file w))(user \<mapsto> unix_milli t)) \<and>
    ep_m e' = (committed_epochs (file w))(user \<mapsto> unix_milli t) \<and> ep_path e' = ep_path e"
proof -
  note same = disk_same[OF laws]
  obtain lk w1 where l: "sd_open_lock D (ep_path e @ ''.lock'') w = (Inr lk, w1)"
    using b by (auto simp: epoch_bump_def split: prod.splits sum.splits)
  obtain w2 where fl: "sd_flock D lk True w1 = (None, w2)"
    using b l by (auto simp: epoch_bump_def split: prod.splits sum.splits option.splits)
  obtain data w3 where r: "sd_read D (ep_path e) w2 = (data, w3)" by (metis prod.collapse)
  let ?m = "(case data of Inl _ \<Rightarrow> Map.empty | Inr (EpochDoc m) \<Rightarrow> m | Inr (EpochBad m) \<Rightarrow> m)"
  let ?n = "?m(user \<mapsto> unix_milli t)"
  have fw: "file w2 = file w" using same(2)[OF l] same(3)[OF fl] by simp
  have f3: "file w3 = file w" using disk_read(1)[OF laws r] fw by simp
  have m: "?m = committed_epochs (file w)"
  proof (cases data)
    case (Inl x)
    then have "file w2 = None" using rd r by (auto simp: reads_ok_def)
    then show ?thesis using Inl fw by simp
  next
    case (Inr d)
    then obtain f where "file w2 = Some f" "sf_data f = d" using disk_read(2)[OF laws r] by blast
    then have "file w = Some f" "sf_data f = d" using fw by simp_all
    then show ?thesis using Inr by (cases d) simp_all
  qed
  obtain w4 where w4: "sd_write D (ep_path e @ ''.tmp'') (EpochDoc ?n) w3 = (None, w4)"
    using b l fl r by (auto simp: epoch_bump_def Let_def split: prod.splits option.splits)
  obtain w5 where w5: "sd_rename D (ep_path e @ ''.tmp'') (ep_path e) w4 = (None, w5)"
    using b l fl r w4 by (auto simp: epoch_bump_def Let_def split: prod.splits option.splits)
  obtain st w6 where st: "sd_stat D (ep_path e) w5 = (st, w6)" by (metis prod.collapse)
  obtain f where f: "file w5 = Some f" "sf_data f = EpochDoc ?n"
    using disk_rename[OF laws w5] disk_write[OF laws w4] by auto
  have "(None, e\<lparr>ep_m := ?n, ep_mtime := (case st of StatOk mtime _ \<Rightarrow> mtime | _ \<Rightarrow> ep_mtime e)\<rparr>, sf_unlock D lk w6) =
      (None :: string option, e', w')"
    using b l fl r w4 w5 st by (simp add: epoch_bump_def Let_def)
  then have "w' = sf_unlock D lk w6" "ep_m e' = ?n" "ep_path e' = ep_path e" by auto
  then show ?thesis using f m sf_unlock_file[OF laws, of lk w6] disk_stat(1)[OF laws st] by auto
qed

text \<open>A replica that can look at the file.\<close>

definition epoch_visible :: "'w epoch_disk \<Rightarrow> string \<Rightarrow> 'w \<Rightarrow> bool" where
  "epoch_visible D p w \<longleftrightarrow>
     (\<exists>mt n w1 d. sd_stat D p w = (StatOk mt n, w1) \<and> fst (sd_read D p w1) = Inr d)"

lemma not_before_current:
  assumes laws: "disk_laws (ep_path e) file temp D" and f: "file w = Some f" "sf_data f = EpochDoc m"
    and new: "sf_mtime f \<noteq> ep_mtime e" and vis: "epoch_visible D (ep_path e) w"
  shows "fst (epoch_not_before D user e w) = (case m user of None \<Rightarrow> 0 | Some t \<Rightarrow> t)"
proof -
  obtain mt n w1 d w2 where s: "sd_stat D (ep_path e) w = (StatOk mt n, w1)" "sd_read D (ep_path e) w1 = (Inr d, w2)"
    using vis by (auto simp: epoch_visible_def) (metis prod.collapse)
  have "mt = sf_mtime f" using disk_stat(3)[OF laws s(1) refl] f by auto
  moreover have "d = EpochDoc m" using disk_read(2)[OF laws s(2) refl] disk_stat(1)[OF laws s(1)] f by auto
  ultimately show ?thesis using s new by (simp add: epoch_not_before_def)
qed


section \<open>Concrete runs\<close>

definition sample_sessions :: "epoch_store option \<Rightarrow> sessions" where
  "sample_sessions e = \<lparr>se_ttl = hour, se_key = ''key'', se_epochs = e\<rparr>"

definition sample_mac :: "string \<Rightarrow> string \<Rightarrow> string" where
  "sample_mac k m = k @ m"

lemma sample_range: "in_range (unix_epoch + hour)" "in_range (unix_epoch + hour + hour)"
  by (simp_all add: in_range_def unix_milli_def hour_def minute_def second_def)

lemma valid_bob: "valid_name ''bob''"
  by (simp add: valid_name_def name_char_def lower_alpha_def)

lemma b64_encode_inj: "b64_encode x = b64_encode y \<Longrightarrow> x = y"
  using b64_roundtrip by (metis option.inject)

lemma session_sound_witness:
  "\<exists>t ttl. (''bob'', t, ttl) \<in> {(''bob'', unix_epoch + hour, hour)} \<and> unix_milli (unix_epoch + hour) < unix_milli (t + ttl)"
proof -
  let ?s = "sample_sessions None" and ?t = "unix_epoch + hour"
  let ?token = "session_create sample_mac ?t ''bob'' ?s"
  have c: "cut ?token CHR ''.'' = (b64_encode (session_msg ''bob'' ?t hour), se_sign sample_mac ?s (session_msg ''bob'' ?t hour), True)"
    using b64_encode_safe by (simp add: session_create_def Let_def sample_sessions_def)
  have "session_verify sample_mac ?token ?s = Some (''bob'', unix_milli ?t, unix_milli (?t + hour))"
    using verify_created[OF valid_bob, of ?t ?s ?s sample_mac] sample_range by (simp add: sample_sessions_def)
  then have "session_lookup sample_mac ram_disk ?t ?token ?s ram_start = (Some ''bob'', ?s, ram_start)"
    by (simp add: session_lookup_def sample_sessions_def unix_milli_def hour_def minute_def second_def)
  moreover have "\<exists>(u, t, ttl) \<in> {(''bob'', ?t, hour)}. msg = session_msg u t ttl"
    if "fst (snd (cut ?token CHR ''.'')) = se_sign sample_mac ?s msg" for msg
    using that c b64_encode_inj[of "sample_mac (se_key ?s) (session_msg ''bob'' ?t hour)" "sample_mac (se_key ?s) msg"]
    by (simp add: se_sign_def sample_mac_def)
  ultimately show ?thesis
    using session_sound[of ?token sample_mac ?s "{(''bob'', ?t, hour)}" ram_disk ?t ram_start "''bob''" ?s ram_start]
      valid_bob sample_range by fastforce
qed


end
