(* ===== verification/Provision.thy ===== *)
theory Provision
  imports Auth "HOL-Library.AList"
begin

text \<open>
  Auto-provisioning, \<^verbatim>\<open>src/internal/provision/config.go\<close>, \<^verbatim>\<open>src/internal/provision/file.go\<close> and
  \<^verbatim>\<open>src/internal/provision/provision.go\<close>: the rules and who they match, the watched
  configuration, the reservation that bounds calls, one call to an endpoint and the wait for the
  account to appear. YAML, URLs, SHA-256 and HTTP are parameters.
\<close>

section \<open>Rules\<close>

text \<open>A claim of the token as \<^verbatim>\<open>encoding/json\<close> gives it; a number is what \<^verbatim>\<open>%v\<close> prints for it.\<close>

datatype claim = ClString string | ClList "claim list" | ClStrings "string list" | ClNumber string | ClBool bool | ClOther

record rule =
  ru_name :: string
  ru_domains :: "string list"
  ru_claims :: "(string \<times> string) list"
  ru_url :: string
  ru_bearer_file :: string

record prov_config =
  pc_timeout :: duration
  pc_wait :: duration
  pc_rules :: "rule list"

definition default_timeout :: duration where "default_timeout = 10 * second"
definition default_wait :: duration where "default_wait = 30 * second"

record purl =
  pu_scheme :: string
  pu_hostname :: string

definition is_loopback :: "purl \<Rightarrow> bool" where
  "is_loopback u \<longleftrightarrow> pu_hostname u = ''localhost'' \<or> pu_hostname u = ''127.0.0.1'' \<or> pu_hostname u = ''::1''"

datatype rule_error = NoUrl nat | BadUrl nat string | PlainUrl nat string

definition rule_check :: "(string \<Rightarrow> string + purl) \<Rightarrow> nat \<Rightarrow> rule \<Rightarrow> rule_error option" where
  "rule_check parse_url i r =
     (if ru_url r = [] then Some (NoUrl i)
      else
        (case parse_url (ru_url r) of
           Inl e \<Rightarrow> Some (BadUrl i e)
         | Inr u \<Rightarrow>
             if pu_scheme u \<noteq> ''https'' \<and> \<not> is_loopback u then Some (PlainUrl i (ru_url r)) else None))"

definition norm_domain :: "string \<Rightarrow> string" where
  "norm_domain d = to_lower (trim_space (trim_prefix d ''@''))"

definition config_validate :: "(string \<Rightarrow> string + purl) \<Rightarrow> prov_config \<Rightarrow> rule_error list \<times> prov_config" where
  "config_validate parse_url c =
     (let rs = pc_rules c
      in (List.map_filter (\<lambda>(i, r). rule_check parse_url i r) (enumerate 0 rs),
          c\<lparr>pc_rules := map (\<lambda>r. r\<lparr>ru_domains := map norm_domain (ru_domains r)\<rparr>) rs\<rparr>))"

datatype config_error = CeParse string | CeRules "rule_error list"

definition config_parse ::
  "('b \<Rightarrow> string + prov_config) \<Rightarrow> (string \<Rightarrow> string + purl) \<Rightarrow> 'b \<Rightarrow> config_error + prov_config" where
  "config_parse yaml parse_url data =
     (case yaml data of
        Inl e \<Rightarrow> Inl (CeParse e)
      | Inr c \<Rightarrow>
          (case config_validate parse_url c of
             (errs, c) \<Rightarrow>
               (if errs \<noteq> [] then Inl (CeRules errs)
                else
                  (let c = (if pc_timeout c \<le> 0 then c\<lparr>pc_timeout := default_timeout\<rparr> else c);
                       c = (if pc_wait c \<le> 0 then c\<lparr>pc_wait := default_wait\<rparr> else c)
                   in Inr c))))"

fun claim_has :: "claim option \<Rightarrow> string \<Rightarrow> bool" where
  "claim_has (Some (ClString s)) want = (s = want)"
| "claim_has (Some (ClList cs)) want = list_ex (\<lambda>c. c = ClString want) cs"
| "claim_has (Some (ClStrings ss)) want = (want \<in> set ss)"
| "claim_has (Some (ClNumber s)) want = (trim_suffix s ''.0'' = want)"
| "claim_has (Some (ClBool b)) want = ((if b then ''true'' else ''false'') = want)"
| "claim_has _ want = False"

definition rule_matches :: "string list \<Rightarrow> (string \<rightharpoonup> claim) \<Rightarrow> rule \<Rightarrow> bool" where
  "rule_matches emails claims r =
     (if ru_domains r \<noteq> [] \<and> \<not> list_ex (\<lambda>e. fst (snd (cut (to_lower e) CHR ''@'')) \<in> set (ru_domains r)) emails then False
      else list_all (\<lambda>(name, want). claim_has (claims name) want) (ru_claims r))"

definition config_rule :: "string list \<Rightarrow> (string \<rightharpoonup> claim) \<Rightarrow> prov_config option \<Rightarrow> rule option" where
  "config_rule emails claims c = (case c of None \<Rightarrow> None | Some c \<Rightarrow> find (rule_matches emails claims) (pc_rules c))"

section \<open>The watched configuration\<close>

record watch_status =
  ws_path :: string
  ws_loaded_at :: time
  ws_digest :: string
  ws_timeout :: duration
  ws_wait :: duration
  ws_rules :: "rule list"
  ws_error :: "config_error option"
  ws_error_at :: time

record watcher =
  wa_path :: string
  wa_cfg :: prov_config
  wa_status :: watch_status
  wa_digest :: string

definition watch_accept :: "('b \<Rightarrow> string) \<Rightarrow> time \<Rightarrow> prov_config \<Rightarrow> 'b \<Rightarrow> watcher \<Rightarrow> watcher" where
  "watch_accept digest now cfg data wa =
     wa\<lparr>wa_cfg := cfg, wa_digest := digest data,
        wa_status := \<lparr>ws_path = wa_path wa, ws_loaded_at = now, ws_digest = digest data, ws_timeout = pc_timeout cfg,
          ws_wait = pc_wait cfg, ws_rules = pc_rules cfg, ws_error = None, ws_error_at = 0\<rparr>\<rparr>"

definition watch_fail :: "time \<Rightarrow> config_error \<Rightarrow> watcher \<Rightarrow> watcher" where
  "watch_fail now e wa = wa\<lparr>wa_status := (wa_status wa)\<lparr>ws_error := Some e, ws_error_at := now\<rparr>\<rparr>"

text \<open>One poll: \<open>data\<close> is what reading the file gave.\<close>

definition watch_reload ::
  "('b \<Rightarrow> string) \<Rightarrow> ('b \<Rightarrow> string + prov_config) \<Rightarrow> (string \<Rightarrow> string + purl) \<Rightarrow> time \<Rightarrow> (string + 'b) \<Rightarrow> watcher \<Rightarrow>
   config_error option \<times> watcher" where
  "watch_reload digest yaml parse_url now data wa =
     (case data of
        Inl e \<Rightarrow> (Some (CeParse e), watch_fail now (CeParse e) wa)
      | Inr data \<Rightarrow>
          (if digest data = wa_digest wa then (None, wa)
           else
             (case config_parse yaml parse_url data of
                Inl e \<Rightarrow> (Some e, watch_fail now e wa)
              | Inr cfg \<Rightarrow> (None, watch_accept digest now cfg data wa))))"

section \<open>Reservations\<close>

definition refire_after :: duration where "refire_after = 10 * minute"
definition max_calls_per_hour :: nat where "max_calls_per_hour = 60"

record provisioner =
  pr_fired :: "(string \<times> time) list"
  pr_calls :: "time list"

datatype reserve_error = Attempted duration | TooMany nat

text \<open>The part of \<^verbatim>\<open>reserve\<close> after the check for this identity.\<close>

definition reserve_call :: "time \<Rightarrow> string \<Rightarrow> provisioner \<Rightarrow> reserve_error option \<times> provisioner" where
  "reserve_call now key p =
     (let kept = filter (\<lambda>t. t > now - hour) (pr_calls p); p = p\<lparr>pr_calls := kept\<rparr>
      in if length kept \<ge> max_calls_per_hour then (Some (TooMany (length kept)), p)
         else
           (let p = p\<lparr>pr_fired := AList.update key now (pr_fired p), pr_calls := kept @ [now]\<rparr>
            in (None,
                if length (pr_fired p) > 4096
                then p\<lparr>pr_fired := filter (\<lambda>(k, t). \<not> now - t \<ge> refire_after) (pr_fired p)\<rparr> else p)))"

definition prov_reserve :: "time \<Rightarrow> string \<Rightarrow> provisioner \<Rightarrow> reserve_error option \<times> provisioner" where
  "prov_reserve now key p =
     (case map_of (pr_fired p) key of
        Some prev \<Rightarrow>
          (if now - prev < refire_after then (Some (Attempted (now - prev)), p) else reserve_call now key p)
      | None \<Rightarrow> reserve_call now key p)"

section \<open>One call\<close>

datatype prov_kind = Created | Existing | Accepted | Denied | Unavailable | NoRule

datatype prov_error =
    PeReserve reserve_error | PeRequest string | PeSecret string | PeHttp string | PeAccount nat string | PeStatus nat

record outcome =
  ou_kind :: prov_kind
  ou_account :: string
  ou_rule :: string
  ou_err :: "prov_error option"

definition outcome_of :: "prov_kind \<Rightarrow> string \<Rightarrow> outcome" where
  "outcome_of k a = \<lparr>ou_kind = k, ou_account = a, ou_rule = [], ou_err = None\<rparr>"

record prov_request =
  pq_issuer :: string
  pq_subject :: string
  pq_emails :: "string list"
  pq_name :: string

text \<open>
  The calls of \<^verbatim>\<open>call\<close> and \<^verbatim>\<open>Await\<close>: the bearer token's file, the POST (its answer is the status
  and the account field of the body, empty when there is none), the clock, and one sleep, which
  says whether the request is still wanted.
\<close>

record 'w prov_env =
  pv_secret :: "string \<Rightarrow> 'w \<Rightarrow> (string + string) \<times> 'w"
  pv_post :: "duration \<Rightarrow> string \<Rightarrow> string option \<Rightarrow> prov_request \<Rightarrow> 'w \<Rightarrow> (prov_error + nat \<times> string) \<times> 'w"
  pv_now :: "'w \<Rightarrow> time"
  pv_sleep :: "'w \<Rightarrow> bool \<times> 'w"
  pv_exists :: "string \<Rightarrow> 'w \<Rightarrow> bool \<times> 'w"
  pv_may :: "string \<Rightarrow> 'w \<Rightarrow> (auth_error + verdict) \<times> 'w"

definition prov_answer :: "nat \<Rightarrow> string \<Rightarrow> prov_error + outcome" where
  "prov_answer status account =
     (let account = trim_space account
      in if status = 201 then
           (if \<not> valid_name account then Inl (PeAccount 201 account) else Inr (outcome_of Created account))
         else if status = 200 then
           (if \<not> valid_name account then Inl (PeAccount 200 account) else Inr (outcome_of Existing account))
         else if status = 202 then Inr (outcome_of Accepted [])
         else if status = 403 \<or> status = 204 \<or> status = 404 then Inr (outcome_of Denied [])
         else Inl (PeStatus status))"

definition prov_call ::
  "'w prov_env \<Rightarrow> prov_config \<Rightarrow> rule \<Rightarrow> prov_request \<Rightarrow> 'w \<Rightarrow> (prov_error + outcome) \<times> 'w" where
  "prov_call E cfg r req w =
     (case (if ru_bearer_file r \<noteq> [] then
              (case pv_secret E (ru_bearer_file r) w of
                 (Inl e, w) \<Rightarrow> (Inl (PeSecret e), w)
               | (Inr token, w) \<Rightarrow> (Inr (Some (''Bearer '' @ token)), w))
            else (Inr None, w)) of
        (Inl e, w) \<Rightarrow> (Inl e, w)
      | (Inr header, w) \<Rightarrow>
          (case pv_post E (pc_timeout cfg) (ru_url r) header req w of
             (Inl e, w) \<Rightarrow> (Inl e, w)
           | (Inr (status, account), w) \<Rightarrow> (prov_answer status account, w)))"

definition prov_key :: "prov_request \<Rightarrow> string" where
  "prov_key req = pq_issuer req @ [byte 0] @ pq_subject req"

definition prov_run ::
  "'w prov_env \<Rightarrow> prov_config option \<Rightarrow> prov_request \<Rightarrow> (string \<rightharpoonup> claim) \<Rightarrow> provisioner \<Rightarrow> 'w \<Rightarrow> outcome \<times> provisioner \<times> 'w" where
  "prov_run E cfg req claims p w =
     (case (config_rule (pq_emails req) claims cfg, cfg) of
        (Some r, Some cfg) \<Rightarrow>
          (let name = (if ru_name r = [] then ru_url r else ru_name r);
               failed = (\<lambda>e. \<lparr>ou_kind = Unavailable, ou_account = [], ou_rule = name, ou_err = Some e\<rparr>)
           in case prov_reserve (pv_now E w) (prov_key req) p of
                (Some e, p) \<Rightarrow> (failed (PeReserve e), p, w)
              | (None, p) \<Rightarrow>
                  (case prov_call E cfg r req w of
                     (Inl e, w) \<Rightarrow> (failed e, p, w)
                   | (Inr res, w) \<Rightarrow>
                       (let res = res\<lparr>ou_rule := name\<rparr>
                        in if ou_kind res = Created then
                             (case pv_exists E (ou_account res) w of
                                (True, w) \<Rightarrow> (res\<lparr>ou_kind := Existing\<rparr>, p, w)
                              | (False, w) \<Rightarrow> (res, p, w))
                           else (res, p, w))))
      | _ \<Rightarrow> (outcome_of NoRule [], p, w))"

section \<open>Waiting for the account\<close>

partial_function (option) await_loop :: "'w prov_env \<Rightarrow> time \<Rightarrow> string \<Rightarrow> 'w \<Rightarrow> (bool \<times> 'w) option" where
  "await_loop E deadline account w =
     (case pv_may E account w of
        (r, w) \<Rightarrow>
          (if (case r of Inr v \<Rightarrow> v_allowed v | Inl _ \<Rightarrow> False) then Some (True, w)
           else if \<not> pv_now E w < deadline then Some (False, w)
           else
             (case pv_sleep E w of
                (wanted, w) \<Rightarrow> if wanted then await_loop E deadline account w else Some (False, w))))"

definition prov_await :: "'w prov_env \<Rightarrow> prov_config \<Rightarrow> string \<Rightarrow> 'w \<Rightarrow> (bool \<times> 'w) option" where
  "prov_await E cfg account w = await_loop E (pv_now E w + pc_wait cfg) account w"

section \<open>What the reservation bounds\<close>

text \<open>Requests in the order they came, and the ones that were let through.\<close>

fun reserve_all :: "(time \<times> string) list \<Rightarrow> provisioner \<Rightarrow> (time \<times> string) list \<times> provisioner" where
  "reserve_all [] p = ([], p)"
| "reserve_all ((t, k) # rs) p =
     (case prov_reserve t k p of
        (Some _, p) \<Rightarrow> reserve_all rs p
      | (None, p) \<Rightarrow> (case reserve_all rs p of (ok, p) \<Rightarrow> ((t, k) # ok, p)))"

lemma reserve_all_snoc:
  "reserve_all (rs @ [(t, k)]) p =
     (case reserve_all rs p of (ok, p) \<Rightarrow>
        (case prov_reserve t k p of (Some _, p) \<Rightarrow> (ok, p) | (None, p) \<Rightarrow> (ok @ [(t, k)], p)))"
  by (induction rs arbitrary: p) (auto split: prod.splits option.splits)

definition in_window :: "time \<Rightarrow> duration \<Rightarrow> time \<times> string \<Rightarrow> bool" where
  "in_window t d r \<longleftrightarrow> t - d < fst r \<and> fst r \<le> t"

text \<open>What the state remembers of the calls let through so far.\<close>

definition remembers :: "time \<Rightarrow> (time \<times> string) list \<Rightarrow> provisioner \<Rightarrow> bool" where
  "remembers now ok p \<longleftrightarrow>
     (\<forall>r \<in> set ok. fst r \<le> now) \<and> distinct (map fst (pr_fired p)) \<and>
     filter (\<lambda>t. t > now - hour) (pr_calls p) = filter (\<lambda>t. t > now - hour) (map fst ok) \<and>
     (\<forall>(t, k) \<in> set ok. now - t < refire_after \<longrightarrow> (\<exists>u. map_of (pr_fired p) k = Some u \<and> t \<le> u)) \<and>
     (\<forall>k u. map_of (pr_fired p) k = Some u \<longrightarrow> u \<le> now)"

lemma length_filter_imp:
  "(\<And>x. x \<in> set xs \<Longrightarrow> P x \<Longrightarrow> Q x) \<Longrightarrow> length (filter P xs) \<le> length (filter Q xs)"
  by (induction xs) (auto intro: le_SucI)

lemma filter_window_mono:
  "t \<le> t' \<Longrightarrow> filter (\<lambda>u. u > t - d) xs = filter (\<lambda>u. u > t - d) ys \<Longrightarrow>
   filter (\<lambda>u. u > t' - d) xs = filter (\<lambda>u. u > t' - (d :: int)) ys"
proof -
  assume t: "t \<le> t'" and e: "filter (\<lambda>u. u > t - d) xs = filter (\<lambda>u. u > t - d) ys"
  have "filter (\<lambda>u. u > t' - d) zs = filter (\<lambda>u. u > t' - d) (filter (\<lambda>u. u > t - d) zs)" for zs
    using t by (auto intro: filter_cong)
  with e show ?thesis by metis
qed

lemma remembers_mono:
  assumes "remembers t ok p" and "t \<le> t'"
  shows "remembers t' ok p"
  using assms filter_window_mono[OF assms(2), of hour "pr_calls p" "map fst ok"]
  unfolding remembers_def by fastforce

lemma reserve_step:
  assumes rem: "remembers now ok p" and r: "prov_reserve now key p = (e, p')"
  shows "e \<noteq> None \<Longrightarrow> remembers now ok p'"
    and "e = None \<Longrightarrow> remembers now (ok @ [(now, key)]) p' \<and>
      (\<forall>(t, k) \<in> set ok. k = key \<longrightarrow> refire_after \<le> now - t) \<and>
      length (filter (in_window now hour) ok) < max_calls_per_hour"
proof -
  let ?kept = "filter (\<lambda>t. t > now - hour) (pr_calls p)"
  have kept: "?kept = filter (\<lambda>t. t > now - hour) (map fst ok)" using rem by (simp add: remembers_def)
  have len: "length ?kept = length (filter (in_window now hour) ok)"
  proof -
    have "filter (in_window now hour) ok = filter (\<lambda>r. fst r > now - hour) ok"
      using rem by (intro filter_cong) (auto simp: in_window_def remembers_def)
    then show ?thesis unfolding kept by (simp add: filter_map o_def)
  qed
  have pos: "0 < refire_after" "0 < hour" by (simp_all add: refire_after_def)
  show "remembers now ok p'" if "e \<noteq> None"
    using rem r that by (auto simp: prov_reserve_def reserve_call_def remembers_def Let_def split: option.splits if_splits)
  assume "e = None"
  then have c: "reserve_call now key p = (None, p')" and
    old: "\<And>u. map_of (pr_fired p) key = Some u \<Longrightarrow> refire_after \<le> now - u"
    using r by (auto simp: prov_reserve_def split: option.splits if_splits)
  have few: "length ?kept < max_calls_per_hour" and calls: "pr_calls p' = ?kept @ [now]"
    and fired: "pr_fired p' = (if length (AList.update key now (pr_fired p)) > 4096
      then filter (\<lambda>(k, t). \<not> now - t \<ge> refire_after) (AList.update key now (pr_fired p))
      else AList.update key now (pr_fired p))"
    using c by (auto simp: reserve_call_def Let_def split: if_splits)
  have d: "distinct (map fst (AList.update key now (pr_fired p)))"
    using rem by (simp add: AList.distinct_update remembers_def)
  have look: "map_of (pr_fired p') k = Some u \<Longrightarrow> map_of ((pr_fired p)) k = Some u \<and> k \<noteq> key \<or> k = key \<and> u = now" for k u
  proof -
    assume "map_of (pr_fired p') k = Some u"
    then have "(k, u) \<in> set (AList.update key now (pr_fired p))" by (auto simp: fired split: if_splits dest: map_of_SomeD)
    then have "map_of (AList.update key now (pr_fired p)) k = Some u" using d by simp
    then show ?thesis by (auto simp: update_conv' split: if_splits)
  qed
  have keep: "map_of (pr_fired p') k = Some u" if "map_of (AList.update key now (pr_fired p)) k = Some u" "now - u < refire_after" for k u
    using that d by (auto simp: fired distinct_map_filterI)
  have "\<exists>v. map_of (pr_fired p') k = Some v \<and> t \<le> v" if mem: "(t, k) \<in> set (ok @ [(now, key)])" "now - t < refire_after" for t k
  proof (cases "k = key")
    case True
    have "t \<le> now" using mem(1) rem by (auto simp: remembers_def)
    then show ?thesis using keep[of key now] True pos by (auto simp: update_conv')
  next
    case False
    then obtain u where "map_of (pr_fired p) k = Some u" "t \<le> u" using mem rem unfolding remembers_def by fastforce
    then show ?thesis using keep[of k u] False mem(2) by (auto simp: update_conv')
  qed
  moreover have "u \<le> now" if "map_of (pr_fired p') k = Some u" for k u using look[OF that] rem by (auto simp: remembers_def)
  moreover have "distinct (map fst (pr_fired p'))" using d by (simp add: fired distinct_map_filterI)
  moreover have "filter (\<lambda>t. t > now - hour) (pr_calls p') = filter (\<lambda>t. t > now - hour) (map fst (ok @ [(now, key)]))"
    using kept pos by (simp add: calls)
  moreover have "refire_after \<le> now - t" if "(t, key) \<in> set ok" for t
    using that old rem by (fastforce simp: remembers_def)
  ultimately show "remembers now (ok @ [(now, key)]) p' \<and>
      (\<forall>(t, k) \<in> set ok. k = key \<longrightarrow> refire_after \<le> now - t) \<and>
      length (filter (in_window now hour) ok) < max_calls_per_hour"
    using rem few len by (auto simp: remembers_def)
qed

lemma reserve_all_invariant:
  assumes "sorted (map fst rs)" and "reserve_all rs \<lparr>pr_fired = [], pr_calls = []\<rparr> = (ok, p)"
  shows "(\<forall>t. (\<forall>r \<in> set rs. fst r \<le> t) \<longrightarrow> remembers t ok p) \<and> sorted (map fst ok) \<and> set ok \<subseteq> set rs \<and>
    sorted_wrt (\<lambda>(t, k) (u, l). k = l \<longrightarrow> refire_after \<le> u - t) ok \<and>
    (\<forall>t. length (filter (in_window t hour) ok) \<le> max_calls_per_hour)"
  using assms
proof (induction rs arbitrary: ok p rule: rev_induct)
  case Nil
  then show ?case by (auto simp: remembers_def)
next
  case (snoc r rs)
  obtain t k where r: "r = (t, k)" by (cases r)
  obtain ok0 p0 where a: "reserve_all rs \<lparr>pr_fired = [], pr_calls = []\<rparr> = (ok0, p0)" by (metis prod.collapse)
  have s: "sorted (map fst rs)" "\<forall>x \<in> set rs. fst x \<le> t" using snoc.prems(1) by (auto simp: r sorted_append)
  note ih = snoc.IH[OF s(1) a]
  have rem: "remembers t ok0 p0" using ih s(2) by blast
  obtain e p1 where e: "prov_reserve t k p0 = (e, p1)" by (metis prod.collapse)
  show ?case
  proof (cases e)
    case (Some x)
    then have "ok = ok0" "p = p1" using snoc.prems(2) a e by (auto simp: r reserve_all_snoc)
    then show ?thesis using ih reserve_step(1)[OF rem e] Some remembers_mono by (auto simp: r)
  next
    case None
    then have ok: "ok = ok0 @ [(t, k)]" "p = p1" using snoc.prems(2) a e by (auto simp: r reserve_all_snoc)
    note st = reserve_step(2)[OF rem e None]
    have le: "\<forall>x \<in> set ok0. fst x \<le> t" using rem by (simp add: remembers_def)
    have win: "length (filter (in_window u hour) ok) \<le> max_calls_per_hour" for u
    proof (cases "in_window u hour (t, k)")
      case True
      have "length (filter (in_window u hour) ok0) \<le> length (filter (in_window t hour) ok0)"
        using True le by (intro length_filter_imp) (auto simp: in_window_def)
      then show ?thesis using st by (simp add: ok)
    next
      case False
      then show ?thesis using ih by (simp add: ok)
    qed
    show ?thesis
      using ih st le win remembers_mono by (auto simp: ok r sorted_append sorted_wrt_append)
  qed
qed

text \<open>C19: Whatever an unauthenticated caller does, calls to the endpoints are bounded. Of any sequence of
  attempts in time order, two for one identity that are let through are at least ten minutes
  apart, and no hour holds more than sixty.\<close>

theorem provisioning_is_bounded:
  assumes "sorted (map fst rs)" and "fst (reserve_all rs \<lparr>pr_fired = [], pr_calls = []\<rparr>) = ok"
  shows "sorted_wrt (\<lambda>(t, k) (u, l). k = l \<longrightarrow> refire_after \<le> u - t) ok \<and>
    (\<forall>t. length (filter (in_window t hour) ok) \<le> max_calls_per_hour)"
  using reserve_all_invariant[OF assms(1)] assms(2) by (metis prod.collapse)

lemma provisioning_is_bounded_witness:
  "sorted_wrt (\<lambda>(t, k) (u, l). k = l \<longrightarrow> refire_after \<le> u - t)
     (fst (reserve_all [(0, ''a''), (1, ''a''), (2, ''b'')] \<lparr>pr_fired = [], pr_calls = []\<rparr>)) \<and>
   fst (reserve_all [(0, ''a''), (1, ''a''), (2, ''b'')] \<lparr>pr_fired = [], pr_calls = []\<rparr>) = [(0, ''a''), (2, ''b'')]"
proof -
  have "fst (reserve_all [(0, ''a''), (1, ''a''), (2, ''b'')] \<lparr>pr_fired = [], pr_calls = []\<rparr>) = [(0, ''a''), (2, ''b'')]"
    by (simp add: prov_reserve_def reserve_call_def Let_def refire_after_def max_calls_per_hour_def
        hour_def minute_def second_def)
  then show ?thesis
    using provisioning_is_bounded[of "[(0, ''a''), (1, ''a''), (2, ''b'')]"] by simp
qed

section \<open>What a call may lead to\<close>

lemma prov_answer_created:
  "prov_answer status a = Inr res \<Longrightarrow> ou_kind res = Created \<Longrightarrow>
   status = 201 \<and> ou_account res = trim_space a \<and> valid_name (ou_account res)"
  by (auto simp: prov_answer_def outcome_of_def Let_def split: if_splits)

text \<open>An endpoint can only bring in an account that was not there. The outcome is \<open>Created\<close> only
  when a rule matched the identity, its reservation was granted, the endpoint answered 201 with a
  possible account name, and the gate, asked afterwards, did not know that name.\<close>

theorem created_is_new:
  assumes "prov_run E cfg req claims p w = (out, p', w')" and "ou_kind out = Created"
  shows "valid_name (ou_account out) \<and>
    (\<exists>w1. pv_exists E (ou_account out) w1 = (False, w')) \<and>
    (\<exists>r c header a w1 w2. cfg = Some c \<and> r \<in> set (pc_rules c) \<and> rule_matches (pq_emails req) claims r \<and>
       prov_reserve (pv_now E w) (prov_key req) p = (None, p') \<and>
       pv_post E (pc_timeout c) (ru_url r) header req w1 = (Inr (201, a), w2) \<and> ou_account out = trim_space a)"
proof -
  obtain r c where rule: "config_rule (pq_emails req) claims cfg = Some r" "cfg = Some c"
    using assms by (auto simp: prov_run_def outcome_of_def split: option.splits)
  then have r: "r \<in> set (pc_rules c)" "rule_matches (pq_emails req) claims r"
    by (auto simp: config_rule_def find_Some_iff)
  obtain p1 where res: "prov_reserve (pv_now E w) (prov_key req) p = (None, p1)"
    using assms rule by (auto simp: prov_run_def Let_def split: option.splits prod.splits)
  obtain o1 w1 where call: "prov_call E c r req w = (Inr o1, w1)"
    using assms rule res by (auto simp: prov_run_def Let_def split: option.splits prod.splits sum.splits)
  obtain b w2 where ex: "pv_exists E (ou_account o1) w1 = (b, w2)" by (metis prod.collapse)
  have o1: "ou_kind o1 = Created" "\<not> b" "ou_account out = ou_account o1" "p' = p1" "w' = w2"
    using assms rule res call ex
    by (auto simp: prov_run_def Let_def split: if_splits bool.splits)
  obtain header st a w3 where post: "pv_post E (pc_timeout c) (ru_url r) header req w3 = (Inr (st, a), w1)"
    "prov_answer st a = Inr o1"
    using call by (auto simp: prov_call_def split: prod.splits sum.splits if_splits)
  note acc = prov_answer_created[OF post(2) o1(1)]
  have "valid_name (ou_account out)" unfolding o1(3) using acc by blast
  moreover have "pv_exists E (ou_account out) w1 = (False, w')" using ex o1 by simp
  moreover have "cfg = Some c \<and> r \<in> set (pc_rules c) \<and> rule_matches (pq_emails req) claims r \<and>
       prov_reserve (pv_now E w) (prov_key req) p = (None, p') \<and>
       pv_post E (pc_timeout c) (ru_url r) header req w3 = (Inr (201, a), w1) \<and> ou_account out = trim_space a"
    using acc post(1) r res rule(2) o1 by simp
  ultimately show ?thesis by blast
qed

section \<open>The wait ends\<close>

lemma await_loop_ends:
  assumes may: "\<And>w. pv_now E w \<le> pv_now E (snd (pv_may E account w))"
    and sleep: "\<And>w w'. pv_sleep E w = (True, w') \<Longrightarrow> pv_now E w + second \<le> pv_now E w'"
  shows "nat (deadline - pv_now E w) < n \<Longrightarrow>
    \<exists>b w'. await_loop E deadline account w = Some (b, w') \<and>
      (b \<longrightarrow> (\<exists>w1 v. pv_may E account w1 = (Inr v, w') \<and> v_allowed v))"
proof (induction n arbitrary: w)
  case 0
  then show ?case by simp
next
  case (Suc n)
  obtain r w1 where r: "pv_may E account w = (r, w1)" by (metis prod.collapse)
  show ?case
  proof (cases "case r of Inr v \<Rightarrow> v_allowed v | Inl _ \<Rightarrow> False")
    case True
    then show ?thesis using r by (subst await_loop.simps) (auto split: sum.splits)
  next
    case no: False
    show ?thesis
    proof (cases "pv_now E w1 < deadline")
      case False
      then show ?thesis using r no by (subst await_loop.simps) auto
    next
      case True
      obtain b w2 where s: "pv_sleep E w1 = (b, w2)" by (metis prod.collapse)
      show ?thesis
      proof (cases b)
        case False
        then show ?thesis using r no True s by (subst await_loop.simps) auto
      next
        case b: True
        have "pv_now E w \<le> pv_now E w1" using may[of w] r by simp
        moreover have "pv_now E w1 + second \<le> pv_now E w2" using sleep s b by simp
        moreover have "0 < second" by simp
        ultimately have "nat (deadline - pv_now E w2) < n" using Suc.prems True by linarith
        from Suc.IH[OF this] show ?thesis using r no True s b by (subst await_loop.simps) simp
      qed
    qed
  qed
qed

text \<open>Waiting for a provisioned account ends, and only the gate can make it end well. If a sleep lasts
  at least a second and asking the gate does not turn the clock back, the wait returns, and it
  returns true only with the gate's own permission for that account.\<close>

theorem provision_wait_ends:
  assumes "\<And>w. pv_now E w \<le> pv_now E (snd (pv_may E account w))"
    and "\<And>w w'. pv_sleep E w = (True, w') \<Longrightarrow> pv_now E w + second \<le> pv_now E w'"
  shows "\<exists>b w'. prov_await E cfg account w = Some (b, w') \<and>
    (b \<longrightarrow> (\<exists>w1 v. pv_may E account w1 = (Inr v, w') \<and> v_allowed v))"
  using await_loop_ends[OF assms lessI] by (simp add: prov_await_def)

text \<open>A world that is its own clock, where the account appears after two seconds.\<close>

definition sample_prov :: "time prov_env" where
  "sample_prov = \<lparr>pv_secret = (\<lambda>_ w. (Inr ''t'', w)), pv_post = (\<lambda>_ _ _ _ w. (Inr (201, ''bob''), w)), pv_now = (\<lambda>w. w),
     pv_sleep = (\<lambda>w. (True, w + second)), pv_exists = (\<lambda>_ w. (2 * second \<le> w, w)),
     pv_may = (\<lambda>_ w. (Inr \<lparr>v_allowed = 2 * second \<le> w, v_reason = []\<rparr>, w))\<rparr>"

lemma provision_wait_ends_witness:
  "\<exists>b w'. prov_await sample_prov \<lparr>pc_timeout = second, pc_wait = 30 * second, pc_rules = []\<rparr> ''bob'' 0 = Some (b, w') \<and>
     (b \<longrightarrow> 2 * second \<le> w')"
  using provision_wait_ends[of sample_prov "''bob''" "\<lparr>pc_timeout = second, pc_wait = 30 * second, pc_rules = []\<rparr>" 0]
  by (auto simp: sample_prov_def)

definition sample_rule :: rule where
  "sample_rule = \<lparr>ru_name = ''hr'', ru_domains = [], ru_claims = [], ru_url = ''https://hr/'', ru_bearer_file = []\<rparr>"

lemma trim_bob: "trim_space ''bob'' = ''bob''"
  by (simp add: trim_space_def drop_spaces.simps space_len_def space_runes_def byte_def char_of_eq_iff)

lemma created_is_new_witness:
  "\<exists>out p' w'. prov_run sample_prov (Some \<lparr>pc_timeout = second, pc_wait = second, pc_rules = [sample_rule]\<rparr>)
       \<lparr>pq_issuer = ''i'', pq_subject = ''s'', pq_emails = [], pq_name = []\<rparr> Map.empty \<lparr>pr_fired = [], pr_calls = []\<rparr> 0 = (out, p', w') \<and>
     ou_account out = ''bob'' \<and> valid_name (ou_account out)"
proof -
  let ?run = "prov_run sample_prov (Some \<lparr>pc_timeout = second, pc_wait = second, pc_rules = [sample_rule]\<rparr>)
       \<lparr>pq_issuer = ''i'', pq_subject = ''s'', pq_emails = [], pq_name = []\<rparr> Map.empty \<lparr>pr_fired = [], pr_calls = []\<rparr> 0"
  obtain out p' w' where run: "?run = (out, p', w')" by (metis prod.collapse)
  have v: "valid_name ''bob''" by (simp add: valid_name_def name_char_def lower_alpha_def)
  have "ou_kind out = Created \<and> ou_account out = ''bob''"
    using run v trim_bob
    by (auto simp: prov_run_def config_rule_def rule_matches_def sample_rule_def prov_reserve_def reserve_call_def
        max_calls_per_hour_def prov_call_def sample_prov_def prov_answer_def outcome_of_def Let_def second_def)
  then show ?thesis using created_is_new[OF run] run by auto
qed

end
