(* ===== verification/Sso.thy ===== *)
theory Sso
  imports Identity Provision
begin

text \<open>
  Who the identity provider says somebody is, \<^verbatim>\<open>src/internal/sso/sso.go\<close> and
  \<^verbatim>\<open>src/internal/sso/secret.go\<close>: the provider's configuration and discovery, what is accepted of a
  verified token, and the table of sign-ins in flight.

  The OpenID and OAuth libraries are the parameter \<open>V\<close>: discovery, the code exchange, and the
  verification of a token (signature, issuer, audience, expiry).
\<close>

datatype sso_error = SsoUnavailable string | SsoRejected string | SsoWrongTenant string | SsoNoAddress

datatype sso_config_error =
    ScMissing | ScNoRedirect | ScIssuer string | ScRedirect string | ScEveryTenant string

record sso_config =
  sc_issuer :: string
  sc_client_id :: string
  sc_redirect :: string
  sc_forward :: bool
  sc_tenant :: string
  sc_domains :: "string list"
  sc_retry :: duration

definition multi_tenant_paths :: "string list" where
  "multi_tenant_paths = [''/common/'', ''/organizations/'', ''/consumers/'']"

record provider =
  sp_cfg :: sso_config
  sp_domains :: "string list"
  sp_ready :: bool
  sp_next_try :: time
  sp_last_err :: string

text \<open>\<open>parse_url\<close> answers whether the URL is absolute.\<close>

definition sso_new :: "(string \<Rightarrow> string + bool) \<Rightarrow> sso_config \<Rightarrow> sso_config_error + provider" where
  "sso_new parse_url cfg =
     (if sc_issuer cfg = [] \<or> sc_client_id cfg = [] then Inl ScMissing
      else if \<not> sc_forward cfg \<and> sc_redirect cfg = [] then Inl ScNoRedirect
      else
        (case parse_url (sc_issuer cfg) of
           Inl e \<Rightarrow> Inl (ScIssuer e)
         | Inr _ \<Rightarrow>
             (if sc_redirect cfg \<noteq> [] \<and> parse_url (sc_redirect cfg) \<noteq> Inr True then Inl (ScRedirect (sc_redirect cfg))
              else if sc_tenant cfg = [] \<and>
                  list_ex (str_contains (trim_suffix (sc_issuer cfg) ''/'' @ ''/'')) multi_tenant_paths
              then Inl (ScEveryTenant (sc_issuer cfg))
              else
                Inr \<lparr>sp_cfg = (if sc_retry cfg \<le> 0 then cfg\<lparr>sc_retry := 30 * second\<rparr> else cfg),
                     sp_domains = filter (\<lambda>d. d \<noteq> []) (map norm_domain (sc_domains cfg)),
                     sp_ready = False, sp_next_try = 0, sp_last_err = []\<rparr>)))"

section \<open>Tokens\<close>

record token_claims =
  tc_tid :: string
  tc_name :: string
  tc_upn :: string
  tc_pref :: string
  tc_email :: string

text \<open>A verified token; the claims it carries read typed and untyped, where they could be read.\<close>

record id_token =
  it_issuer :: string
  it_subject :: string
  it_nonce :: string
  it_claims :: "token_claims option"
  it_all :: "(string \<rightharpoonup> claim) option"

record flow =
  fl_state :: string
  fl_nonce :: string
  fl_pkce :: string
  fl_return :: string
  fl_expires :: time

text \<open>The exchange answers the \<^verbatim>\<open>id_token\<close> of the response, if it has one.\<close>

record 'w oidc =
  od_discover :: "string \<Rightarrow> 'w \<Rightarrow> string option \<times> 'w"
  od_exchange :: "string \<Rightarrow> string \<Rightarrow> 'w \<Rightarrow> (string + string option) \<times> 'w"
  od_verify :: "string \<Rightarrow> string \<Rightarrow> 'w \<Rightarrow> (string + id_token) \<times> 'w"
  od_auth_url :: "string \<Rightarrow> string \<Rightarrow> string \<Rightarrow> string"

definition sso_ready :: "'w oidc \<Rightarrow> time \<Rightarrow> provider \<Rightarrow> 'w \<Rightarrow> sso_error option \<times> provider \<times> 'w" where
  "sso_ready V now p w =
     (if sp_ready p then (None, p, w)
      else if now < sp_next_try p then (Some (SsoUnavailable (sp_last_err p)), p, w)
      else
        (case od_discover V (sc_issuer (sp_cfg p)) w of
           (Some e, w) \<Rightarrow>
             (Some (SsoUnavailable e), p\<lparr>sp_last_err := e, sp_next_try := now + sc_retry (sp_cfg p)\<rparr>, w)
         | (None, w) \<Rightarrow> (None, p\<lparr>sp_ready := True, sp_last_err := []\<rparr>, w)))"

definition sso_auth_code_url :: "'w oidc \<Rightarrow> time \<Rightarrow> flow \<Rightarrow> provider \<Rightarrow> 'w \<Rightarrow> (sso_error + string) \<times> provider \<times> 'w" where
  "sso_auth_code_url V now f p w =
     (case sso_ready V now p w of
        (Some e, p, w) \<Rightarrow> (Inl e, p, w)
      | (None, p, w) \<Rightarrow> (Inr (od_auth_url V (fl_state f) (fl_nonce f) (fl_pkce f)), p, w))"

record sso_identity =
  si_issuer :: string
  si_subject :: string
  si_name :: string
  si_emails :: "string list"
  si_claims :: "string \<rightharpoonup> claim"

definition sso_allowed :: "provider \<Rightarrow> string \<Rightarrow> bool" where
  "sso_allowed p email =
     (if sp_domains p = [] then True else fst (snd (cut email CHR ''@'')) \<in> set (sp_domains p))"

fun accept_loop :: "provider \<Rightarrow> string list \<Rightarrow> string list \<Rightarrow> string list" where
  "accept_loop p [] out = out"
| "accept_loop p (c # cs) out =
     (let c = normalize_email c
      in if c = [] \<or> c \<in> set out \<or> \<not> valid_email c then accept_loop p cs out
         else if \<not> sso_allowed p c then accept_loop p cs out
         else accept_loop p cs (out @ [c]))"

definition sso_accept :: "provider \<Rightarrow> string list \<Rightarrow> string list" where
  "sso_accept p cs = accept_loop p cs []"

definition assert_token :: "'w oidc \<Rightarrow> provider \<Rightarrow> string \<Rightarrow> 'w \<Rightarrow> (sso_error + id_token \<times> sso_identity) \<times> 'w" where
  "assert_token V p raw w =
     (case od_verify V (sc_client_id (sp_cfg p)) raw w of
        (Inl e, w) \<Rightarrow> (Inl (SsoRejected e), w)
      | (Inr tok, w) \<Rightarrow>
          (case it_claims tok of
             None \<Rightarrow> (Inl (SsoRejected ''unreadable claims''), w)
           | Some cl \<Rightarrow>
               (if sc_tenant (sp_cfg p) \<noteq> [] \<and> \<not> equal_fold (tc_tid cl) (sc_tenant (sp_cfg p))
                then (Inl (SsoWrongTenant (tc_tid cl)), w)
                else
                  (let emails = sso_accept p [tc_upn cl, tc_pref cl, tc_email cl]
                   in if emails = [] then (Inl SsoNoAddress, w)
                      else
                        (Inr (tok, \<lparr>si_issuer = it_issuer tok, si_subject = it_subject tok,
                           si_name = trim_space (tc_name cl), si_emails = emails,
                           si_claims = (case it_all tok of None \<Rightarrow> Map.empty | Some m \<Rightarrow> m)\<rparr>), w)))))"

definition sso_exchange ::
  "'w oidc \<Rightarrow> time \<Rightarrow> string \<Rightarrow> flow \<Rightarrow> provider \<Rightarrow> 'w \<Rightarrow> (sso_error + sso_identity) \<times> provider \<times> 'w" where
  "sso_exchange V now code f p w =
     (case sso_ready V now p w of
        (Some e, p, w) \<Rightarrow> (Inl e, p, w)
      | (None, p, w) \<Rightarrow>
          (case od_exchange V code (fl_pkce f) w of
             (Inl e, w) \<Rightarrow> (Inl (SsoUnavailable e), p, w)
           | (Inr raw, w) \<Rightarrow>
               (case raw of
                  None \<Rightarrow> (Inl (SsoRejected ''no id_token''), p, w)
                | Some raw \<Rightarrow>
                    (if raw = [] then (Inl (SsoRejected ''no id_token''), p, w)
                     else
                       (case assert_token V p raw w of
                          (Inl e, w) \<Rightarrow> (Inl e, p, w)
                        | (Inr (tok, ident), w) \<Rightarrow>
                            (if it_nonce tok \<noteq> fl_nonce f then (Inl (SsoRejected ''nonce''), p, w)
                             else (Inr ident, p, w)))))))"

definition sso_assert :: "'w oidc \<Rightarrow> time \<Rightarrow> string \<Rightarrow> provider \<Rightarrow> 'w \<Rightarrow> (sso_error + sso_identity) \<times> provider \<times> 'w" where
  "sso_assert V now raw p w =
     (case sso_ready V now p w of
        (Some e, p, w) \<Rightarrow> (Inl e, p, w)
      | (None, p, w) \<Rightarrow>
          (case assert_token V p raw w of
             (Inl e, w) \<Rightarrow> (Inl e, p, w)
           | (Inr (_, ident), w) \<Rightarrow> (Inr ident, p, w)))"

definition read_secret :: "(string \<Rightarrow> 'w \<Rightarrow> (string + string) \<times> 'w) \<Rightarrow> string \<Rightarrow> 'w \<Rightarrow> (string + string) \<times> 'w" where
  "read_secret read path w =
     (case read path w of
        (Inl e, w) \<Rightarrow> (Inl e, w)
      | (Inr b, w) \<Rightarrow> (let s = trim_space b in if s = [] then (Inl ''empty'', w) else (Inr s, w)))"

section \<open>Sign-ins in flight\<close>

definition flow_ttl :: duration where "flow_ttl = 15 * minute"

type_synonym flows = "string \<rightharpoonup> flow"

definition flows_sweep :: "time \<Rightarrow> flows \<Rightarrow> flows" where
  "flows_sweep now m = map_filter_vals (\<lambda>f. \<not> now > fl_expires f) m"

definition flows_put :: "time \<Rightarrow> string \<Rightarrow> flow \<Rightarrow> flows \<Rightarrow> flows" where
  "flows_put now k f m = (flows_sweep now m)(k \<mapsto> f\<lparr>fl_expires := now + flow_ttl\<rparr>)"

definition site_path :: "string \<Rightarrow> string" where
  "site_path r = (if \<not> has_prefix r ''/'' \<or> has_prefix r ''//'' then ''/'' else r)"

text \<open>\<open>fresh\<close> is the id, state, nonce and verifier drawn at random, or the failure to draw them.\<close>

definition flows_begin ::
  "time \<Rightarrow> (string + string \<times> string \<times> string \<times> string) \<Rightarrow> string \<Rightarrow> flows \<Rightarrow> (string + string \<times> flow) \<times> flows" where
  "flows_begin now fresh return_to m =
     (case fresh of
        Inl e \<Rightarrow> (Inl e, m)
      | Inr (k, state, nonce, pkce) \<Rightarrow>
          (let f = \<lparr>fl_state = state, fl_nonce = nonce, fl_pkce = pkce, fl_return = site_path return_to,
                    fl_expires = now + flow_ttl\<rparr>
           in (Inr (k, f), flows_put now k f m)))"

definition flows_take :: "time \<Rightarrow> string \<Rightarrow> flows \<Rightarrow> flow option \<times> flows" where
  "flows_take now k m =
     (case m k of
        None \<Rightarrow> (None, m)
      | Some f \<Rightarrow> (let m = m(k := None) in if now > fl_expires f then (None, m) else (Some f, m)))"

interpretation flow_table: ttl_table flow_ttl fl_expires flows_put flows_take flows_sweep
proof unfold_locales
  show "fl_expires u = now + flow_ttl" if "flows_put now k v m k = Some u" for now k v m u
    using that by (auto simp: flows_put_def)
  show "m j = Some u" if "j \<noteq> k" "flows_put now k v m j = Some u" for j k now v m u
    using that by (auto simp: flows_put_def flows_sweep_def)
  show "flows_take now k m =
      ((case m k of None \<Rightarrow> None | Some v \<Rightarrow> if fl_expires v < now then None else Some v), m(k := None))" for now k m
    by (auto simp: flows_take_def Let_def split: option.splits)
  show "m j = Some u" if "flows_sweep now m j = Some u" for now m j u
    using that by (simp add: flows_sweep_def)
qed

section \<open>What an accepted token says\<close>

lemma accept_loop_spec:
  "distinct out \<Longrightarrow> \<forall>e \<in> set out. canonical e \<and> sso_allowed p e \<Longrightarrow>
   distinct (accept_loop p cs out) \<and> (\<forall>e \<in> set (accept_loop p cs out). canonical e \<and> sso_allowed p e)"
proof (induction p cs out rule: accept_loop.induct)
  case (1 p out)
  then show ?case by simp
next
  case (2 p c cs out)
  let ?c = "normalize_email c"
  show ?case
  proof (cases "?c = [] \<or> ?c \<in> set out \<or> \<not> valid_email ?c \<or> \<not> sso_allowed p ?c")
    case True
    then have "accept_loop p (c # cs) out = accept_loop p cs out" by (auto simp: Let_def)
    then show ?thesis using 2 True by metis
  next
    case False
    then have "accept_loop p (c # cs) out = accept_loop p cs (out @ [?c])" by (simp add: Let_def)
    moreover have "distinct (out @ [?c])" "\<forall>e \<in> set (out @ [?c]). canonical e \<and> sso_allowed p e"
      using 2(4,5) False by (auto simp: canonical_def)
    ultimately show ?thesis using 2(3)[OF refl] False by simp
  qed
qed

lemma sso_ready_keeps: "sso_ready V now p w = (e, p', w') \<Longrightarrow> sp_cfg p' = sp_cfg p \<and> sp_domains p' = sp_domains p"
  by (auto simp: sso_ready_def split: if_splits prod.splits option.splits)

lemma assert_token_ok:
  assumes "assert_token V p raw w = (Inr (tok, ident), w')"
  shows "od_verify V (sc_client_id (sp_cfg p)) raw w = (Inr tok, w') \<and>
    si_issuer ident = it_issuer tok \<and> si_subject ident = it_subject tok \<and>
    (sc_tenant (sp_cfg p) = [] \<or> (\<exists>cl. it_claims tok = Some cl \<and> equal_fold (tc_tid cl) (sc_tenant (sp_cfg p)))) \<and>
    si_emails ident \<noteq> [] \<and> distinct (si_emails ident) \<and>
    (\<forall>e \<in> set (si_emails ident). canonical e \<and> sso_allowed p e)"
proof -
  obtain cl where cl: "it_claims tok = Some cl" "od_verify V (sc_client_id (sp_cfg p)) raw w = (Inr tok, w')"
    "sc_tenant (sp_cfg p) = [] \<or> equal_fold (tc_tid cl) (sc_tenant (sp_cfg p))"
    "si_emails ident = sso_accept p [tc_upn cl, tc_pref cl, tc_email cl]" "si_emails ident \<noteq> []"
    "si_issuer ident = it_issuer tok" "si_subject ident = it_subject tok"
    using assms by (auto simp: assert_token_def Let_def split: prod.splits sum.splits option.splits if_splits)
  then show ?thesis
    using accept_loop_spec[of "[]" p "[tc_upn cl, tc_pref cl, tc_email cl]"] by (auto simp: sso_accept_def)
qed

text \<open>C20: A sign-in through the code flow is this browser's, from this tenant. An identity comes out of the
  exchange only from a token the library verified for our client, whose nonce is that of the flow
  the browser began, whose tenant is the configured one, and that carries at least one address;
  every address handed on is normalised, usable and in an accepted domain, and none comes twice.\<close>

theorem exchange_is_bound:
  assumes "sso_exchange V now code f p w = (Inr ident, p', w')"
  shows "\<exists>raw tok w1. od_verify V (sc_client_id (sp_cfg p)) raw w1 = (Inr tok, w') \<and> it_nonce tok = fl_nonce f \<and>
    si_issuer ident = it_issuer tok \<and> si_subject ident = it_subject tok \<and>
    (sc_tenant (sp_cfg p) = [] \<or> (\<exists>cl. it_claims tok = Some cl \<and> equal_fold (tc_tid cl) (sc_tenant (sp_cfg p)))) \<and>
    si_emails ident \<noteq> [] \<and> distinct (si_emails ident) \<and>
    (\<forall>e \<in> set (si_emails ident). valid_email e \<and> normalize_email e = e \<and> sso_allowed p e)"
proof -
  obtain p1 w1 where r: "sso_ready V now p w = (None, p1, w1)"
    using assms by (auto simp: sso_exchange_def split: prod.splits option.splits)
  obtain raw w2 where x: "od_exchange V code (fl_pkce f) w1 = (Inr (Some raw), w2)"
    using assms r by (auto simp: sso_exchange_def split: prod.splits sum.splits option.splits)
  obtain tok w3 where a: "assert_token V p1 raw w2 = (Inr (tok, ident), w3)" "it_nonce tok = fl_nonce f" "w' = w3"
    using assms r x by (auto simp: sso_exchange_def split: prod.splits sum.splits if_splits)
  have "sp_cfg p1 = sp_cfg p" "sso_allowed p1 = sso_allowed p"
    using sso_ready_keeps[OF r] by (auto simp: sso_allowed_def intro!: ext)
  then show ?thesis using assert_token_ok[OF a(1)] a(2,3) by (auto simp: canonical_def)
qed

text \<open>One call on the table of sign-ins.\<close>

definition flow_step :: "(string, flow) ttl_op \<Rightarrow> flows \<Rightarrow> flows" where
  "flow_step op m =
     (case op of TtlPut now k v \<Rightarrow> flows_put now k v m | TtlTake now k \<Rightarrow> snd (flows_take now k m) | TtlSweep now \<Rightarrow> flows_sweep now m)"

lemma flow_step_run: "flow_step = flow_table.run"
  by (rule ext)+ (simp add: flow_step_def flow_table.run_def)

text \<open>C21: A sign-in in flight is finished at most once, within a quarter of an hour, and leads back to this
  site. Whatever else happens to the table between, unless the same id is drawn again: what is
  taken is what was begun, no later than fifteen minutes after, its return is a path of this
  server, and a second attempt with the id finds nothing.\<close>

theorem flow_single_use:
  assumes "flows_begin now fresh return_to m = (Inr (k, f), m1)"
    and "\<forall>op \<in> set ops \<union> set ops'. \<forall>t v. op \<noteq> TtlPut t k v"
    and "flows_take t (k) (fold flow_step ops m1) = (Some g, m2)"
  shows "g = f \<and> t \<le> now + flow_ttl \<and>
    has_prefix (fl_return f) ''/'' \<and> \<not> has_prefix (fl_return f) ''//'' \<and>
    fst (flows_take t' k (fold flow_step ops' m2)) = None"
proof -
  have m1: "m1 = flows_put now k f m" "fl_expires f = now + flow_ttl" "fl_return f = site_path return_to"
    using assms(1) by (auto simp: flows_begin_def Let_def split: sum.splits prod.splits)
  have np: "\<forall>op \<in> set ops. \<not> flow_table.puts k op" "\<forall>op \<in> set ops'. \<not> flow_table.puts k op"
    using assms(2) by (auto simp: flow_table.puts_def)
  have "fold flow_step ops m1 k = Some g" using assms(3) by (auto simp: flows_take_def Let_def split: option.splits if_splits)
  then have "m1 k = Some g" using flow_table.fold_keeps[OF np(1)] by (simp add: flow_step_run)
  then have "g = f" using m1(1,2) by (cases f) (auto simp: flows_put_def)
  moreover have "t \<le> now + flow_ttl"
    using flow_table.take_in_time[OF np(1), of t now f m g] assms(3) m1(1) by (simp add: flow_step_run)
  moreover have "fst (flows_take t' k (fold flow_step ops' m2)) = None"
    using flow_table.take_once[OF assms(3) np(2)] by (simp add: flow_step_run)
  ultimately show ?thesis unfolding m1(3) by (auto simp: site_path_def)
qed

lemma flow_single_use_witness:
  "\<exists>k f m1 g m2. flows_begin 0 (Inr (''id'', ''st'', ''no'', ''ve'')) ''/files'' Map.empty = (Inr (k, f), m1) \<and>
     flows_take minute k (fold flow_step [TtlSweep 1] m1) = (Some g, m2) \<and> fl_return g = ''/files'' \<and>
     fst (flows_take hour k (fold flow_step [] m2)) = None"
proof -
  obtain k f m1 where b: "flows_begin 0 (Inr (''id'', ''st'', ''no'', ''ve'')) ''/files'' Map.empty = (Inr (k, f), m1)"
    and kf: "fl_return f = ''/files''"
    by (simp add: flows_begin_def Let_def site_path_def)
  obtain g m2 where t: "flows_take minute k (fold flow_step [TtlSweep 1] m1) = (Some g, m2)"
    using b by (auto simp: flows_begin_def flow_step_def flows_put_def flows_sweep_def flows_take_def map_filter_vals_def
        Let_def flow_ttl_def minute_def second_def)
  from flow_single_use[OF b _ t, of "[]" hour] show ?thesis using b t kf by auto
qed

section \<open>A provider for concrete runs\<close>

definition sample_claims :: token_claims where
  "sample_claims = \<lparr>tc_tid = ''t1'', tc_name = ''Bob'', tc_upn = ''b@x.y'', tc_pref = [], tc_email = []\<rparr>"

definition sample_oidc :: "'w oidc" where
  "sample_oidc = \<lparr>od_discover = (\<lambda>_ w. (None, w)), od_exchange = (\<lambda>_ _ w. (Inr (Some ''raw''), w)),
     od_verify = (\<lambda>_ _ w. (Inr \<lparr>it_issuer = ''iss'', it_subject = ''b1'', it_nonce = ''no'', it_claims = Some sample_claims,
       it_all = None\<rparr>, w)), od_auth_url = (\<lambda>_ _ _. [])\<rparr>"

definition sample_provider :: provider where
  "sample_provider = \<lparr>sp_cfg = \<lparr>sc_issuer = ''iss'', sc_client_id = ''c'', sc_redirect = ''r'', sc_forward = False, sc_tenant = ''t1'',
     sc_domains = [], sc_retry = second\<rparr>, sp_domains = [''x.y''], sp_ready = False, sp_next_try = 0, sp_last_err = []\<rparr>"

definition sample_flow :: flow where
  "sample_flow = \<lparr>fl_state = ''st'', fl_nonce = ''no'', fl_pkce = ''ve'', fl_return = ''/'', fl_expires = 9\<rparr>"

lemma sample_exchange:
  "\<exists>ident. sso_exchange sample_oidc 5 ''code'' sample_flow sample_provider w = (Inr ident, sample_provider\<lparr>sp_ready := True\<rparr>, w) \<and>
     si_issuer ident = ''iss'' \<and> si_subject ident = ''b1''"
proof -
  have em: "normalize_email ''b@x.y'' = ''b@x.y''" "valid_email ''b@x.y''" using sample_address by (simp_all add: canonical_def)
  have em0: "normalize_email [] = []" by (simp add: normalize_email_def trim_space_def drop_spaces.simps space_len_def
      space_runes_def byte_def)
  let ?p = "sample_provider\<lparr>sp_ready := True\<rparr>"
  have acc: "sso_accept ?p [''b@x.y'', [], []] = [''b@x.y'']"
    by (simp add: sso_accept_def em em0 sso_allowed_def sample_provider_def)
  have ready: "sso_ready sample_oidc 5 sample_provider w = (None, ?p, w)"
    by (simp add: sso_ready_def sample_oidc_def sample_provider_def)
  let ?ident = "\<lparr>si_issuer = ''iss'', si_subject = ''b1'', si_name = trim_space ''Bob'', si_emails = [''b@x.y''], si_claims = Map.empty\<rparr>"
  let ?tok = "\<lparr>it_issuer = ''iss'', it_subject = ''b1'', it_nonce = ''no'', it_claims = Some sample_claims, it_all = None\<rparr>"
  have ten: "equal_fold ''t1'' ''t1''" by (simp add: equal_fold_def)
  have "assert_token sample_oidc ?p ''raw'' w = (Inr (?tok, ?ident), w)"
    using acc ten by (simp add: assert_token_def sample_oidc_def sample_claims_def sample_provider_def Let_def)
  then show ?thesis
    using ready by (simp add: sso_exchange_def) (simp add: sample_oidc_def sample_flow_def)
qed

lemma exchange_is_bound_witness:
  "\<exists>ident p' w'. sso_exchange sample_oidc 5 ''code'' sample_flow sample_provider () = (Inr ident, p', w') \<and>
     si_emails ident \<noteq> [] \<and> (\<forall>e \<in> set (si_emails ident). sso_allowed sample_provider e)"
proof -
  obtain ident where r: "sso_exchange sample_oidc 5 ''code'' sample_flow sample_provider () = (Inr ident, sample_provider\<lparr>sp_ready := True\<rparr>, ())"
    using sample_exchange[of "()"] by (elim exE conjE)
  show ?thesis using exchange_is_bound[OF r] r by auto
qed

end
