(* ===== verification/SignIn.thy ===== *)
theory SignIn
  imports Sso Queue Session
begin

text \<open>
  Signing in, \<^verbatim>\<open>src/internal/server/sso.go\<close>, and the password path and the session check of
  \<^verbatim>\<open>src/internal/server/server.go\<close> and \<^verbatim>\<open>src/internal/server/password.go\<close>: the handlers over the
  stores of \<open>Identity\<close>, \<open>Queue\<close>, \<open>Sso\<close>, \<open>Provision\<close> and \<open>Session\<close>.

  The server's state holds the in-memory tables, the stores and the outside world \<open>'w\<close>. A handler
  reads the clock once (\<open>now\<close>). Log lines are left out, and a message shown to a person is a
  constructor.
\<close>

section \<open>State and surroundings\<close>

datatype notice_text =
    TxUnavailable | TxExpired | TxNoCookie | TxDenied | TxState | TxTenant | TxNoAddress | TxUnverified
  | TxInternal | TxGate | TxNotAllowed | TxNoToken | TxPending | TxEnrollment string

datatype stage = StUnspecified | StRequested | StCreating | StAwaiting | StReady | StDenied | StFailed

datatype notice_kind = NkError | NkPending | NkEnrollment

record notice =
  no_kind :: notice_kind
  no_message :: notice_text
  no_address :: string
  no_enrollment :: string
  no_stage :: "stage option"
  no_expires :: time

record enroll_entry =
  en_username :: string
  en_stage :: stage
  en_expires :: time

record 'w srv =
  sv_provider :: "provider option"
  sv_flows :: flows
  sv_notices :: "string \<rightharpoonup> notice"
  sv_enroll :: "string \<rightharpoonup> enroll_entry"
  sv_ids :: "'w id_store"
  sv_queue :: "'w id_queue"
  sv_prov :: provisioner
  sv_sessions :: sessions
  sv_world :: 'w

text \<open>
  What the handlers are configured with and call. \<open>sx_draw\<close> is a fresh token, \<open>sx_enroll\<close> the
  control plane's enrollment service when there is one.
\<close>

record ('c, 'w) srv_env =
  sx_forward :: bool
  sx_trust_email :: bool
  sx_provision :: "prov_config option"
  sx_journal_path :: "string option"
  sx_oidc :: "'w oidc"
  sx_ids :: "'w id_disk"
  sx_pending :: "'w queue_disk"
  sx_journal :: "'w journal_disk"
  sx_epochs :: "'w epoch_disk"
  sx_hmac :: "string \<Rightarrow> string \<Rightarrow> string"
  sx_resolve :: "('c, 'w) resolver"
  sx_run :: "'w runner"
  sx_pdbedit :: string
  sx_ntlm_auth :: string
  sx_prov :: "'w prov_env"
  sx_draw :: "'w \<Rightarrow> (string + string) \<times> 'w"
  sx_draw_flow :: "'w \<Rightarrow> (string + string \<times> string \<times> string \<times> string) \<times> 'w"
  sx_enroll :: "(string \<Rightarrow> sso_identity \<Rightarrow> 'w \<Rightarrow> (string + string \<times> stage \<times> string) \<times> 'w) option"

definition sx_may :: "('c, 'w) srv_env \<Rightarrow> string \<Rightarrow> 'w \<Rightarrow> (auth_error + verdict) \<times> 'w" where
  "sx_may E user w = may_sign_in (sx_resolve E) (sx_run E) (sx_pdbedit E) user w"

definition sx_exists :: "('c, 'w) srv_env \<Rightarrow> string \<Rightarrow> 'w \<Rightarrow> bool \<times> 'w" where
  "sx_exists E user w = gate_exists (sx_resolve E) user w"

text \<open>An answer: the status, where it redirects to, and the cookies it sets or clears.\<close>

record http_reply =
  rp_status :: nat
  rp_location :: string
  rp_session :: "string option"
  rp_flow :: "string option"

definition answer :: "nat \<Rightarrow> http_reply" where
  "answer status = \<lparr>rp_status = status, rp_location = [], rp_session = None, rp_flow = None\<rparr>"

definition redirect :: "nat \<Rightarrow> string \<Rightarrow> http_reply" where
  "redirect status to = (answer status)\<lparr>rp_location := to\<rparr>"

section \<open>Notices\<close>

definition notice_ttl :: duration where "notice_ttl = 5 * minute"

definition notices_sweep :: "time \<Rightarrow> (string \<rightharpoonup> notice) \<Rightarrow> (string \<rightharpoonup> notice)" where
  "notices_sweep now m = map_filter_vals (\<lambda>v. \<not> now > no_expires v) m"

definition notices_put :: "time \<Rightarrow> string \<Rightarrow> notice \<Rightarrow> (string \<rightharpoonup> notice) \<Rightarrow> (string \<rightharpoonup> notice)" where
  "notices_put now k v m = (notices_sweep now m)(k \<mapsto> v\<lparr>no_expires := now + notice_ttl\<rparr>)"

definition notices_take :: "time \<Rightarrow> string \<Rightarrow> (string \<rightharpoonup> notice) \<Rightarrow> notice option \<times> (string \<rightharpoonup> notice)" where
  "notices_take now k m =
     (case m k of
        None \<Rightarrow> (None, m)
      | Some v \<Rightarrow> (let m = m(k := None) in if now > no_expires v then (None, m) else (Some v, m)))"

interpretation notice_table: ttl_table notice_ttl no_expires notices_put notices_take notices_sweep
proof unfold_locales
  show "no_expires u = now + notice_ttl" if "notices_put now k v m k = Some u" for now k v m u
    using that by (auto simp: notices_put_def)
  show "m j = Some u" if "j \<noteq> k" "notices_put now k v m j = Some u" for j k now v m u
    using that by (auto simp: notices_put_def notices_sweep_def)
  show "notices_take now k m =
      ((case m k of None \<Rightarrow> None | Some v \<Rightarrow> if no_expires v < now then None else Some v), m(k := None))" for now k m
    by (auto simp: notices_take_def Let_def split: option.splits)
  show "m j = Some u" if "notices_sweep now m j = Some u" for now m j u
    using that by (simp add: notices_sweep_def)
qed

text \<open>A drawn id is base 64, which \<^verbatim>\<open>url.QueryEscape\<close> leaves as it is.\<close>

definition srv_notice :: "('c, 'w) srv_env \<Rightarrow> time \<Rightarrow> notice \<Rightarrow> 'w srv \<Rightarrow> http_reply \<times> 'w srv" where
  "srv_notice E now v s =
     (case sx_draw E (sv_world s) of
        (Inl _, w) \<Rightarrow> (redirect 303 ''/'', s\<lparr>sv_world := w\<rparr>)
      | (Inr k, w) \<Rightarrow> (redirect 303 (''/?sso='' @ k), s\<lparr>sv_world := w, sv_notices := notices_put now k v (sv_notices s)\<rparr>))"

definition plain_notice :: "notice_kind \<Rightarrow> notice_text \<Rightarrow> string \<Rightarrow> notice" where
  "plain_notice k t a = \<lparr>no_kind = k, no_message = t, no_address = a, no_enrollment = [], no_stage = None, no_expires = 0\<rparr>"

definition sso_failure :: "('c, 'w) srv_env \<Rightarrow> time \<Rightarrow> notice_text \<Rightarrow> 'w srv \<Rightarrow> http_reply \<times> 'w srv" where
  "sso_failure E now t s = srv_notice E now (plain_notice NkError t []) s"

definition handle_sso_notice :: "time \<Rightarrow> string \<Rightarrow> 'w srv \<Rightarrow> notice option \<times> 'w srv" where
  "handle_sso_notice now k s = (case notices_take now k (sv_notices s) of (v, m) \<Rightarrow> (v, s\<lparr>sv_notices := m\<rparr>))"

section \<open>From an identity to an account\<close>

definition srv_journal :: "('c, 'w) srv_env \<Rightarrow> time \<Rightarrow> journal_entry \<Rightarrow> 'w srv \<Rightarrow> 'w srv" where
  "srv_journal E now e s = s\<lparr>sv_world := snd (journal_append (sx_journal E) now (sx_journal_path E) e (sv_world s))\<rparr>"

definition entry_for :: "string \<Rightarrow> string \<Rightarrow> sso_identity \<Rightarrow> string list \<Rightarrow> journal_entry" where
  "entry_for action account ident emails =
     \<lparr>je_at = 0, je_by = [], je_action = action, je_account = account, je_issuer = si_issuer ident,
      je_subject = si_subject ident, je_emails = emails\<rparr>"

definition account_from_email :: "string \<Rightarrow> string option" where
  "account_from_email email =
     (case cut email CHR ''@'' of
        (loc, _, ok) \<Rightarrow>
          (if \<not> ok \<or> loc = [] then None
           else (let loc = to_lower loc in if \<not> valid_name loc then None else Some loc)))"

fun first_account_name :: "string list \<Rightarrow> string option" where
  "first_account_name [] = None"
| "first_account_name (e # es) = (case account_from_email e of Some a \<Rightarrow> Some a | None \<Rightarrow> first_account_name es)"

text \<open>Lifting the identity store's operations to the server's state.\<close>

definition srv_ids_op ::
  "('w id_store \<Rightarrow> 'w \<Rightarrow> 'r \<times> 'w id_store \<times> 'w) \<Rightarrow> 'w srv \<Rightarrow> 'r \<times> 'w srv" where
  "srv_ids_op f s = (case f (sv_ids s) (sv_world s) of (r, ids, w) \<Rightarrow> (r, s\<lparr>sv_ids := ids, sv_world := w\<rparr>))"

text \<open>The addresses a known subject came with: each one not known yet is attached.\<close>

fun attach_emails :: "('c, 'w) srv_env \<Rightarrow> time \<Rightarrow> string \<Rightarrow> sso_identity \<Rightarrow> string list \<Rightarrow> 'w srv \<Rightarrow> 'w srv" where
  "attach_emails E now account ident [] s = s"
| "attach_emails E now account ident (e # es) s =
     (case srv_ids_op (id_by_email (sx_ids E) e) s of
        (Some _, s) \<Rightarrow> attach_emails E now account ident es s
      | (None, s) \<Rightarrow>
          (case srv_ids_op (id_attach_email (sx_ids E) account e now) s of
             (Some _, s) \<Rightarrow> attach_emails E now account ident es s
           | (None, s) \<Rightarrow>
               attach_emails E now account ident es (srv_journal E now (entry_for ''attach'' account ident [e]) s)))"

text \<open>\<^verbatim>\<open>errors.Is(err, ErrSubjectPinned) || errors.Is(err, ErrTaken)\<close>.\<close>

definition bound_elsewhere :: "id_error sf_error \<Rightarrow> bool" where
  "bound_elsewhere e = (case e of SfClient (IdPinned _) \<Rightarrow> True | SfClient (IdTaken _) \<Rightarrow> True | _ \<Rightarrow> False)"

text \<open>
  An answer of \<open>resolve_identity\<close> is an error or an account, \<open>None\<close> for the empty name; the two
  loops answer \<open>None\<close> when they find nothing and the next step is to be taken.
\<close>

fun pin_by_email ::
  "('c, 'w) srv_env \<Rightarrow> time \<Rightarrow> sso_identity \<Rightarrow> string list \<Rightarrow> 'w srv \<Rightarrow> (id_error sf_error + string option) option \<times> 'w srv" where
  "pin_by_email E now ident [] s = (None, s)"
| "pin_by_email E now ident (e # es) s =
     (case srv_ids_op (id_by_email (sx_ids E) e) s of
        (None, s) \<Rightarrow> pin_by_email E now ident es s
      | (Some account, s) \<Rightarrow>
          (case srv_ids_op (id_pin (sx_ids E) account (si_issuer ident) (si_subject ident) now) s of
             (Some err, s) \<Rightarrow> (Some (if bound_elsewhere err then Inr None else Inl err), s)
           | (None, s) \<Rightarrow>
               (Some (Inr (Some account)), srv_journal E now (entry_for ''pin'' account ident [e]) s)))"

fun trust_email ::
  "('c, 'w) srv_env \<Rightarrow> time \<Rightarrow> sso_identity \<Rightarrow> string list \<Rightarrow> 'w srv \<Rightarrow> (id_error sf_error + string option) option \<times> 'w srv" where
  "trust_email E now ident [] s = (None, s)"
| "trust_email E now ident (e # es) s =
     (case account_from_email e of
        None \<Rightarrow> trust_email E now ident es s
      | Some account \<Rightarrow>
          (case sx_exists E account (sv_world s) of
             (False, w) \<Rightarrow> trust_email E now ident es (s\<lparr>sv_world := w\<rparr>)
           | (True, w) \<Rightarrow>
               (case srv_ids_op (id_approve (sx_ids E) account (si_issuer ident) (si_subject ident) [e] ''trust-email'' now)
                   (s\<lparr>sv_world := w\<rparr>) of
                  (Inl err, s) \<Rightarrow> (Some (if bound_elsewhere err then Inr None else Inl err), s)
                | (Inr _, s) \<Rightarrow>
                    (Some (Inr (Some account)), srv_journal E now (entry_for ''trust-email'' account ident [e]) s))))"

text \<open>
  A wait that did not return would leave the request open; \<open>provision_wait_ends\<close> says when it
  returns, and here one that does not is a refusal.
\<close>

definition awaited :: "('c, 'w) srv_env \<Rightarrow> prov_config \<Rightarrow> string \<Rightarrow> 'w \<Rightarrow> bool \<times> 'w" where
  "awaited E cfg account w = (case prov_await (sx_prov E) cfg account w of None \<Rightarrow> (False, w) | Some r \<Rightarrow> r)"

definition srv_provision :: "('c, 'w) srv_env \<Rightarrow> time \<Rightarrow> sso_identity \<Rightarrow> 'w srv \<Rightarrow> string option \<times> 'w srv" where
  "srv_provision E now ident s =
     (case sx_provision E of
        None \<Rightarrow> (None, s)
      | Some cfg \<Rightarrow>
          (let req = \<lparr>pq_issuer = si_issuer ident, pq_subject = si_subject ident, pq_emails = si_emails ident,
                      pq_name = si_name ident\<rparr>
           in case prov_run (sx_prov E) (Some cfg) req (si_claims ident) (sv_prov s) (sv_world s) of
                (out, p, w) \<Rightarrow>
                  (let s = s\<lparr>sv_prov := p, sv_world := w\<rparr>
                   in if ou_kind out \<noteq> Created then (None, s)
                      else
                        (case awaited E cfg (ou_account out) (sv_world s) of
                           (False, w) \<Rightarrow> (None, s\<lparr>sv_world := w\<rparr>)
                         | (True, w) \<Rightarrow>
                             (case srv_ids_op (id_approve (sx_ids E) (ou_account out) (si_issuer ident) (si_subject ident)
                                  (si_emails ident) (''provision:'' @ ou_rule out) now) (s\<lparr>sv_world := w\<rparr>) of
                                (Inl _, s) \<Rightarrow> (None, s)
                              | (Inr _, s) \<Rightarrow>
                                  (Some (ou_account out),
                                   srv_journal E now (entry_for ''provision'' (ou_account out) ident (si_emails ident)) s))))))"

definition resolve_identity ::
  "('c, 'w) srv_env \<Rightarrow> time \<Rightarrow> sso_identity \<Rightarrow> 'w srv \<Rightarrow> (id_error sf_error + string option) \<times> 'w srv" where
  "resolve_identity E now ident s =
     (case srv_ids_op (id_by_subject (sx_ids E) (si_issuer ident) (si_subject ident)) s of
        (Some account, s) \<Rightarrow> (Inr (Some account), attach_emails E now account ident (si_emails ident) s)
      | (None, s) \<Rightarrow>
          (case pin_by_email E now ident (si_emails ident) s of
             (Some r, s) \<Rightarrow> (r, s)
           | (None, s) \<Rightarrow>
               (case (if sx_trust_email E then trust_email E now ident (si_emails ident) s else (None, s)) of
                  (Some r, s) \<Rightarrow> (r, s)
                | (None, s) \<Rightarrow> (case srv_provision E now ident s of (a, s) \<Rightarrow> (Inr a, s)))))"

section \<open>An identity nobody here answers for\<close>

definition queue_request :: "('c, 'w) srv_env \<Rightarrow> time \<Rightarrow> sso_identity \<Rightarrow> 'w srv \<Rightarrow> http_reply \<times> 'w srv" where
  "queue_request E now ident s =
     (let req = \<lparr>rq_issuer = si_issuer ident, rq_subject = si_subject ident, rq_emails = si_emails ident,
                rq_name = si_name ident, rq_first = 0, rq_last = 0, rq_count = 0\<rparr>;
          addr = (case si_emails ident of [] \<Rightarrow> [] | a # _ \<Rightarrow> a)
      in case queue_record (sx_pending E) req now (sv_queue s) (sv_world s) of
           (_, q, w) \<Rightarrow> srv_notice E now (plain_notice NkPending TxPending addr) (s\<lparr>sv_queue := q, sv_world := w\<rparr>))"

definition enroll_ttl :: duration where "enroll_ttl = 30 * minute"

definition queue_identity :: "('c, 'w) srv_env \<Rightarrow> time \<Rightarrow> sso_identity \<Rightarrow> 'w srv \<Rightarrow> http_reply \<times> 'w srv" where
  "queue_identity E now ident s =
     (case (sx_enroll E, first_account_name (si_emails ident)) of
        (Some add, Some username) \<Rightarrow>
          (case add username ident (sv_world s) of
             (Inl _, w) \<Rightarrow> queue_request E now ident (s\<lparr>sv_world := w\<rparr>)
           | (Inr (k, st, msg), w) \<Rightarrow>
               (let s = s\<lparr>sv_world := w, sv_enroll := (sv_enroll s)(k \<mapsto>
                           \<lparr>en_username = username, en_stage = st, en_expires = now + enroll_ttl\<rparr>)\<rparr>;
                    addr = (case si_emails ident of [] \<Rightarrow> [] | a # _ \<Rightarrow> a)
                in srv_notice E now
                     \<lparr>no_kind = NkEnrollment, no_message = TxEnrollment msg, no_address = addr, no_enrollment = k,
                      no_stage = Some st, no_expires = 0\<rparr> s))
      | _ \<Rightarrow> queue_request E now ident s)"

section \<open>The handlers\<close>

text \<open>\<^verbatim>\<open>url.QueryEscape\<close>.\<close>

fun query_escape :: "string \<Rightarrow> string" where
  "query_escape [] = []"
| "query_escape (c # s) =
     (if lower_alpha c \<or> upper_alpha c \<or> digit c \<or> c = CHR ''-'' \<or> c = CHR ''.'' \<or> c = CHR ''_'' \<or> c = CHR ''~''
      then c # query_escape s
      else if c = CHR '' '' then CHR ''+'' # query_escape s
      else CHR ''%'' # hex_upper ! (of_char c div 16) # hex_upper ! (of_char c mod 16) # query_escape s)"

definition handle_sso_login :: "('c, 'w) srv_env \<Rightarrow> time \<Rightarrow> string \<Rightarrow> 'w srv \<Rightarrow> http_reply \<times> 'w srv" where
  "handle_sso_login E now ret s =
     (case sv_provider s of
        None \<Rightarrow> (answer 404, s)
      | Some p \<Rightarrow>
          (if sx_forward E then
             (redirect 302 (''/api/sso/forward'' @ (if ret \<noteq> [] then ''?rd='' @ query_escape ret else [])), s)
           else
             (case sx_draw_flow E (sv_world s) of
                (fresh, w) \<Rightarrow>
                  (case flows_begin now fresh ret (sv_flows s) of
                     (Inl _, m) \<Rightarrow> (answer 500, s\<lparr>sv_world := w, sv_flows := m\<rparr>)
                   | (Inr (k, f), m) \<Rightarrow>
                       (case sso_auth_code_url (sx_oidc E) now f p w of
                          (Inl _, p, w) \<Rightarrow>
                            sso_failure E now TxUnavailable (s\<lparr>sv_world := w, sv_flows := m, sv_provider := Some p\<rparr>)
                        | (Inr target, p, w) \<Rightarrow>
                            ((redirect 302 target)\<lparr>rp_flow := Some k\<rparr>,
                             s\<lparr>sv_world := w, sv_flows := m, sv_provider := Some p\<rparr>))))))"

definition exchange_text :: "sso_error \<Rightarrow> notice_text" where
  "exchange_text e =
     (case e of SsoUnavailable _ \<Rightarrow> TxUnavailable | SsoWrongTenant _ \<Rightarrow> TxTenant | SsoNoAddress \<Rightarrow> TxNoAddress
      | SsoRejected _ \<Rightarrow> TxUnverified)"

text \<open>From a verified identity on, the two ways in are the same: resolve, ask the gate, open a session.\<close>

definition sign_in :: "('c, 'w) srv_env \<Rightarrow> time \<Rightarrow> sso_identity \<Rightarrow> string \<Rightarrow> 'w srv \<Rightarrow> http_reply \<times> 'w srv" where
  "sign_in E now ident to s =
     (case resolve_identity E now ident s of
        (Inl _, s) \<Rightarrow> sso_failure E now TxInternal s
      | (Inr None, s) \<Rightarrow> queue_identity E now ident s
      | (Inr (Some account), s) \<Rightarrow>
          (case sx_may E account (sv_world s) of
             (Inl _, w) \<Rightarrow> sso_failure E now TxGate (s\<lparr>sv_world := w\<rparr>)
           | (Inr v, w) \<Rightarrow>
               (let s = s\<lparr>sv_world := w\<rparr>
                in if \<not> v_allowed v then sso_failure E now TxNotAllowed s
                   else
                     ((redirect 303 to)\<lparr>rp_session := Some (session_create (sx_hmac E) now account (sv_sessions s))\<rparr>, s))))"

text \<open>\<open>q_error\<close>, \<open>q_state\<close> and \<open>q_code\<close> are the query parameters, empty when absent.\<close>

definition handle_sso_callback ::
  "('c, 'w) srv_env \<Rightarrow> time \<Rightarrow> string option \<Rightarrow> string \<Rightarrow> string \<Rightarrow> string \<Rightarrow> 'w srv \<Rightarrow> http_reply \<times> 'w srv" where
  "handle_sso_callback E now cookie q_error q_state q_code s =
     (case sv_provider s of
        None \<Rightarrow> (answer 404, s)
      | Some p \<Rightarrow>
          (case (case cookie of
               None \<Rightarrow> sso_failure E now TxNoCookie s
             | Some c \<Rightarrow>
                 (case flows_take now c (sv_flows s) of
                    (None, m) \<Rightarrow> sso_failure E now TxExpired (s\<lparr>sv_flows := m\<rparr>)
                  | (Some f, m) \<Rightarrow>
                      (let s = s\<lparr>sv_flows := m\<rparr>
                       in if q_error \<noteq> [] then sso_failure E now TxDenied s
                          else if q_state \<noteq> fl_state f then sso_failure E now TxState s
                          else
                            (case sso_exchange (sx_oidc E) now q_code f p (sv_world s) of
                               (r, p, w) \<Rightarrow>
                                 (let s = s\<lparr>sv_provider := Some p, sv_world := w\<rparr>
                                  in case r of
                                       Inl e \<Rightarrow> sso_failure E now (exchange_text e) s
                                     | Inr ident \<Rightarrow> sign_in E now ident (fl_return f) s))))) of
             (r, s) \<Rightarrow> (r\<lparr>rp_flow := Some []\<rparr>, s)))"

definition bearer_token :: "string \<Rightarrow> string" where
  "bearer_token h =
     (if length h > 7 \<and> equal_fold (take 7 h) ''Bearer '' then trim_space (drop 7 h) else [])"

definition local_return :: "string \<Rightarrow> string" where
  "local_return rd = (if rd = [] \<or> \<not> has_prefix rd ''/'' \<or> has_prefix rd ''//'' then ''/'' else rd)"

definition handle_sso_forward :: "('c, 'w) srv_env \<Rightarrow> time \<Rightarrow> string \<Rightarrow> string \<Rightarrow> 'w srv \<Rightarrow> http_reply \<times> 'w srv" where
  "handle_sso_forward E now authorization rd s =
     (case sv_provider s of
        None \<Rightarrow> (answer 404, s)
      | Some p \<Rightarrow>
          (if \<not> sx_forward E then (answer 404, s)
           else
             (let raw = bearer_token authorization
              in if raw = [] then sso_failure E now TxNoToken s
                 else
                   (case sso_assert (sx_oidc E) now raw p (sv_world s) of
                      (r, p, w) \<Rightarrow>
                        (let s = s\<lparr>sv_provider := Some p, sv_world := w\<rparr>
                         in case r of
                              Inl e \<Rightarrow> sso_failure E now (exchange_text e) s
                            | Inr ident \<Rightarrow> sign_in E now ident (local_return rd) s)))))"

definition sweep_sso :: "('c, 'w) srv_env \<Rightarrow> time \<Rightarrow> 'w srv \<Rightarrow> 'w srv" where
  "sweep_sso E now s =
     (case sv_provider s of
        None \<Rightarrow> s
      | Some _ \<Rightarrow>
          (let s = s\<lparr>sv_flows := flows_sweep now (sv_flows s), sv_notices := notices_sweep now (sv_notices s),
                     sv_enroll := map_filter_vals (\<lambda>v. \<not> now > en_expires v) (sv_enroll s)\<rparr>
           in case queue_sweep_op (sx_pending E) now (sv_queue s) (sv_world s) of
                (_, q, w) \<Rightarrow> s\<lparr>sv_queue := q, sv_world := w\<rparr>))"

section \<open>Deciding about the queue\<close>

text \<open>\<open>managed\<close> is whether the roster declares the account; \<open>admin\<close> is who decides.\<close>

definition handle_identity_approve ::
  "('c, 'w) srv_env \<Rightarrow> time \<Rightarrow> (string \<Rightarrow> 'w \<Rightarrow> bool \<times> 'w) \<Rightarrow> string \<Rightarrow> string \<Rightarrow> string \<Rightarrow> string \<Rightarrow> 'w srv \<Rightarrow>
   (nat + mapping_entry) \<times> 'w srv" where
  "handle_identity_approve E now managed admin account issuer subject s =
     (case managed account (sv_world s) of
        (False, w) \<Rightarrow> (Inl 400, s\<lparr>sv_world := w\<rparr>)
      | (True, w) \<Rightarrow>
          (case queue_get (sx_pending E) issuer subject (sv_queue s) w of
             (None, q, w) \<Rightarrow> (Inl 404, s\<lparr>sv_queue := q, sv_world := w\<rparr>)
           | (Some req, q, w) \<Rightarrow>
               (case srv_ids_op (id_approve (sx_ids E) account (rq_issuer req) (rq_subject req) (rq_emails req) admin now)
                   (s\<lparr>sv_queue := q, sv_world := w\<rparr>) of
                  (Inl e, s) \<Rightarrow> (Inl (if bound_elsewhere e then 409 else 400), s)
                | (Inr m, s) \<Rightarrow>
                    (case queue_discard (sx_pending E) now (rq_issuer req) (rq_subject req) (sv_queue s) (sv_world s) of
                       (_, q, w) \<Rightarrow>
                         (Inr m,
                          srv_journal E now
                            \<lparr>je_at = 0, je_by = admin, je_action = ''approve'', je_account = account,
                             je_issuer = rq_issuer req, je_subject = rq_subject req, je_emails = rq_emails req\<rparr>
                            (s\<lparr>sv_queue := q, sv_world := w\<rparr>))))))"

definition handle_identity_discard ::
  "('c, 'w) srv_env \<Rightarrow> time \<Rightarrow> string \<Rightarrow> string \<Rightarrow> string \<Rightarrow> 'w srv \<Rightarrow> nat \<times> 'w srv" where
  "handle_identity_discard E now admin issuer subject s =
     (case queue_discard (sx_pending E) now issuer subject (sv_queue s) (sv_world s) of
        (Some _, q, w) \<Rightarrow> (404, s\<lparr>sv_queue := q, sv_world := w\<rparr>)
      | (None, q, w) \<Rightarrow>
          (204, srv_journal E now
             \<lparr>je_at = 0, je_by = admin, je_action = ''discard'', je_account = [], je_issuer = issuer, je_subject = subject,
              je_emails = []\<rparr> (s\<lparr>sv_queue := q, sv_world := w\<rparr>)))"

definition handle_identity_forget ::
  "('c, 'w) srv_env \<Rightarrow> time \<Rightarrow> string \<Rightarrow> string \<Rightarrow> 'w srv \<Rightarrow> nat \<times> 'w srv" where
  "handle_identity_forget E now admin account s =
     (case srv_ids_op (id_forget (sx_ids E) account) s of
        (Some _, s) \<Rightarrow> (404, s)
      | (None, s) \<Rightarrow>
          (204, srv_journal E now
             \<lparr>je_at = 0, je_by = admin, je_action = ''forget'', je_account = account, je_issuer = [], je_subject = [],
              je_emails = []\<rparr> s))"

section \<open>Following an enrollment\<close>

definition terminal_stage :: "stage \<Rightarrow> bool" where
  "terminal_stage st \<longleftrightarrow> st = StReady \<or> st = StDenied"

text \<open>An event: the stage, and the account once it is ready. A choice is what the \<^verbatim>\<open>select\<close> took.\<close>

datatype wake = WkGone | WkDeadline | WkTick

definition enroll_event :: "enroll_entry \<Rightarrow> stage \<Rightarrow> stage \<times> string" where
  "enroll_event en st = (st, if st = StReady then en_username en else [])"

fun enroll_loop :: "('c, 'w) srv_env \<Rightarrow> enroll_entry \<Rightarrow> wake list \<Rightarrow> 'w \<Rightarrow> (stage \<times> string) list \<times> 'w" where
  "enroll_loop E en [] w = ([], w)"
| "enroll_loop E en (k # ks) w =
     (case k of
        WkTick \<Rightarrow>
          (case sx_may E (en_username en) w of
             (r, w) \<Rightarrow>
               (if (case r of Inr v \<Rightarrow> v_allowed v | Inl _ \<Rightarrow> False) then ([enroll_event en StReady], w)
                else (case enroll_loop E en ks w of (evs, w) \<Rightarrow> (enroll_event en (en_stage en) # evs, w))))
      | _ \<Rightarrow> ([], w))"

definition handle_sso_enrollment ::
  "('c, 'w) srv_env \<Rightarrow> string \<Rightarrow> wake list \<Rightarrow> 'w srv \<Rightarrow> (nat + (stage \<times> string) list) \<times> 'w srv" where
  "handle_sso_enrollment E k wakes s =
     (case sv_enroll s k of
        None \<Rightarrow> (Inl 404, s)
      | Some en \<Rightarrow>
          (if terminal_stage (en_stage en) then (Inr [enroll_event en (en_stage en)], s)
           else
             (case enroll_loop E en wakes (sv_world s) of
                (evs, w) \<Rightarrow> (Inr (enroll_event en (en_stage en) # evs), s\<lparr>sv_world := w\<rparr>))))"

section \<open>The password path and the session check\<close>

definition handle_login :: "('c, 'w) srv_env \<Rightarrow> time \<Rightarrow> (string \<times> string) option \<Rightarrow> 'w srv \<Rightarrow> http_reply \<times> 'w srv" where
  "handle_login E now body s =
     (case body of
        None \<Rightarrow> (answer 400, s)
      | Some (user, pw) \<Rightarrow>
          (case authenticate (sx_run E) (sx_ntlm_auth E) user pw (sv_world s) of
             (Inl _, w) \<Rightarrow> (answer 503, s\<lparr>sv_world := w\<rparr>)
           | (Inr ok, w) \<Rightarrow>
               (let s = s\<lparr>sv_world := w\<rparr>
                in if \<not> ok then (answer 401, s)
                   else ((answer 200)\<lparr>rp_session := Some (session_create (sx_hmac E) now user (sv_sessions s))\<rparr>, s))))"

definition handle_logout :: "'w srv \<Rightarrow> http_reply \<times> 'w srv" where
  "handle_logout s = ((answer 204)\<lparr>rp_session := Some []\<rparr>, s)"

text \<open>A session cookie set to the empty string is one that is cleared. The user a request runs as.\<close>

definition srv_lookup :: "('c, 'w) srv_env \<Rightarrow> time \<Rightarrow> string \<Rightarrow> 'w srv \<Rightarrow> string option \<times> 'w srv" where
  "srv_lookup E now token s =
     (case session_lookup (sx_hmac E) (sx_epochs E) now token (sv_sessions s) (sv_world s) of
        (r, ss, w) \<Rightarrow> (r, s\<lparr>sv_sessions := ss, sv_world := w\<rparr>))"

definition srv_authed :: "('c, 'w) srv_env \<Rightarrow> time \<Rightarrow> string option \<Rightarrow> 'w srv \<Rightarrow> (http_reply + string) \<times> 'w srv" where
  "srv_authed E now cookie s =
     (case cookie of
        None \<Rightarrow> (Inl (answer 401), s)
      | Some c \<Rightarrow>
          (case srv_lookup E now c s of
             (None, s) \<Rightarrow> (Inl ((answer 401)\<lparr>rp_session := Some []\<rparr>), s)
           | (Some user, s) \<Rightarrow> (Inr user, s)))"

definition srv_authed_or_anon ::
  "('c, 'w) srv_env \<Rightarrow> time \<Rightarrow> string \<Rightarrow> string option \<Rightarrow> 'w srv \<Rightarrow> (http_reply + string) \<times> 'w srv" where
  "srv_authed_or_anon E now anonymous cookie s =
     (case (case cookie of None \<Rightarrow> (None, s) | Some c \<Rightarrow> srv_lookup E now c s) of
        (Some user, s) \<Rightarrow> (Inr user, s)
      | (None, s) \<Rightarrow> if anonymous = [] then (Inl (answer 401), s) else (Inr anonymous, s))"

text \<open>
  Changing the password: \<open>passwords\<close> is the store's program when one is configured. An answer of
  200 carries the re-issued cookie.
\<close>

definition handle_password ::
  "('c, 'w) srv_env \<Rightarrow> time \<Rightarrow> string option \<Rightarrow> string \<Rightarrow> (string \<times> string) option \<Rightarrow> 'w srv \<Rightarrow> http_reply \<times> 'w srv" where
  "handle_password E now passwords user body s =
     (case passwords of
        None \<Rightarrow> (answer 404, s)
      | Some prog \<Rightarrow>
          (case body of
             None \<Rightarrow> (answer 400, s)
           | Some (current, new) \<Rightarrow>
               (if check_password new \<noteq> None then (answer 400, s)
                else if new = current then (answer 400, s)
                else
                  (case authenticate (sx_run E) (sx_ntlm_auth E) user current (sv_world s) of
                     (Inl _, w) \<Rightarrow> (answer 503, s\<lparr>sv_world := w\<rparr>)
                   | (Inr False, w) \<Rightarrow> (answer 401, s\<lparr>sv_world := w\<rparr>)
                   | (Inr True, w) \<Rightarrow>
                       (case password_set (sx_run E) prog user new w of
                          (Some (ErrWeakPassword _), w) \<Rightarrow> (answer 400, s\<lparr>sv_world := w\<rparr>)
                        | (Some _, w) \<Rightarrow> (answer 503, s\<lparr>sv_world := w\<rparr>)
                        | (None, w) \<Rightarrow>
                            (case session_delete_others (sx_epochs E) now user (sv_sessions s) w of
                               (_, ss, w) \<Rightarrow>
                                 ((answer 200)\<lparr>rp_session := Some (session_create (sx_hmac E) now user ss)\<rparr>,
                                  s\<lparr>sv_sessions := ss, sv_world := w\<rparr>)))))))"

section \<open>What the steps leave alone\<close>

lemma ids_op_frame [simp]:
  "srv_ids_op f s = (r, s') \<Longrightarrow> sv_flows s' = sv_flows s \<and> sv_sessions s' = sv_sessions s \<and> sv_queue s' = sv_queue s"
  by (auto simp: srv_ids_op_def split: prod.splits)

lemma journal_frame [simp]:
  "sv_flows (srv_journal E now e s) = sv_flows s" "sv_sessions (srv_journal E now e s) = sv_sessions s"
  "sv_ids (srv_journal E now e s) = sv_ids s"
  by (simp_all add: srv_journal_def)

definition same_tables :: "'w srv \<Rightarrow> 'w srv \<Rightarrow> bool" where
  "same_tables s s' \<longleftrightarrow> sv_flows s' = sv_flows s \<and> sv_sessions s' = sv_sessions s"

lemma same_tables_ids: "srv_ids_op f s = (r, s') \<Longrightarrow> same_tables s s'"
  by (auto simp: same_tables_def dest: ids_op_frame)

lemma same_tables_trans: "same_tables s s' \<Longrightarrow> same_tables s' s'' \<Longrightarrow> same_tables s s''"
  by (simp add: same_tables_def)

lemma same_tables_journal: "same_tables s s' \<Longrightarrow> same_tables s (srv_journal E now e s')"
  by (simp add: same_tables_def)

lemma same_tables_world: "same_tables (s\<lparr>sv_world := w\<rparr>) s' \<Longrightarrow> same_tables s s'"
  by (simp add: same_tables_def)

lemma attach_tables: "same_tables s (attach_emails E now account ident es s)"
proof (induction es arbitrary: s)
  case Nil
  then show ?case by (simp add: same_tables_def)
next
  case (Cons e es)
  note next_tables = same_tables_trans[OF _ Cons.IH]
  show ?case
    by (auto split: prod.splits option.splits dest!: same_tables_ids
        intro!: next_tables intro: same_tables_trans same_tables_journal)
qed

lemma pin_tables: "pin_by_email E now ident es s = (r, s') \<Longrightarrow> same_tables s s'"
proof (induction es arbitrary: s)
  case Nil
  then show ?case by (simp add: same_tables_def)
next
  case (Cons e es)
  then show ?case
    by (auto split: prod.splits option.splits if_splits dest!: same_tables_ids intro: same_tables_trans same_tables_journal)
qed

lemma trust_tables: "trust_email E now ident es s = (r, s') \<Longrightarrow> same_tables s s'"
proof (induction es arbitrary: s)
  case Nil
  then show ?case by (simp add: same_tables_def)
next
  case (Cons e es)
  then show ?case
    by (auto split: prod.splits option.splits bool.splits sum.splits if_splits dest!: same_tables_ids
        intro: same_tables_trans same_tables_journal same_tables_world)
qed

lemma provision_tables: "srv_provision E now ident s = (r, s') \<Longrightarrow> same_tables s s'"
  by (auto simp: srv_provision_def Let_def same_tables_def split: option.splits prod.splits sum.splits bool.splits if_splits
      dest!: ids_op_frame)

lemma resolve_tables:
  assumes "resolve_identity E now ident s = (r, s')" shows "same_tables s s'"
  using assms
  by (auto simp: resolve_identity_def split: option.splits prod.splits if_splits
      dest!: same_tables_ids pin_tables trust_tables provision_tables
      intro: same_tables_trans same_tables_trans[OF _ attach_tables])

section \<open>Who gets a session\<close>

lemma notice_session [simp]: "rp_session (fst (srv_notice E now v s)) = None"
  by (simp add: srv_notice_def redirect_def answer_def split: prod.splits sum.splits)

lemma failure_session [simp]: "rp_session (fst (sso_failure E now t s)) = None"
  by (simp add: sso_failure_def)

lemma queue_session [simp]: "rp_session (fst (queue_identity E now ident s)) = None"
  by (auto simp: queue_identity_def queue_request_def Let_def split: option.splits prod.splits sum.splits)

lemma failure_session': "sso_failure E now t s = (r, s') \<Longrightarrow> rp_session r = None"
  using failure_session[of E now t s] by simp

lemma queue_session': "queue_identity E now ident s = (r, s') \<Longrightarrow> rp_session r = None"
  using queue_session[of E now ident s] by simp

text \<open>The step every single sign-on ends with when it opens a session.\<close>

definition admitted ::
  "('c, 'w) srv_env \<Rightarrow> time \<Rightarrow> sso_identity \<Rightarrow> 'w srv \<Rightarrow> string \<Rightarrow> string \<Rightarrow> bool" where
  "admitted E now ident s account token \<longleftrightarrow>
     (\<exists>s1 v w. resolve_identity E now ident s = (Inr (Some account), s1) \<and>
        sx_may E account (sv_world s1) = (Inr v, w) \<and> v_allowed v \<and>
        token = session_create (sx_hmac E) now account (sv_sessions s))"

lemma sign_in_session:
  assumes "sign_in E now ident to s = (r, s')" and "rp_session r = Some token"
  shows "(\<exists>account. admitted E now ident s account token) \<and> rp_location r = to \<and> sv_flows s' = sv_flows s"
proof -
  obtain a s1 where a: "resolve_identity E now ident s = (a, s1)" by (metis prod.collapse)
  have "sv_flows s1 = sv_flows s" "sv_sessions s1 = sv_sessions s" using resolve_tables[OF a] by (simp_all add: same_tables_def)
  moreover obtain account where account: "a = Inr (Some account)"
    using assms a failure_session'[of E now TxInternal s1] queue_session'[of E now ident s1]
    by (cases a) (auto simp: sign_in_def split: option.splits)
  moreover obtain q w where q: "sx_may E account (sv_world s1) = (q, w)" by (metis prod.collapse)
  moreover obtain v where v: "q = Inr v" "v_allowed v"
    using assms a account q failure_session'[of E now TxGate "s1\<lparr>sv_world := w\<rparr>"] failure_session'[of E now TxNotAllowed "s1\<lparr>sv_world := w\<rparr>"]
    by (cases q) (auto simp: sign_in_def Let_def split: if_splits)
  moreover have "r = (redirect 303 to)\<lparr>rp_session := Some (session_create (sx_hmac E) now account (sv_sessions s1))\<rparr> \<and> s' = s1\<lparr>sv_world := w\<rparr>"
    using assms a account q v by (simp add: sign_in_def Let_def)
  ultimately show ?thesis using assms(2) a by (auto simp: admitted_def redirect_def)
qed

text \<open>C22: The code flow opens a session only for this browser's sign-in, and only through the gate. If
  the callback sets a session cookie, then the request carried the cookie of a flow begun here
  that has not expired, no error and that flow's state; the provider's answer verified for that
  flow; the identity resolved to an account the gate allows; the cookie is that account's, and the
  browser goes back where it started. The flow is spent.\<close>

theorem callback_session:
  assumes "handle_sso_callback E now cookie q_error q_state q_code s = (r, s')" and "rp_session r = Some token"
  shows "\<exists>c f p ident p1 w1 account. cookie = Some c \<and> sv_flows s c = Some f \<and> now \<le> fl_expires f \<and>
    q_error = [] \<and> q_state = fl_state f \<and> sv_provider s = Some p \<and>
    sso_exchange (sx_oidc E) now q_code f p (sv_world s) = (Inr ident, p1, w1) \<and>
    admitted E now ident (s\<lparr>sv_flows := (sv_flows s)(c := None), sv_provider := Some p1, sv_world := w1\<rparr>) account token \<and>
    rp_location r = fl_return f \<and> sv_flows s' c = None"
proof -
  note none = failure_session'
  obtain p where p: "sv_provider s = Some p"
    using assms by (auto simp: handle_sso_callback_def answer_def split: option.splits)
  obtain c where c: "cookie = Some c"
    using assms p none[of E now TxNoCookie s] by (cases cookie) (auto simp: handle_sso_callback_def split: prod.splits)
  obtain fo m where t: "flows_take now c (sv_flows s) = (fo, m)" by (metis prod.collapse)
  obtain f where f: "fo = Some f"
    using assms p c t none[of E now TxExpired "s\<lparr>sv_flows := m\<rparr>"]
    by (cases fo) (auto simp: handle_sso_callback_def split: prod.splits)
  have m: "sv_flows s c = Some f" "now \<le> fl_expires f" "m = (sv_flows s)(c := None)"
    using t f by (auto simp: flows_take_def Let_def split: option.splits if_splits)
  have q: "q_error = []" "q_state = fl_state f"
    using assms p c t f none[of E now TxDenied "s\<lparr>sv_flows := m\<rparr>"] none[of E now TxState "s\<lparr>sv_flows := m\<rparr>"]
    by (auto simp: handle_sso_callback_def Let_def split: prod.splits if_splits)
  obtain x p1 w1 where x: "sso_exchange (sx_oidc E) now q_code f p (sv_world s) = (x, p1, w1)" by (metis prod.collapse)
  let ?s = "s\<lparr>sv_flows := m, sv_provider := Some p1, sv_world := w1\<rparr>"
  obtain ident where ident: "x = Inr ident"
    using assms p c t f q x none[of E now _ ?s]
    by (cases x) (auto simp: handle_sso_callback_def Let_def split: prod.splits)
  obtain r1 s1 where r1: "sign_in E now ident (fl_return f) ?s = (r1, s1)" by (metis prod.collapse)
  have r: "r = r1\<lparr>rp_flow := Some []\<rparr>" "s' = s1"
    using assms p c t f q x ident r1 by (simp_all add: handle_sso_callback_def Let_def)
  have "rp_session r1 = Some token" "rp_location r = rp_location r1" using r assms(2) by simp_all
  from sign_in_session[OF r1 this(1)] this(2) p c q m x ident r(2) show ?thesis by auto
qed

section \<open>What an identity is bound to\<close>

text \<open>Whatever the file holds now, a replica of it can read it.\<close>

definition id_readable :: "string \<Rightarrow> ('w \<Rightarrow> mapping_entry list doc stored option) \<Rightarrow> 'w id_disk \<Rightarrow> mapping_entry list doc stored option \<Rightarrow> bool" where
  "id_readable p file D fo \<longleftrightarrow> (\<forall>s w. file w = fo \<longrightarrow> id_replica p s fo \<longrightarrow> id_reload_ok D s w)"

lemma lookup_current:
  assumes laws: "disk_laws p file temp D" and s: "id_replica p s (file w)" and readable: "id_readable p file D (file w)"
  shows "id_by_email D email s w = (r, s', w') \<Longrightarrow>
      file w' = file w \<and> id_replica p s' (file w) \<and> (r = Some a \<longrightarrow> by_email (id_committed (file w)) (normalize_email email) = Some a)"
    and "id_by_subject D issuer subject s w = (r, s', w') \<Longrightarrow>
      file w' = file w \<and> id_replica p s' (file w) \<and> (r = Some a \<longrightarrow> by_subject (id_committed (file w)) (subject_key issuer subject) = Some a)"
proof -
  obtain s1 w1 where f: "id_fresh D s w = (s1, w1)" by (metis prod.collapse)
  note c = id_fresh_current[OF laws s f]
  have "id_reload_ok D s w" using readable s by (auto simp: id_readable_def)
  from c(1,2) c(3)[OF this] f s show "id_by_email D email s w = (r, s', w') \<Longrightarrow>
      file w' = file w \<and> id_replica p s' (file w) \<and> (r = Some a \<longrightarrow> by_email (id_committed (file w)) (normalize_email email) = Some a)"
    "id_by_subject D issuer subject s w = (r, s', w') \<Longrightarrow>
      file w' = file w \<and> id_replica p s' (file w) \<and> (r = Some a \<longrightarrow> by_subject (id_committed (file w)) (subject_key issuer subject) = Some a)"
    by (auto simp: id_by_email_def id_by_subject_def same_maps_def Let_def split: if_splits)
qed

lemma pin_effect:
  assumes "id_wf s" and "subject \<noteq> []" and "pin_mutate account issuer subject now s = (Inr ch, s')"
  shows "by_subject s' (subject_key issuer subject) = Some account" "ch \<or> s' = s"
proof -
  show "ch \<or> s' = s" using assms(3) by (auto simp: pin_mutate_def Let_def split: option.splits if_splits)
  show "by_subject s' (subject_key issuer subject) = Some account"
    using assms pinned_subject[OF assms(1), of account issuer subject]
    by (auto simp: pin_mutate_def pinned_to_def Let_def split: option.splits if_splits)
qed

lemma pin_committed:
  assumes "disk_laws p file temp D" and "id_replica p s (file w)" and "id_pin D account issuer subject now s w = (None, s', w')"
  shows "by_subject (id_committed (file w')) (subject_key issuer subject) = Some account"
proof -
  have sub: "subject \<noteq> []" and c: "id_commit D (pin_mutate account issuer subject now) s w = (None, s', w')"
    using assms(3) by (auto simp: id_pin_def split: if_splits)
  obtain m1 ch where m1: "id_wf m1" "same_maps m1 (id_committed (file w))"
    "pin_mutate account issuer subject now m1 = (Inr ch, is_maps s')" and
    res: "if ch then \<exists>f. file w' = Some f \<and> sf_data f = Doc (id_list (is_maps s')) \<and> id_replica p s' (file w') \<and>
         same_maps (id_committed (file w')) (is_maps s') else file w' = file w"
    using id_commit_serial(2)[OF assms(1,2) pin_wf[OF sub] c refl] by blast
  note e = pin_effect[OF m1(1) sub m1(3)]
  show ?thesis
  proof (cases ch)
    case True
    then show ?thesis using res e(1) by (auto simp: same_maps_def)
  next
    case False
    then show ?thesis using res e m1(2) by (auto simp: same_maps_def)
  qed
qed

lemma approve_committed:
  assumes "disk_laws p file temp D" and "id_replica p s (file w)"
    and "id_approve D account issuer subject emails who now s w = (Inr m, s', w')" and "subject \<noteq> []"
  shows "by_subject (id_committed (file w')) (subject_key issuer subject) = Some account"
proof -
  obtain cs where cs: "clean_emails emails = Inr cs" and
    c: "id_commit D (approve_mutate account issuer subject cs who now) s w = (None, s', w')" and v: "valid_name account"
    using assms(3) by (auto simp: id_approve_def split: if_splits sum.splits prod.splits option.splits)
  have can: "e \<in> set cs \<Longrightarrow> canonical e" for e using clean_emails_canonical[OF cs] by blast
  obtain m1 ch where m1: "approve_mutate account issuer subject cs who now m1 = (Inr ch, is_maps s')" and
    res: "if ch then \<exists>f. file w' = Some f \<and> sf_data f = Doc (id_list (is_maps s')) \<and> id_replica p s' (file w') \<and>
         same_maps (id_committed (file w')) (is_maps s') else file w' = file w"
    using id_commit_serial(2)[OF assms(1,2) approve_wf[OF v can] c refl] by blast
  then show ?thesis using approve_effect(1,2)[OF m1] assms(4) by (auto simp: same_maps_def)
qed

text \<open>The rest of what a sign-in calls does not touch the mapping file.\<close>

definition bystanders :: "('c, 'w) srv_env \<Rightarrow> ('w \<Rightarrow> 'f) \<Rightarrow> bool" where
  "bystanders E file \<longleftrightarrow>
     (\<forall>now e w. file (snd (journal_append (sx_journal E) now (sx_journal_path E) e w)) = file w) \<and>
     (\<forall>a w. file (snd (sx_exists E a w)) = file w) \<and>
     (\<forall>cfg. sx_provision E = Some cfg \<longrightarrow>
        (\<forall>req claims p w. file (snd (snd (prov_run (sx_prov E) (Some cfg) req claims p w))) = file w) \<and>
        (\<forall>a w. file (snd (awaited E cfg a w)) = file w))"

lemma bystandersD:
  assumes "bystanders E file"
  shows "file (sv_world (srv_journal E now e s)) = file (sv_world s)"
    "sx_exists E a w = (b, w') \<Longrightarrow> file w' = file w"
    "sx_provision E = Some c \<Longrightarrow> prov_run (sx_prov E) (Some c) req claims p w = (out, p', w') \<Longrightarrow> file w' = file w"
    "sx_provision E = Some c \<Longrightarrow> awaited E c a w = (b, w') \<Longrightarrow> file w' = file w"
proof -
  show "file (sv_world (srv_journal E now e s)) = file (sv_world s)" using assms by (simp add: bystanders_def srv_journal_def)
  show "file w' = file w" if "sx_exists E a w = (b, w')"
    using assms that unfolding bystanders_def by (metis snd_conv)
  show "file w' = file w" if "sx_provision E = Some c" "prov_run (sx_prov E) (Some c) req claims p w = (out, p', w')"
    using assms that unfolding bystanders_def by (metis snd_conv)
  show "file w' = file w" if "sx_provision E = Some c" "awaited E c a w = (b, w')"
    using assms that unfolding bystanders_def by (metis snd_conv)
qed

text \<open>What a loop that looks addresses up starts and ends with.\<close>

definition at_file ::
  "string \<Rightarrow> ('w \<Rightarrow> mapping_entry list doc stored option) \<Rightarrow> mapping_entry list doc stored option \<Rightarrow> 'w srv \<Rightarrow> bool" where
  "at_file p file fo s \<longleftrightarrow> file (sv_world s) = fo \<and> id_replica p (sv_ids s) fo"

definition now_bound :: "('w \<Rightarrow> mapping_entry list doc stored option) \<Rightarrow> sso_identity \<Rightarrow> string \<Rightarrow> 'w srv \<Rightarrow> bool" where
  "now_bound file ident account s \<longleftrightarrow>
     by_subject (id_committed (file (sv_world s))) (subject_key (si_issuer ident) (si_subject ident)) = Some account"


lemma email_step:
  assumes "disk_laws p file temp (sx_ids E)" and "id_readable p file (sx_ids E) fo" and "at_file p file fo s"
    and "srv_ids_op (id_by_email (sx_ids E) e) s = (r, s')"
  shows "at_file p file fo s'" "r = Some a \<Longrightarrow> by_email (id_committed fo) (normalize_email e) = Some a"
proof -
  obtain ids w where i: "id_by_email (sx_ids E) e (sv_ids s) (sv_world s) = (r, ids, w)" "s' = s\<lparr>sv_ids := ids, sv_world := w\<rparr>"
    using assms(4) by (auto simp: srv_ids_op_def split: prod.splits)
  have s: "id_replica p (sv_ids s) (file (sv_world s))" and fo: "file (sv_world s) = fo"
    using assms(3) by (simp_all add: at_file_def)
  have "id_readable p file (sx_ids E) (file (sv_world s))" using assms(2) fo by simp
  note c = lookup_current(1)[OF assms(1) s this i(1)]
  show "at_file p file fo s'" using c fo i(2) by (simp add: at_file_def)
  show "by_email (id_committed fo) (normalize_email e) = Some a" if "r = Some a"
    using c[of a] fo that by simp
qed

lemma pin_binds:
  assumes "disk_laws p file temp (sx_ids E)" and "bystanders E file" and "id_readable p file (sx_ids E) fo" and "at_file p file fo s"
    and "pin_by_email E now ident es s = (r, s')"
  shows "r = None \<Longrightarrow> at_file p file fo s'"
    and "r = Some (Inr (Some account)) \<Longrightarrow> now_bound file ident account s' \<and>
      (\<exists>e \<in> set es. by_email (id_committed fo) (normalize_email e) = Some account)"
proof -
  have "(r = None \<longrightarrow> at_file p file fo s') \<and> (r = Some (Inr (Some account)) \<longrightarrow> now_bound file ident account s' \<and>
      (\<exists>e \<in> set es. by_email (id_committed fo) (normalize_email e) = Some account))"
    using assms(4,5)
  proof (induction es arbitrary: s)
    case Nil
    then show ?case by simp
  next
    case (Cons e es)
    obtain a s1 where l: "srv_ids_op (id_by_email (sx_ids E) e) s = (a, s1)" by (metis prod.collapse)
    note step = email_step[OF assms(1,3) Cons.prems(1) l]
    show ?case
    proof (cases a)
      case None
      then show ?thesis using Cons.IH[OF step(1)] Cons.prems(2) l by simp
    next
      case (Some b)
      obtain q s2 where q: "srv_ids_op (id_pin (sx_ids E) b (si_issuer ident) (si_subject ident) now) s1 = (q, s2)"
        by (metis prod.collapse)
      then obtain ids w where i: "id_pin (sx_ids E) b (si_issuer ident) (si_subject ident) now (sv_ids s1) (sv_world s1) = (q, ids, w)"
        "sv_world s2 = w" by (auto simp: srv_ids_op_def split: prod.splits)
      have "now_bound file ident b (srv_journal E now (entry_for ''pin'' b ident [e]) s2)" if "q = None"
        using pin_committed[OF assms(1), of "sv_ids s1" "sv_world s1"] i step(1) that bystandersD(1)[OF assms(2)]
        by (auto simp: at_file_def now_bound_def)
      then show ?thesis using Cons.prems(2) l Some q step(2) by (auto split: option.splits if_splits)
    qed
  qed
  then show "r = None \<Longrightarrow> at_file p file fo s'"
    and "r = Some (Inr (Some account)) \<Longrightarrow> now_bound file ident account s' \<and>
      (\<exists>e \<in> set es. by_email (id_committed fo) (normalize_email e) = Some account)" by blast+
qed

lemma approve_binds:
  assumes "disk_laws p file temp (sx_ids E)" and "bystanders E file" and "at_file p file fo s" and "si_subject ident \<noteq> []"
    and "srv_ids_op (id_approve (sx_ids E) account (si_issuer ident) (si_subject ident) emails who now) s = (Inr m, s')"
  shows "now_bound file ident account (srv_journal E now e s')"
proof -
  obtain ids w where "id_approve (sx_ids E) account (si_issuer ident) (si_subject ident) emails who now (sv_ids s) (sv_world s) = (Inr m, ids, w)"
    "sv_world s' = w" using assms(5) by (auto simp: srv_ids_op_def split: prod.splits)
  then show ?thesis using approve_committed[OF assms(1) _ _ assms(4)] assms(3) bystandersD(1)[OF assms(2)]
    by (auto simp: at_file_def now_bound_def)
qed

lemma trust_binds:
  assumes "disk_laws p file temp (sx_ids E)" and "bystanders E file" and "at_file p file fo s" and "si_subject ident \<noteq> []"
    and "trust_email E now ident es s = (r, s')"
  shows "r = None \<Longrightarrow> at_file p file fo s'"
    and "r = Some (Inr (Some account)) \<Longrightarrow> now_bound file ident account s' \<and>
      (\<exists>e \<in> set es. account_from_email e = Some account)"
proof -
  have "(r = None \<longrightarrow> at_file p file fo s') \<and> (r = Some (Inr (Some account)) \<longrightarrow> now_bound file ident account s' \<and>
      (\<exists>e \<in> set es. account_from_email e = Some account))"
    using assms(3,5)
  proof (induction es arbitrary: s)
    case Nil
    then show ?case by simp
  next
    case (Cons e es)
    show ?case
    proof (cases "account_from_email e")
      case None
      then show ?thesis using Cons by simp
    next
      case (Some b)
      obtain x w where x: "sx_exists E b (sv_world s) = (x, w)" by (metis prod.collapse)
      have at: "at_file p file fo (s\<lparr>sv_world := w\<rparr>)"
        using Cons.prems(1) bystandersD(2)[OF assms(2) x] by (simp add: at_file_def)
      obtain q s2 where q: "srv_ids_op (id_approve (sx_ids E) b (si_issuer ident) (si_subject ident) [e] ''trust-email'' now)
          (s\<lparr>sv_world := w\<rparr>) = (q, s2)" by (metis prod.collapse)
      note bound = approve_binds[OF assms(1,2) at assms(4), of b "[e]" "''trust-email''" now]
      show ?thesis
        using Cons.IH[OF at] Cons.prems(2) Some x q bound by (auto split: bool.splits sum.splits if_splits)
    qed
  qed
  then show "r = None \<Longrightarrow> at_file p file fo s'"
    and "r = Some (Inr (Some account)) \<Longrightarrow> now_bound file ident account s' \<and>
      (\<exists>e \<in> set es. account_from_email e = Some account)" by blast+
qed

text \<open>What provisioning this identity answered.\<close>

definition provisioned :: "('c, 'w) srv_env \<Rightarrow> sso_identity \<Rightarrow> string \<Rightarrow> bool" where
  "provisioned E ident account \<longleftrightarrow>
     (\<exists>cfg out p p' w w'. sx_provision E = Some cfg \<and>
        prov_run (sx_prov E) (Some cfg)
          \<lparr>pq_issuer = si_issuer ident, pq_subject = si_subject ident, pq_emails = si_emails ident, pq_name = si_name ident\<rparr>
          (si_claims ident) p w = (out, p', w') \<and>
        ou_kind out = Created \<and> ou_account out = account)"

lemma provision_binds:
  assumes "disk_laws p file temp (sx_ids E)" and "bystanders E file" and "at_file p file fo s" and "si_subject ident \<noteq> []"
    and "srv_provision E now ident s = (Some account, s')"
  shows "now_bound file ident account s' \<and> provisioned E ident account"
proof -
  let ?req = "\<lparr>pq_issuer = si_issuer ident, pq_subject = si_subject ident, pq_emails = si_emails ident, pq_name = si_name ident\<rparr>"
  obtain cfg where cfg: "sx_provision E = Some cfg" using assms(5) by (auto simp: srv_provision_def split: option.splits)
  obtain out q w where run: "prov_run (sx_prov E) (Some cfg) ?req (si_claims ident) (sv_prov s) (sv_world s) = (out, q, w)"
    by (metis prod.collapse)
  obtain b v where aw: "awaited E cfg (ou_account out) w = (b, v)" by (metis prod.collapse)
  let ?s = "s\<lparr>sv_prov := q, sv_world := w\<rparr>\<lparr>sv_world := v\<rparr>"
  obtain a s2 where a: "srv_ids_op (id_approve (sx_ids E) (ou_account out) (si_issuer ident) (si_subject ident)
      (si_emails ident) (''provision:'' @ ou_rule out) now) ?s = (a, s2)" by (metis prod.collapse)
  have at: "at_file p file fo ?s"
    using assms(3) bystandersD(3)[OF assms(2) cfg run] bystandersD(4)[OF assms(2) cfg aw] by (simp add: at_file_def)
  have cr: "ou_kind out = Created" "b" "ou_account out = account"
    "s' = srv_journal E now (entry_for ''provision'' account ident (si_emails ident)) s2" "\<exists>m. a = Inr m"
    using assms(5) cfg run aw a
    by (auto simp: srv_provision_def Let_def split: if_splits bool.splits sum.splits)
  then show ?thesis using approve_binds[OF assms(1,2) at assms(4)] a cfg run by (fastforce simp: provisioned_def)
qed


text \<open>A password session is one the password store vouched for. A password sign-in that sets a session
  cookie had ntlm_auth accept the name and the password of the request, and the cookie is that
  name's; changing a password opens one only for the signed-in user, after the current password was
  accepted and the new one, different and well formed, was stored.\<close>

theorem password_session:
  "(handle_login E now body s = (r, s') \<and> rp_session r = Some token \<longrightarrow>
     (\<exists>user pw w. body = Some (user, pw) \<and> authenticate (sx_run E) (sx_ntlm_auth E) user pw (sv_world s) = (Inr True, w) \<and>
        token = session_create (sx_hmac E) now user (sv_sessions s))) \<and>
   (handle_password E now passwords account change s0 = (r0, s0') \<and> rp_session r0 = Some token0 \<longrightarrow>
     (\<exists>prog current new w w1. passwords = Some prog \<and> change = Some (current, new) \<and> check_password new = None \<and> new \<noteq> current \<and>
        authenticate (sx_run E) (sx_ntlm_auth E) account current (sv_world s0) = (Inr True, w) \<and>
        password_set (sx_run E) prog account new w = (None, w1) \<and>
        token0 = session_create (sx_hmac E) now account (sv_sessions s0')))"
proof (intro conjI impI; elim conjE)
  assume "handle_login E now body s = (r, s')" "rp_session r = Some token"
  then show "\<exists>user pw w. body = Some (user, pw) \<and> authenticate (sx_run E) (sx_ntlm_auth E) user pw (sv_world s) = (Inr True, w) \<and>
      token = session_create (sx_hmac E) now user (sv_sessions s)"
    by (auto simp: handle_login_def answer_def Let_def split: option.splits prod.splits sum.splits if_splits)
next
  assume "handle_password E now passwords account change s0 = (r0, s0')" "rp_session r0 = Some token0"
  then show "\<exists>prog current new w w1. passwords = Some prog \<and> change = Some (current, new) \<and> check_password new = None \<and> new \<noteq> current \<and>
      authenticate (sx_run E) (sx_ntlm_auth E) account current (sv_world s0) = (Inr True, w) \<and>
      password_set (sx_run E) prog account new w = (None, w1) \<and>
      token0 = session_create (sx_hmac E) now account (sv_sessions s0')"
    by (auto simp: handle_password_def answer_def split: option.splits prod.splits sum.splits bool.splits if_splits auth_error.splits)
qed

section \<open>Concrete runs\<close>

definition still_disk :: "('b, 'w) sf_disk" where
  "still_disk = \<lparr>
     sd_stat = (\<lambda>_ w. (NotExist, w)), sd_read = (\<lambda>_ w. (Inl ''absent'', w)),
     sd_mkdir_all = (\<lambda>_ w. (None, w)), sd_open_lock = (\<lambda>_ w. (Inr 3, w)),
     sd_flock = (\<lambda>_ _ w. (None, w)), sd_close_lock = (\<lambda>_ w. w),
     sd_create_temp = (\<lambda>_ _ w. (Inr ''tmp'', w)), sd_chmod = (\<lambda>_ w. (None, w)), sd_write = (\<lambda>_ _ w. (None, w)),
     sd_sync = (\<lambda>_ w. (None, w)), sd_close = (\<lambda>_ w. (None, w)), sd_rename = (\<lambda>_ _ w. (None, w)), sd_remove = (\<lambda>_ w. w)\<rparr>"

definition sample_env :: "(unit, mapping_entry list doc ram) srv_env" where
  "sample_env = \<lparr>sx_forward = False, sx_trust_email = False, sx_provision = None, sx_journal_path = None,
     sx_oidc = sample_oidc, sx_ids = ram_disk, sx_pending = still_disk,
     sx_journal = \<lparr>jd_open_append = (\<lambda>_ w. (None, w)), jd_write = (\<lambda>_ _ w. (None, w)), jd_sync = (\<lambda>_ w. (None, w)),
       jd_close = (\<lambda>_ w. w), jd_open = (\<lambda>_ w. (Inr False, w)), jd_scan = (\<lambda>_ w. (([], None), w))\<rparr>,
     sx_epochs = still_disk, sx_hmac = sample_mac, sx_resolve = (\<lambda>_ w. (Inr (), w)),
     sx_run = (\<lambda>_ bin _ w. (Inr (if bin = ''pdbedit'' then ''Unix username:bob'' else ''OK''), w)), sx_pdbedit = [], sx_ntlm_auth = [],
     sx_prov = \<lparr>pv_secret = (\<lambda>_ w. (Inr ''t'', w)), pv_post = (\<lambda>_ _ _ _ w. (Inl (PeHttp ''down''), w)), pv_now = (\<lambda>_. 0),
       pv_sleep = (\<lambda>w. (False, w)), pv_exists = (\<lambda>_ w. (False, w)), pv_may = (\<lambda>_ w. (Inl (ErrUnavailable []), w))\<rparr>,
     sx_draw = (\<lambda>w. (Inr ''id'', w)), sx_draw_flow = (\<lambda>w. (Inl ''no'', w)), sx_enroll = None\<rparr>"

definition sample_server :: "mapping_entry list doc ram srv" where
  "sample_server = \<lparr>sv_provider = Some sample_provider, sv_flows = [''c'' \<mapsto> sample_flow], sv_notices = Map.empty,
     sv_enroll = Map.empty, sv_ids = id_sample, sv_queue = new_queue, sv_prov = \<lparr>pr_fired = [], pr_calls = []\<rparr>,
     sv_sessions = sample_sessions None, sv_world = id_sample_ram\<rparr>"

lemma newline_iff: "c = newline \<longleftrightarrow> of_char c = (10 :: nat)"
  by (simp add: newline_def byte_iff)

lemma sample_gate: "sx_may sample_env ''bob'' w = (Inr \<lparr>v_allowed = True, v_reason = []\<rparr>, w)"
proof -
  have "trim_space ''Unix username'' = ''Unix username''" "trim_space ''bob'' = ''bob''"
    by (simp_all add: trim_space_def drop_spaces.simps space_len_def space_runes_def byte_def char_of_eq_iff)
  then have "parse_account_flags ''Unix username:bob'' ''bob'' = Some True"
    by (simp add: parse_account_flags_def flags_line_def newline_iff Let_def)
  then show ?thesis using sample_names by (simp add: sx_may_def may_sign_in_def sample_env_def)
qed

lemma sample_resolution:
  assumes "si_issuer ident = ''iss''" and "si_subject ident = ''b1''" and "sv_ids s = id_sample" and "sv_world s = id_sample_ram"
  shows "\<exists>s'. resolve_identity sample_env now ident s = (Inr (Some ''bob''), s')"
proof -
  have "id_by_subject ram_disk ''iss'' ''b1'' id_sample id_sample_ram = (Some ''bob'', id_sample, id_sample_ram)"
    by (simp add: id_by_subject_def id_fresh_def id_sample_def id_sample_ram_def ram_defs sample_maps_def)
  then show ?thesis using assms by (simp add: resolve_identity_def srv_ids_op_def sample_env_def)
qed

lemma callback_session_witness:
  "\<exists>r s' token. handle_sso_callback sample_env 5 (Some ''c'') [] ''st'' ''code'' sample_server = (r, s') \<and>
     rp_session r = Some token \<and> rp_location r = ''/'' \<and> sv_flows s' ''c'' = None"
proof -
  obtain ident where x: "sso_exchange sample_oidc 5 ''code'' sample_flow sample_provider id_sample_ram =
      (Inr ident, sample_provider\<lparr>sp_ready := True\<rparr>, id_sample_ram)" "si_issuer ident = ''iss''" "si_subject ident = ''b1''"
    using sample_exchange[of id_sample_ram] by (elim exE conjE)
  let ?s = "sample_server\<lparr>sv_flows := Map.empty, sv_provider := Some (sample_provider\<lparr>sp_ready := True\<rparr>), sv_world := id_sample_ram\<rparr>"
  obtain s1 where s1: "resolve_identity sample_env 5 ident ?s = (Inr (Some ''bob''), s1)"
    using sample_resolution[OF x(2,3), of ?s 5] by (auto simp: sample_server_def)
  obtain r1 s2 where r1: "sign_in sample_env 5 ident ''/'' ?s = (r1, s2)" "rp_session r1 \<noteq> None"
    using s1 sample_gate by (simp add: sign_in_def Let_def)
  have t: "flows_take 5 ''c'' [''c'' \<mapsto> sample_flow] = (Some sample_flow, Map.empty)"
    by (simp add: flows_take_def sample_flow_def Let_def)
  have "handle_sso_callback sample_env 5 (Some ''c'') [] ''st'' ''code'' sample_server = (r1\<lparr>rp_flow := Some []\<rparr>, s2)"
    using x(1) r1(1) t by (simp add: handle_sso_callback_def sample_server_def sample_env_def sample_flow_def Let_def)
  moreover obtain token where "rp_session r1 = Some token" using r1(2) by blast
  ultimately have run: "\<exists>token. rp_session (r1\<lparr>rp_flow := Some []\<rparr>) = Some token"
    "handle_sso_callback sample_env 5 (Some ''c'') [] ''st'' ''code'' sample_server = (r1\<lparr>rp_flow := Some []\<rparr>, s2)" by simp_all
  then obtain token where token: "rp_session (r1\<lparr>rp_flow := Some []\<rparr>) = Some token" by blast
  from callback_session[OF run(2) token] have "rp_location (r1\<lparr>rp_flow := Some []\<rparr>) = ''/''" "sv_flows s2 ''c'' = None"
    by (auto simp: sample_server_def sample_flow_def)
  then show ?thesis using run(2) token by blast
qed


lemma password_session_witness:
  "\<exists>r s' token. handle_login sample_env 5 (Some (''bob'', ''pw'')) sample_server = (r, s') \<and> rp_session r = Some token \<and>
     token = session_create (sx_hmac sample_env) 5 ''bob'' (sv_sessions sample_server)"
proof -
  have "trim_space ''OK'' = ''OK''"
    by (simp add: trim_space_def drop_spaces.simps space_len_def space_runes_def byte_def char_of_eq_iff)
  then have "authenticate (sx_run sample_env) [] ''bob'' ''pw'' w = (Inr True, w)" for w
    using sample_names by (simp add: authenticate_def sample_env_def parse_verdict_def ntlm_bin_def newline_iff Let_def)
  then obtain r s' token where r: "handle_login sample_env 5 (Some (''bob'', ''pw'')) sample_server = (r, s')" "rp_session r = Some token"
    by (simp add: handle_login_def sample_env_def Let_def)
  from password_session[of sample_env 5 "Some (''bob'', ''pw'')" sample_server r s' token] r show ?thesis by auto
qed

text \<open>A return path of a slash and a backslash counts as local; browsers read it as two slashes.\<close>

lemma local_return_backslash:
  "local_return (CHR ''/'' # CHR 0x5C # ''evil.example'') = CHR ''/'' # CHR 0x5C # ''evil.example''"
  by (simp add: local_return_def has_prefix_def)

end
