(* ===== verification/Control.thy ===== *)
theory Control
  imports Auth
begin

text \<open>
  The client side of the control plane, \<^verbatim>\<open>src/internal/control/\<close>: the membership operations the
  operator pages call (\<open>member_client\<close>, the generated gRPC interface) and the local implementation
  that runs \<^verbatim>\<open>usersync\<close> on this host (\<^verbatim>\<open>local.go\<close>).
\<close>

datatype role = RoleUnspecified | RoleReader | RoleMember | RoleOwner
datatype change_op = MoUnspecified | MoAdd | MoErase

record member_change =
  mc_op :: change_op
  mc_account :: string
  mc_group :: string
  mc_role :: role

datatype control_error = CeUnimplemented | CeInvalid | CeMember string | CeApply string | CeRemote string

text \<open>An answer is an error or, for a batch, the number of changes made.\<close>

record 'w member_client =
  cl_add :: "string \<Rightarrow> string \<Rightarrow> role \<Rightarrow> 'w \<Rightarrow> control_error option \<times> 'w"
  cl_erase :: "string \<Rightarrow> string \<Rightarrow> 'w \<Rightarrow> control_error option \<times> 'w"
  cl_batch :: "member_change list \<Rightarrow> 'w \<Rightarrow> (control_error + nat) \<times> 'w"

definition role_backed :: "role \<Rightarrow> bool" where
  "role_backed r \<longleftrightarrow> r = RoleMember \<or> r = RoleUnspecified"

definition local_member :: "'w runner \<Rightarrow> string \<Rightarrow> string \<Rightarrow> string \<Rightarrow> string \<Rightarrow> 'w \<Rightarrow> control_error option \<times> 'w" where
  "local_member run bin op account grp w =
     (case run [] bin [''member'', op, account, grp] w of (Inl e, w) \<Rightarrow> (Some (CeMember e), w) | (Inr _, w) \<Rightarrow> (None, w))"

definition local_apply :: "'w runner \<Rightarrow> string \<Rightarrow> 'w \<Rightarrow> control_error option \<times> 'w" where
  "local_apply run bin w = (case run [] bin [''apply''] w of (Inl e, w) \<Rightarrow> (Some (CeApply e), w) | (Inr _, w) \<Rightarrow> (None, w))"

definition local_add :: "'w runner \<Rightarrow> string \<Rightarrow> string \<Rightarrow> string \<Rightarrow> role \<Rightarrow> 'w \<Rightarrow> control_error option \<times> 'w" where
  "local_add run bin account grp r w =
     (if \<not> role_backed r then (Some CeUnimplemented, w)
      else (case local_member run bin ''add'' account grp w of (Some e, w) \<Rightarrow> (Some e, w) | (None, w) \<Rightarrow> local_apply run bin w))"

definition local_erase :: "'w runner \<Rightarrow> string \<Rightarrow> string \<Rightarrow> string \<Rightarrow> 'w \<Rightarrow> control_error option \<times> 'w" where
  "local_erase run bin account grp w =
     (case local_member run bin ''remove'' account grp w of (Some e, w) \<Rightarrow> (Some e, w) | (None, w) \<Rightarrow> local_apply run bin w)"

text \<open>The edits of a batch in order; the answer counts those made.\<close>

fun batch_edits :: "'w runner \<Rightarrow> string \<Rightarrow> member_change list \<Rightarrow> nat \<Rightarrow> 'w \<Rightarrow> (control_error + nat) \<times> 'w" where
  "batch_edits run bin [] n w = (Inr n, w)"
| "batch_edits run bin (c # cs) n w =
     (case mc_op c of
        MoAdd \<Rightarrow>
          (if \<not> role_backed (mc_role c) then (Inl CeUnimplemented, w)
           else
             (case local_member run bin ''add'' (mc_account c) (mc_group c) w of
                (Some e, w) \<Rightarrow> (Inl e, w) | (None, w) \<Rightarrow> batch_edits run bin cs (n + 1) w))
      | MoErase \<Rightarrow>
          (case local_member run bin ''remove'' (mc_account c) (mc_group c) w of
             (Some e, w) \<Rightarrow> (Inl e, w) | (None, w) \<Rightarrow> batch_edits run bin cs (n + 1) w)
      | MoUnspecified \<Rightarrow> (Inl CeInvalid, w))"

definition local_batch :: "'w runner \<Rightarrow> string \<Rightarrow> member_change list \<Rightarrow> 'w \<Rightarrow> (control_error + nat) \<times> 'w" where
  "local_batch run bin cs w =
     (case batch_edits run bin cs 0 w of
        (Inl e, w) \<Rightarrow> (Inl e, w)
      | (Inr n, w) \<Rightarrow>
          (if n > 0 then (case local_apply run bin w of (Some e, w) \<Rightarrow> (Inl e, w) | (None, w) \<Rightarrow> (Inr n, w)) else (Inr n, w)))"

definition local_controller :: "'w runner \<Rightarrow> string \<Rightarrow> 'w member_client" where
  "local_controller run bin =
     (let bin = (if bin = [] then ''usersync'' else bin)
      in \<lparr>cl_add = local_add run bin, cl_erase = local_erase run bin, cl_batch = local_batch run bin\<rparr>)"

section \<open>What a batch runs\<close>

text \<open>A runner that records the arguments of every command, answering as \<open>ans\<close> says.\<close>

definition logged :: "(string list list \<Rightarrow> string + string) \<Rightarrow> (string list list) runner" where
  "logged ans = (\<lambda>_ _ args w. (ans (w @ [args]), w @ [args]))"

definition edit_args :: "member_change \<Rightarrow> string list" where
  "edit_args c = [''member'', if mc_op c = MoAdd then ''add'' else ''remove'', mc_account c, mc_group c]"

lemma batch_edits_log:
  assumes "batch_edits (logged ans) bin cs n w = (r, w')"
  shows "\<exists>k \<le> length cs. w' = w @ map edit_args (take k cs) \<and> (\<forall>m. r = Inr m \<longrightarrow> k = length cs \<and> m = n + length cs)"
  using assms
proof (induction cs arbitrary: n w)
  case Nil
  then show ?case by auto
next
  case (Cons c cs)
  show ?case
  proof (cases "\<exists>m. batch_edits (logged ans) bin cs (n + 1) (w @ [edit_args c]) = (r, w') \<and> m = n")
    case True
    then obtain k where "k \<le> length cs" "w' = (w @ [edit_args c]) @ map edit_args (take k cs)"
      "\<forall>m. r = Inr m \<longrightarrow> k = length cs \<and> m = n + 1 + length cs" using Cons.IH by blast
    then show ?thesis by (intro exI[of _ "Suc k"]) auto
  next
    case False
    then have "(w' = w \<or> w' = w @ [edit_args c]) \<and> (\<exists>e. r = Inl e)"
      using Cons.prems
      by (auto simp: local_member_def logged_def edit_args_def split: change_op.splits if_splits sum.splits prod.splits)
    then show ?thesis by (elim conjE disjE exE) (auto intro: exI[of _ 0] exI[of _ 1])
  qed
qed

text \<open>A batch converges once, at the end. Whatever the commands answer, what the local controller
  runs for a batch is the edits of a prefix of the changes in order and then at most one apply; the
  apply comes only after every edit, and the batch succeeds only when it was run or the batch is
  empty. A batch that fails part way leaves the edits made so far in the roster, not applied.\<close>

theorem batch_converges_once:
  assumes "local_batch (logged ans) bin cs [] = (r, cmds)"
  shows "(\<exists>k \<le> length cs. cmds = map edit_args (take k cs) \<and> (\<forall>n. r = Inr n \<longrightarrow> cs = [] \<and> n = 0)) \<or>
    cs \<noteq> [] \<and> cmds = map edit_args cs @ [[''apply'']] \<and> (\<forall>n. r = Inr n \<longrightarrow> n = length cs)"
proof -
  obtain q w where e: "batch_edits (logged ans) bin cs 0 [] = (q, w)" by (metis prod.collapse)
  obtain k where k: "k \<le> length cs" "w = map edit_args (take k cs)" "\<forall>m. q = Inr m \<longrightarrow> k = length cs \<and> m = length cs"
    using batch_edits_log[OF e] by auto
  show ?thesis
  proof (cases q)
    case (Inl x)
    then show ?thesis using assms e k by (auto simp: local_batch_def)
  next
    case (Inr m)
    then have m: "m = length cs" "w = map edit_args cs" using k by auto
    show ?thesis
    proof (cases "cs = []")
      case True
      then show ?thesis using assms Inr e m by (auto simp: local_batch_def)
    next
      case False
      then have "local_batch (logged ans) bin cs [] =
          (case local_apply (logged ans) bin w of (Some e, w) \<Rightarrow> (Inl e, w) | (None, w) \<Rightarrow> (Inr (length cs), w))"
        using e[unfolded Inr] m(1) by (simp add: local_batch_def)
      then show ?thesis
        using assms False m by (auto simp: local_apply_def logged_def split: sum.splits)
    qed
  qed
qed

lemma batch_converges_once_witness:
  "\<exists>cmds. local_batch (logged (\<lambda>_. Inr [])) ''usersync''
      [\<lparr>mc_op = MoAdd, mc_account = ''ann'', mc_group = ''lab'', mc_role = RoleMember\<rparr>] [] = (Inr 1, cmds) \<and>
     cmds = [[''member'', ''add'', ''ann'', ''lab''], [''apply'']]"
proof -
  let ?cs = "[\<lparr>mc_op = MoAdd, mc_account = ''ann'', mc_group = ''lab'', mc_role = RoleMember\<rparr>]"
  obtain r cmds where run: "local_batch (logged (\<lambda>_. Inr [])) ''usersync'' ?cs [] = (r, cmds)" by (metis prod.collapse)
  then have "r = Inr 1"
    by (auto simp: local_batch_def local_apply_def local_member_def logged_def role_backed_def)
  with batch_converges_once[OF run] run show ?thesis by (auto simp: edit_args_def)
qed

text \<open>
  A batch is not all or nothing: with a change that is refused in second place the first edit stays
  in the roster, and nothing converges it.
\<close>

lemma batch_leaves_edits:
  "local_batch (logged (\<lambda>_. Inr [])) ''usersync''
      [\<lparr>mc_op = MoAdd, mc_account = ''ann'', mc_group = ''lab'', mc_role = RoleMember\<rparr>,
       \<lparr>mc_op = MoAdd, mc_account = ''bob'', mc_group = ''lab'', mc_role = RoleOwner\<rparr>] [] =
     (Inl CeUnimplemented, [[''member'', ''add'', ''ann'', ''lab'']])"
  by (simp add: local_batch_def local_member_def logged_def role_backed_def)

end
