(* ===== verification/Pool.thy ===== *)
theory Pool
  imports Auth "HOL-Library.AList" "HOL-Library.Multiset"
begin

text \<open>
  The pool of helper processes, \<^verbatim>\<open>src/internal/helperpool/\<close>: whose credentials a helper is started
  with (\<^verbatim>\<open>creds.go\<close>, \<^verbatim>\<open>spawn.go\<close>), the check of the id mapping (\<^verbatim>\<open>idmap.go\<close>), and the table of running
  helpers with its eviction (\<^verbatim>\<open>pool.go\<close>).

  Entries are shared by reference between the table, the LRU list and the requests in flight, so
  they live in a store addressed by numbers. The pool's lock makes each of the functions below one
  step; \<open>pool_step\<close> interleaves the steps of any number of requests, the reaper and the shutdown.
\<close>

section \<open>Credentials\<close>

record creds =
  cr_uid :: uint32
  cr_gid :: uint32
  cr_groups :: "uint32 list"

definition zero_creds :: creds where
  "zero_creds = \<lparr>cr_uid = 0, cr_gid = 0, cr_groups = []\<rparr>"

definition same_groups :: "creds \<Rightarrow> creds \<Rightarrow> bool" where
  "same_groups c d \<longleftrightarrow> cr_gid c = cr_gid d \<and> cr_groups c = cr_groups d"

datatype creds_error =
    CrBadName string | CrNoUser string | CrOutput string | CrUid string | CrGid string | CrGroups string
  | CrGroup string string

text \<open>\<^verbatim>\<open>slices.Sort\<close> and \<^verbatim>\<open>slices.Compact\<close>: equal neighbours are merged.\<close>

fun compact :: "'a list \<Rightarrow> 'a list" where
  "compact [] = []"
| "compact [x] = [x]"
| "compact (x # y # zs) = (if x = y then compact (y # zs) else x # compact (y # zs))"

fun parse_groups :: "string \<Rightarrow> string list \<Rightarrow> creds_error + uint32 list" where
  "parse_groups user [] = Inr []"
| "parse_groups user (s # ss) =
     (case parse_uint s 10 32 of
        None \<Rightarrow> Inl (CrGroup s user)
      | Some g \<Rightarrow> (case parse_groups user ss of Inl e \<Rightarrow> Inl e | Inr gs \<Rightarrow> Inr (word_of_nat g # gs)))"

definition nss_resolve :: "'w runner \<Rightarrow> string \<Rightarrow> 'w \<Rightarrow> (creds_error + creds) \<times> 'w" where
  "nss_resolve run user w =
     (if user = [] \<or> contains_any user [CHR '':'', newline, byte 0] then (Inl (CrBadName user), w)
      else
        (case run [] ''getent'' [''passwd'', user] w of
           (Inl _, w) \<Rightarrow> (Inl (CrNoUser user), w)
         | (Inr out, w) \<Rightarrow>
             (let f = split_on CHR '':'' (trim_space out)
              in if length f < 4 then (Inl (CrOutput user), w)
                 else
                   (case parse_uint (f ! 2) 10 32 of
                      None \<Rightarrow> (Inl (CrUid user), w)
                    | Some uid \<Rightarrow>
                        (case parse_uint (f ! 3) 10 32 of
                           None \<Rightarrow> (Inl (CrGid user), w)
                         | Some gid \<Rightarrow>
                             (case run [] ''id'' [''-G'', user] w of
                                (Inl _, w) \<Rightarrow> (Inl (CrGroups user), w)
                              | (Inr out, w) \<Rightarrow>
                                  (case parse_groups user (GoStrings.fields out) of
                                     Inl e \<Rightarrow> (Inl e, w)
                                   | Inr gs \<Rightarrow>
                                       (Inr \<lparr>cr_uid = word_of_nat uid, cr_gid = word_of_nat gid,
                                             cr_groups = compact (sort_by (\<le>) gs)\<rparr>, w))))))))"

section \<open>The id mapping\<close>

datatype mapping_error = MeShape string | MeShifted nat nat | MeShort nat nat | MeEmpty

fun check_lines :: "bool \<Rightarrow> string list \<Rightarrow> mapping_error option" where
  "check_lines seen [] = (if seen then None else Some MeEmpty)"
| "check_lines seen (line # ls) =
     (let fs = GoStrings.fields line
      in if fs = [] then check_lines seen ls
         else if length fs \<noteq> 3 then Some (MeShape line)
         else
           (case (parse_uint (fs ! 0) 10 32, parse_uint (fs ! 1) 10 32, parse_uint (fs ! 2) 10 64) of
              (Some inside, Some outside, Some ids) \<Rightarrow>
                (if inside \<noteq> outside then Some (MeShifted inside outside)
                 else if ids < 65536 then Some (MeShort ids inside)
                 else check_lines True ls)
            | _ \<Rightarrow> Some (MeShape line)))"

definition check_mapping :: "string list \<Rightarrow> mapping_error option" where
  "check_mapping ls = check_lines False ls"

text \<open>\<open>None\<close> is a \<^verbatim>\<open>/proc/self/uid_map\<close> that cannot be opened.\<close>

definition check_identity_mapping :: "string list option \<Rightarrow> mapping_error option" where
  "check_identity_mapping uid_map = (case uid_map of None \<Rightarrow> None | Some ls \<Rightarrow> check_mapping ls)"

section \<open>The table of helpers\<close>

datatype pool_error = PoClosed | PoConfig | PoBusy nat | PoResolve creds_error | PoSpawn string | PoCall string

record entry =
  pe_user :: string
  pe_helper :: creds
  pe_in_use :: nat
  pe_idle :: time
  pe_creds :: creds
  pe_creds_at :: time

text \<open>
  \<open>po_heap\<close> holds every entry made so far at its address, \<open>po_lru\<close> the addresses with the most
  recently used in front, \<open>po_stopped\<close> those whose helper was told to stop, in order.
\<close>

record pool =
  po_max :: nat
  po_timeout :: duration
  po_ttl :: duration
  po_heap :: "entry list"
  po_helpers :: "(string \<times> nat) list"
  po_lru :: "nat list"
  po_closed :: bool
  po_stopped :: "nat list"

abbreviation entry_at :: "pool \<Rightarrow> nat \<Rightarrow> entry" where
  "entry_at p a \<equiv> po_heap p ! a"

definition new_pool :: "string \<Rightarrow> string \<Rightarrow> duration \<Rightarrow> int \<Rightarrow> duration \<Rightarrow> pool_error + pool" where
  "new_pool bin root timeout max_helpers ttl =
     (if bin = [] \<or> root = [] then Inl PoConfig
      else Inr \<lparr>po_max = (if max_helpers \<le> 0 then 64 else nat max_helpers),
                po_timeout = (if timeout \<le> 0 then 5 * minute else timeout),
                po_ttl = (if ttl \<le> 0 then 30 * second else ttl),
                po_heap = [], po_helpers = [], po_lru = [], po_closed = False, po_stopped = []\<rparr>)"

text \<open>\<open>started\<close> is the operating system's answer to starting a process with these credentials.\<close>

definition spawn_helper :: "(creds \<Rightarrow> string option) \<Rightarrow> creds \<Rightarrow> string option" where
  "spawn_helper started c =
     (if cr_uid c = 0 \<or> cr_gid c = 0 then Some ''refusing to spawn a helper as root'' else started c)"

definition update_entry :: "nat \<Rightarrow> (entry \<Rightarrow> entry) \<Rightarrow> pool \<Rightarrow> pool" where
  "update_entry a f p = p\<lparr>po_heap := (po_heap p)[a := f (entry_at p a)]\<rparr>"

definition stop_helper :: "nat \<Rightarrow> pool \<Rightarrow> pool" where
  "stop_helper a p = p\<lparr>po_stopped := po_stopped p @ [a]\<rparr>"

definition checkout :: "nat \<Rightarrow> pool \<Rightarrow> pool" where
  "checkout a p =
     (let p = update_entry a (\<lambda>e. e\<lparr>pe_in_use := pe_in_use e + 1\<rparr>) p
      in p\<lparr>po_lru := a # remove1 a (po_lru p)\<rparr>)"

definition pool_release :: "time \<Rightarrow> nat \<Rightarrow> pool \<Rightarrow> pool" where
  "pool_release now a p =
     (let p = update_entry a (\<lambda>e. e\<lparr>pe_in_use := pe_in_use e - 1\<rparr>) p
      in if pe_in_use (entry_at p a) = 0 then
           (let p = update_entry a (\<lambda>e. e\<lparr>pe_idle := now\<rparr>) p
            in if map_of (po_helpers p) (pe_user (entry_at p a)) = None then stop_helper a p else p)
         else p)"

definition retire :: "nat \<Rightarrow> pool \<Rightarrow> pool" where
  "retire a p =
     (let e = entry_at p a;
          p = p\<lparr>po_helpers := AList.delete (pe_user e) (po_helpers p), po_lru := remove1 a (po_lru p)\<rparr>
      in if pe_in_use e = 0 then stop_helper a p else p)"

definition lru_idle :: "pool \<Rightarrow> nat option" where
  "lru_idle p = find (\<lambda>a. pe_in_use (entry_at p a) = 0) (rev (po_lru p))"

fun reap_loop :: "time \<Rightarrow> nat list \<Rightarrow> pool \<Rightarrow> pool" where
  "reap_loop cutoff [] p = p"
| "reap_loop cutoff (a # as) p =
     reap_loop cutoff as
       (if pe_in_use (entry_at p a) = 0 \<and> pe_idle (entry_at p a) < cutoff then retire a p else p)"

definition reap_locked :: "time \<Rightarrow> pool \<Rightarrow> pool" where
  "reap_locked now p = reap_loop (now - po_timeout p) (rev (po_lru p)) p"

lemma lru_idle_member: "lru_idle p = Some a \<Longrightarrow> a \<in> set (po_lru p) \<and> pe_in_use (entry_at p a) = 0"
  by (auto simp: lru_idle_def find_Some_iff) (metis nth_mem set_rev length_rev)

lemma retire_lru [simp]: "po_lru (retire a p) = remove1 a (po_lru p)"
  by (simp add: retire_def stop_helper_def Let_def)

function evict :: "pool \<Rightarrow> pool_error option \<times> pool" where
  "evict p =
     (if length (po_helpers p) \<ge> po_max p then
        (case lru_idle p of None \<Rightarrow> (Some (PoBusy (po_max p)), p) | Some a \<Rightarrow> evict (retire a p))
      else (None, p))"
  by pat_completeness auto
termination
  by (relation "measure (\<lambda>p. length (po_lru p))")
     (auto dest!: lru_idle_member simp: length_remove1 dest: length_pos_if_in_set)

declare evict.simps [simp del]

definition make_room :: "time \<Rightarrow> pool \<Rightarrow> pool_error option \<times> pool" where
  "make_room now p = evict (reap_locked now p)"

text \<open>
  \<^verbatim>\<open>acquire\<close> locks twice. The first section answers whether the user's credentials have to be
  resolved; the second is given the credentials, the zero ones when they were not resolved.
\<close>

definition acquire_begin :: "time \<Rightarrow> string \<Rightarrow> pool \<Rightarrow> bool option" where
  "acquire_begin now user p =
     (if po_closed p then None
      else
        (case map_of (po_helpers p) user of
           None \<Rightarrow> Some True
         | Some a \<Rightarrow> Some (now - pe_creds_at (entry_at p a) \<ge> po_ttl p)))"

definition start_entry ::
  "(creds \<Rightarrow> string option) \<Rightarrow> time \<Rightarrow> string \<Rightarrow> creds \<Rightarrow> pool \<Rightarrow> (pool_error + nat) \<times> pool" where
  "start_entry started now user c p =
     (case make_room now p of
        (Some e, p) \<Rightarrow> (Inl e, p)
      | (None, p) \<Rightarrow>
          (case spawn_helper started c of
             Some e \<Rightarrow> (Inl (PoSpawn e), p)
           | None \<Rightarrow>
               (let a = length (po_heap p)
                in (Inr a,
                    checkout a
                      (p\<lparr>po_heap := po_heap p @
                           [\<lparr>pe_user = user, pe_helper = c, pe_in_use = 0, pe_idle = 0, pe_creds = c, pe_creds_at = now\<rparr>],
                         po_lru := a # po_lru p, po_helpers := AList.update user a (po_helpers p)\<rparr>)))))"

definition acquire_finish ::
  "(creds \<Rightarrow> string option) \<Rightarrow> time \<Rightarrow> string \<Rightarrow> bool \<Rightarrow> creds \<Rightarrow> pool \<Rightarrow> (pool_error + nat) \<times> pool" where
  "acquire_finish started now user need c p =
     (if po_closed p then (Inl PoClosed, p)
      else
        (case map_of (po_helpers p) user of
           None \<Rightarrow> start_entry started now user c p
         | Some a \<Rightarrow>
             (if \<not> need then (Inr a, checkout a p)
              else
                (let p = update_entry a (\<lambda>e. e\<lparr>pe_creds := c, pe_creds_at := now\<rparr>) p
                 in if same_groups c (pe_helper (entry_at p a)) then (Inr a, checkout a p)
                    else start_entry started now user c (retire a p)))))"

definition pool_reap :: "time \<Rightarrow> pool \<Rightarrow> pool" where
  "pool_reap now p = reap_locked now p"

definition pool_len :: "pool \<Rightarrow> nat" where
  "pool_len p = length (po_helpers p)"

definition pool_close :: "pool \<Rightarrow> pool" where
  "pool_close p = fold retire (rev (po_lru p)) (p\<lparr>po_closed := True\<rparr>)"

text \<open>One request with nobody else at work: \<open>resolve\<close> is the resolver, \<open>serve\<close> the helper's answer.\<close>

definition pool_do ::
  "(string \<Rightarrow> creds_error + creds) \<Rightarrow> (creds \<Rightarrow> string option) \<Rightarrow> (creds \<Rightarrow> string + 'r) \<Rightarrow> time \<Rightarrow> string \<Rightarrow> pool \<Rightarrow>
   (pool_error + 'r) \<times> pool" where
  "pool_do resolve started serve now user p =
     (case acquire_begin now user p of
        None \<Rightarrow> (Inl PoClosed, p)
      | Some need \<Rightarrow>
          (case (if need then resolve user else Inr zero_creds) of
             Inl e \<Rightarrow> (Inl (PoResolve e), p)
           | Inr c \<Rightarrow>
               (case acquire_finish started now user need c p of
                  (Inl e, p) \<Rightarrow> (Inl e, p)
                | (Inr a, p) \<Rightarrow>
                    ((case serve (pe_helper (entry_at p a)) of Inl e \<Rightarrow> Inl (PoCall e) | Inr r \<Rightarrow> Inr r),
                     pool_release now a p))))"

section \<open>Interleaved requests\<close>

text \<open>
  Where a request stands, with the instant it entered \<^verbatim>\<open>acquire\<close>: about to resolve, about to lock
  again, or holding a helper. \<open>resolved\<close> records what the resolver answered for whom.
\<close>

datatype call = Asking time string bool | Ready time string bool creds | Holding time string nat

type_synonym pool_sys = "pool \<times> call multiset \<times> (string \<times> creds) set \<times> time"

inductive pool_step :: "pool_sys \<Rightarrow> pool_sys \<Rightarrow> bool" where
  Begin: "acquire_begin t' u p = Some need \<Longrightarrow> t \<le> t' \<Longrightarrow>
    pool_step (p, C, L, t) (p, add_mset (Asking t' u need) C, L, t')"
| Resolve: "pool_step (p, add_mset (Asking t0 u True) C, L, t) (p, add_mset (Ready t0 u True c) C, insert (u, c) L, t)"
| Unresolved: "pool_step (p, add_mset (Asking t0 u True) C, L, t) (p, C, L, t)"
| Skip: "pool_step (p, add_mset (Asking t0 u False) C, L, t) (p, add_mset (Ready t0 u False zero_creds) C, L, t)"
| Acquired: "acquire_finish started t' u need c p = (Inr a, p') \<Longrightarrow> t \<le> t' \<Longrightarrow>
    pool_step (p, add_mset (Ready t0 u need c) C, L, t) (p', add_mset (Holding t0 u a) C, L, t')"
| Refused: "acquire_finish started t' u need c p = (Inl e, p') \<Longrightarrow> t \<le> t' \<Longrightarrow>
    pool_step (p, add_mset (Ready t0 u need c) C, L, t) (p', C, L, t')"
| Release: "t \<le> t' \<Longrightarrow> pool_step (p, add_mset (Holding t0 u a) C, L, t) (pool_release t' a p, C, L, t')"
| Reap: "t \<le> t' \<Longrightarrow> pool_step (p, C, L, t) (pool_reap t' p, C, L, t')"
| Close: "pool_step (p, C, L, t) (pool_close p, C, L, t)"

inductive pool_reachable :: "pool \<Rightarrow> pool_sys \<Rightarrow> bool" for p0 where
  Start: "pool_reachable p0 (p0, {#}, {}, 0)"
| Step: "pool_reachable p0 s \<Longrightarrow> pool_step s s' \<Longrightarrow> pool_reachable p0 s'"

inductive_cases pool_stepE: "pool_step (p, C, L, t) s'"

section \<open>The table is consistent\<close>

text \<open>
  The table, the LRU list and the list of stopped helpers agree: \<open>n\<close> is how many requests hold each
  entry.
\<close>

definition live :: "pool \<Rightarrow> nat \<Rightarrow> bool" where
  "live p a \<longleftrightarrow> a < length (po_heap p) \<and> map_of (po_helpers p) (pe_user (entry_at p a)) = Some a"

definition pool_ok :: "(nat \<Rightarrow> nat) \<Rightarrow> pool \<Rightarrow> bool" where
  "pool_ok n p \<longleftrightarrow>
     distinct (map fst (po_helpers p)) \<and> distinct (po_lru p) \<and> (\<forall>a. a \<in> set (po_lru p) \<longleftrightarrow> live p a) \<and>
     (\<forall>u a. map_of (po_helpers p) u = Some a \<longrightarrow> a < length (po_heap p) \<and> pe_user (entry_at p a) = u) \<and>
     (\<forall>a. a < length (po_heap p) \<longrightarrow> pe_in_use (entry_at p a) = n a) \<and> (\<forall>a. length (po_heap p) \<le> a \<longrightarrow> n a = 0) \<and>
     distinct (po_stopped p) \<and> (\<forall>a \<in> set (po_stopped p). a < length (po_heap p) \<and> n a = 0 \<and> \<not> live p a)"

lemma pool_okD:
  assumes "pool_ok n p"
  shows "distinct (map fst (po_helpers p))" "distinct (po_lru p)" "a \<in> set (po_lru p) \<longleftrightarrow> live p a"
    "map_of (po_helpers p) u = Some a \<Longrightarrow> a < length (po_heap p) \<and> pe_user (entry_at p a) = u"
    "a < length (po_heap p) \<Longrightarrow> pe_in_use (entry_at p a) = n a"
    "length (po_heap p) \<le> a \<Longrightarrow> n a = 0" "distinct (po_stopped p)"
    "a \<in> set (po_stopped p) \<Longrightarrow> a < length (po_heap p) \<and> n a = 0 \<and> \<not> live p a"
  using assms by (simp_all add: pool_ok_def)

text \<open>What evicting leaves alone, and what it takes away.\<close>

definition pruned :: "pool \<Rightarrow> pool \<Rightarrow> bool" where
  "pruned p p' \<longleftrightarrow> po_heap p' = po_heap p \<and> po_max p' = po_max p \<and> po_ttl p' = po_ttl p \<and> po_closed p' = po_closed p \<and>
     map_of (po_helpers p') \<subseteq>\<^sub>m map_of (po_helpers p) \<and> length (po_helpers p') \<le> length (po_helpers p)"

lemma pruned_refl [simp]: "pruned p p"
  by (simp add: pruned_def)

lemma pruned_trans: "pruned p p' \<Longrightarrow> pruned p' p'' \<Longrightarrow> pruned p p''"
  by (auto simp: pruned_def intro: map_le_trans)

lemma retire_pruned: "pruned p (retire a p)"
  by (auto simp: pruned_def retire_def stop_helper_def Let_def length_delete_le AList.delete_conv' map_le_def)

lemma retire_live:
  assumes "pool_ok n p" and "live p a"
  shows "live (retire a p) b \<longleftrightarrow> live p b \<and> b \<noteq> a"
  using assms(2) by (auto simp: live_def retire_def stop_helper_def Let_def AList.delete_conv')

lemma retire_ok:
  assumes "pool_ok n p" and "live p a"
  shows "pool_ok n (retire a p)"
proof -
  note ok = pool_okD[OF assms(1)]
  have a: "a < length (po_heap p)" using assms(2) by (simp add: live_def)
  have st: "po_stopped (retire a p) = po_stopped p @ (if n a = 0 then [a] else [])"
    using ok(5)[OF a] by (simp add: retire_def stop_helper_def Let_def)
  have h: "po_heap (retire a p) = po_heap p" "po_helpers (retire a p) = AList.delete (pe_user (entry_at p a)) (po_helpers p)"
    by (simp_all add: retire_def stop_helper_def Let_def)
  have n0: "a \<notin> set (po_stopped p)" using ok(8) assms(2) by blast
  show ?thesis
    unfolding pool_ok_def retire_live[OF assms] st h
    using ok(1-6) ok(7) ok(8) n0 a by (auto simp: distinct_delete AList.delete_conv')
qed

lemma reap_loop_ok:
  assumes "pool_ok n p" and "distinct as" and "\<forall>a \<in> set as. live p a"
  shows "pool_ok n (reap_loop cutoff as p) \<and> pruned p (reap_loop cutoff as p)"
  using assms
proof (induction as arbitrary: p)
  case Nil
  then show ?case by simp
next
  case (Cons a as)
  then have "pool_ok n (retire a p)" "\<forall>b \<in> set as. live (retire a p) b"
    using retire_ok retire_live[OF Cons.prems(1)] by auto
  with Cons show ?case by (auto intro: pruned_trans[OF retire_pruned])
qed

lemma reap_ok: "pool_ok n p \<Longrightarrow> pool_ok n (reap_locked now p) \<and> pruned p (reap_locked now p)"
  unfolding reap_locked_def by (rule reap_loop_ok) (auto simp: pool_okD)

lemma evict_ok:
  assumes "pool_ok n p" and "evict p = (r, p')"
  shows "pool_ok n p' \<and> pruned p p' \<and> (r = None \<longrightarrow> length (po_helpers p') < po_max p)"
  using assms
proof (induction p arbitrary: r p' rule: evict.induct)
  case (1 p)
  show ?case
  proof (cases "po_max p \<le> length (po_helpers p) \<and> lru_idle p \<noteq> None")
    case True
    then obtain a where a: "lru_idle p = Some a" by blast
    then have l: "live p a" using lru_idle_member pool_okD(3)[OF 1(2)] by blast
    have "po_max (retire a p) = po_max p" using retire_pruned by (auto simp: pruned_def)
    then show ?thesis
      using 1(1)[OF _ a retire_ok[OF 1(2) l], of r p'] 1(3) True a retire_pruned[of p a] pruned_trans
      by (auto simp: evict.simps[of p])
  next
    case False
    then show ?thesis using 1(2,3) by (auto simp: evict.simps[of p] split: if_splits)
  qed
qed

lemma make_room_ok:
  assumes "pool_ok n p" and "make_room now p = (r, p')"
  shows "pool_ok n p' \<and> pruned p p' \<and> (r = None \<longrightarrow> length (po_helpers p') < po_max p)"
proof -
  note r = reap_ok[OF assms(1), of now]
  have "po_max (reap_locked now p) = po_max p" using r by (simp add: pruned_def)
  then show ?thesis using evict_ok[of n "reap_locked now p" r p'] r assms(2) pruned_trans by (auto simp: make_room_def)
qed

lemma close_ok:
  assumes "pool_ok n p"
  shows "pool_ok n (pool_close p) \<and> map_of (po_helpers (pool_close p)) \<subseteq>\<^sub>m map_of (po_helpers p) \<and>
    po_heap (pool_close p) = po_heap p \<and> po_max (pool_close p) = po_max p \<and> po_ttl (pool_close p) = po_ttl p \<and>
    length (po_helpers (pool_close p)) \<le> length (po_helpers p)"
proof -
  have all: "pool_ok n (fold retire as p) \<and> pruned p (fold retire as p)"
    if "pool_ok n p" "distinct as" "\<forall>a \<in> set as. live p a" for p as
    using that
  proof (induction as arbitrary: p)
    case (Cons a as)
    then have "pool_ok n (retire a p)" "\<forall>b \<in> set as. live (retire a p) b"
      using retire_ok retire_live[OF Cons.prems(1)] by auto
    with Cons show ?case by (auto intro: pruned_trans[OF retire_pruned])
  qed simp
  let ?p = "p\<lparr>po_closed := True\<rparr>"
  have "live ?p = live p" by (rule ext) (simp add: live_def)
  then have ok: "pool_ok n ?p" using assms by (simp add: pool_ok_def)
  have "distinct (rev (po_lru p))" "\<forall>a \<in> set (rev (po_lru p)). live ?p a"
    using pool_okD(2)[OF ok] pool_okD(3)[OF ok] by simp_all
  from all[OF ok this] show ?thesis by (simp add: pool_close_def pruned_def)
qed

lemma update_live [simp]:
  "pe_user (f (entry_at p b)) = pe_user (entry_at p b) \<Longrightarrow> live (update_entry b f p) a = live p a"
  by (cases "a = b") (auto simp: live_def update_entry_def nth_list_update)

lemma checkout_ok:
  assumes "pool_ok n p" and "live p a"
  shows "pool_ok (n(a := Suc (n a))) (checkout a p)" "live (checkout a p) b = live p b"
proof -
  note ok = pool_okD[OF assms(1)]
  have a: "a < length (po_heap p)" using assms(2) by (simp add: live_def)
  show l: "live (checkout a p) b = live p b" for b
    using a by (auto simp: live_def checkout_def update_entry_def Let_def nth_list_update)
  have "a \<in> set (po_lru p)" using ok(3) assms(2) by simp
  then have lru: "distinct (a # remove1 a (po_lru p))" "b \<in> set (a # remove1 a (po_lru p)) \<longleftrightarrow> live p b" for b
    using ok(2,3) by auto
  have "(\<forall>b. b \<in> set (po_lru (checkout a p)) \<longleftrightarrow> live p b) \<and> distinct (po_lru (checkout a p))"
    using lru by (simp add: checkout_def update_entry_def Let_def)
  then show "pool_ok (n(a := Suc (n a))) (checkout a p)"
    unfolding pool_ok_def l using ok(1,4-8) a assms(2)
    by (auto simp: checkout_def update_entry_def Let_def nth_list_update)
qed

lemma release_ok:
  assumes "pool_ok n p" and "a < length (po_heap p)" and "0 < n a"
  shows "pool_ok (n(a := n a - 1)) (pool_release now a p)" "live (pool_release now a p) b = live p b"
proof -
  note ok = pool_okD[OF assms(1)]
  show l: "live (pool_release now a p) b = live p b" for b
    using assms(2) by (auto simp: live_def pool_release_def stop_helper_def update_entry_def Let_def nth_list_update)
  have st: "a \<notin> set (po_stopped p)" using ok(8) assms(3) by fastforce
  have lr: "po_lru (pool_release now a p) = po_lru p" "po_helpers (pool_release now a p) = po_helpers p"
    "length (po_heap (pool_release now a p)) = length (po_heap p)"
    by (simp_all add: pool_release_def stop_helper_def update_entry_def Let_def)
  have e: "pe_user (entry_at (pool_release now a p) b) = pe_user (entry_at p b)"
    "pe_in_use (entry_at (pool_release now a p) b) = (if b = a then n a - 1 else pe_in_use (entry_at p b))" for b
    using assms(2) ok(5)[OF assms(2)]
    by (auto simp: pool_release_def stop_helper_def update_entry_def Let_def nth_list_update)
  have s: "po_stopped (pool_release now a p) = po_stopped p \<or>
      po_stopped (pool_release now a p) = po_stopped p @ [a] \<and> n a = 1 \<and> \<not> live p a"
    using assms(2,3) ok(5)[OF assms(2)]
    by (auto simp: pool_release_def stop_helper_def update_entry_def Let_def live_def nth_list_update)
  then have "distinct (po_stopped (pool_release now a p))" "\<forall>b \<in> set (po_stopped (pool_release now a p)).
      b < length (po_heap p) \<and> (n(a := n a - 1)) b = 0 \<and> \<not> live p b"
    using st ok(7) ok(8) assms(2) by auto
  then show "pool_ok (n(a := n a - 1)) (pool_release now a p)"
    unfolding pool_ok_def l lr e using ok(1-6) by auto
qed

text \<open>What is recorded of every helper: whose resolved credentials it runs with, never root's.\<close>

definition entries_ok :: "(string \<times> creds) set \<Rightarrow> time \<Rightarrow> pool \<Rightarrow> bool" where
  "entries_ok L t p \<longleftrightarrow>
     (\<forall>a < length (po_heap p).
        (pe_user (entry_at p a), pe_helper (entry_at p a)) \<in> L \<and> cr_uid (pe_helper (entry_at p a)) \<noteq> 0 \<and>
        cr_gid (pe_helper (entry_at p a)) \<noteq> 0 \<and> (pe_user (entry_at p a), pe_creds (entry_at p a)) \<in> L \<and>
        pe_creds_at (entry_at p a) \<le> t \<and>
        (live p a \<longrightarrow> same_groups (pe_creds (entry_at p a)) (pe_helper (entry_at p a))))"

lemma entries_mono: "entries_ok L t p \<Longrightarrow> L \<subseteq> L' \<Longrightarrow> t \<le> t' \<Longrightarrow> entries_ok L' t' p"
  by (fastforce simp: entries_ok_def)

text \<open>Every live entry of \<open>p'\<close> was one of \<open>p\<close> at least as old, or its credentials are of the instant \<open>t\<close>.\<close>

definition refreshed :: "time \<Rightarrow> pool \<Rightarrow> pool \<Rightarrow> bool" where
  "refreshed t p p' \<longleftrightarrow> po_ttl p' = po_ttl p \<and> po_max p' = po_max p \<and>
     length (po_heap p) \<le> length (po_heap p') \<and>
     (\<forall>a < length (po_heap p). pe_user (entry_at p' a) = pe_user (entry_at p a)) \<and>
     (\<forall>a. live p' a \<longrightarrow> pe_creds_at (entry_at p' a) = t \<or> live p a \<and> pe_creds_at (entry_at p' a) = pe_creds_at (entry_at p a))"

lemma refreshed_refl [simp]: "refreshed t p p"
  by (simp add: refreshed_def)

lemma refreshed_trans: "refreshed t p p' \<Longrightarrow> refreshed t p' p'' \<Longrightarrow> refreshed t p p''"
  by (fastforce simp: refreshed_def)

lemma map_le_SomeD: "m \<subseteq>\<^sub>m m' \<Longrightarrow> m k = Some v \<Longrightarrow> m' k = Some v"
  by (force simp: map_le_def)

lemma pruned_live: "pruned p p' \<Longrightarrow> live p' a \<Longrightarrow> live p a"
  by (auto simp: pruned_def live_def dest: map_le_SomeD)

lemma pruned_refreshed: "pruned p p' \<Longrightarrow> refreshed t p p'"
  using pruned_live[of p p'] by (simp add: pruned_def refreshed_def)

lemma pruned_entries: "pruned p p' \<Longrightarrow> entries_ok L t p \<Longrightarrow> entries_ok L t p'"
  using pruned_live[of p p'] by (simp add: pruned_def entries_ok_def)

lemma checkout_entries: "live p a \<Longrightarrow> entries_ok L t p \<Longrightarrow> entries_ok L t (checkout a p)"
  by (auto simp: entries_ok_def live_def checkout_def update_entry_def Let_def nth_list_update)

lemma checkout_refreshed: "live p a \<Longrightarrow> refreshed t p (checkout a p)"
  by (auto simp: refreshed_def live_def checkout_def update_entry_def Let_def nth_list_update)

lemma nth_update_any: "xs[a := x] ! b = (if a = b \<and> a < length xs then x else xs ! b)"
  by (cases "a < length xs") (auto simp: nth_list_update list_update_beyond)

lemma checkout_len [simp]: "po_helpers (checkout a p) = po_helpers p" "po_max (checkout a p) = po_max p"
  "pe_creds_at (entry_at (checkout a p) b) = pe_creds_at (entry_at p b)" "pe_user (entry_at (checkout a p) b) = pe_user (entry_at p b)"
  by (simp_all add: checkout_def update_entry_def Let_def nth_update_any)

definition add_entry :: "string \<Rightarrow> creds \<Rightarrow> time \<Rightarrow> pool \<Rightarrow> pool" where
  "add_entry user c now p =
     (let a = length (po_heap p)
      in p\<lparr>po_heap := po_heap p @
             [\<lparr>pe_user = user, pe_helper = c, pe_in_use = 0, pe_idle = 0, pe_creds = c, pe_creds_at = now\<rparr>],
           po_lru := a # po_lru p, po_helpers := AList.update user a (po_helpers p)\<rparr>)"

lemma length_update_new: "k \<notin> fst ` set xs \<Longrightarrow> length (AList.update k v xs) = Suc (length xs)"
  by (induction xs) auto

lemma add_entry_ok:
  assumes "pool_ok n p" and "map_of (po_helpers p) user = None"
  shows "pool_ok n (add_entry user c now p)" "live (add_entry user c now p) (length (po_heap p))"
    "a \<noteq> length (po_heap p) \<Longrightarrow> live (add_entry user c now p) a = live p a"
    "length (po_helpers (add_entry user c now p)) = Suc (length (po_helpers p))"
proof -
  note ok = pool_okD[OF assms(1)]
  let ?k = "length (po_heap p)" and ?p = "add_entry user c now p"
  have heap: "length (po_heap ?p) = Suc ?k" "map_of (po_helpers ?p) = (map_of (po_helpers p))(user \<mapsto> ?k)"
    "entry_at ?p ?k = \<lparr>pe_user = user, pe_helper = c, pe_in_use = 0, pe_idle = 0, pe_creds = c, pe_creds_at = now\<rparr>"
    by (simp_all add: add_entry_def Let_def update_conv')
  have old_entry: "a < ?k \<Longrightarrow> entry_at ?p a = entry_at p a" for a by (simp add: add_entry_def Let_def nth_append)
  show l: "live ?p a = live p a" if "a \<noteq> ?k" for a
  proof (cases "a < ?k")
    case True
    then show ?thesis using old_entry[OF True] heap(1,2) assms(2) by (auto simp: live_def)
  next
    case False
    then show ?thesis using that heap(1) by (auto simp: live_def)
  qed
  show lk: "live ?p ?k" using heap by (simp add: live_def)
  show "length (po_helpers ?p) = Suc (length (po_helpers p))"
    using assms(2) by (simp add: add_entry_def Let_def length_update_new map_of_eq_None_iff)
  have nk: "\<not> live p ?k" by (simp add: live_def)
  have old: "map_of (po_helpers p) u = Some a \<Longrightarrow> a < ?k \<and> pe_user (entry_at p a) = u" for u a using ok(4) by blast
  have keys: "distinct (map fst (po_helpers ?p))" using ok(1) by (simp add: add_entry_def Let_def distinct_update)
  have lru: "po_lru ?p = ?k # po_lru p" "po_stopped ?p = po_stopped p" by (simp_all add: add_entry_def Let_def)
  have mem: "a \<in> set (po_lru ?p) \<longleftrightarrow> live ?p a" for a using lru ok(3)[of a] l[of a] lk by auto
  have dist: "distinct (po_lru ?p)" using lru ok(2,3) nk by simp
  have idx: "a < length (po_heap ?p) \<and> pe_user (entry_at ?p a) = u" if "map_of (po_helpers ?p) u = Some a" for u a
    using that heap old[of u a] old_entry[of a] by (auto split: if_splits)
  have use: "pe_in_use (entry_at ?p a) = n a" if "a < length (po_heap ?p)" for a
    using that heap(1,3) old_entry[of a] ok(5)[of a] ok(6)[of ?k] by (cases "a = ?k") auto
  have stop: "a < length (po_heap ?p) \<and> n a = 0 \<and> \<not> live ?p a" if "a \<in> set (po_stopped ?p)" for a
    using ok(8)[of a] that lru(2) l[of a] heap(1) by auto
  show "pool_ok n ?p"
    unfolding pool_ok_def using keys dist mem idx use stop ok(6,7) lru(2) heap(1) by auto
qed

lemma add_entry_refreshed:
  assumes "pool_ok n p" and "map_of (po_helpers p) user = None"
  shows "refreshed t p (add_entry user c t p)"
proof -
  have f: "length (po_heap p) \<le> length (po_heap (add_entry user c t p))"
    "a < length (po_heap p) \<Longrightarrow> entry_at (add_entry user c t p) a = entry_at p a"
    "pe_creds_at (entry_at (add_entry user c t p) (length (po_heap p))) = t"
    "po_ttl (add_entry user c t p) = po_ttl p" "po_max (add_entry user c t p) = po_max p" for a
    by (simp_all add: add_entry_def Let_def nth_append)
  have "pe_creds_at (entry_at (add_entry user c t p) a) = t \<or> live p a \<and> pe_creds_at (entry_at (add_entry user c t p) a) = pe_creds_at (entry_at p a)"
    if "live (add_entry user c t p) a" for a
    using that f(2)[of a] f(3) add_entry_ok(3)[OF assms, of a c t] by (cases "a = length (po_heap p)") (auto simp: live_def)
  then show ?thesis using f unfolding refreshed_def by simp
qed

lemma add_entry_entries:
  assumes "pool_ok n p" and "map_of (po_helpers p) user = None" and "entries_ok L t p" and "(user, c) \<in> L"
    and "cr_uid c \<noteq> 0" and "cr_gid c \<noteq> 0"
  shows "entries_ok L t (add_entry user c t p)"
  unfolding entries_ok_def
proof (intro allI impI)
  fix a assume a: "a < length (po_heap (add_entry user c t p))"
  show "(pe_user (entry_at (add_entry user c t p) a), pe_helper (entry_at (add_entry user c t p) a)) \<in> L \<and>
      cr_uid (pe_helper (entry_at (add_entry user c t p) a)) \<noteq> 0 \<and> cr_gid (pe_helper (entry_at (add_entry user c t p) a)) \<noteq> 0 \<and>
      (pe_user (entry_at (add_entry user c t p) a), pe_creds (entry_at (add_entry user c t p) a)) \<in> L \<and>
      pe_creds_at (entry_at (add_entry user c t p) a) \<le> t \<and>
      (live (add_entry user c t p) a \<longrightarrow> same_groups (pe_creds (entry_at (add_entry user c t p) a)) (pe_helper (entry_at (add_entry user c t p) a)))"
    using a assms(3-6) add_entry_ok(3)[OF assms(1,2), of a c t]
    by (cases "a = length (po_heap p)") (auto simp: entries_ok_def add_entry_def Let_def nth_append same_groups_def)
qed

lemma start_entry_add:
  "start_entry started now user c p =
     (case make_room now p of
        (Some e, p) \<Rightarrow> (Inl e, p)
      | (None, p) \<Rightarrow>
          (case spawn_helper started c of
             Some e \<Rightarrow> (Inl (PoSpawn e), p)
           | None \<Rightarrow> (Inr (length (po_heap p)), checkout (length (po_heap p)) (add_entry user c now p))))"
  unfolding start_entry_def add_entry_def Let_def ..

text \<open>What either way out of \<open>acquire\<close> leaves.\<close>

definition handed :: "(nat \<Rightarrow> nat) \<Rightarrow> (string \<times> creds) set \<Rightarrow> time \<Rightarrow> string \<Rightarrow> pool \<Rightarrow> pool_error + nat \<Rightarrow> pool \<Rightarrow> bool" where
  "handed n L t user p r p' \<longleftrightarrow> entries_ok L t p' \<and> refreshed t p p' \<and> length (po_helpers p') \<le> po_max p' \<and>
     (case r of
        Inl _ \<Rightarrow> pool_ok n p'
      | Inr a \<Rightarrow> pool_ok (n(a := Suc (n a))) p' \<and> live p' a \<and> pe_user (entry_at p' a) = user)"

lemma handed_checkout:
  assumes "pool_ok n q" and "live q a" and "pe_user (entry_at q a) = user" and "entries_ok L t q" and "refreshed t p q"
    and "length (po_helpers q) \<le> po_max q"
  shows "handed n L t user p (Inr a) (checkout a q)"
  using assms checkout_ok[OF assms(1,2)] checkout_entries[OF assms(2,4)] refreshed_trans[OF assms(5) checkout_refreshed[OF assms(2)]]
  by (simp add: handed_def)

lemma start_entry_ok:
  assumes "pool_ok n p" and "map_of (po_helpers p) user = None" and "entries_ok L t p"
    and "(user, c) \<in> L \<or> c = zero_creds" and "length (po_helpers p) \<le> po_max p"
    and "start_entry started t user c p = (r, p')"
  shows "handed n L t user p r p' \<and> (\<forall>a. r = Inr a \<longrightarrow> pe_creds_at (entry_at p' a) = t \<and> c \<noteq> zero_creds)"
proof -
  obtain e q where room: "make_room t p = (e, q)" by (metis prod.collapse)
  have q: "pool_ok n q" "pruned p q" "e = None \<Longrightarrow> length (po_helpers q) < po_max p"
    using make_room_ok[OF assms(1) room] by auto
  have none: "map_of (po_helpers q) user = None"
    using q(2) assms(2) map_le_SomeD[of "map_of (po_helpers q)" "map_of (po_helpers p)" user]
    by (cases "map_of (po_helpers q) user") (auto simp: pruned_def)
  have len: "length (po_helpers q) \<le> po_max q" using q(2) assms(5) by (auto simp: pruned_def)
  note eo = pruned_entries[OF q(2) assms(3)] and rf = pruned_refreshed[OF q(2), of t]
  show ?thesis
  proof (cases "e = None \<and> spawn_helper started c = None")
    case False
    then show ?thesis
      using assms(6) room q(1) eo rf len by (auto simp: start_entry_add handed_def split: option.splits)
  next
    case True
    then have c: "(user, c) \<in> L" "cr_uid c \<noteq> 0" "cr_gid c \<noteq> 0" "c \<noteq> zero_creds"
      using assms(4) by (auto simp: spawn_helper_def zero_creds_def split: if_splits)
    let ?a = "length (po_heap q)" and ?q = "add_entry user c t q"
    note add = add_entry_ok[OF q(1) none, where c = c and now = t]
    have u: "pe_user (entry_at ?q ?a) = user" "pe_creds_at (entry_at ?q ?a) = t" "po_max ?q = po_max q"
      by (simp_all add: add_entry_def Let_def)
    have "length (po_helpers ?q) \<le> po_max ?q" using q(2,3) True add(4) u(3) by (simp add: pruned_def)
    then have "handed n L t user p (Inr ?a) (checkout ?a ?q)"
      using handed_checkout[OF add(1,2) u(1) add_entry_entries[OF q(1) none eo c(1-3)]
          refreshed_trans[OF rf add_entry_refreshed[OF q(1) none]]] by blast
    then show ?thesis using assms(6) room True u(2) c(4) by (auto simp: start_entry_add)
  qed
qed

lemma acquire_finish_ok:
  assumes "pool_ok n p" and "entries_ok L t p" and "(user, c) \<in> L \<or> \<not> need \<and> c = zero_creds"
    and "length (po_helpers p) \<le> po_max p" and "acquire_finish started t user need c p = (r, p')"
  shows "handed n L t user p r p' \<and>
    (\<forall>a. r = Inr a \<longrightarrow> pe_creds_at (entry_at p' a) = t \<or> \<not> need \<and> live p a \<and> pe_creds_at (entry_at p' a) = pe_creds_at (entry_at p a))"
proof -
  note ok = pool_okD[OF assms(1)]
  consider "po_closed p" | "\<not> po_closed p" "map_of (po_helpers p) user = None"
    | a where "\<not> po_closed p" "map_of (po_helpers p) user = Some a" by (cases "map_of (po_helpers p) user") auto
  then show ?thesis
  proof cases
    case 1
    then show ?thesis using assms by (auto simp: acquire_finish_def handed_def)
  next
    case 2
    then have "start_entry started t user c p = (r, p')" using assms(5) by (simp add: acquire_finish_def)
    from start_entry_ok[OF assms(1) 2(2) assms(2) _ assms(4) this] assms(3) show ?thesis by auto
  next
    case (3 a)
    have a: "a < length (po_heap p)" "pe_user (entry_at p a) = user" using ok(4)[OF 3(2)] by auto
    then have l: "live p a" using 3(2) by (simp add: live_def)
    show ?thesis
    proof (cases need)
      case False
      then have "r = Inr a" "p' = checkout a p" using assms(5) 3 by (simp_all add: acquire_finish_def)
      then show ?thesis using handed_checkout[OF assms(1) l a(2) assms(2) refreshed_refl assms(4)] l False by simp
    next
      case True
      then have cL: "(user, c) \<in> L" using assms(3) by simp
      let ?f = "\<lambda>e. e\<lparr>pe_creds := c, pe_creds_at := t\<rparr>"
      let ?q = "update_entry a ?f p"
      have lq: "live ?q b = live p b" for b by simp
      have q: "entry_at ?q b = (if b = a then ?f (entry_at p a) else entry_at p b)" "length (po_heap ?q) = length (po_heap p)"
        "po_helpers ?q = po_helpers p" "po_max ?q = po_max p" "po_ttl ?q = po_ttl p" "po_stopped ?q = po_stopped p" "po_lru ?q = po_lru p" for b
        using a(1) by (auto simp: update_entry_def nth_list_update)
      have okq: "pool_ok n ?q" using assms(1) unfolding pool_ok_def lq q by auto
      have rf: "refreshed t p ?q" unfolding refreshed_def lq q by auto
      show ?thesis
      proof (cases "same_groups c (pe_helper (entry_at p a))")
        case True
        then have eo: "entries_ok L t ?q" using assms(2) cL a unfolding entries_ok_def lq q by auto
        have "r = Inr a" "p' = checkout a ?q" using assms(5) 3 \<open>need\<close> True q(1)[of a]
          by (simp_all add: acquire_finish_def Let_def)
        then show ?thesis using handed_checkout[OF okq, of a user L t p] lq l q(1)[of a] a(2) eo rf assms(4) q(3,4) by simp
      next
        case False
        let ?s = "retire a ?q"
        have ls: "live ?q a" using lq l by simp
        have hs: "po_heap ?s = po_heap ?q" "po_max ?s = po_max p" "length (po_helpers ?s) \<le> length (po_helpers p)"
          using retire_pruned[of ?q a] q(3,4) by (auto simp: pruned_def)
        have eo: "entries_ok L t ?s"
          using assms(2) cL a unfolding entries_ok_def retire_live[OF okq ls] hs lq q by auto
        have none: "map_of (po_helpers ?s) user = None"
          using q(1)[of a] a(2) by (simp add: retire_def stop_helper_def Let_def AList.delete_conv')
        have run: "start_entry started t user c ?s = (r, p')"
          using assms(5) 3 \<open>need\<close> False q(1)[of a] by (simp add: acquire_finish_def Let_def)
        from start_entry_ok[OF retire_ok[OF okq ls] none eo _ _ run] cL hs(2,3) assms(4)
        have h: "handed n L t user ?s r p'" "\<forall>a. r = Inr a \<longrightarrow> pe_creds_at (entry_at p' a) = t" by auto
        have "refreshed t p ?s" using refreshed_trans[OF rf pruned_refreshed[OF retire_pruned]] .
        then have "handed n L t user p r p'" using h(1) refreshed_trans by (auto simp: handed_def)
        with h(2) show ?thesis by blast
      qed
    qed
  qed
qed

section \<open>Every interleaving\<close>

fun holds :: "nat \<Rightarrow> call \<Rightarrow> bool" where
  "holds a (Holding _ _ b) \<longleftrightarrow> b = a"
| "holds a _ \<longleftrightarrow> False"

definition holders :: "call multiset \<Rightarrow> nat \<Rightarrow> nat" where
  "holders C a = size (filter_mset (holds a) C)"

lemma holders_simps [simp]:
  "holders {#} = (\<lambda>_. 0)" "holders (add_mset (Asking t u n) C) = holders C" "holders (add_mset (Ready t u n c) C) = holders C"
  "holders (add_mset (Holding t u a) C) = (holders C)(a := Suc (holders C a))"
  by (auto simp: holders_def)

definition recent :: "pool \<Rightarrow> string \<Rightarrow> time \<Rightarrow> bool" where
  "recent p u t0 \<longleftrightarrow> (\<forall>a. live p a \<longrightarrow> pe_user (entry_at p a) = u \<longrightarrow> t0 - po_ttl p < pe_creds_at (entry_at p a))"

fun call_ok :: "pool \<Rightarrow> (string \<times> creds) set \<Rightarrow> time \<Rightarrow> call \<Rightarrow> bool" where
  "call_ok p L t (Asking t0 u need) \<longleftrightarrow> t0 \<le> t \<and> (\<not> need \<longrightarrow> recent p u t0)"
| "call_ok p L t (Ready t0 u need c) \<longleftrightarrow>
     t0 \<le> t \<and> (if need then (u, c) \<in> L else c = zero_creds \<and> recent p u t0)"
| "call_ok p L t (Holding t0 u a) \<longleftrightarrow> a < length (po_heap p) \<and> pe_user (entry_at p a) = u"

lemma recent_kept:
  assumes "refreshed t' p p'" and "0 < po_ttl p" and "t0 \<le> t'" and "recent p u t0"
  shows "recent p' u t0"
  unfolding recent_def
proof (intro allI impI)
  fix a assume a: "live p' a" "pe_user (entry_at p' a) = u"
  have r: "po_ttl p' = po_ttl p" "\<And>b. b < length (po_heap p) \<Longrightarrow> pe_user (entry_at p' b) = pe_user (entry_at p b)"
    "pe_creds_at (entry_at p' a) = t' \<or> live p a \<and> pe_creds_at (entry_at p' a) = pe_creds_at (entry_at p a)"
    using assms(1) a(1) unfolding refreshed_def by blast+
  show "t0 - po_ttl p' < pe_creds_at (entry_at p' a)"
  proof (cases "pe_creds_at (entry_at p' a) = t'")
    case True
    then show ?thesis using assms(2,3) r(1) by simp
  next
    case False
    then have l: "live p a" "pe_creds_at (entry_at p' a) = pe_creds_at (entry_at p a)" using r(3) by auto
    then have "pe_user (entry_at p a) = u" using r(2)[of a] a(2) by (simp add: live_def)
    then show ?thesis using assms(4) l r(1) by (simp add: recent_def)
  qed
qed

lemma call_kept:
  assumes "call_ok p L t x" and "refreshed t' p p'" and "0 < po_ttl p" and "t \<le> t'" and "L \<subseteq> L'"
  shows "call_ok p' L' t' x"
proof (cases x)
  case (Asking t0 u need)
  then show ?thesis using assms recent_kept[OF assms(2,3), of t0 u] by auto
next
  case (Ready t0 u need c)
  then show ?thesis using assms recent_kept[OF assms(2,3), of t0 u] by (auto split: if_splits)
next
  case (Holding t0 u a)
  then show ?thesis using assms(1,2) by (auto simp: refreshed_def)
qed

fun sys_ok :: "pool_sys \<Rightarrow> bool" where
  "sys_ok (p, C, L, t) \<longleftrightarrow> pool_ok (holders C) p \<and> entries_ok L t p \<and> length (po_helpers p) \<le> po_max p \<and> 0 < po_ttl p \<and>
     (\<forall>x \<in># C. call_ok p L t x)"

lemma calls_kept:
  assumes "\<forall>x \<in># C. call_ok p L t x" and "refreshed t' p p'" and "0 < po_ttl p" and "t \<le> t'" and "L \<subseteq> L'"
  shows "\<forall>x \<in># C. call_ok p' L' t' x"
  using assms call_kept by blast

lemma sys_begin:
  assumes "sys_ok (p, C, L, t)" and "acquire_begin t' u p = Some need" and "t \<le> t'"
  shows "sys_ok (p, add_mset (Asking t' u need) C, L, t')"
proof -
  have ok: "pool_ok (holders C) p" using assms(1) by simp
  have "recent p u t'" if "\<not> need"
    using assms(2) that pool_okD(4)[OF ok, of u] by (auto simp: acquire_begin_def recent_def live_def split: option.splits if_splits)
  then show ?thesis
    using assms calls_kept[of C p L t t' p L] entries_mono[of L t p L t'] by auto
qed

lemma sys_finish:
  assumes "sys_ok (p, add_mset (Ready t0 u need c) C, L, t)" and "acquire_finish started t' u need c p = (r, p')" and "t \<le> t'"
  shows "case r of Inl e \<Rightarrow> sys_ok (p', C, L, t') | Inr a \<Rightarrow> sys_ok (p', add_mset (Holding t0 u a) C, L, t') \<and>
    live p' a \<and> t0 - po_ttl p' < pe_creds_at (entry_at p' a)"
proof -
  have s: "pool_ok (holders C) p" "entries_ok L t' p" "length (po_helpers p) \<le> po_max p" "0 < po_ttl p"
    "\<forall>x \<in># C. call_ok p L t x" "(u, c) \<in> L \<or> \<not> need \<and> c = zero_creds" "t0 \<le> t" "need \<or> recent p u t0"
    using assms(1,3) entries_mono[of L t p L t'] by (auto split: if_splits)
  note fin = acquire_finish_ok[OF s(1,2,6,3) assms(2)]
  have h: "handed (holders C) L t' u p r p'" using fin by blast
  then have rf: "refreshed t' p p'" "0 < po_ttl p'" "po_ttl p' = po_ttl p" using s(4) by (auto simp: handed_def refreshed_def)
  have calls: "\<forall>x \<in># C. call_ok p' L t' x" using calls_kept[OF s(5) rf(1) s(4) assms(3)] by blast
  show ?thesis
  proof (cases r)
    case (Inl e)
    then show ?thesis using h rf(2) calls by (simp add: handed_def)
  next
    case (Inr a)
    then have a: "pool_ok ((holders C)(a := Suc (holders C a))) p'" "live p' a" "pe_user (entry_at p' a) = u"
      "entries_ok L t' p'" "length (po_helpers p') \<le> po_max p'" using h by (simp_all add: handed_def)
    have "pe_creds_at (entry_at p' a) = t' \<or> \<not> need \<and> live p a \<and> pe_creds_at (entry_at p' a) = pe_creds_at (entry_at p a)"
      using fin Inr by blast
    moreover have "recent p' u t0" if "\<not> need" using recent_kept[OF rf(1) s(4), of t0 u] s(7,8) assms(3) that by simp
    ultimately have "t0 - po_ttl p' < pe_creds_at (entry_at p' a)"
      using rf(2) s(7) assms(3) a(2,3) by (cases need) (auto simp: recent_def)
    then show ?thesis using a rf(2) calls Inr by (auto simp: live_def)
  qed
qed

lemma release_entries: "entries_ok L t p \<Longrightarrow> a < length (po_heap p) \<Longrightarrow> entries_ok L t (pool_release now a p)"
  by (auto simp: entries_ok_def live_def pool_release_def stop_helper_def update_entry_def Let_def nth_update_any)

lemma release_refreshed: "refreshed t p (pool_release now a p)"
  by (auto simp: refreshed_def live_def pool_release_def stop_helper_def update_entry_def Let_def nth_update_any)

lemma sys_step:
  assumes "pool_step s s'" and "sys_ok s"
  shows "sys_ok s'"
  using assms
proof (cases rule: pool_step.cases)
  case (Begin t' u p need t C L)
  then show ?thesis using assms(2) sys_begin by blast
next
  case (Resolve p t0 u C L t c)
  then show ?thesis using assms(2) calls_kept[of C p L t t p "insert (u, c) L"] entries_mono[of L t p "insert (u, c) L" t]
    by auto
next
  case (Unresolved p t0 u C L t)
  then show ?thesis using assms(2) by simp
next
  case (Skip p t0 u C L t)
  then show ?thesis using assms(2) by simp
next
  case (Acquired started t' u need c p a p' t t0 C L)
  then show ?thesis using assms(2) sys_finish[of p t0 u need c C L t started t' "Inr a" p'] by simp
next
  case (Refused started t' u need c p e p' t t0 C L)
  then show ?thesis using assms(2) sys_finish[of p t0 u need c C L t started t' "Inl e" p'] by simp
next
  case (Release t t' p t0 u a C L)
  then have a: "a < length (po_heap p)" "pool_ok ((holders C)(a := Suc (holders C a))) p" "entries_ok L t' p"
    "\<forall>x \<in># C. call_ok p L t x" "0 < po_ttl p" "length (po_helpers p) \<le> po_max p"
    using assms(2) entries_mono[of L t p L t'] by auto
  have "po_helpers (pool_release t' a p) = po_helpers p" "po_max (pool_release t' a p) = po_max p" "po_ttl (pool_release t' a p) = po_ttl p"
    by (simp_all add: pool_release_def stop_helper_def update_entry_def Let_def)
  then show ?thesis
    using Release release_ok(1)[OF a(2,1), of t'] release_entries[OF a(3,1)] calls_kept[OF a(4) release_refreshed a(5) _ subset_refl, of t'] a(5,6)
    by simp
next
  case (Reap t t' p C L)
  then have s: "pool_ok (holders C) p" "entries_ok L t' p" "\<forall>x \<in># C. call_ok p L t x" "0 < po_ttl p" "length (po_helpers p) \<le> po_max p"
    using assms(2) entries_mono[of L t p L t'] by auto
  have r: "pool_ok (holders C) (pool_reap t' p)" "pruned p (pool_reap t' p)" using reap_ok[OF s(1)] by (simp_all add: pool_reap_def)
  show ?thesis
    using Reap r(1) pruned_entries[OF r(2) s(2)] calls_kept[OF s(3) pruned_refreshed[OF r(2)] s(4) Reap(3) subset_refl] s(4,5) r(2)
    by (auto simp: pruned_def)
next
  case (Close p C L t)
  have s: "pool_ok (holders C) p" "entries_ok L t p" "\<forall>x \<in># C. call_ok p L t x" "0 < po_ttl p" "length (po_helpers p) \<le> po_max p"
    using assms(2) Close by auto
  let ?q = "p\<lparr>po_closed := po_closed (pool_close p)\<rparr>"
  have l: "live ?q a = live p a" for a by (simp add: live_def)
  have r: "pool_ok (holders C) (pool_close p)" "pruned ?q (pool_close p)" using close_ok[OF s(1)] by (simp_all add: pruned_def)
  have q: "entries_ok L t ?q" "refreshed t p ?q" using s(2) unfolding entries_ok_def refreshed_def l by auto
  show ?thesis
    using Close r(1) pruned_entries[OF r(2) q(1)] calls_kept[OF s(3) refreshed_trans[OF q(2) pruned_refreshed[OF r(2)]] s(4) _ subset_refl] s(4,5) r(2)
    by (auto simp: pruned_def)
qed

lemma reachable_ok:
  assumes "new_pool bin root timeout max_helpers ttl = Inr p0" and "pool_reachable p0 s"
  shows "sys_ok s"
  using assms(2)
proof (induction rule: pool_reachable.induct)
  case Start
  have "po_heap p0 = []" "po_helpers p0 = []" "po_lru p0 = []" "po_stopped p0 = []" "0 < po_ttl p0"
    using assms(1) by (auto simp: new_pool_def split: if_splits)
  then show ?case by (simp add: pool_ok_def entries_ok_def live_def)
next
  case (Step s s')
  then show ?case using sys_step by blast
qed

text \<open>C24: A helper runs as the user it serves. However requests, the reaper and the shutdown interleave,
  a request that holds a helper was made for the user the helper was started for; the helper runs
  with credentials the resolver gave for that user, never with uid 0 or gid 0, and it has not been
  stopped.\<close>

theorem helpers_run_as_their_user:
  assumes "new_pool bin root timeout max_helpers ttl = Inr p0" and "pool_reachable p0 (p, C, L, t)" and "Holding t0 u a \<in># C"
  shows "pe_user (entry_at p a) = u \<and> (u, pe_helper (entry_at p a)) \<in> L \<and> cr_uid (pe_helper (entry_at p a)) \<noteq> 0 \<and>
    cr_gid (pe_helper (entry_at p a)) \<noteq> 0 \<and> a \<notin> set (po_stopped p)"
proof -
  have s: "pool_ok (holders C) p" "entries_ok L t p" "call_ok p L t (Holding t0 u a)"
    using reachable_ok[OF assms(1,2)] assms(3) by auto
  obtain C' where "C = add_mset (Holding t0 u a) C'" using assms(3) by (metis mset_add)
  then have "0 < holders C a" by simp
  then have "a \<notin> set (po_stopped p)" using pool_okD(8)[OF s(1), of a] by auto
  then show ?thesis using s(2,3) by (auto simp: entries_ok_def)
qed

text \<open>C26: The pool stays within its bound and stops a helper once, when nobody uses it. In every
  reachable state at most the configured number of helpers is in the table; the in-use count of an
  entry is the number of requests that hold it; no helper is stopped twice; and one that was stopped
  is held by no request and is out of the table, so no later request gets it.\<close>

theorem pool_within_bound:
  assumes "new_pool bin root timeout max_helpers ttl = Inr p0" and "pool_reachable p0 (p, C, L, t)"
  shows "pool_len p \<le> po_max p \<and> distinct (po_stopped p) \<and>
    (\<forall>a < length (po_heap p). pe_in_use (entry_at p a) = size {# x \<in># C. holds a x #}) \<and>
    (\<forall>a \<in> set (po_stopped p). size {# x \<in># C. holds a x #} = 0 \<and> a \<notin> set (po_lru p) \<and> a \<notin> snd ` set (po_helpers p))"
proof -
  have s: "pool_ok (holders C) p" "length (po_helpers p) \<le> po_max p" using reachable_ok[OF assms] by auto
  have "a \<notin> snd ` set (po_helpers p)" if "\<not> live p a" for a
    using pool_okD(1)[OF s(1)] pool_okD(4)[OF s(1)] that by (force simp: live_def)
  then show ?thesis
    using s(2) pool_okD(5,7)[OF s(1)] pool_okD(3,8)[OF s(1)] by (simp add: pool_len_def holders_def)
qed

text \<open>A change of memberships takes effect within the credential life. Whenever a request that
  entered acquire at \<open>t0\<close> is handed a helper, the helper has exactly the group and the
  supplementary groups of an answer the resolver gave for that user, recorded later than \<open>t0\<close> less
  the credential life.\<close>

theorem memberships_current:
  assumes "new_pool bin root timeout max_helpers ttl = Inr p0" and "pool_reachable p0 (p, add_mset (Ready t0 u need c) C, L, t)"
    and "acquire_finish started t' u need c p = (Inr a, p')" and "t \<le> t'"
  shows "(u, pe_creds (entry_at p' a)) \<in> L \<and> same_groups (pe_creds (entry_at p' a)) (pe_helper (entry_at p' a)) \<and>
    t0 - po_ttl p' < pe_creds_at (entry_at p' a)"
  using sys_finish[OF reachable_ok[OF assms(1,2)] assms(3,4)] by (auto simp: entries_ok_def live_def)

section \<open>Resolution and the id mapping\<close>

lemma set_compact [simp]: "set (compact xs) = set xs"
  by (induction xs rule: compact.induct) auto

lemma sorted_compact: "sorted_wrt (\<le>) xs \<Longrightarrow> sorted_wrt (<) (compact (xs :: 'a :: linorder list))"
  by (induction xs rule: compact.induct) (auto simp: less_le)

lemma strictly_sorted_unique:
  "sorted_wrt (<) xs \<Longrightarrow> sorted_wrt (<) ys \<Longrightarrow> set xs = set ys \<Longrightarrow> xs = (ys :: 'a :: linorder list)"
  by (simp add: strict_sorted_equal)

lemma nss_groups:
  assumes "nss_resolve run user w = (Inr c, w')"
  shows "sorted_wrt (<) (cr_groups c)"
proof -
  have "sorted_wrt (<) (compact (sort_by (\<le>) gs))" for gs :: "uint32 list"
    using sorted_compact[OF sorted_wrt_sort_by[OF total_preorder_key[of "\<lambda>x. x"], of gs]] by simp
  then show ?thesis using assms by (auto simp: nss_resolve_def Let_def split: if_splits prod.splits sum.splits option.splits)
qed

text \<open>Only a change of memberships replaces a helper. Two resolutions that answer the same primary
  group and the same set of groups compare as the same, in whatever order and however often the name
  service lists a group.\<close>

theorem same_memberships:
  assumes "nss_resolve run user w = (Inr c, w1)" and "nss_resolve run' user' w' = (Inr d, w2)"
  shows "same_groups c d \<longleftrightarrow> cr_gid c = cr_gid d \<and> set (cr_groups c) = set (cr_groups d)"
  using strictly_sorted_unique[OF nss_groups[OF assms(1)] nss_groups[OF assms(2)]] by (auto simp: same_groups_def)

text \<open>What a line of the id map has to say.\<close>

definition identity_line :: "string \<Rightarrow> bool" where
  "identity_line line \<longleftrightarrow>
     (\<exists>a b c i n. GoStrings.fields line = [a, b, c] \<and> parse_uint a 10 32 = Some i \<and> parse_uint b 10 32 = Some i \<and>
        parse_uint c 10 64 = Some n \<and> 65536 \<le> n)"

lemma check_lines_exact:
  "check_lines seen ls = None \<longleftrightarrow>
     (seen \<or> (\<exists>l \<in> set ls. GoStrings.fields l \<noteq> [])) \<and> (\<forall>l \<in> set ls. GoStrings.fields l = [] \<or> identity_line l)"
proof (induction ls arbitrary: seen)
  case Nil
  then show ?case by simp
next
  case (Cons l ls)
  show ?case
  proof (cases "length (GoStrings.fields l) = 3")
    case True
    then obtain a b c where f: "GoStrings.fields l = [a, b, c]" by (auto simp: numeral_3_eq_3 length_Suc_conv)
    show ?thesis using Cons f by (auto simp: identity_line_def Let_def split: option.splits)
  next
    case False
    then show ?thesis using Cons by (auto simp: identity_line_def Let_def)
  qed
qed

text \<open>The server refuses a shifted id space. The check passes exactly when the map has a line and
  every line maps a range of at least 65536 ids to the same ids.\<close>

theorem mapping_check_exact:
  "check_mapping ls = None \<longleftrightarrow>
     (\<exists>l \<in> set ls. GoStrings.fields l \<noteq> []) \<and> (\<forall>l \<in> set ls. GoStrings.fields l = [] \<or> identity_line l)"
  by (simp add: check_mapping_def check_lines_exact)

section \<open>Concrete runs\<close>

definition pool_creds :: "uint32 list \<Rightarrow> creds" where
  "pool_creds gs = \<lparr>cr_uid = 3001, cr_gid = 3001, cr_groups = gs\<rparr>"

definition pool_zero :: pool where
  "pool_zero = \<lparr>po_max = 2, po_timeout = 300000000000, po_ttl = 30000000000, po_heap = [], po_helpers = [], po_lru = [],
     po_closed = False, po_stopped = []\<rparr>"

lemma pool_zero_new: "new_pool ''bin'' ''root'' 0 2 0 = Inr pool_zero"
  by (simp add: new_pool_def pool_zero_def minute_def second_def)

definition one_entry :: "nat \<Rightarrow> pool" where
  "one_entry n = pool_zero\<lparr>po_heap := [\<lparr>pe_user = ''bob'', pe_helper = pool_creds [5], pe_in_use = n, pe_idle = 0,
     pe_creds = pool_creds [5], pe_creds_at = 2\<rparr>], po_helpers := [(''bob'', 0)], po_lru := [0]\<rparr>"

lemma first_acquire: "acquire_finish (\<lambda>_. None) 2 ''bob'' True (pool_creds [5]) pool_zero = (Inr 0, one_entry 1)"
  by (simp add: acquire_finish_def start_entry_def make_room_def reap_locked_def evict.simps spawn_helper_def pool_creds_def
      pool_zero_def one_entry_def checkout_def update_entry_def Let_def)

lemma first_ready: "pool_reachable pool_zero (pool_zero, {# Ready 1 ''bob'' True (pool_creds [5]) #}, {(''bob'', pool_creds [5])}, 1)"
proof -
  have "pool_step (pool_zero, {#}, {}, 0) (pool_zero, {# Asking 1 ''bob'' True #}, {}, 1)"
    by (rule Begin) (simp_all add: acquire_begin_def pool_zero_def)
  moreover have "pool_step (pool_zero, {# Asking 1 ''bob'' True #}, {}, 1)
      (pool_zero, {# Ready 1 ''bob'' True (pool_creds [5]) #}, {(''bob'', pool_creds [5])}, 1)" by (rule Resolve)
  ultimately show ?thesis by (meson Start Step)
qed

lemma first_held: "pool_reachable pool_zero (one_entry 1, {# Holding 1 ''bob'' 0 #}, {(''bob'', pool_creds [5])}, 2)"
  by (rule Step[OF first_ready Acquired[OF first_acquire]]) simp

lemma helpers_run_as_their_user_witness: "(''bob'', pe_helper (entry_at (one_entry 1) 0)) \<in> {(''bob'', pool_creds [5])}"
  using helpers_run_as_their_user[OF pool_zero_new first_held, of 1 "''bob''" 0] by simp

lemma pool_within_bound_witness: "pool_len (one_entry 1) \<le> 2 \<and> pe_in_use (entry_at (one_entry 1) 0) = 1"
  using pool_within_bound[OF pool_zero_new first_held] by (simp add: one_entry_def pool_zero_def)

lemma memberships_current_witness:
  "same_groups (pe_creds (entry_at (one_entry 1) 0)) (pe_helper (entry_at (one_entry 1) 0)) \<and> (1 :: int) - 30000000000 < 2"
  using memberships_current[OF pool_zero_new first_ready first_acquire] by (simp add: one_entry_def pool_zero_def)

lemma initial_map_fields: "GoStrings.fields ''0 0 4294967295'' = [''0'', ''0'', ''4294967295'']"
  by (simp add: GoStrings.fields_def is_space_code)

lemma initial_map_numbers:
  "parse_uint ''0'' 10 32 = Some 0" "parse_uint ''4294967295'' 10 64 = Some 4294967295"
  by (simp_all add: parse_uint_def digit_val_def)

lemma mapping_check_exact_witness: "check_mapping [''0 0 4294967295''] = None"
proof -
  have "identity_line ''0 0 4294967295''" by (simp add: identity_line_def initial_map_fields initial_map_numbers)
  then show ?thesis using mapping_check_exact[of "[''0 0 4294967295'']"] by (simp add: initial_map_fields)
qed

text \<open>
  The check does not ask where a range starts: a map that leaves every id below 65536 unmapped
  passes, although the managed band starts at 3000.
\<close>

lemma high_range_passes: "check_mapping [''65536 65536 65536''] = None"
  by (simp add: check_mapping_def GoStrings.fields_def is_space_code parse_uint_def digit_val_def)

definition sample_nss :: "string \<Rightarrow> unit runner" where
  "sample_nss groups = (\<lambda>_ bin _ w. (Inr (if bin = ''id'' then groups else ''bob:x:7:8:''), w))"

lemma sample_nss_run:
  "nss_resolve (sample_nss ''8 5'') ''bob'' () = (Inr \<lparr>cr_uid = 7, cr_gid = 8, cr_groups = [5, 8]\<rparr>, ())"
  "nss_resolve (sample_nss ''5 8 8'') ''bob'' () = (Inr \<lparr>cr_uid = 7, cr_gid = 8, cr_groups = [5, 8]\<rparr>, ())"
proof -
  have t: "trim_space ''bob:x:7:8:'' = ''bob:x:7:8:''"
    by (simp add: trim_space_def drop_spaces.simps space_len_def space_runes_def byte_def char_of_eq_iff)
  have f: "GoStrings.fields ''8 5'' = [''8'', ''5'']" "GoStrings.fields ''5 8 8'' = [''5'', ''8'', ''8'']"
    by (simp_all add: GoStrings.fields_def is_space_code)
  have n: "\<not> contains_any ''bob'' [CHR '':'', newline, byte 0]"
    by (simp add: contains_any_def newline_def byte_iff)
  have p: "parse_uint ''7'' 10 32 = Some 7" "parse_uint ''8'' 10 32 = Some 8" "parse_uint ''5'' 10 32 = Some 5"
    by (simp_all add: parse_uint_def digit_val_def)
  show "nss_resolve (sample_nss ''8 5'') ''bob'' () = (Inr \<lparr>cr_uid = 7, cr_gid = 8, cr_groups = [5, 8]\<rparr>, ())"
    "nss_resolve (sample_nss ''5 8 8'') ''bob'' () = (Inr \<lparr>cr_uid = 7, cr_gid = 8, cr_groups = [5, 8]\<rparr>, ())"
    using n by (simp_all add: nss_resolve_def sample_nss_def t f p Let_def)
qed

lemma same_memberships_witness:
  "\<exists>c d. nss_resolve (sample_nss ''8 5'') ''bob'' () = (Inr c, ()) \<and> nss_resolve (sample_nss ''5 8 8'') ''bob'' () = (Inr d, ()) \<and>
     same_groups c d"
  using same_memberships[OF sample_nss_run] sample_nss_run by auto

text \<open>
  Without the refusal in \<open>spawn_helper\<close> a request could get a helper that runs as root: it finds its
  entry fresh, the reaper removes the entry before the lock is taken again, and the second section
  starts a helper with the zero credentials. The refusal makes that a failed request.
\<close>

lemma lost_entry_fails:
  assumes "\<not> po_closed p" and "map_of (po_helpers p) user = None" and "make_room now p = (None, p')"
  shows "acquire_finish started now user False zero_creds p = (Inl (PoSpawn ''refusing to spawn a helper as root''), p')"
  using assms by (simp add: acquire_finish_def start_entry_def spawn_helper_def zero_creds_def)

text \<open>
  A helper that was replaced while a request held it is never stopped: its last holder finds the
  user's new entry in the table.
\<close>

lemma replaced_helper_leaks:
  "\<exists>p L t. pool_reachable pool_zero (p, {#}, L, t) \<and> po_closed p \<and> po_lru p = [] \<and> pe_in_use (entry_at p 0) = 0 \<and>
     0 < length (po_heap p) \<and> 0 \<notin> set (po_stopped p)"
proof -
  let ?t = "30000000002 :: int" and ?c = "pool_creds [5, 6]"
  let ?L = "{(''bob'', ?c), (''bob'', pool_creds [5])}"
  let ?old = "\<lparr>pe_user = ''bob'', pe_helper = pool_creds [5], pe_in_use = 1, pe_idle = 0, pe_creds = ?c, pe_creds_at = ?t\<rparr>"
  let ?new = "\<lparr>pe_user = ''bob'', pe_helper = ?c, pe_in_use = 1, pe_idle = 0, pe_creds = ?c, pe_creds_at = ?t\<rparr>"
  let ?p = "pool_zero\<lparr>po_heap := [?old, ?new], po_helpers := [(''bob'', 1)], po_lru := [1]\<rparr>"
  have b: "pool_step (one_entry 1, {# Holding 1 ''bob'' 0 #}, {(''bob'', pool_creds [5])}, 2)
      (one_entry 1, {# Asking ?t ''bob'' True, Holding 1 ''bob'' 0 #}, {(''bob'', pool_creds [5])}, ?t)"
    by (rule Begin) (simp_all add: acquire_begin_def one_entry_def pool_zero_def)
  have r: "pool_step (one_entry 1, {# Asking ?t ''bob'' True, Holding 1 ''bob'' 0 #}, {(''bob'', pool_creds [5])}, ?t)
      (one_entry 1, {# Ready ?t ''bob'' True ?c, Holding 1 ''bob'' 0 #}, ?L, ?t)" by (rule Resolve)
  have f: "acquire_finish (\<lambda>_. None) ?t ''bob'' True ?c (one_entry 1) = (Inr 1, ?p)"
    by (simp add: acquire_finish_def start_entry_def make_room_def reap_locked_def evict.simps spawn_helper_def pool_creds_def
        pool_zero_def one_entry_def checkout_def update_entry_def retire_def same_groups_def Let_def)
  have a: "pool_step (one_entry 1, {# Ready ?t ''bob'' True ?c, Holding 1 ''bob'' 0 #}, ?L, ?t)
      (?p, {# Holding ?t ''bob'' 1, Holding 1 ''bob'' 0 #}, ?L, ?t)" by (rule Acquired[OF f order_refl])
  let ?q = "pool_release ?t 0 ?p"
  have c: "pool_step (?p, {# Holding ?t ''bob'' 1, Holding 1 ''bob'' 0 #}, ?L, ?t) (?q, {# Holding ?t ''bob'' 1 #}, ?L, ?t)"
    using Release[of ?t ?t ?p 1 "''bob''" 0 "{# Holding ?t ''bob'' 1 #}" ?L] by (simp add: add_mset_commute)
  have d: "pool_step (?q, {# Holding ?t ''bob'' 1 #}, ?L, ?t) (pool_release ?t 1 ?q, {#}, ?L, ?t)" by (rule Release) simp
  have e: "pool_step (pool_release ?t 1 ?q, {#}, ?L, ?t) (pool_close (pool_release ?t 1 ?q), {#}, ?L, ?t)" by (rule Close)
  let ?z = "pool_close (pool_release ?t 1 ?q)"
  have "pool_reachable pool_zero (?z, {#}, ?L, ?t)"
    by (rule Step[OF Step[OF Step[OF Step[OF Step[OF Step[OF first_held b] r] a] c] d] e])
  moreover have "po_closed ?z \<and> po_lru ?z = [] \<and> pe_in_use (entry_at ?z 0) = 0 \<and> 0 < length (po_heap ?z) \<and> 0 \<notin> set (po_stopped ?z)"
    by (simp add: pool_close_def pool_release_def update_entry_def stop_helper_def retire_def pool_zero_def Let_def)
  ultimately show ?thesis by blast
qed

end
