(* ===== verification/Roster.thy ===== *)
theory Roster
  imports Control Pool GoPath "HOL-Library.List_Lexorder" "HOL-Library.Char_ord"
begin

text \<open>
  Teams and views, \<^verbatim>\<open>src/internal/admin/\<close>: who is an administrator (\<^verbatim>\<open>admin.go\<close>), the roster
  as \<^verbatim>\<open>usersync roster\<close> prints it and delegated team membership (\<^verbatim>\<open>teams.go\<close>), and where a reader's
  request at a team folder is sent (\<^verbatim>\<open>views.go\<close>); with the handlers of \<^verbatim>\<open>src/internal/server/teams_apply.go\<close>.

  The commands are the runner's, the resolver is the helper pool's, and the JSON decoder is a
  parameter.
\<close>

section \<open>The roster\<close>

record decl_view =
  dv_team :: string
  dv_path :: string

record decl_group =
  dg_name :: string
  dg_gid :: uint32
  dg_description :: string
  dg_owners :: "string list"
  dg_members :: "string list"
  dg_readers :: "string list"
  dg_views :: "decl_view list"
  dg_all :: bool
  dg_anonymous :: string

record decl_user =
  du_name :: string
  du_uid :: uint32
  du_full_name :: string
  du_status :: string

record roster =
  dc_schema :: int
  dc_groups :: "decl_group list"
  dc_users :: "decl_user list"

datatype admin_error =
    AeRoster string | AeNoJson | AeParse string | AeNewer int | AeOlder int | AeNotOwner string | AeUnknownUser string
  | AeGroup string | AeResolve creds_error | AeNoControl | AeChange control_error | AeBatch nat control_error | AeTool string
  | AeStore auth_error | AeInitial string

text \<open>\<open>ad_decode\<close> is \<^verbatim>\<open>json.Unmarshal\<close>, \<open>ad_members\<close> the control plane's membership service if there is one.\<close>

record 'w admin =
  ad_group :: string
  ad_root :: string
  ad_resolve :: "string \<Rightarrow> 'w \<Rightarrow> (creds_error + creds) \<times> 'w"
  ad_run :: "'w runner"
  ad_usersync :: string
  ad_pdbedit :: string
  ad_smbpasswd :: string
  ad_decode :: "string \<Rightarrow> string + roster"
  ad_members :: "'w member_client option"

definition admin_new :: "'w admin \<Rightarrow> 'w admin option" where
  "admin_new A =
     (if ad_root A = [] then None
      else Some (A\<lparr>ad_group := (if ad_group A = [] then ''admin'' else ad_group A),
                   ad_usersync := (if ad_usersync A = [] then ''usersync'' else ad_usersync A),
                   ad_pdbedit := (if ad_pdbedit A = [] then ''pdbedit'' else ad_pdbedit A),
                   ad_smbpasswd := (if ad_smbpasswd A = [] then ''smbpasswd'' else ad_smbpasswd A)\<rparr>))"

definition roster_schema :: int where "roster_schema = 2"
definition min_roster_schema :: int where "min_roster_schema = 1"

definition read_declaration :: "'w admin \<Rightarrow> 'w \<Rightarrow> (admin_error + roster) \<times> 'w" where
  "read_declaration A w =
     (case ad_run A [] (ad_usersync A) [''roster''] w of
        (Inl e, w) \<Rightarrow> (Inl (AeRoster e), w)
      | (Inr out, w) \<Rightarrow>
          (let json = dropWhile (\<lambda>c. c \<noteq> CHR ''{'') out
           in if json = [] then (Inl AeNoJson, w)
              else
                (case ad_decode A json of
                   Inl e \<Rightarrow> (Inl (AeParse e), w)
                 | Inr d \<Rightarrow>
                     (if dc_schema d > roster_schema then (Inl (AeNewer (dc_schema d)), w)
                      else if dc_schema d < min_roster_schema then (Inl (AeOlder (dc_schema d)), w)
                      else (Inr d, w)))))"

definition lookup_group_gid :: "'w admin \<Rightarrow> string \<Rightarrow> 'w \<Rightarrow> (admin_error + uint32 option) \<times> 'w" where
  "lookup_group_gid A name w =
     (case ad_run A [] ''getent'' [''group'', name] w of
        (Inl _, w) \<Rightarrow> (Inr None, w)
      | (Inr out, w) \<Rightarrow>
          (if trim_space out = [] then (Inr None, w)
           else
             (let f = split_on CHR '':'' (trim_space out)
              in if length f < 3 then (Inl (AeGroup name), w)
                 else (case parse_uint (f ! 2) 10 32 of
                         None \<Rightarrow> (Inl (AeGroup name), w)
                       | Some gid \<Rightarrow> (Inr (Some (word_of_nat gid)), w)))))"

definition is_admin :: "'w admin \<Rightarrow> string \<Rightarrow> 'w \<Rightarrow> (admin_error + bool) \<times> 'w" where
  "is_admin A user w =
     (case lookup_group_gid A (ad_group A) w of
        (Inl e, w) \<Rightarrow> (Inl e, w)
      | (Inr None, w) \<Rightarrow> (Inr False, w)
      | (Inr (Some gid), w) \<Rightarrow>
          (case ad_resolve A user w of
             (Inl e, w) \<Rightarrow> (Inl (AeResolve e), w)
           | (Inr c, w) \<Rightarrow> (Inr (cr_gid c = gid \<or> gid \<in> set (cr_groups c)), w)))"

section \<open>Who may change a team\<close>

definition sort_names :: "string list \<Rightarrow> string list" where
  "sort_names xs = sort_by (\<lambda>x y. x \<le> y) xs"

definition owned_of :: "roster \<Rightarrow> string \<Rightarrow> string list" where
  "owned_of d user = sort_names (map dg_name (filter (\<lambda>g. user \<in> set (dg_owners g)) (dc_groups d)))"

definition owned_teams :: "'w admin \<Rightarrow> string \<Rightarrow> 'w \<Rightarrow> (admin_error + string list) \<times> 'w" where
  "owned_teams A user w = (case read_declaration A w of (Inl e, w) \<Rightarrow> (Inl e, w) | (Inr d, w) \<Rightarrow> (Inr (owned_of d user), w))"

definition may_manage_team :: "'w admin \<Rightarrow> string \<Rightarrow> string \<Rightarrow> 'w \<Rightarrow> (admin_error + bool) \<times> 'w" where
  "may_manage_team A actor team w =
     (case is_admin A actor w of
        (Inl e, w) \<Rightarrow> (Inl e, w)
      | (Inr True, w) \<Rightarrow> (Inr True, w)
      | (Inr False, w) \<Rightarrow>
          (case owned_teams A actor w of (Inl e, w) \<Rightarrow> (Inl e, w) | (Inr ts, w) \<Rightarrow> (Inr (team \<in> set ts), w)))"

definition declared :: "roster \<Rightarrow> string \<Rightarrow> bool" where
  "declared d user \<longleftrightarrow> list_ex (\<lambda>u. du_name u = user) (dc_users d)"

definition set_team_membership :: "'w admin \<Rightarrow> string \<Rightarrow> string \<Rightarrow> string \<Rightarrow> bool \<Rightarrow> 'w \<Rightarrow> admin_error option \<times> 'w" where
  "set_team_membership A actor team user add w =
     (case may_manage_team A actor team w of
        (Inl e, w) \<Rightarrow> (Some e, w)
      | (Inr False, w) \<Rightarrow> (Some (AeNotOwner team), w)
      | (Inr True, w) \<Rightarrow>
          (case read_declaration A w of
             (Inl e, w) \<Rightarrow> (Some e, w)
           | (Inr d, w) \<Rightarrow>
               (if \<not> declared d user then (Some (AeUnknownUser user), w)
                else
                  (case ad_members A of
                     None \<Rightarrow> (Some AeNoControl, w)
                   | Some cl \<Rightarrow>
                       (case (if add then cl_add cl user team RoleMember w else cl_erase cl user team w) of
                          (Some e, w) \<Rightarrow> (Some (AeChange e), w)
                        | (None, w) \<Rightarrow> (None, w))))))"

record staged_change =
  sc_team :: string
  sc_user :: string
  sc_member :: bool

text \<open>A later group of the same name replaces the owners of an earlier one.\<close>

definition owners_map :: "roster \<Rightarrow> (string \<rightharpoonup> string list)" where
  "owners_map d = fold (\<lambda>g m. m(dg_name g \<mapsto> dg_owners g)) (dc_groups d) Map.empty"

fun check_changes :: "roster \<Rightarrow> bool \<Rightarrow> string \<Rightarrow> staged_change list \<Rightarrow> admin_error option" where
  "check_changes d admin actor [] = None"
| "check_changes d admin actor (c # cs) =
     (case owners_map d (sc_team c) of
        None \<Rightarrow> Some (AeNotOwner (sc_team c))
      | Some owners \<Rightarrow>
          (if \<not> admin \<and> actor \<notin> set owners then Some (AeNotOwner (sc_team c))
           else if \<not> declared d (sc_user c) then Some (AeUnknownUser (sc_user c))
           else check_changes d admin actor cs))"

definition batch_of :: "staged_change list \<Rightarrow> member_change list" where
  "batch_of cs = map (\<lambda>c. \<lparr>mc_op = (if sc_member c then MoAdd else MoErase), mc_account = sc_user c, mc_group = sc_team c,
     mc_role = RoleMember\<rparr>) cs"

definition batch_set_team_membership :: "'w admin \<Rightarrow> string \<Rightarrow> staged_change list \<Rightarrow> 'w \<Rightarrow> admin_error option \<times> 'w" where
  "batch_set_team_membership A actor changes w =
     (if changes = [] then (None, w)
      else
        (case read_declaration A w of
           (Inl e, w) \<Rightarrow> (Some e, w)
         | (Inr d, w) \<Rightarrow>
             (case is_admin A actor w of
                (Inl e, w) \<Rightarrow> (Some e, w)
              | (Inr admin, w) \<Rightarrow>
                  (case check_changes d admin actor changes of
                     Some e \<Rightarrow> (Some e, w)
                   | None \<Rightarrow>
                       (case ad_members A of
                          None \<Rightarrow> (Some AeNoControl, w)
                        | Some cl \<Rightarrow>
                            (case cl_batch cl (batch_of changes) w of
                               (Inl e, w) \<Rightarrow> (Some (AeBatch (length changes) e), w)
                             | (Inr _, w) \<Rightarrow> (None, w)))))))"

text \<open>\<^verbatim>\<open>strings.SplitN\<close> for a positive count.\<close>

fun split_n :: "nat \<Rightarrow> char \<Rightarrow> string \<Rightarrow> string list" where
  "split_n 0 c s = []"
| "split_n (Suc 0) c s = [s]"
| "split_n (Suc (Suc n)) c s = (case cut s c of (a, b, ok) \<Rightarrow> if ok then a # split_n (Suc n) c b else [s])"

definition group_members :: "'w admin \<Rightarrow> string \<Rightarrow> 'w \<Rightarrow> string list \<times> 'w" where
  "group_members A name w =
     (case ad_run A [] ''getent'' [''group'', name] w of
        (Inl _, w) \<Rightarrow> ([], w)
      | (Inr out, w) \<Rightarrow>
          (if trim_space out = [] then ([], w)
           else
             (let f = split_n 4 CHR '':'' (trim_space out)
              in if length f < 4 then ([], w)
                 else (filter (\<lambda>m. m \<noteq> []) (map trim_space (split_on CHR '','' (f ! 3))), w))))"

fun applied_loop :: "'w admin \<Rightarrow> (string \<rightharpoonup> string list) \<Rightarrow> staged_change list \<Rightarrow> 'w \<Rightarrow> bool \<times> 'w" where
  "applied_loop A seen [] w = (True, w)"
| "applied_loop A seen (c # cs) w =
     (case (case seen (sc_team c) of
              Some ms \<Rightarrow> (ms, seen, w)
            | None \<Rightarrow> (case group_members A (sc_team c) w of (ms, w) \<Rightarrow> (ms, seen(sc_team c \<mapsto> ms), w))) of
        (ms, seen, w) \<Rightarrow>
          (if (sc_user c \<in> set ms) \<noteq> sc_member c then (False, w) else applied_loop A seen cs w))"

definition membership_applied :: "'w admin \<Rightarrow> staged_change list \<Rightarrow> 'w \<Rightarrow> bool \<times> 'w" where
  "membership_applied A changes w = applied_loop A Map.empty changes w"

section \<open>What the pages show\<close>

record public_folder =
  pf_name :: string
  pf_description :: string
  pf_write :: bool

definition public_folders :: "'w admin \<Rightarrow> 'w \<Rightarrow> (admin_error + public_folder list) \<times> 'w" where
  "public_folders A w =
     (case read_declaration A w of
        (Inl e, w) \<Rightarrow> (Inl e, w)
      | (Inr d, w) \<Rightarrow>
          (Inr (sort_by (\<lambda>x y. pf_name x \<le> pf_name y)
             (map (\<lambda>g. \<lparr>pf_name = dg_name g, pf_description = dg_description g, pf_write = (dg_anonymous g = ''write'')\<rparr>)
               (filter (\<lambda>g. dg_anonymous g = ''read'' \<or> dg_anonymous g = ''write'') (dc_groups d)))), w))"

definition mine :: "roster \<Rightarrow> string \<Rightarrow> string list" where
  "mine d user = map dg_name (filter (\<lambda>g. user \<in> set (dg_members g)) (dc_groups d))"

definition team_open :: "roster \<Rightarrow> string \<Rightarrow> decl_group \<Rightarrow> bool" where
  "team_open d user g \<longleftrightarrow> dg_anonymous g = ''read'' \<or> dg_anonymous g = ''write'' \<or> dg_name g \<in> set (mine d user) \<or>
     list_ex (\<lambda>r. r \<in> set (mine d user)) (dg_readers g)"

definition team_access :: "'w admin \<Rightarrow> string \<Rightarrow> 'w \<Rightarrow> (admin_error + (string \<rightharpoonup> bool)) \<times> 'w" where
  "team_access A user w =
     (case read_declaration A w of
        (Inl e, w) \<Rightarrow> (Inl e, w)
      | (Inr d, w) \<Rightarrow> (Inr (fold (\<lambda>g m. m(dg_name g \<mapsto> team_open d user g)) (dc_groups d) Map.empty), w))"

record team_view =
  tv_name :: string
  tv_gid :: uint32
  tv_description :: string
  tv_owners :: "string list"
  tv_members :: "string list"

definition manageable_teams :: "'w admin \<Rightarrow> string \<Rightarrow> 'w \<Rightarrow> (admin_error + team_view list \<times> string list) \<times> 'w" where
  "manageable_teams A actor w =
     (case read_declaration A w of
        (Inl e, w) \<Rightarrow> (Inl e, w)
      | (Inr d, w) \<Rightarrow>
          (case is_admin A actor w of
             (Inl e, w) \<Rightarrow> (Inl e, w)
           | (Inr admin, w) \<Rightarrow>
               (Inr (map (\<lambda>g. \<lparr>tv_name = dg_name g, tv_gid = dg_gid g, tv_description = dg_description g, tv_owners = dg_owners g,
                              tv_members = sort_names (dg_members g)\<rparr>)
                       (filter (\<lambda>g. admin \<or> actor \<in> set (dg_owners g)) (dc_groups d)),
                     sort_names (map du_name (filter (\<lambda>u. du_status u \<noteq> ''reserved'') (dc_users d)))), w)))"

section \<open>Views\<close>

record decl_cache =
  ca_decl :: "roster option"
  ca_at :: time

definition decl_ttl :: duration where "decl_ttl = 5 * second"

definition cached_declaration :: "'w admin \<Rightarrow> time \<Rightarrow> decl_cache \<Rightarrow> 'w \<Rightarrow> (admin_error + roster) \<times> decl_cache \<times> 'w" where
  "cached_declaration A now ca w =
     (case ca_decl ca of
        Some d \<Rightarrow>
          (if now - ca_at ca < decl_ttl then (Inr d, ca, w)
           else
             (case read_declaration A w of
                (Inl e, w) \<Rightarrow> (Inr d, ca, w)
              | (Inr d', w) \<Rightarrow> (Inr d', \<lparr>ca_decl = Some d', ca_at = now\<rparr>, w)))
      | None \<Rightarrow>
          (case read_declaration A w of
             (Inl e, w) \<Rightarrow> (Inl e, ca, w)
           | (Inr d', w) \<Rightarrow> (Inr d', \<lparr>ca_decl = Some d', ca_at = now\<rparr>, w)))"

text \<open>\<^verbatim>\<open>filepath.Rel\<close>, over the elements of the two cleaned paths.\<close>

definition path_elems :: "string \<Rightarrow> string list" where
  "path_elems s = clean_comps (has_prefix s ''/'') [] (split_on slash s)"

fun strip_common :: "string list \<Rightarrow> string list \<Rightarrow> string list \<times> string list" where
  "strip_common (b # bs) (t # ts) = (if b = t then strip_common bs ts else (b # bs, t # ts))"
| "strip_common bs ts = (bs, ts)"

definition filepath_rel :: "string \<Rightarrow> string \<Rightarrow> string option" where
  "filepath_rel base targ =
     (if path_clean base = path_clean targ then Some ''.''
      else if has_prefix base ''/'' \<noteq> has_prefix targ ''/'' then None
      else
        (case strip_common (path_elems base) (path_elems targ) of
           ([], ts) \<Rightarrow> Some (rel_path ts)
         | (b # bs, ts) \<Rightarrow> if b = ''..'' then None else Some (rel_path (replicate (length (b # bs)) ''..'' @ ts))))"

definition under_root :: "string \<Rightarrow> string \<Rightarrow> string option" where
  "under_root root p =
     (if p = [] \<or> \<not> has_prefix p ''/'' then None
      else
        (case filepath_rel root p of
           None \<Rightarrow> None
         | Some rel \<Rightarrow> if rel = ''.'' \<or> rel = ''..'' \<or> has_prefix rel ''../'' then None else Some rel))"

definition declared_views :: "roster \<Rightarrow> (string \<times> string \<rightharpoonup> string)" where
  "declared_views d = fold (\<lambda>g m. fold (\<lambda>v m. m((dg_name g, dv_team v) \<mapsto> dv_path v)) (dg_views g) m) (dc_groups d) Map.empty"

text \<open>The route of one group: the first of its readers the user is in decides.\<close>

definition group_route :: "'w admin \<Rightarrow> roster \<Rightarrow> string \<Rightarrow> decl_group \<Rightarrow> string option" where
  "group_route A d user g =
     (if dg_name g \<in> set (mine d user) then None
      else
        (case find (\<lambda>r. r \<in> set (mine d user)) (sort_names (dg_readers g)) of
           None \<Rightarrow> None
         | Some r \<Rightarrow> under_root (ad_root A) (case declared_views d (r, dg_name g) of None \<Rightarrow> [] | Some v \<Rightarrow> v)))"

definition routes_of :: "'w admin \<Rightarrow> roster \<Rightarrow> string \<Rightarrow> (string \<rightharpoonup> string)" where
  "routes_of A d user =
     fold (\<lambda>g m. case group_route A d user g of None \<Rightarrow> m | Some rel \<Rightarrow> m(dg_name g \<mapsto> rel)) (dc_groups d) Map.empty"

definition reader_routes ::
  "'w admin \<Rightarrow> time \<Rightarrow> string \<Rightarrow> decl_cache \<Rightarrow> 'w \<Rightarrow> (admin_error + (string \<rightharpoonup> string)) \<times> decl_cache \<times> 'w" where
  "reader_routes A now user ca w =
     (case cached_declaration A now ca w of
        (Inl e, ca, w) \<Rightarrow> (Inl e, ca, w)
      | (Inr d, ca, w) \<Rightarrow> (Inr (routes_of A d user), ca, w))"

definition route_path :: "(string \<rightharpoonup> string) \<Rightarrow> string \<Rightarrow> string" where
  "route_path routes p =
     (let rest = drop (length ''teams/'') (path_clean p)
      in case cut rest slash of
           (team, tail, _) \<Rightarrow>
             (case routes team of
                None \<Rightarrow> p
              | Some out \<Rightarrow> if tail \<noteq> [] then path_join [out, tail] else out))"

definition reroute_path ::
  "'w admin option \<Rightarrow> time \<Rightarrow> string \<Rightarrow> string \<Rightarrow> decl_cache \<Rightarrow> 'w \<Rightarrow> string \<times> decl_cache \<times> 'w" where
  "reroute_path adm now user p ca w =
     (case adm of
        None \<Rightarrow> (p, ca, w)
      | Some A \<Rightarrow>
          (if p = [] then (p, ca, w)
           else if \<not> has_prefix (path_clean p) ''teams/'' \<or> path_clean p = ''teams/'' then (p, ca, w)
           else
             (case reader_routes A now user ca w of
                (Inl _, ca, w) \<Rightarrow> (p, ca, w)
              | (Inr routes, ca, w) \<Rightarrow> (route_path routes p, ca, w))))"

section \<open>Following a batch\<close>

record reconcile_entry =
  re_changes :: "staged_change list"
  re_expires :: time

type_synonym reconcile = "string \<rightharpoonup> reconcile_entry"

definition reconcile_put :: "string \<Rightarrow> staged_change list \<Rightarrow> time \<Rightarrow> reconcile \<Rightarrow> reconcile" where
  "reconcile_put k cs expires m = m(k \<mapsto> \<lparr>re_changes = cs, re_expires = expires\<rparr>)"

definition reconcile_sweep :: "time \<Rightarrow> reconcile \<Rightarrow> reconcile" where
  "reconcile_sweep now m = map_filter_vals (\<lambda>v. \<not> now > re_expires v) m"

text \<open>\<open>fresh\<close> is the id drawn for the batch; an answer is a status or the id.\<close>

definition handle_teams_apply ::
  "'w admin option \<Rightarrow> time \<Rightarrow> string \<Rightarrow> string \<Rightarrow> staged_change list option \<Rightarrow> reconcile \<Rightarrow> 'w \<Rightarrow> (nat + string) \<times> reconcile \<times> 'w" where
  "handle_teams_apply adm now fresh user body m w =
     (case adm of
        None \<Rightarrow> (Inl 404, m, w)
      | Some A \<Rightarrow>
          (case body of
             None \<Rightarrow> (Inl 400, m, w)
           | Some changes \<Rightarrow>
               (if changes = [] then (Inl 400, m, w)
                else if length changes > 256 then (Inl 400, m, w)
                else
                  (case batch_set_team_membership A user changes w of
                     (Some (AeNotOwner _), w) \<Rightarrow> (Inl 404, m, w)
                   | (Some (AeUnknownUser _), w) \<Rightarrow> (Inl 404, m, w)
                   | (Some _, w) \<Rightarrow> (Inl 503, m, w)
                   | (None, w) \<Rightarrow> (Inr fresh, reconcile_put fresh changes (now + 15 * minute) m, w)))))"

datatype apply_stage = Committed | Applied | Syncing

text \<open>Each tick of the stream polls; any other wake ends it.\<close>

fun status_loop :: "'w admin \<Rightarrow> staged_change list \<Rightarrow> bool list \<Rightarrow> 'w \<Rightarrow> apply_stage list \<times> 'w" where
  "status_loop A cs [] w = ([], w)"
| "status_loop A cs (tick # ts) w =
     (if \<not> tick then ([], w)
      else
        (case membership_applied A cs w of
           (True, w) \<Rightarrow> ([Applied], w)
         | (False, w) \<Rightarrow> (case status_loop A cs ts w of (evs, w) \<Rightarrow> (Syncing # evs, w))))"

definition handle_teams_status ::
  "'w admin \<Rightarrow> string \<Rightarrow> bool list \<Rightarrow> reconcile \<Rightarrow> 'w \<Rightarrow> (nat + apply_stage list) \<times> 'w" where
  "handle_teams_status A k ticks m w =
     (case m k of
        None \<Rightarrow> (Inl 404, w)
      | Some en \<Rightarrow>
          (case membership_applied A (re_changes en) w of
             (True, w) \<Rightarrow> (Inr [Committed, Applied], w)
           | (False, w) \<Rightarrow> (case status_loop A (re_changes en) ticks w of (evs, w) \<Rightarrow> (Inr (Committed # evs), w))))"

section \<open>Authority\<close>

text \<open>The change the actor may make: a declared team that is theirs or any when an administrator, and a declared user.\<close>

definition may_change :: "roster \<Rightarrow> bool \<Rightarrow> string \<Rightarrow> staged_change \<Rightarrow> bool" where
  "may_change d admin actor c \<longleftrightarrow>
     (\<exists>owners. owners_map d (sc_team c) = Some owners \<and> (admin \<or> actor \<in> set owners)) \<and> declared d (sc_user c)"

lemma check_changes_exact: "check_changes d admin actor cs = None \<longleftrightarrow> (\<forall>c \<in> set cs. may_change d admin actor c)"
  by (induction cs) (auto simp: may_change_def split: option.splits)

lemma check_changes_error:
  "check_changes d admin actor cs = Some e \<Longrightarrow> (\<exists>n. e = AeNotOwner n) \<or> (\<exists>n. e = AeUnknownUser n)"
  by (induction cs) (auto split: option.splits if_splits)

lemma owners_map_fold:
  "fold (\<lambda>g m. m(dg_name g \<mapsto> dg_owners g)) gs m t = Some owners \<Longrightarrow>
     m t = Some owners \<or> (\<exists>g \<in> set gs. dg_name g = t \<and> dg_owners g = owners)"
proof (induction gs arbitrary: m)
  case (Cons g gs)
  have "(m(dg_name g \<mapsto> dg_owners g)) t = Some owners \<or> (\<exists>h \<in> set gs. dg_name h = t \<and> dg_owners h = owners)"
    using Cons.IH[of "m(dg_name g \<mapsto> dg_owners g)"] Cons.prems by simp
  then show ?case by (auto split: if_splits)
qed simp

lemma owners_map_group: "owners_map d t = Some owners \<Longrightarrow> \<exists>g \<in> set (dc_groups d). dg_name g = t \<and> dg_owners g = owners"
  using owners_map_fold[of "dc_groups d" Map.empty t owners] by (simp add: owners_map_def)

text \<open>C27: A batch of team changes is authorized as a whole before anything is written. When the roster and
  the administrators could be read, the control plane is called exactly when the actor may make every
  change of the batch, and then with all of them, for declared accounts and as ordinary members;
  otherwise the answer is a refusal and the control plane, whatever it is, is not called. A change may
  be made only by an administrator or by an owner the roster lists for a group of that name.\<close>

theorem batch_needs_authority:
  assumes "read_declaration A w = (Inr d, w1)" and "is_admin A actor w1 = (Inr admin, w2)" and "changes \<noteq> []"
    and "ad_members A = Some cl"
  shows "if \<forall>c \<in> set changes. may_change d admin actor c
     then batch_set_team_membership A actor changes w =
       (case cl_batch cl (batch_of changes) w2 of
          (Inl e, w) \<Rightarrow> (Some (AeBatch (length changes) e), w) | (Inr _, w) \<Rightarrow> (None, w)) \<and>
       (\<forall>c \<in> set changes. admin \<or> (\<exists>g \<in> set (dc_groups d). dg_name g = sc_team c \<and> actor \<in> set (dg_owners g)))
     else \<exists>e. batch_set_team_membership A actor changes w = (Some e, w2) \<and> (\<exists>n. e = AeNotOwner n \<or> e = AeUnknownUser n)"
proof (cases "\<forall>c \<in> set changes. may_change d admin actor c")
  case True
  have "admin \<or> (\<exists>g \<in> set (dc_groups d). dg_name g = sc_team c \<and> actor \<in> set (dg_owners g))" if "c \<in> set changes" for c
    using True that owners_map_group by (fastforce simp: may_change_def)
  moreover have "check_changes d admin actor changes = None" using True check_changes_exact by blast
  ultimately show ?thesis using True assms by (simp add: batch_set_team_membership_def)
next
  case False
  then obtain e where e: "check_changes d admin actor changes = Some e" using check_changes_exact by fastforce
  then have "batch_set_team_membership A actor changes w = (Some e, w2)" using assms by (simp add: batch_set_team_membership_def)
  then show ?thesis using False check_changes_error[OF e] by auto
qed

section \<open>What is open\<close>

lemma access_fold:
  assumes "distinct (map dg_name gs)"
  shows "fold (\<lambda>g m. m(dg_name g \<mapsto> f g)) gs m t =
     (case find (\<lambda>g. dg_name g = t) gs of None \<Rightarrow> m t | Some g \<Rightarrow> Some (f g))"
  using assms
proof (induction gs arbitrary: m)
  case (Cons g gs)
  have "find (\<lambda>h. dg_name h = t) gs = None" if "dg_name g = t" using Cons.prems that by (auto simp: find_None_iff image_iff)
  then show ?case using Cons by (auto split: option.splits)
qed simp

lemma find_unique: "distinct (map f xs) \<Longrightarrow> x \<in> set xs \<Longrightarrow> find (\<lambda>y. f y = f x) xs = Some x"
  by (induction xs) (auto simp: image_iff)

text \<open>The listing locks exactly the teams a person is not in. A team of the roster shows as open exactly
  when it is open to anonymous visitors, or the person is a member of it, or a member of a group it
  names as a reader.\<close>

theorem team_access_exact:
  assumes "read_declaration A w = (Inr d, w')" and "distinct (map dg_name (dc_groups d))" and "g \<in> set (dc_groups d)"
  shows "\<exists>m. team_access A user w = (Inr m, w') \<and>
    m (dg_name g) = Some (dg_anonymous g = ''read'' \<or> dg_anonymous g = ''write'' \<or> user \<in> set (dg_members g) \<or>
      (\<exists>r \<in> set (dc_groups d). dg_name r \<in> set (dg_readers g) \<and> user \<in> set (dg_members r)))"
proof -
  let ?m = "fold (\<lambda>g m. m(dg_name g \<mapsto> team_open d user g)) (dc_groups d) Map.empty"
  have "find (\<lambda>h. dg_name h = dg_name g) (dc_groups d) = Some g" by (rule find_unique[OF assms(2,3)])
  then have "?m (dg_name g) = Some (team_open d user g)" by (simp add: access_fold[OF assms(2)])
  moreover have "dg_name g \<in> set (mine d user) \<longleftrightarrow> user \<in> set (dg_members g)"
    using assms(2,3) by (auto simp: mine_def distinct_map inj_on_def)
  ultimately show ?thesis
    using assms(1) by (auto simp: team_access_def team_open_def mine_def list_ex_iff)
qed

section \<open>Where a reader is sent\<close>

lemma clean_relative:
  assumes "\<And>c. c \<in> set cs \<Longrightarrow> slash \<notin> set c" and "list_all plain_name ps"
  shows "\<exists>n qs. clean_comps False (rev ps @ replicate k ''..'') cs = replicate n ''..'' @ qs \<and> list_all plain_name qs"
  using assms
proof (induction cs arbitrary: ps k)
  case Nil
  then show ?case by (auto simp: list_all_iff)
next
  case (Cons c cs)
  have IH: "\<exists>n qs. clean_comps False (rev ps @ replicate k ''..'') cs = replicate n ''..'' @ qs \<and> list_all plain_name qs"
    if "list_all plain_name ps" for ps k using Cons.IH[OF _ that] Cons.prems(1) by simp
  consider "c = [] \<or> c = ''.''" | "c = ''..''" "ps = []" | q x where "c = ''..''" "ps = q @ [x]" | "plain_name c"
    using Cons.prems(1)[of c] by (cases ps rule: rev_cases) (auto simp: plain_name_def)
  then show ?case
  proof cases
    case 2
    then show ?thesis using IH[of "[]" "Suc k"] by (cases k) auto
  next
    case 3
    then have "plain_name x" "list_all plain_name q" using Cons.prems(2) by simp_all
    then show ?thesis using 3 IH[of q k] by (auto dest: plain_nameD)
  next
    case 4
    then show ?thesis using IH[of "ps @ [c]" k] Cons.prems(2) by (auto dest: plain_nameD)
  qed (use IH[OF Cons.prems(2)] in auto)
qed

lemma rel_path_Cons: "us \<noteq> [] \<Longrightarrow> rel_path (c # us) = c @ slash # rel_path us"
  using join_with_append[of "[c]" us "''/''"] by (simp add: rel_path_def)

lemma teams_path:
  assumes "has_prefix (path_clean p) ''teams/''"
  shows "\<exists>t us. list_all plain_name (t # us) \<and> path_clean p = rel_path (''teams'' # t # us)"
proof -
  have np: "\<not> has_prefix p ''/''"
    using assms by (auto simp: path_clean_def has_prefix_def Let_def split: if_splits)
  have "slash \<notin> set c" if "c \<in> set (split_on slash p)" for c using that by (rule split_on_no_sep)
  from clean_relative[OF this, of "split_on slash p" "[]" 0]
  obtain n qs where q: "clean_comps False [] (split_on slash p) = replicate n ''..'' @ qs" "list_all plain_name qs" by auto
  have pc: "path_clean p = rel_path (replicate n ''..'' @ qs) \<or> path_clean p = ''.''"
    using np q(1) by (simp add: path_clean_def rel_path_def Let_def)
  have "path_clean p \<noteq> ''.''" using assms by (auto simp: has_prefix_def)
  then have pc: "path_clean p = rel_path (replicate n ''..'' @ qs)" using pc by simp
  have "n = 0"
  proof (rule ccontr)
    assume "n \<noteq> 0"
    then obtain m where "n = Suc m" by (cases n) auto
    then have "\<exists>t. rel_path (replicate n ''..'' @ qs) = CHR ''.'' # t"
      by (cases "replicate m ''..'' @ qs") (auto simp: rel_path_def)
    then show False using assms pc by (auto simp: has_prefix_def)
  qed
  with pc have p: "path_clean p = rel_path qs" by simp
  obtain r where r: "path_clean p = ''teams'' @ slash # r"
    using assms by (auto simp: has_prefix_def) (metis append_Cons append_Nil append_take_drop_id)
  have "qs \<noteq> []" using p r by auto
  then have "qs = ''teams'' # split_on slash r"
    using split_rel_path[OF _ q(2)] p r split_on_append[of slash "''teams''" r] by simp
  moreover have "split_on slash r \<noteq> []" by simp
  ultimately show ?thesis using p q(2) by (cases "split_on slash r") auto
qed

lemma cut_rel_path: "plain_name t \<Longrightarrow> cut (rel_path (t # us)) slash = (t, rel_path us, us \<noteq> [])"
proof (cases "us = []")
  case True
  assume "plain_name t"
  then show ?thesis using True by (simp add: rel_path_def plain_name_def)
next
  case False
  assume "plain_name t"
  then show ?thesis using False by (simp add: rel_path_Cons plain_name_def)
qed

lemma path_join_rel:
  assumes "vs \<noteq> []" "list_all plain_name vs" "us \<noteq> []" "list_all plain_name us"
  shows "path_join [rel_path vs, rel_path us] = rel_path (vs @ us)"
proof -
  have ne: "rel_path vs \<noteq> []" "rel_path us \<noteq> []" using rel_path_not_Nil assms by auto
  have "rel_path vs @ ''/'' @ rel_path us = rel_path (vs @ us)"
    using join_with_append[OF assms(1,3), of "''/''"] by (simp add: rel_path_def)
  then show ?thesis using ne assms by (simp add: path_join_def)
qed

lemma strip_common_spec: "strip_common bs ts = (bs', ts') \<Longrightarrow> bs' = [] \<Longrightarrow> ts = bs @ ts'"
  by (induction bs ts rule: strip_common.induct) (auto split: if_splits)

lemma elems_plain: "has_prefix p ''/'' \<Longrightarrow> list_all plain_name (path_elems p)"
  unfolding path_elems_def using clean_comps_rooted_plain[of "[]" "split_on slash p"] split_on_no_sep[of _ slash p] by simp

text \<open>A view has a route when it lies in the served tree: its elements continue the root's.\<close>

lemma under_root_below:
  assumes "under_root root p = Some rel"
  shows "\<exists>vs. vs \<noteq> [] \<and> list_all plain_name vs \<and> path_elems p = path_elems root @ vs \<and> rel = rel_path vs"
proof -
  have abs: "has_prefix p ''/''" "filepath_rel root p = Some rel" "rel \<noteq> ''.''" "rel \<noteq> ''..''" "\<not> has_prefix rel ''../''"
    using assms by (auto simp: under_root_def split: if_splits option.splits)
  then have root: "has_prefix root ''/''" "path_clean root \<noteq> path_clean p" by (auto simp: filepath_rel_def split: if_splits)
  obtain bs ts where s: "strip_common (path_elems root) (path_elems p) = (bs, ts)" by (metis prod.collapse)
  have "bs = []"
  proof (rule ccontr)
    assume "bs \<noteq> []"
    then obtain n where "rel = rel_path (''..'' # replicate n ''..'' @ ts)"
      using abs(1,2) root s by (cases bs) (auto simp: filepath_rel_def split: if_splits)
    then show False using abs(4,5) by (cases "replicate n ''..'' @ ts = []") (auto simp: rel_path_Cons has_prefix_def, simp add: rel_path_def)
  qed
  then have e: "path_elems p = path_elems root @ ts" "rel = rel_path ts"
    using strip_common_spec[OF s] abs(1,2) root s by (auto simp: filepath_rel_def split: if_splits)
  have "ts \<noteq> []"
  proof
    assume "ts = []"
    then have "path_clean p = path_clean root" using e(1) abs(1) root(1) by (simp add: path_clean_def path_elems_def)
    with root(2) show False by simp
  qed
  moreover have "list_all plain_name ts" using elems_plain[OF abs(1)] e(1) by simp
  ultimately show ?thesis using e by blast
qed

lemma routes_fold:
  "fold (\<lambda>g m. case f g of None \<Rightarrow> m | Some rel \<Rightarrow> m(n g \<mapsto> rel)) gs m t = Some rel \<Longrightarrow>
     m t = Some rel \<or> (\<exists>g \<in> set gs. n g = t \<and> f g = Some rel)"
  by (induction gs arbitrary: m) (fastforce split: option.splits if_splits)+

lemma views_fold:
  "fold (\<lambda>v m. m((r, dv_team v) \<mapsto> dv_path v)) vs m (a, t) = Some p \<Longrightarrow>
     m (a, t) = Some p \<or> (a = r \<and> (\<exists>v \<in> set vs. dv_team v = t \<and> dv_path v = p))"
  by (induction vs arbitrary: m) (fastforce split: if_splits)+

lemma declared_viewsD:
  assumes "declared_views d (r, t) = Some p"
  shows "\<exists>h \<in> set (dc_groups d). dg_name h = r \<and> (\<exists>v \<in> set (dg_views h). dv_team v = t \<and> dv_path v = p)"
proof -
  have "fold (\<lambda>g m. fold (\<lambda>v m. m((dg_name g, dv_team v) \<mapsto> dv_path v)) (dg_views g) m) gs m (r, t) = Some p \<Longrightarrow>
      m (r, t) = Some p \<or> (\<exists>h \<in> set gs. dg_name h = r \<and> (\<exists>v \<in> set (dg_views h). dv_team v = t \<and> dv_path v = p))" for gs m
    by (induction gs arbitrary: m) (fastforce dest: views_fold)+
  then show ?thesis using assms by (fastforce simp: declared_views_def)
qed

text \<open>That the user may read a team through one of the views the roster declares.\<close>

definition reads_through :: "'w admin \<Rightarrow> roster \<Rightarrow> string \<Rightarrow> string \<Rightarrow> string list \<Rightarrow> bool" where
  "reads_through A d user team vs \<longleftrightarrow>
     (\<forall>g \<in> set (dc_groups d). dg_name g = team \<longrightarrow> user \<notin> set (dg_members g)) \<and>
     (\<exists>g \<in> set (dc_groups d). \<exists>r \<in> set (dg_readers g). dg_name g = team \<and>
        (\<exists>h \<in> set (dc_groups d). dg_name h = r \<and> user \<in> set (dg_members h)) \<and>
        (\<exists>h \<in> set (dc_groups d). dg_name h = r \<and>
           (\<exists>v \<in> set (dg_views h). dv_team v = team \<and> path_elems (dv_path v) = path_elems (ad_root A) @ vs)))"

lemma mine_iff: "t \<in> set (mine d user) \<longleftrightarrow> (\<exists>g \<in> set (dc_groups d). dg_name g = t \<and> user \<in> set (dg_members g))"
  by (auto simp: mine_def)

lemma find_SomeD: "find P xs = Some x \<Longrightarrow> x \<in> set xs \<and> P x"
  by (induction xs) (auto split: if_splits)

lemma group_routeD:
  assumes "group_route A d user g = Some rel" and "g \<in> set (dc_groups d)"
  shows "\<exists>vs. vs \<noteq> [] \<and> list_all plain_name vs \<and> rel = rel_path vs \<and> reads_through A d user (dg_name g) vs"
proof -
  obtain r where r: "dg_name g \<notin> set (mine d user)" "find (\<lambda>r. r \<in> set (mine d user)) (sort_names (dg_readers g)) = Some r"
    "under_root (ad_root A) (case declared_views d (r, dg_name g) of None \<Rightarrow> [] | Some v \<Rightarrow> v) = Some rel"
    using assms(1) by (auto simp: group_route_def split: if_splits option.splits)
  have mem: "r \<in> set (dg_readers g)" "r \<in> set (mine d user)"
    using find_SomeD[OF r(2)] by (simp_all add: sort_names_def)
  obtain p where p: "declared_views d (r, dg_name g) = Some p" "under_root (ad_root A) p = Some rel"
    using r(3) by (cases "declared_views d (r, dg_name g)") (auto simp: under_root_def)
  obtain vs where "vs \<noteq> []" "list_all plain_name vs" "path_elems p = path_elems (ad_root A) @ vs" "rel = rel_path vs"
    using under_root_below[OF p(2)] by blast
  then show ?thesis
    using declared_viewsD[OF p(1)] mem r(1) assms(2) unfolding mine_iff reads_through_def
    by (intro exI[of _ vs]) blast
qed

lemma route_pathD:
  assumes "route_path (routes_of A d user) p \<noteq> p" and "path_clean p = rel_path (''teams'' # t # us)"
    and "list_all plain_name (t # us)"
  shows "\<exists>vs. vs \<noteq> [] \<and> list_all plain_name vs \<and> reads_through A d user t vs \<and>
    route_path (routes_of A d user) p = rel_path (vs @ us)"
proof -
  have "drop (length ''teams/'') (path_clean p) = rel_path (t # us)"
    using assms(2) rel_path_Cons[of "t # us" "''teams''"] by simp
  then have r: "route_path (routes_of A d user) p =
      (case routes_of A d user t of None \<Rightarrow> p | Some out \<Rightarrow> if rel_path us \<noteq> [] then path_join [out, rel_path us] else out)"
    using cut_rel_path[of t us] assms(3) by (simp add: route_path_def Let_def)
  then obtain out where out: "routes_of A d user t = Some out" using assms(1) by (cases "routes_of A d user t") auto
  then obtain g where "g \<in> set (dc_groups d)" "dg_name g = t" "group_route A d user g = Some out"
    using routes_fold[where f = "group_route A d user" and n = dg_name and gs = "dc_groups d" and m = Map.empty] by (auto simp: routes_of_def)
  then obtain vs where vs: "vs \<noteq> []" "list_all plain_name vs" "out = rel_path vs" "reads_through A d user t vs"
    using group_routeD by blast
  have "route_path (routes_of A d user) p = rel_path (vs @ us)"
  proof (cases "us = []")
    case False
    then show ?thesis using r out vs(1-3) path_join_rel[OF vs(1,2) False] rel_path_not_Nil[OF False] assms(3) by simp
  qed (use r out vs(3) in simp)
  then show ?thesis using vs by blast
qed

text \<open>C28: A request is only ever sent elsewhere for a reader, and only into the view. If the path the helper
  opens is not the one the person asked for, the one asked for lies in the folder of a team the
  person is no member of; a group the person is in is a reader of that team; the roster places that
  group's view of the team below the served root; and what is opened is the same path below that
  view, with no component that leads out of it.\<close>

theorem reroute_to_view:
  assumes "reroute_path (Some A) now user p ca w = (p', ca', w')" and "p' \<noteq> p"
  shows "\<exists>d t us vs. cached_declaration A now ca w = (Inr d, ca', w') \<and>
    path_clean p = rel_path (''teams'' # t # us) \<and> reads_through A d user t vs \<and>
    vs \<noteq> [] \<and> list_all plain_name (vs @ t # us) \<and> p' = rel_path (vs @ us)"
proof -
  have pre: "has_prefix (path_clean p) ''teams/''" using assms by (auto simp: reroute_path_def split: if_splits)
  then obtain t us where p: "list_all plain_name (t # us)" "path_clean p = rel_path (''teams'' # t # us)"
    using teams_path by blast
  obtain r ca1 w1 where c: "cached_declaration A now ca w = (r, ca1, w1)" by (metis prod.collapse)
  then obtain d where d: "r = Inr d" "p' = route_path (routes_of A d user) p" "ca1 = ca'" "w1 = w'"
    using assms by (cases r) (auto simp: reroute_path_def reader_routes_def split: if_splits)
  from route_pathD[OF _ p(2,1), of A d user] d assms(2)
  obtain vs where "vs \<noteq> []" "list_all plain_name vs" "reads_through A d user t vs" "p' = rel_path (vs @ us)" by auto
  then show ?thesis using c d p by (intro exI[of _ d] exI[of _ t] exI[of _ us] exI[of _ vs]) simp
qed

section \<open>Concrete runs\<close>

definition sample_group :: "string \<Rightarrow> string list \<Rightarrow> string list \<Rightarrow> decl_view list \<Rightarrow> decl_group" where
  "sample_group name members readers views = \<lparr>dg_name = name, dg_gid = 10001, dg_description = [], dg_owners = [''ann''],
     dg_members = members, dg_readers = readers, dg_views = views, dg_all = False, dg_anonymous = ''none''\<rparr>"

definition sample_roster :: roster where
  "sample_roster = \<lparr>dc_schema = 2,
     dc_groups = [sample_group ''lab'' [''ann''] [''guests''] [],
       sample_group ''guests'' [''bob''] [] [\<lparr>dv_team = ''lab'', dv_path = ''/srv/views/guests/lab''\<rparr>]],
     dc_users = [\<lparr>du_name = ''bob'', du_uid = 3002, du_full_name = [], du_status = ''active''\<rparr>]\<rparr>"

definition sample_admin :: "unit admin" where
  "sample_admin = \<lparr>ad_group = ''admin'', ad_root = ''/srv'', ad_resolve = (\<lambda>_ w. (Inr \<lparr>cr_uid = 3001, cr_gid = 3001, cr_groups = []\<rparr>, w)),
     ad_run = (\<lambda>_ bin _ w. (if bin = ''getent'' then Inl ''exit 2'' else Inr ''{'', w)), ad_usersync = ''usersync'',
     ad_pdbedit = ''pdbedit'', ad_smbpasswd = ''smbpasswd'', ad_decode = (\<lambda>_. Inr sample_roster),
     ad_members = Some \<lparr>cl_add = (\<lambda>_ _ _ w. (None, w)), cl_erase = (\<lambda>_ _ w. (None, w)), cl_batch = (\<lambda>cs w. (Inr (length cs), w))\<rparr>\<rparr>"

lemma sample_declaration: "read_declaration sample_admin () = (Inr sample_roster, ())"
  by (simp add: read_declaration_def sample_admin_def sample_roster_def roster_schema_def min_roster_schema_def)

lemma batch_needs_authority_witness:
  "batch_set_team_membership sample_admin ''ann'' [\<lparr>sc_team = ''lab'', sc_user = ''bob'', sc_member = True\<rparr>] () = (None, ())"
proof -
  let ?cs = "[\<lparr>sc_team = ''lab'', sc_user = ''bob'', sc_member = True\<rparr>]"
  have adm: "is_admin sample_admin ''ann'' () = (Inr False, ())"
    by (simp add: is_admin_def lookup_group_gid_def sample_admin_def)
  have may: "\<forall>c \<in> set ?cs. may_change sample_roster False ''ann'' c"
    by (simp add: may_change_def owners_map_def declared_def sample_roster_def sample_group_def)
  from batch_needs_authority[OF sample_declaration adm, of ?cs] may show ?thesis by (simp add: sample_admin_def)
qed

lemma team_access_exact_witness: "\<exists>m. team_access sample_admin ''bob'' () = (Inr m, ()) \<and> m ''lab'' = Some True"
  using team_access_exact[OF sample_declaration, of "sample_group ''lab'' [''ann''] [''guests''] []" "''bob''"]
  by (simp add: sample_roster_def sample_group_def)

lemma sample_route: "routes_of sample_admin sample_roster ''bob'' = [''lab'' \<mapsto> ''views/guests/lab'']"
proof -
  have "under_root ''/srv'' ''/srv/views/guests/lab'' = Some ''views/guests/lab''"
    by (simp add: under_root_def filepath_rel_def path_elems_def path_clean_def has_prefix_def rel_path_def Let_def)
  then show ?thesis
    by (simp add: routes_of_def group_route_def mine_def sort_names_def declared_views_def sample_roster_def sample_group_def
        sample_admin_def)
qed

lemma reroute_to_view_witness:
  "\<exists>p' ca' w' us vs. reroute_path (Some sample_admin) 0 ''bob'' ''teams/lab/a.txt'' \<lparr>ca_decl = None, ca_at = 0\<rparr> () = (p', ca', w') \<and>
     p' \<noteq> ''teams/lab/a.txt'' \<and> p' = rel_path (vs @ us) \<and> list_all plain_name (vs @ us)"
proof -
  let ?p = "''teams/lab/a.txt''"
  have clean: "path_clean ?p = ?p"
    by (simp add: path_clean_def has_prefix_def Let_def)
  have "route_path [''lab'' \<mapsto> ''views/guests/lab''] ?p = path_join [''views/guests/lab'', ''a.txt'']"
    by (simp add: route_path_def clean Let_def)
  also have "\<dots> = ''views/guests/lab/a.txt''" by (simp add: path_join_def path_clean_def has_prefix_def Let_def)
  finally have p': "route_path (routes_of sample_admin sample_roster ''bob'') ?p = ''views/guests/lab/a.txt''"
    by (simp add: sample_route)
  obtain ca where "cached_declaration sample_admin 0 \<lparr>ca_decl = None, ca_at = 0\<rparr> () = (Inr sample_roster, ca, ())"
    by (simp add: cached_declaration_def sample_declaration)
  then have run: "reroute_path (Some sample_admin) 0 ''bob'' ?p \<lparr>ca_decl = None, ca_at = 0\<rparr> () = (''views/guests/lab/a.txt'', ca, ())"
    using p' by (simp add: reroute_path_def reader_routes_def clean has_prefix_def)
  from reroute_to_view[OF run] run show ?thesis by fastforce
qed

end
