(* ===== verification/Client.thy ===== *)
theory Client
  imports Wire "HOL-Library.Multiset"
begin

text \<open>
  The server's end of a helper's socket, \<^verbatim>\<open>src/internal/helperpool/client.go\<close>. Any number of calls
  share the connection: each takes a number, registers a channel under it, writes its frame and
  waits; one reader matches the replies back. \<open>client_step\<close> interleaves the calls, the reader and the
  closing of the connection, with the peer free to send anything.

  A call's channel is addressed by the call's own position. \<open>cl_dropped\<close> lists the descriptors the
  client closed, \<open>cl_blocked\<close> would be a reader stuck in a send to a channel.
\<close>

section \<open>The client\<close>

type_synonym desc = nat
type_synonym control = "desc list option list option"

datatype client_error =
    CeMarshal wire_error | CeConn string | CeMalformed wire_error | CeCount uint64 bool bool | CeClosed | CeCtx

datatype channel = ChEmpty | ChFull response "desc option" | ChClosed

record client =
  cl_next :: uint64
  cl_pending :: "(uint64 \<times> nat) list"
  cl_chans :: "nat \<rightharpoonup> channel"
  cl_closed :: bool
  cl_err :: "client_error option"
  cl_conn :: bool
  cl_ended :: bool
  cl_dropped :: "desc list"
  cl_blocked :: bool

definition new_client :: client where
  "new_client = \<lparr>cl_next = 0, cl_pending = [], cl_chans = Map.empty, cl_closed = False, cl_err = None,
     cl_conn = True, cl_ended = False, cl_dropped = [], cl_blocked = False\<rparr>"

text \<open>
  \<^verbatim>\<open>parseRights\<close> over the parsed control message: \<open>None\<close> is one that does not parse, an inner \<open>None\<close> a
  message that carries no descriptors. The result is the descriptor kept and those closed.
\<close>

fun keep_first :: "desc option \<Rightarrow> desc list \<Rightarrow> desc option \<times> desc list" where
  "keep_first out [] = (out, [])"
| "keep_first None (d # ds) = keep_first (Some d) ds"
| "keep_first (Some o') (d # ds) = (case keep_first (Some o') ds of (r, cs) \<Rightarrow> (r, d # cs))"

fun rights_loop :: "desc option \<Rightarrow> desc list option list \<Rightarrow> desc option \<times> desc list" where
  "rights_loop out [] = (out, [])"
| "rights_loop out (None # ms) = rights_loop out ms"
| "rights_loop out (Some ds # ms) =
     (case keep_first out ds of
        (r, cs) \<Rightarrow> (case rights_loop r ms of (r', cs') \<Rightarrow> (r', cs @ cs')))"

definition parse_rights :: "control \<Rightarrow> desc option \<times> desc list" where
  "parse_rights oob = (case oob of None \<Rightarrow> (None, []) | Some ms \<Rightarrow> rights_loop None ms)"

text \<open>Closing a descriptor, if there is one.\<close>

definition drop_desc :: "desc option \<Rightarrow> client \<Rightarrow> client" where
  "drop_desc f c = (case f of None \<Rightarrow> c | Some d \<Rightarrow> c\<lparr>cl_dropped := d # cl_dropped c\<rparr>)"

definition del_pending :: "uint64 \<Rightarrow> client \<Rightarrow> client" where
  "del_pending n c = c\<lparr>cl_pending := filter (\<lambda>p. fst p \<noteq> n) (cl_pending c)\<rparr>"

definition client_shutdown :: "client_error \<Rightarrow> client \<Rightarrow> client" where
  "client_shutdown e c =
     (if cl_closed c then c
      else c\<lparr>cl_closed := True, cl_err := Some e,
             cl_chans := (\<lambda>ch. if ch \<in> set (map snd (cl_pending c)) then Some ChClosed else cl_chans c ch),
             cl_pending := []\<rparr>)"

text \<open>The send \<^verbatim>\<open>ch <- result\<close>: the channels have room for one.\<close>

definition channel_send :: "nat \<Rightarrow> response \<Rightarrow> desc option \<Rightarrow> client \<Rightarrow> client" where
  "channel_send ch r f c =
     (case cl_chans c ch of
        Some ChEmpty \<Rightarrow> c\<lparr>cl_chans := (cl_chans c)(ch \<mapsto> ChFull r f)\<rparr>
      | _ \<Rightarrow> c\<lparr>cl_blocked := True\<rparr>)"

definition has_fd :: "response \<Rightarrow> bool" where
  "has_fd r \<longleftrightarrow> rs_has r AND HasFD \<noteq> 0"

text \<open>One round of \<^verbatim>\<open>readLoop\<close>: a failed read, or the control message and the bytes of one frame.\<close>

definition read_failed :: "string \<Rightarrow> client \<Rightarrow> client" where
  "read_failed e c = (client_shutdown (CeConn e) c)\<lparr>cl_ended := True\<rparr>"

definition read_frame :: "control \<Rightarrow> uint8 list \<Rightarrow> client \<Rightarrow> client" where
  "read_frame oob buf c =
     (let (f, extra) = parse_rights oob;
          c = c\<lparr>cl_dropped := extra @ cl_dropped c\<rparr>
      in case unmarshal_response buf of
           Inl e \<Rightarrow> (client_shutdown (CeMalformed e) (drop_desc f c))\<lparr>cl_ended := True\<rparr>
         | Inr r \<Rightarrow>
             if has_fd r \<noteq> (f \<noteq> None)
             then (client_shutdown (CeCount (rs_id r) (has_fd r) (f \<noteq> None)) (drop_desc f c))\<lparr>cl_ended := True\<rparr>
             else
               (let found = map_of (cl_pending c) (rs_id r);
                    c = del_pending (rs_id r) c
                in case found of
                     None \<Rightarrow> drop_desc f c
                   | Some ch \<Rightarrow> channel_send ch r f c))"

text \<open>The sections of \<^verbatim>\<open>Do\<close>, in its order.\<close>

definition do_number :: "client \<Rightarrow> uint64 \<times> client" where
  "do_number c = (cl_next c + 1, c\<lparr>cl_next := cl_next c + 1\<rparr>)"

definition do_register :: "request \<Rightarrow> nat \<Rightarrow> client \<Rightarrow> (client_error + uint8 list) \<times> client" where
  "do_register req ch c =
     (case request_marshal req of
        Inl e \<Rightarrow> (Inl (CeMarshal e), c)
      | Inr frame \<Rightarrow>
          if cl_closed c
          then (Inl (case cl_err c of None \<Rightarrow> CeClosed | Some e \<Rightarrow> e), c)
          else (Inr frame, c\<lparr>cl_chans := (cl_chans c)(ch \<mapsto> ChEmpty),
                             cl_pending := (rq_id req, ch) # filter (\<lambda>p. fst p \<noteq> rq_id req) (cl_pending c)\<rparr>))"

definition do_write_failed :: "uint64 \<Rightarrow> client \<Rightarrow> client" where
  "do_write_failed n c = del_pending n c"

text \<open>The receive of \<^verbatim>\<open>Do\<close>; \<open>None\<close> while the channel has nothing to say.\<close>

definition do_receive ::
  "nat \<Rightarrow> client \<Rightarrow> (client_error + response \<times> desc option) option \<times> client" where
  "do_receive ch c =
     (case cl_chans c ch of
        Some (ChFull r f) \<Rightarrow> (Some (Inr (r, f)), c\<lparr>cl_chans := (cl_chans c)(ch \<mapsto> ChEmpty)\<rparr>)
      | Some ChClosed \<Rightarrow> (Some (Inl (case cl_err c of Some e \<Rightarrow> e | None \<Rightarrow> CeClosed)), c)
      | _ \<Rightarrow> (None, c))"

definition client_close :: "client \<Rightarrow> client" where
  "client_close c = c\<lparr>cl_conn := False\<rparr>"

section \<open>Calls on one connection\<close>

text \<open>
  Where a call is: it has its number; it is registered and about to write; it waits; or it ended
  with a reply, an error, or because its context did.
\<close>

datatype phase =
    Numbered request | Registered request "uint8 list" | Waiting request
  | Returned request response "desc option" | Failed request client_error | GaveUp request

fun phase_req :: "phase \<Rightarrow> request" where
  "phase_req (Numbered q) = q"
| "phase_req (Registered q b) = q"
| "phase_req (Waiting q) = q"
| "phase_req (Returned q r f) = q"
| "phase_req (Failed q e) = q"
| "phase_req (GaveUp q) = q"

definition oob_descs :: "control \<Rightarrow> desc list" where
  "oob_descs oob = (case oob of None \<Rightarrow> [] | Some ms \<Rightarrow> concat (map (\<lambda>m. case m of None \<Rightarrow> [] | Some ds \<Rightarrow> ds) ms))"

text \<open>The client, its calls so far in the order of their numbers, and every descriptor received.\<close>

record conn_state =
  cs_client :: client
  cs_calls :: "phase list"
  cs_received :: "desc list"

definition conn_start :: conn_state where
  "conn_start = \<lparr>cs_client = new_client, cs_calls = [], cs_received = []\<rparr>"

definition set_call :: "nat \<Rightarrow> phase \<Rightarrow> client \<Rightarrow> conn_state \<Rightarrow> conn_state" where
  "set_call i p c s = s\<lparr>cs_client := c, cs_calls := (cs_calls s)[i := p]\<rparr>"

inductive client_step :: "conn_state \<Rightarrow> conn_state \<Rightarrow> bool" where
  call: "do_number (cs_client s) = (n, c) \<Longrightarrow>
    client_step s (s\<lparr>cs_client := c, cs_calls := cs_calls s @ [Numbered (q\<lparr>rq_id := n\<rparr>)]\<rparr>)"
| refused: "\<lbrakk>i < length (cs_calls s); cs_calls s ! i = Numbered q;
    do_register q i (cs_client s) = (Inl e, c)\<rbrakk> \<Longrightarrow> client_step s (set_call i (Failed q e) c s)"
| registered: "\<lbrakk>i < length (cs_calls s); cs_calls s ! i = Numbered q;
    do_register q i (cs_client s) = (Inr b, c)\<rbrakk> \<Longrightarrow> client_step s (set_call i (Registered q b) c s)"
| written: "\<lbrakk>i < length (cs_calls s); cs_calls s ! i = Registered q b; cl_conn (cs_client s)\<rbrakk>
    \<Longrightarrow> client_step s (set_call i (Waiting q) (cs_client s) s)"
| unwritten: "\<lbrakk>i < length (cs_calls s); cs_calls s ! i = Registered q b\<rbrakk> \<Longrightarrow>
    client_step s (set_call i (Failed q (CeConn e)) (do_write_failed (rq_id q) (cs_client s)) s)"
| answered: "\<lbrakk>i < length (cs_calls s); cs_calls s ! i = Waiting q;
    do_receive i (cs_client s) = (Some (Inr (r, f)), c)\<rbrakk> \<Longrightarrow> client_step s (set_call i (Returned q r f) c s)"
| failed: "\<lbrakk>i < length (cs_calls s); cs_calls s ! i = Waiting q;
    do_receive i (cs_client s) = (Some (Inl e), c)\<rbrakk> \<Longrightarrow> client_step s (set_call i (Failed q e) c s)"
| gave_up: "\<lbrakk>i < length (cs_calls s); cs_calls s ! i = Waiting q\<rbrakk> \<Longrightarrow>
    client_step s (set_call i (GaveUp q) (cs_client s) s)"
| frame: "\<lbrakk>\<not> cl_ended (cs_client s); \<not> cl_blocked (cs_client s); cl_conn (cs_client s)\<rbrakk> \<Longrightarrow>
    client_step s (s\<lparr>cs_client := read_frame oob buf (cs_client s), cs_received := oob_descs oob @ cs_received s\<rparr>)"
| read_error: "\<lbrakk>\<not> cl_ended (cs_client s); \<not> cl_blocked (cs_client s)\<rbrakk> \<Longrightarrow>
    client_step s (s\<lparr>cs_client := read_failed e (cs_client s)\<rparr>)"
| closed: "client_step s (s\<lparr>cs_client := client_close (cs_client s)\<rparr>)"

abbreviation conn_reachable :: "conn_state \<Rightarrow> bool" where
  "conn_reachable s \<equiv> client_step\<^sup>*\<^sup>* conn_start s"

section \<open>Invariants\<close>

definition call_no :: "nat \<Rightarrow> uint64" where
  "call_no i = word_of_nat (Suc i)"

lemma call_no_next: "word_of_nat (length ps) + 1 = call_no (length ps)"
  by (simp add: call_no_def)

lemma call_no_eq:
  assumes "i < n" "j < n" "n < 2 ^ 64"
  shows "call_no i = call_no j \<longleftrightarrow> i = j"
proof -
  have u: "unat (call_no k) = Suc k" if "k < n" for k
  proof -
    have "Suc k < 2 ^ LENGTH(64)" using that assms(3) by simp
    then have "take_bit LENGTH(64) (Suc k) = Suc k" by (rule take_bit_nat_eq_self)
    then show ?thesis by (simp only: call_no_def unsigned_of_nat of_nat_id)
  qed
  from u[OF assms(1)] u[OF assms(2)] show ?thesis by (metis Suc_inject)
qed

fun open_call :: "phase \<Rightarrow> bool" where
  "open_call (Registered q b) = True"
| "open_call (Waiting q) = True"
| "open_call _ = False"

fun numbered :: "phase \<Rightarrow> bool" where
  "numbered (Numbered q) = True"
| "numbered _ = False"

definition matched :: "response \<Rightarrow> desc option \<Rightarrow> uint64 \<Rightarrow> bool" where
  "matched r f n \<longleftrightarrow> rs_id r = n \<and> has_fd r = (f \<noteq> None)"

fun returned_ok :: "phase \<Rightarrow> bool" where
  "returned_ok (Returned q r f) = matched r f (rq_id q)"
| "returned_ok _ = True"

text \<open>The numbers, the channels, the table and the reader, over the list of calls \<open>ps\<close>.\<close>

definition numbers_ok :: "client \<Rightarrow> phase list \<Rightarrow> bool" where
  "numbers_ok c ps \<longleftrightarrow> cl_next c = word_of_nat (length ps) \<and>
     (\<forall>i < length ps. rq_id (phase_req (ps ! i)) = call_no i \<and> returned_ok (ps ! i))"

definition chans_ok :: "client \<Rightarrow> phase list \<Rightarrow> bool" where
  "chans_ok c ps \<longleftrightarrow>
     (\<forall>i. cl_chans c i \<noteq> None \<longrightarrow> i < length ps \<and> \<not> numbered (ps ! i)) \<and>
     (\<forall>i r f. cl_chans c i = Some (ChFull r f) \<longrightarrow> matched r f (call_no i))"

definition table_ok :: "client \<Rightarrow> bool" where
  "table_ok c \<longleftrightarrow> (\<forall>n i. (n, i) \<in> set (cl_pending c) \<longrightarrow> n = call_no i \<and> cl_chans c i = Some ChEmpty)"

definition waits_ok :: "client \<Rightarrow> phase list \<Rightarrow> bool" where
  "waits_ok c ps \<longleftrightarrow> (\<forall>i < length ps. open_call (ps ! i) \<longrightarrow>
     cl_chans c i \<noteq> None \<and> (cl_chans c i = Some ChEmpty \<longrightarrow> (\<exists>n. (n, i) \<in> set (cl_pending c))))"

definition reader_ok :: "client \<Rightarrow> bool" where
  "reader_ok c \<longleftrightarrow> \<not> cl_blocked c \<and> (cl_ended c \<longrightarrow> cl_closed c) \<and> (cl_closed c \<longrightarrow> cl_pending c = [])"

definition client_inv :: "client \<Rightarrow> phase list \<Rightarrow> bool" where
  "client_inv c ps \<longleftrightarrow> numbers_ok c ps \<and> chans_ok c ps \<and> table_ok c \<and> waits_ok c ps \<and> reader_ok c"

lemmas client_inv_defs = client_inv_def numbers_ok_def chans_ok_def table_ok_def waits_ok_def reader_ok_def

lemma client_inv_start: "client_inv new_client []"
  by (simp add: client_inv_defs new_client_def)

lemma client_inv_drop [simp]: "client_inv (c\<lparr>cl_dropped := d\<rparr>) ps = client_inv c ps"
  "client_inv (c\<lparr>cl_conn := b\<rparr>) ps = client_inv c ps"
  by (simp_all add: client_inv_defs)

lemma client_inv_drop_desc [simp]: "client_inv (drop_desc f c) ps = client_inv c ps"
  by (simp add: drop_desc_def split: option.splits)

lemma client_inv_shutdown:
  assumes "client_inv c ps"
  shows "client_inv ((client_shutdown e c)\<lparr>cl_ended := True\<rparr>) ps"
proof (cases "cl_closed c")
  case True
  with assms show ?thesis by (auto simp: client_inv_defs client_shutdown_def)
next
  case False
  have n: "numbers_ok c ps" and ch: "chans_ok c ps" and tb: "table_ok c" and wt: "waits_ok c ps" and rd: "reader_ok c"
    using assms by (simp_all add: client_inv_def)
  let ?d = "(client_shutdown e c)\<lparr>cl_ended := True\<rparr>"
  have chans: "cl_chans ?d i = (if \<exists>n. (n, i) \<in> set (cl_pending c) then Some ChClosed else cl_chans c i)" for i
    using False by (force simp: client_shutdown_def)
  have others: "cl_next ?d = cl_next c" "cl_pending ?d = []" "cl_blocked ?d = cl_blocked c" "cl_closed (client_shutdown e c)"
    using False by (simp_all add: client_shutdown_def)
  have "numbers_ok ?d ps" using n others by (simp add: numbers_ok_def)
  moreover have "chans_ok ?d ps"
    unfolding chans_ok_def chans using ch tb by (auto simp: chans_ok_def table_ok_def split: if_splits)
  moreover have "table_ok ?d" unfolding table_ok_def others by simp
  moreover have "waits_ok ?d ps"
    unfolding waits_ok_def chans using wt by (auto simp: waits_ok_def)
  moreover have "reader_ok ?d" using rd others by (simp add: reader_ok_def)
  ultimately show ?thesis by (simp add: client_inv_def)
qed

lemma client_inv_deliver:
  assumes inv: "client_inv c ps" and small: "length ps < 2 ^ 64"
    and found: "map_of (cl_pending c) (rs_id r) = Some ch"
    and fd: "has_fd r = (f \<noteq> None)"
  shows "client_inv (channel_send ch r f (del_pending (rs_id r) c)) ps"
proof -
  from found have mem: "(rs_id r, ch) \<in> set (cl_pending c)" by (rule map_of_SomeD)
  with inv have n: "rs_id r = call_no ch" and e: "cl_chans c ch = Some ChEmpty"
    by (auto simp: client_inv_defs)
  with inv have ch: "ch < length ps" by (simp add: client_inv_defs)
  have other: "call_no j \<noteq> rs_id r" if "j < length ps" "j \<noteq> ch" for j
    using call_no_eq[OF that(1) ch small] that(2) n by simp
  have lt: "i < length ps" if "(k, i) \<in> set (cl_pending c)" for k i
    using inv that by (auto simp: client_inv_defs)
  from e have send: "channel_send ch r f (del_pending (rs_id r) c) =
      (del_pending (rs_id r) c)\<lparr>cl_chans := (cl_chans c)(ch \<mapsto> ChFull r f)\<rparr>"
    by (simp add: channel_send_def del_pending_def)
  have parts: "numbers_ok c ps" "chans_ok c ps" "table_ok c" "waits_ok c ps" "reader_ok c"
    using inv by (simp_all add: client_inv_def)
  let ?d = "(del_pending (rs_id r) c)\<lparr>cl_chans := (cl_chans c)(ch \<mapsto> ChFull r f)\<rparr>"
  have pend: "(k, i) \<in> set (cl_pending (del_pending (rs_id r) c)) \<longleftrightarrow> (k, i) \<in> set (cl_pending c) \<and> k \<noteq> rs_id r" for k i
    by (auto simp: del_pending_def)
  have key: "k = call_no i" "i < length ps" if "(k, i) \<in> set (cl_pending c)" for k i
    using parts(2,3) that by (auto simp: table_ok_def chans_ok_def)
  have "numbers_ok ?d ps" using parts(1) by (simp add: numbers_ok_def del_pending_def)
  moreover have "chans_ok ?d ps"
    using parts(2) e n fd by (auto simp: chans_ok_def matched_def)
  moreover have "table_ok ?d"
    unfolding table_ok_def
  proof (intro allI impI)
    fix k i assume "(k, i) \<in> set (cl_pending ?d)"
    then have "(k, i) \<in> set (cl_pending c)" "k \<noteq> rs_id r" by (simp_all add: pend)
    with parts(3) n show "k = call_no i \<and> cl_chans ?d i = Some ChEmpty" by (auto simp: table_ok_def)
  qed
  moreover have "waits_ok ?d ps"
    unfolding waits_ok_def
  proof (intro allI impI)
    fix i assume i: "i < length ps" "open_call (ps ! i)"
    show "cl_chans ?d i \<noteq> None \<and> (cl_chans ?d i = Some ChEmpty \<longrightarrow> (\<exists>n. (n, i) \<in> set (cl_pending ?d)))"
    proof (cases "i = ch")
      case False
      have chi: "cl_chans ?d i = cl_chans c i" using False by simp
      have "\<exists>n. (n, i) \<in> set (cl_pending (del_pending (rs_id r) c))" if e: "cl_chans c i = Some ChEmpty"
      proof -
        from parts(4) i e obtain k where k: "(k, i) \<in> set (cl_pending c)" by (auto simp: waits_ok_def)
        with other[OF i(1) False] key(1)[OF k] show ?thesis by (auto simp: pend)
      qed
      moreover have "cl_chans c i \<noteq> None" using parts(4) i by (simp add: waits_ok_def)
      ultimately show ?thesis unfolding chi by simp
    qed simp
  qed
  moreover have "reader_ok ?d" using parts(5) by (auto simp: reader_ok_def del_pending_def)
  ultimately show ?thesis unfolding send by (simp add: client_inv_def)
qed

lemma client_inv_read_frame:
  assumes inv: "client_inv c ps" and small: "length ps < 2 ^ 64"
  shows "client_inv (read_frame oob buf c) ps"
proof -
  obtain f extra where p: "parse_rights oob = (f, extra)" by fastforce
  let ?c = "c\<lparr>cl_dropped := extra @ cl_dropped c\<rparr>"
  from inv have inv': "client_inv ?c ps" by simp
  show ?thesis
  proof (cases "unmarshal_response buf")
    case (Inl e)
    with p inv' show ?thesis by (simp add: read_frame_def client_inv_shutdown)
  next
    case (Inr r)
    show ?thesis
    proof (cases "has_fd r = (f \<noteq> None)")
      case False
      with p Inr inv' show ?thesis by (auto simp add: read_frame_def client_inv_shutdown)
    next
      case fd: True
      show ?thesis
      proof (cases "map_of (cl_pending ?c) (rs_id r)")
        case None
        then have "filter (\<lambda>p. fst p \<noteq> rs_id r) (cl_pending c) = cl_pending c"
          by (force simp: map_of_eq_None_iff filter_id_conv)
        then have "del_pending (rs_id r) ?c = ?c" by (simp add: del_pending_def)
        with inv' have "client_inv (del_pending (rs_id r) ?c) ps" by simp
        with p Inr fd None show ?thesis by (auto simp add: read_frame_def)
      next
        case (Some ch)
        with client_inv_deliver[OF inv' small Some fd] p Inr fd
        show ?thesis by (auto simp add: read_frame_def)
      qed
    qed
  qed
qed

lemma client_inv_phase:
  assumes "client_inv c ps" "i < length ps"
    and "phase_req p = phase_req (ps ! i)" "returned_ok p" "numbered p \<longrightarrow> numbered (ps ! i)"
    and "open_call p \<longrightarrow> open_call (ps ! i)"
  shows "client_inv c (ps[i := p])"
  using assms by (auto simp: client_inv_defs nth_list_update)

lemma client_inv_register:
  assumes inv: "client_inv c ps" and i: "i < length ps" "ps ! i = Numbered q"
    and small: "length ps < 2 ^ 64"
    and r: "do_register q i c = (Inr b, c')"
  shows "client_inv c' (ps[i := Registered q b])"
proof -
  have open_c: "\<not> cl_closed c"
    and c': "c' = c\<lparr>cl_chans := (cl_chans c)(i \<mapsto> ChEmpty),
       cl_pending := (rq_id q, i) # filter (\<lambda>p. fst p \<noteq> rq_id q) (cl_pending c)\<rparr>"
    using r by (auto simp: do_register_def split: sum.splits if_splits)
  have parts: "numbers_ok c ps" "chans_ok c ps" "table_ok c" "waits_ok c ps" "reader_ok c"
    using inv by (simp_all add: client_inv_def)
  have q: "rq_id q = call_no i" using parts(1) i by (auto simp: numbers_ok_def)
  have fresh: "cl_chans c i = None" using parts(2) i by (auto simp: chans_ok_def)
  have mem: "(k, j) \<in> set (cl_pending c') \<longleftrightarrow> (k, j) = (call_no i, i) \<or> (k, j) \<in> set (cl_pending c)" for k j
  proof -
    have "k \<noteq> call_no i" if m: "(k, j) \<in> set (cl_pending c)"
    proof -
      from parts(3) m have kj: "k = call_no j" "cl_chans c j = Some ChEmpty" by (auto simp: table_ok_def)
      with parts(2) have "j < length ps" by (simp add: chans_ok_def)
      moreover have "j \<noteq> i" using kj(2) fresh by auto
      ultimately show ?thesis using call_no_eq[OF _ i(1) small, of j] kj(1) by simp
    qed
    then show ?thesis using c' q by auto
  qed
  have "numbers_ok c' (ps[i := Registered q b])"
    using parts(1) i c' by (auto simp: numbers_ok_def nth_list_update)
  moreover have "chans_ok c' (ps[i := Registered q b])"
    using parts(2) i c' by (auto simp: chans_ok_def nth_list_update)
  moreover have "table_ok c'"
    unfolding table_ok_def mem using parts(3) c' by (auto simp: table_ok_def)
  moreover have "waits_ok c' (ps[i := Registered q b])"
    unfolding waits_ok_def mem using parts(4) i c' by (auto simp: waits_ok_def nth_list_update)
  moreover have "reader_ok c'" using parts(5) c' open_c by (simp add: reader_ok_def)
  ultimately show ?thesis by (simp add: client_inv_def)
qed

lemma client_inv_forget:
  assumes inv: "client_inv c ps" and i: "i < length ps" "phase_req p = phase_req (ps ! i)"
    and p: "returned_ok p" "\<not> numbered p" "\<not> open_call p" and small: "length ps < 2 ^ 64"
    and n: "rq_id (phase_req (ps ! i)) = n"
  shows "client_inv (del_pending n c) (ps[i := p])"
proof -
  have inv': "client_inv c (ps[i := p])" by (rule client_inv_phase) (use assms in simp_all)
  have n': "n = call_no i" using inv i n by (simp add: client_inv_defs)
  have mem: "(k, j) \<in> set (cl_pending (del_pending n c)) \<longleftrightarrow> (k, j) \<in> set (cl_pending c) \<and> k \<noteq> n" for k j
    by (auto simp: del_pending_def)
  have key: "k = call_no j" if "(k, j) \<in> set (cl_pending c)" for k j
    using inv that by (auto simp: client_inv_defs)
  have "waits_ok (del_pending n c) (ps[i := p])"
    unfolding waits_ok_def
  proof (intro allI impI)
    fix j assume j: "j < length (ps[i := p])" "open_call (ps[i := p] ! j)"
    have "j \<noteq> i" using j p i by auto
    then have ne: "call_no j \<noteq> n" using call_no_eq[OF _ i(1) small, of j] j n' by simp
    have same: "cl_chans (del_pending n c) j = cl_chans c j" by (simp add: del_pending_def)
    from inv' j have "cl_chans c j \<noteq> None \<and> (cl_chans c j = Some ChEmpty \<longrightarrow> (\<exists>k. (k, j) \<in> set (cl_pending c)))"
      by (simp add: client_inv_def waits_ok_def)
    with ne key show "cl_chans (del_pending n c) j \<noteq> None \<and>
        (cl_chans (del_pending n c) j = Some ChEmpty \<longrightarrow> (\<exists>k. (k, j) \<in> set (cl_pending (del_pending n c))))"
      unfolding same mem by blast
  qed
  moreover have "table_ok (del_pending n c)"
    unfolding table_ok_def mem using inv by (auto simp: client_inv_def table_ok_def del_pending_def)
  ultimately show ?thesis
    using inv' by (auto simp: client_inv_def numbers_ok_def chans_ok_def reader_ok_def del_pending_def)
qed

lemma client_inv_received:
  assumes inv: "client_inv c ps" and i: "i < length ps" "ps ! i = Waiting q"
    and r: "do_receive i c = (Some (Inr (r, f)), c')"
  shows "client_inv c' (ps[i := Returned q r f])"
proof -
  have c': "c' = c\<lparr>cl_chans := (cl_chans c)(i \<mapsto> ChEmpty)\<rparr>"
    and full: "cl_chans c i = Some (ChFull r f)"
    using r by (auto simp: do_receive_def split: option.splits channel.splits)
  have parts: "numbers_ok c ps" "chans_ok c ps" "table_ok c" "waits_ok c ps" "reader_ok c"
    using inv by (simp_all add: client_inv_def)
  have q: "rq_id q = call_no i" using parts(1) i by (auto simp: numbers_ok_def)
  have m: "matched r f (call_no i)" using parts(2) full by (simp add: chans_ok_def)
  have "numbers_ok c' (ps[i := Returned q r f])"
    using parts(1) i c' q m by (auto simp: numbers_ok_def nth_list_update)
  moreover have "chans_ok c' (ps[i := Returned q r f])"
    using parts(2) i c' by (auto simp: chans_ok_def nth_list_update)
  moreover have "table_ok c'" using parts(3) c' by (auto simp: table_ok_def)
  moreover have "waits_ok c' (ps[i := Returned q r f])"
    using parts(4) i c' by (auto simp: waits_ok_def nth_list_update)
  moreover have "reader_ok c'" using parts(5) c' by (simp add: reader_ok_def)
  ultimately show ?thesis by (simp add: client_inv_def)
qed

lemma client_inv_call:
  assumes "client_inv c ps" "do_number c = (n, c')"
  shows "client_inv c' (ps @ [Numbered (q\<lparr>rq_id := n\<rparr>)])"
proof -
  have c': "c' = c\<lparr>cl_next := n\<rparr>" and n: "n = call_no (length ps)"
    using assms call_no_next[of ps] by (auto simp: do_number_def client_inv_def numbers_ok_def)
  have "cl_chans c i = None" if "i \<ge> length ps" for i
    using assms(1) that by (metis client_inv_def chans_ok_def leD)
  then have "chans_ok c' (ps @ [Numbered (q\<lparr>rq_id := n\<rparr>)])"
    using assms(1) c' by (auto simp: client_inv_def chans_ok_def nth_append)
  then show ?thesis
    using assms(1) c' n
    by (simp add: client_inv_def numbers_ok_def table_ok_def waits_ok_def reader_ok_def nth_append
        less_Suc_eq call_no_def)
qed

lemma client_step_inv:
  assumes "client_step s t" "client_inv (cs_client s) (cs_calls s)" "length (cs_calls t) < 2 ^ 64"
  shows "client_inv (cs_client t) (cs_calls t)"
  using assms
proof (cases rule: client_step.cases)
  case (call n c q)
  with assms(2) show ?thesis by (simp add: client_inv_call)
next
  case (refused i q e c)
  then have "c = cs_client s" by (auto simp: do_register_def split: sum.splits if_splits)
  with refused assms(2) show ?thesis by (simp add: set_call_def client_inv_phase)
next
  case (registered i q b c)
  with assms(2,3) show ?thesis by (simp add: set_call_def client_inv_register)
next
  case (written i q b)
  with assms(2) show ?thesis by (simp add: set_call_def client_inv_phase)
next
  case (unwritten i q b e)
  with assms(2,3) show ?thesis by (simp add: set_call_def do_write_failed_def client_inv_forget)
next
  case (answered i q r f c)
  with assms(2) show ?thesis by (simp add: set_call_def client_inv_received)
next
  case (failed i q e c)
  then have "c = cs_client s" by (auto simp: do_receive_def split: option.splits channel.splits)
  with failed assms(2) show ?thesis by (simp add: set_call_def client_inv_phase)
next
  case (gave_up i q)
  with assms(2) show ?thesis by (simp add: set_call_def client_inv_phase)
next
  case (frame oob buf)
  with assms(2,3) show ?thesis by (simp add: client_inv_read_frame)
next
  case (read_error e)
  with assms(2) show ?thesis by (simp add: read_failed_def client_inv_shutdown)
next
  case closed
  with assms(2) show ?thesis by (simp add: client_close_def)
qed

lemma calls_grow: "client_step s t \<Longrightarrow> length (cs_calls s) \<le> length (cs_calls t)"
  by (induction rule: client_step.induct) (simp_all add: set_call_def)

theorem client_reachable_inv:
  assumes "conn_reachable s" "length (cs_calls s) < 2 ^ 64"
  shows "client_inv (cs_client s) (cs_calls s)"
  using assms
proof (induction rule: rtranclp_induct)
  case base
  show ?case using client_inv_start by (simp add: conn_start_def)
next
  case (step s t)
  with calls_grow[OF step(2)] client_step_inv[OF step(2)] show ?case by simp
qed

section \<open>Descriptors\<close>

definition opt_desc :: "desc option \<Rightarrow> desc multiset" where
  "opt_desc f = (case f of None \<Rightarrow> {#} | Some d \<Rightarrow> {#d#})"

lemma opt_desc_simps [simp]: "opt_desc None = {#}" "opt_desc (Some d) = {#d#}"
  by (simp_all add: opt_desc_def)

text \<open>What lies in a call's channel, and what a call was handed.\<close>

definition box_desc :: "client \<Rightarrow> nat \<Rightarrow> desc multiset" where
  "box_desc c i = (case cl_chans c i of Some (ChFull r f) \<Rightarrow> opt_desc f | _ \<Rightarrow> {#})"

definition handed_desc :: "phase \<Rightarrow> desc multiset" where
  "handed_desc p = (case p of Returned q r f \<Rightarrow> opt_desc f | _ \<Rightarrow> {#})"

definition call_descs :: "client \<Rightarrow> phase list \<Rightarrow> nat \<Rightarrow> desc multiset" where
  "call_descs c ps i = box_desc c i + handed_desc (ps ! i)"

definition accounted :: "client \<Rightarrow> phase list \<Rightarrow> desc multiset" where
  "accounted c ps = mset (cl_dropped c) + (\<Sum>i < length ps. call_descs c ps i)"

lemma keep_first_descs:
  "keep_first out ds = (r, cs) \<Longrightarrow> opt_desc out + mset ds = opt_desc r + mset cs"
  by (induction out ds arbitrary: r cs rule: keep_first.induct) (auto split: prod.splits)

lemma rights_loop_descs:
  "rights_loop out ms = (r, cs) \<Longrightarrow> opt_desc out + mset (oob_descs (Some ms)) = opt_desc r + mset cs"
proof (induction out ms arbitrary: r cs rule: rights_loop.induct)
  case (3 out ds ms)
  obtain a as where a: "keep_first out ds = (a, as)" by fastforce
  obtain b bs where b: "rights_loop a ms = (b, bs)" by fastforce
  from 3(2) a b have "r = b" "cs = as @ bs" by simp_all
  let ?X = "mset (oob_descs (Some ms))"
  have "opt_desc out + mset (oob_descs (Some (Some ds # ms))) = (opt_desc out + mset ds) + ?X"
    by (simp add: oob_descs_def)
  also have "\<dots> = mset as + (opt_desc a + ?X)" using keep_first_descs[OF a] by (simp add: ac_simps)
  also have "\<dots> = opt_desc r + mset cs"
    using 3(1)[OF a[symmetric] b] \<open>r = b\<close> \<open>cs = as @ bs\<close> by (simp add: ac_simps)
  finally show ?case .
qed (simp_all add: oob_descs_def)

lemma parse_rights_descs:
  assumes "parse_rights oob = (f, extra)"
  shows "mset (oob_descs oob) = opt_desc f + mset extra"
proof (cases oob)
  case None
  with assms show ?thesis by (simp add: parse_rights_def oob_descs_def)
next
  case (Some ms)
  with assms rights_loop_descs[of None ms f extra] show ?thesis by (simp add: parse_rights_def)
qed

lemma sum_update_at:
  fixes g h :: "nat \<Rightarrow> 'a multiset"
  assumes "i < n" "\<And>j. j < n \<Longrightarrow> j \<noteq> i \<Longrightarrow> g j = h j"
  shows "(\<Sum>j < n. g j) + h i = (\<Sum>j < n. h j) + g i"
proof -
  have "(\<Sum>j < n. g j) = g i + (\<Sum>j \<in> {..<n} - {i}. g j)"
    "(\<Sum>j < n. h j) = h i + (\<Sum>j \<in> {..<n} - {i}. h j)"
    using assms(1) by (simp_all add: sum.remove)
  moreover have "(\<Sum>j \<in> {..<n} - {i}. g j) = (\<Sum>j \<in> {..<n} - {i}. h j)"
    using assms(2) by (intro sum.cong) auto
  ultimately show ?thesis by (simp add: ac_simps)
qed

lemma accounted_same:
  assumes "cl_dropped c' = cl_dropped c" "\<And>i. i < length ps \<Longrightarrow> box_desc c' i = box_desc c i"
  shows "accounted c' ps = accounted c ps"
  using assms by (simp add: accounted_def call_descs_def)

lemma accounted_drop: "accounted (drop_desc f c) ps = opt_desc f + accounted c ps"
  by (simp add: accounted_def drop_desc_def call_descs_def box_desc_def split: option.splits)

lemma accounted_extra: "accounted (c\<lparr>cl_dropped := extra @ cl_dropped c\<rparr>) ps = mset extra + accounted c ps"
  by (simp add: accounted_def call_descs_def box_desc_def ac_simps)

lemma accounted_shutdown:
  assumes "client_inv c ps"
  shows "accounted ((client_shutdown e c)\<lparr>cl_ended := True\<rparr>) ps = accounted c ps"
proof (rule accounted_same)
  have "cl_chans c i = Some ChEmpty" if "i \<in> set (map snd (cl_pending c))" for i
    using assms that by (auto simp: client_inv_def table_ok_def)
  then show "box_desc ((client_shutdown e c)\<lparr>cl_ended := True\<rparr>) i = box_desc c i" for i
    by (auto simp: box_desc_def client_shutdown_def)
qed (simp add: client_shutdown_def)

lemma accounted_deliver:
  assumes inv: "client_inv c ps" and found: "map_of (cl_pending c) (rs_id r) = Some ch"
  shows "accounted (channel_send ch r f (del_pending (rs_id r) c)) ps = opt_desc f + accounted c ps"
proof -
  from found have mem: "(rs_id r, ch) \<in> set (cl_pending c)" by (rule map_of_SomeD)
  with inv have e: "cl_chans c ch = Some ChEmpty" by (auto simp: client_inv_def table_ok_def)
  with inv have ch: "ch < length ps" by (simp add: client_inv_def chans_ok_def)
  let ?d = "channel_send ch r f (del_pending (rs_id r) c)"
  have d: "cl_chans ?d = (cl_chans c)(ch \<mapsto> ChFull r f)" "cl_dropped ?d = cl_dropped c"
    using e by (simp_all add: channel_send_def del_pending_def)
  have "(\<Sum>i < length ps. call_descs ?d ps i) + call_descs c ps ch =
      (\<Sum>i < length ps. call_descs c ps i) + call_descs ?d ps ch"
    by (rule sum_update_at[OF ch]) (simp add: call_descs_def box_desc_def d)
  moreover have "call_descs ?d ps ch = opt_desc f + call_descs c ps ch"
    using e by (simp add: call_descs_def box_desc_def d)
  ultimately show ?thesis by (simp add: accounted_def d ac_simps)
qed

lemma accounted_read_frame:
  assumes inv: "client_inv c ps"
  shows "accounted (read_frame oob buf c) ps = mset (oob_descs oob) + accounted c ps"
proof -
  obtain f extra where p: "parse_rights oob = (f, extra)" by fastforce
  let ?c = "c\<lparr>cl_dropped := extra @ cl_dropped c\<rparr>"
  from inv have inv': "client_inv ?c ps" by simp
  have goal: "mset (oob_descs oob) + accounted c ps = opt_desc f + accounted ?c ps"
    by (simp add: parse_rights_descs[OF p] accounted_extra ac_simps)
  have dropped: "accounted ((client_shutdown e (drop_desc f ?c))\<lparr>cl_ended := True\<rparr>) ps = opt_desc f + accounted ?c ps" for e
    using inv' by (simp only: accounted_shutdown accounted_drop client_inv_drop_desc)
  show ?thesis
  proof (cases "unmarshal_response buf")
    case (Inl e)
    then show ?thesis unfolding goal using dropped[of "CeMalformed e"] by (simp add: read_frame_def p)
  next
    case (Inr r)
    consider (count) "has_fd r \<noteq> (f \<noteq> None)"
      | (late) "has_fd r = (f \<noteq> None)" "map_of (cl_pending ?c) (rs_id r) = None"
      | (found) ch where "has_fd r = (f \<noteq> None)" "map_of (cl_pending ?c) (rs_id r) = Some ch"
      by fastforce
    then show ?thesis
    proof cases
      case count
      then show ?thesis unfolding goal
        using Inr dropped[of "CeCount (rs_id r) (has_fd r) (f \<noteq> None)"] by (simp add: read_frame_def p)
    next
      case late
      then have "read_frame oob buf c = drop_desc f (del_pending (rs_id r) ?c)"
        using Inr by (auto simp: read_frame_def p)
      moreover have "accounted (del_pending (rs_id r) ?c) ps = accounted ?c ps"
        by (rule accounted_same) (simp_all add: del_pending_def box_desc_def)
      ultimately show ?thesis unfolding goal by (simp add: accounted_drop)
    next
      case found
      then have "read_frame oob buf c = channel_send ch r f (del_pending (rs_id r) ?c)"
        using Inr by (auto simp: read_frame_def p)
      then show ?thesis unfolding goal using accounted_deliver[OF inv' found(2)] by simp
    qed
  qed
qed

lemma accounted_phase:
  assumes "i < length ps" "handed_desc p = handed_desc (ps ! i)"
  shows "accounted c (ps[i := p]) = accounted c ps"
  using assms by (simp add: accounted_def call_descs_def nth_list_update if_distrib cong: sum.cong if_cong)

lemma accounted_received:
  assumes i: "i < length ps" "ps ! i = Waiting q" and full: "cl_chans c i = Some (ChFull r f)"
  shows "accounted (c\<lparr>cl_chans := (cl_chans c)(i \<mapsto> ChEmpty)\<rparr>) (ps[i := Returned q r f]) = accounted c ps"
proof -
  let ?c = "c\<lparr>cl_chans := (cl_chans c)(i \<mapsto> ChEmpty)\<rparr>" and ?ps = "ps[i := Returned q r f]"
  have "call_descs ?c ?ps j = call_descs c ps j" if "j < length ps" for j
    using i full that by (cases "j = i") (simp_all add: call_descs_def box_desc_def handed_desc_def)
  then show ?thesis by (simp add: accounted_def)
qed

definition descs_ok :: "conn_state \<Rightarrow> bool" where
  "descs_ok s \<longleftrightarrow> mset (cs_received s) = accounted (cs_client s) (cs_calls s)"

lemma client_step_descs:
  assumes "client_step s t" "descs_ok s" "client_inv (cs_client s) (cs_calls s)"
  shows "descs_ok t"
  using assms
proof (cases rule: client_step.cases)
  case (call n c q)
  have "cl_chans (cs_client s) (length (cs_calls s)) = None"
    using assms(3) by (auto simp: client_inv_def chans_ok_def)
  with call assms(2) show ?thesis
    by (auto simp: descs_ok_def accounted_def do_number_def call_descs_def box_desc_def handed_desc_def nth_append)
next
  case (refused i q e c)
  then have "c = cs_client s" by (auto simp: do_register_def split: sum.splits if_splits)
  with refused assms(2) show ?thesis
    by (simp add: set_call_def descs_ok_def accounted_phase handed_desc_def)
next
  case (registered i q b c)
  have fresh: "cl_chans (cs_client s) i = None"
    using assms(3) registered(2,3) by (auto simp: client_inv_def chans_ok_def)
  have c: "cl_dropped c = cl_dropped (cs_client s)" "cl_chans c = (cl_chans (cs_client s))(i \<mapsto> ChEmpty)"
    using registered(4) by (auto simp: do_register_def split: sum.splits if_splits)
  have "accounted c (cs_calls s) = accounted (cs_client s) (cs_calls s)"
    by (rule accounted_same) (use c fresh in \<open>simp_all add: box_desc_def\<close>)
  with registered assms(2) show ?thesis
    by (simp add: set_call_def descs_ok_def accounted_phase handed_desc_def)
next
  case (written i q b)
  with assms(2) show ?thesis by (simp add: set_call_def descs_ok_def accounted_phase handed_desc_def)
next
  case (unwritten i q b e)
  have "accounted (do_write_failed (rq_id q) (cs_client s)) (cs_calls s) = accounted (cs_client s) (cs_calls s)"
    by (rule accounted_same) (simp_all add: do_write_failed_def del_pending_def box_desc_def)
  with unwritten assms(2) show ?thesis
    by (simp add: set_call_def descs_ok_def accounted_phase handed_desc_def)
next
  case (answered i q r f c)
  then have c: "c = (cs_client s)\<lparr>cl_chans := (cl_chans (cs_client s))(i \<mapsto> ChEmpty)\<rparr>"
    and full: "cl_chans (cs_client s) i = Some (ChFull r f)"
    by (auto simp: do_receive_def split: option.splits channel.splits)
  with answered(1) assms(2) accounted_received[OF answered(2,3) full] show ?thesis
    by (simp add: set_call_def descs_ok_def)
next
  case (failed i q e c)
  then have "c = cs_client s" by (auto simp: do_receive_def split: option.splits channel.splits)
  with failed assms(2) show ?thesis
    by (simp add: set_call_def descs_ok_def accounted_phase handed_desc_def)
next
  case (gave_up i q)
  with assms(2) show ?thesis by (simp add: set_call_def descs_ok_def accounted_phase handed_desc_def)
next
  case (frame oob buf)
  with assms(2) accounted_read_frame[OF assms(3)] show ?thesis by (simp add: descs_ok_def)
next
  case (read_error e)
  with assms(2) accounted_shutdown[OF assms(3)] show ?thesis by (simp add: descs_ok_def read_failed_def)
next
  case closed
  have "accounted (client_close (cs_client s)) (cs_calls s) = accounted (cs_client s) (cs_calls s)"
    by (rule accounted_same) (simp_all add: client_close_def box_desc_def)
  with closed assms(2) show ?thesis by (simp add: descs_ok_def)
qed

lemma client_reachable_descs:
  assumes "conn_reachable s" "length (cs_calls s) < 2 ^ 64"
  shows "descs_ok s"
  using assms
proof (induction rule: rtranclp_induct)
  case base
  show ?case by (simp add: descs_ok_def accounted_def conn_start_def new_client_def)
next
  case (step s t)
  from calls_grow[OF step(2)] step(4) have "length (cs_calls s) < 2 ^ 64" by simp
  with client_step_descs[OF step(2)] step(3) client_reachable_inv[OF step(1)] show ?case by simp
qed

text \<open>
  The descriptor of a call that gave up stays in its channel: the reader never looks there again.
\<close>

lemma abandoned_step:
  assumes "client_step s t" "client_inv (cs_client s) (cs_calls s)"
    and "i < length (cs_calls s)" "cs_calls s ! i = GaveUp q" "cl_chans (cs_client s) i = Some (ChFull r f)"
  shows "i < length (cs_calls t) \<and> cs_calls t ! i = GaveUp q \<and> cl_chans (cs_client t) i = Some (ChFull r f)"
proof -
  have notin: "(n, i) \<notin> set (cl_pending (cs_client s))" for n
    using assms(2,5) by (auto simp: client_inv_def table_ok_def)
  have shut: "cl_chans (client_shutdown e (cs_client s)) i = Some (ChFull r f)" for e
    using notin assms(5) by (auto simp: client_shutdown_def)
  have read: "cl_chans (read_frame oob buf (cs_client s)) i = Some (ChFull r f)" for oob buf
  proof -
    have keep: "cl_chans (drop_desc g c) = cl_chans c" "cl_pending (drop_desc g c) = cl_pending c"
      "cl_closed (drop_desc g c) = cl_closed c" for g c
      by (simp_all add: drop_desc_def split: option.splits)
    have "cl_chans (client_shutdown e (drop_desc g ((cs_client s)\<lparr>cl_dropped := x\<rparr>))) i = Some (ChFull r f)" for e g x
      using notin assms(5) by (auto simp: client_shutdown_def keep)
    moreover have "ch \<noteq> i" if "map_of (cl_pending (cs_client s)) k = Some ch" for k ch
      using notin map_of_SomeD[OF that] by auto
    ultimately show ?thesis
      using assms(5)
      by (auto simp: read_frame_def Let_def keep channel_send_def del_pending_def
          split: prod.splits sum.splits option.splits channel.splits)
  qed
  from assms(1,3-5) show ?thesis
    by (cases rule: client_step.cases)
      (auto simp: set_call_def nth_append nth_list_update do_number_def do_register_def do_receive_def
        do_write_failed_def del_pending_def read_failed_def client_close_def shut read
        split: sum.splits if_splits option.splits channel.splits)
qed

lemma abandoned_stays:
  assumes "client_step\<^sup>*\<^sup>* s t" "conn_reachable s" "length (cs_calls t) < 2 ^ 64"
    and "i < length (cs_calls s)" "cs_calls s ! i = GaveUp q" "cl_chans (cs_client s) i = Some (ChFull r f)"
  shows "i < length (cs_calls t) \<and> cs_calls t ! i = GaveUp q \<and> cl_chans (cs_client t) i = Some (ChFull r f)"
  using assms(1,3)
proof (induction rule: rtranclp_induct)
  case base
  with assms show ?case by simp
next
  case (step t u)
  have reach: "conn_reachable t" using assms(2) step(1) by (rule rtranclp_trans)
  from calls_grow[OF step(2)] step(4) have small: "length (cs_calls t) < 2 ^ 64" by simp
  with step(3) abandoned_step[OF step(2) client_reachable_inv[OF reach small]] show ?case by blast
qed

lemma ended_ready:
  assumes inv: "client_inv c ps" and e: "cl_ended c" and i: "i < length ps" "open_call (ps ! i)"
  shows "\<exists>x c'. do_receive i c = (Some x, c')"
proof -
  from inv e have "cl_pending c = []" by (simp add: client_inv_def reader_ok_def)
  with inv i have "cl_chans c i \<noteq> None \<and> cl_chans c i \<noteq> Some ChEmpty"
    by (auto simp: client_inv_def waits_ok_def)
  then show ?thesis by (cases "cl_chans c i") (auto simp: do_receive_def split: channel.splits)
qed

text \<open>A connection with one call that was answered, one that gave up, and an uncalled-for descriptor.\<close>

definition sample_request :: request where
  "sample_request = \<lparr>rq_id = 0, rq_op = OpOpen, rq_flags = 0, rq_mode = 0, rq_path = ''a'', rq_path2 = [],
     rq_name = [], rq_value = []\<rparr>"

definition sample_reply :: "uint8 \<Rightarrow> uint8 list" where
  "sample_reply n = [0, 0, 0, 0, 0, 0, 0, n, 0, 0, 0, 0, HasFD]"

definition sample_response :: "uint64 \<Rightarrow> response" where
  "sample_response n = \<lparr>rs_id = n, rs_has = HasFD, rs_errno = 0, rs_stat = None, rs_entries = [], rs_value = []\<rparr>"

fun serve_call :: "request \<Rightarrow> conn_state \<Rightarrow> conn_state" where
  "serve_call q s =
     (let (n, c) = do_number (cs_client s); i = length (cs_calls s); q = q\<lparr>rq_id := n\<rparr>
      in case do_register q i c of
           (Inl e, c) \<Rightarrow> s\<lparr>cs_client := c, cs_calls := cs_calls s @ [Failed q e]\<rparr>
         | (Inr b, c) \<Rightarrow> s\<lparr>cs_client := c, cs_calls := cs_calls s @ [Waiting q]\<rparr>)"

lemma serve_call_steps:
  assumes "cl_conn (cs_client s)"
  shows "client_step\<^sup>*\<^sup>* s (serve_call q s)"
proof -
  obtain n c where n: "do_number (cs_client s) = (n, c)" by fastforce
  let ?i = "length (cs_calls s)" and ?q = "q\<lparr>rq_id := n\<rparr>"
  let ?s1 = "s\<lparr>cs_client := c, cs_calls := cs_calls s @ [Numbered ?q]\<rparr>"
  have s1: "client_step s ?s1" using n by (rule client_step.call)
  obtain x d where x: "do_register ?q ?i c = (x, d)" by fastforce
  show ?thesis
  proof (cases x)
    case (Inl e)
    have "client_step ?s1 (set_call ?i (Failed ?q e) d ?s1)"
      by (rule client_step.refused) (use x Inl in simp_all)
    moreover have "serve_call q s = set_call ?i (Failed ?q e) d ?s1"
      using n x Inl by (simp add: set_call_def)
    ultimately show ?thesis using s1 by simp
  next
    case (Inr b)
    let ?s2 = "set_call ?i (Registered ?q b) d ?s1"
    have s2: "client_step ?s1 ?s2"
      by (rule client_step.registered) (use x Inr in simp_all)
    have "cl_conn d" using assms n x Inr by (auto simp: do_number_def do_register_def split: sum.splits if_splits)
    then have "client_step ?s2 (set_call ?i (Waiting ?q) d ?s2)"
      using client_step.written[of ?i ?s2 ?q b] by (simp add: set_call_def)
    moreover have "serve_call q s = set_call ?i (Waiting ?q) d ?s2"
      using n x Inr by (simp add: set_call_def)
    ultimately have "client_step ?s2 (serve_call q s)" by simp
    with s1 s2 show ?thesis by (blast intro: converse_rtranclp_into_rtranclp)
  qed
qed

lemma sample_decodes [simp]: "unmarshal_response (sample_reply 1) = Inr (sample_response 1)"
  "unmarshal_response (sample_reply 2) = Inr (sample_response 2)"
  "unmarshal_response (sample_reply 3) = Inr (sample_response 3)"
  by (simp_all add: unmarshal_response_def sample_reply_def sample_response_def cursor_u64_def cursor_u32_def
      cursor_u8_def cursor_take_def cursor_done_def has_known_def max_frame_def be_nat.simps)

lemma sample_encodes: "\<exists>b. request_marshal (sample_request\<lparr>rq_id := n\<rparr>) = Inr b"
  by (simp add: request_marshal_def sample_request_def op_valid_def append_str_def append_bytes_def max_frame_def)

lemma sample_register:
  "\<not> cl_closed c \<Longrightarrow> \<exists>b. do_register (sample_request\<lparr>rq_id := n\<rparr>) i c =
     (Inr b, c\<lparr>cl_chans := (cl_chans c)(i \<mapsto> ChEmpty), cl_pending := (n, i) # filter (\<lambda>p. fst p \<noteq> n) (cl_pending c)\<rparr>)"
proof -
  assume c: "\<not> cl_closed c"
  obtain b where "request_marshal (sample_request\<lparr>rq_id := n\<rparr>) = Inr b" using sample_encodes by blast
  with c show ?thesis by (simp add: do_register_def)
qed

definition sample_waiting :: conn_state where
  "sample_waiting = \<lparr>cs_client = \<lparr>cl_next = 2, cl_pending = [(2, 1), (1, 0)],
       cl_chans = [0 \<mapsto> ChEmpty, 1 \<mapsto> ChEmpty], cl_closed = False, cl_err = None,
       cl_conn = True, cl_ended = False, cl_dropped = [], cl_blocked = False\<rparr>,
     cs_calls = [Waiting (sample_request\<lparr>rq_id := 1\<rparr>), Waiting (sample_request\<lparr>rq_id := 2\<rparr>)], cs_received = []\<rparr>"

lemma sample_waiting: "conn_reachable sample_waiting"
proof -
  let ?s = "serve_call sample_request conn_start"
  obtain b where b: "do_register (sample_request\<lparr>rq_id := 1\<rparr>) 0 (new_client\<lparr>cl_next := 1\<rparr>) =
     (Inr b, new_client\<lparr>cl_next := 1, cl_chans := [0 \<mapsto> ChEmpty], cl_pending := [(1, 0)]\<rparr>)"
    using sample_register[of "new_client\<lparr>cl_next := 1\<rparr>" 1 0] by (auto simp: new_client_def)
  then have s: "?s = \<lparr>cs_client = new_client\<lparr>cl_next := 1, cl_chans := [0 \<mapsto> ChEmpty], cl_pending := [(1, 0)]\<rparr>,
      cs_calls = [Waiting (sample_request\<lparr>rq_id := 1\<rparr>)], cs_received = []\<rparr>"
    by (simp add: conn_start_def do_number_def new_client_def)
  let ?c = "new_client\<lparr>cl_next := 2, cl_chans := [0 \<mapsto> ChEmpty], cl_pending := [(1, 0)]\<rparr>"
  obtain b' where b': "do_register (sample_request\<lparr>rq_id := 2\<rparr>) 1 ?c =
     (Inr b', ?c\<lparr>cl_chans := [0 \<mapsto> ChEmpty, 1 \<mapsto> ChEmpty], cl_pending := [(2, 1), (1, 0)]\<rparr>)"
    using sample_register[of ?c 2 1] by (auto simp: new_client_def)
  then have "serve_call sample_request ?s = sample_waiting"
    unfolding s by (simp add: do_number_def sample_waiting_def new_client_def)
  moreover have "conn_reachable ?s" by (rule serve_call_steps) (simp add: conn_start_def new_client_def)
  moreover have "client_step\<^sup>*\<^sup>* ?s (serve_call sample_request ?s)"
    by (rule serve_call_steps) (simp only: s, simp add: new_client_def)
  ultimately show ?thesis by (metis rtranclp_trans)
qed

text \<open>The first call is answered; the second gives up, and its descriptor 7 is never closed.\<close>

definition sample_conn :: conn_state where
  "sample_conn = \<lparr>cs_client = \<lparr>cl_next = 2, cl_pending = [],
       cl_chans = [0 \<mapsto> ChEmpty, 1 \<mapsto> ChFull (sample_response 2) (Some 7)], cl_closed = False, cl_err = None,
       cl_conn = True, cl_ended = False, cl_dropped = [8, 6], cl_blocked = False\<rparr>,
     cs_calls = [Returned (sample_request\<lparr>rq_id := 1\<rparr>) (sample_response 1) (Some 5),
       GaveUp (sample_request\<lparr>rq_id := 2\<rparr>)], cs_received = [8, 7, 5, 6]\<rparr>"

lemma frame_reachable:
  assumes "conn_reachable s" "\<not> cl_ended (cs_client s)" "\<not> cl_blocked (cs_client s)" "cl_conn (cs_client s)"
    and "t = s\<lparr>cs_client := read_frame oob buf (cs_client s), cs_received := oob_descs oob @ cs_received s\<rparr>"
  shows "conn_reachable t"
  using assms client_step.frame[of s oob buf] by (auto intro: rtranclp.rtrancl_into_rtrancl)

lemma sample_has_fd: "has_fd (sample_response n)" "rs_id (sample_response n) = n"
  by (simp_all add: has_fd_def sample_response_def)

lemmas run_frame = read_frame_def parse_rights_def oob_descs_def sample_has_fd del_pending_def channel_send_def
  drop_desc_def

definition sample_answered :: conn_state where
  "sample_answered = sample_waiting\<lparr>cs_client := (cs_client sample_waiting)\<lparr>cl_pending := [(2, 1)],
      cl_chans := [0 \<mapsto> ChFull (sample_response 1) (Some 5), 1 \<mapsto> ChEmpty], cl_dropped := [6]\<rparr>, cs_received := [5, 6]\<rparr>"

lemma sample_answered: "conn_reachable sample_answered"
  by (rule frame_reachable[OF sample_waiting, of _ "Some [Some [5, 6]]" "sample_reply 1"])
    (simp_all add: sample_waiting_def sample_answered_def run_frame fun_upd_twist)

definition sample_gone :: conn_state where
  "sample_gone = sample_conn\<lparr>cs_client := (cs_client sample_conn)\<lparr>cl_pending := [(2, 1)],
      cl_chans := [0 \<mapsto> ChEmpty, 1 \<mapsto> ChEmpty], cl_dropped := [6]\<rparr>, cs_received := [5, 6]\<rparr>"

lemma sample_gone: "conn_reachable sample_gone"
proof -
  let ?r = "Returned (sample_request\<lparr>rq_id := 1\<rparr>) (sample_response 1) (Some 5)"
  obtain c where c: "c = (cs_client sample_answered)\<lparr>cl_chans := [0 \<mapsto> ChEmpty, 1 \<mapsto> ChEmpty]\<rparr>" by simp
  obtain s where s: "s = set_call 0 ?r c sample_answered" by simp
  have "client_step sample_answered s"
    unfolding s c by (rule client_step.answered)
      (simp_all add: sample_answered_def sample_waiting_def do_receive_def fun_upd_twist)
  moreover have "client_step s sample_gone"
  proof -
    have e: "sample_gone = set_call 1 (GaveUp (sample_request\<lparr>rq_id := 2\<rparr>)) (cs_client s) s"
      by (simp add: s c set_call_def sample_gone_def sample_conn_def sample_answered_def sample_waiting_def)
    show ?thesis unfolding e by (rule client_step.gave_up)
      (simp_all add: s set_call_def sample_answered_def sample_waiting_def)
  qed
  ultimately show ?thesis
    using sample_answered by (meson rtranclp.rtrancl_into_rtrancl)
qed

definition sample_late :: conn_state where
  "sample_late = sample_conn\<lparr>cs_client := (cs_client sample_conn)\<lparr>cl_dropped := [6]\<rparr>, cs_received := [7, 5, 6]\<rparr>"

lemma sample_late: "conn_reachable sample_late"
  by (rule frame_reachable[OF sample_gone, of _ "Some [Some [7]]" "sample_reply 2"])
    (simp_all add: sample_gone_def sample_late_def sample_conn_def run_frame)

lemma sample_conn: "conn_reachable sample_conn"
  by (rule frame_reachable[OF sample_late, of _ "Some [Some [8]]" "sample_reply 3"])
    (simp_all add: sample_late_def sample_conn_def run_frame)

text \<open>
  C7: However the calls, the reader and the closing of the connection interleave, and whatever the
  helper sends, as long as fewer than \<open>2 ^ 64\<close> calls were made: a reply is handed to the call whose
  number it carries, which is no other call's, with a descriptor exactly when it says it has one; and
  every descriptor received is in one place: closed by the client, in the channel of one call, or
  handed to one call.
\<close>

theorem replies_match:
  assumes "conn_reachable s" "length (cs_calls s) < 2 ^ 64"
  shows "(\<forall>i q r f. i < length (cs_calls s) \<and> cs_calls s ! i = Returned q r f \<longrightarrow>
      rs_id r = rq_id q \<and> has_fd r = (f \<noteq> None) \<and>
      (\<forall>j < length (cs_calls s). j \<noteq> i \<longrightarrow> rq_id (phase_req (cs_calls s ! j)) \<noteq> rs_id r)) \<and>
    mset (cs_received s) = mset (cl_dropped (cs_client s)) +
      (\<Sum>i < length (cs_calls s). box_desc (cs_client s) i + handed_desc (cs_calls s ! i))"
proof
  from client_reachable_inv[OF assms] have inv: "numbers_ok (cs_client s) (cs_calls s)"
    by (simp add: client_inv_def)
  show "\<forall>i q r f. i < length (cs_calls s) \<and> cs_calls s ! i = Returned q r f \<longrightarrow>
      rs_id r = rq_id q \<and> has_fd r = (f \<noteq> None) \<and>
      (\<forall>j < length (cs_calls s). j \<noteq> i \<longrightarrow> rq_id (phase_req (cs_calls s ! j)) \<noteq> rs_id r)"
  proof (intro allI impI, elim conjE)
    fix i q r f assume i: "i < length (cs_calls s)" "cs_calls s ! i = Returned q r f"
    with inv have m: "rs_id r = rq_id q" "has_fd r = (f \<noteq> None)" "rq_id q = call_no i"
      by (fastforce simp: numbers_ok_def matched_def)+
    moreover have "rq_id (phase_req (cs_calls s ! j)) \<noteq> rs_id r"
      if "j < length (cs_calls s)" "j \<noteq> i" for j
      using inv that m call_no_eq[OF that(1) i(1) assms(2)] by (simp add: numbers_ok_def)
    ultimately show "rs_id r = rq_id q \<and> has_fd r = (f \<noteq> None) \<and>
      (\<forall>j < length (cs_calls s). j \<noteq> i \<longrightarrow> rq_id (phase_req (cs_calls s ! j)) \<noteq> rs_id r)" by simp
  qed
  from client_reachable_descs[OF assms]
  show "mset (cs_received s) = mset (cl_dropped (cs_client s)) +
      (\<Sum>i < length (cs_calls s). box_desc (cs_client s) i + handed_desc (cs_calls s ! i))"
    by (simp add: descs_ok_def accounted_def call_descs_def)
qed

lemma replies_match_witness:
  "cs_calls sample_conn ! 0 = Returned (sample_request\<lparr>rq_id := 1\<rparr>) (sample_response 1) (Some 5) \<and>
   rs_id (sample_response 1) = 1 \<and> has_fd (sample_response 1) \<and> rq_id (phase_req (cs_calls sample_conn ! 1)) \<noteq> 1"
proof -
  have c: "length (cs_calls sample_conn) = 2"
    "cs_calls sample_conn ! 0 = Returned (sample_request\<lparr>rq_id := 1\<rparr>) (sample_response 1) (Some 5)"
    by (simp_all add: sample_conn_def)
  with replies_match[OF sample_conn] have "rs_id (sample_response 1) = rq_id (sample_request\<lparr>rq_id := 1\<rparr>)"
    "has_fd (sample_response 1)" "rq_id (phase_req (cs_calls sample_conn ! 1)) \<noteq> rs_id (sample_response 1)"
    by fastforce+
  with c show ?thesis by simp
qed

text \<open>
  C8: The reader never blocks on handing a reply over, not even to a call that gave up, so one slow
  caller holds up nobody. Once the reader has ended, for whatever reason, no call is left waiting: the
  receive of every call returns and a call that comes later is refused. A descriptor that reached the
  channel of a call that gave up stays there for good: no step of the client closes it.
\<close>

theorem calls_end:
  assumes "conn_reachable s" "length (cs_calls s) < 2 ^ 64"
  shows "\<not> cl_blocked (cs_client s) \<and>
    (cl_ended (cs_client s) \<longrightarrow>
      (\<forall>i < length (cs_calls s). open_call (cs_calls s ! i) \<longrightarrow> (\<exists>x c. do_receive i (cs_client s) = (Some x, c))) \<and>
      (\<forall>q i. \<exists>e. fst (do_register q i (cs_client s)) = Inl e)) \<and>
    (\<forall>i q r f t. i < length (cs_calls s) \<and> cs_calls s ! i = GaveUp q \<and>
        cl_chans (cs_client s) i = Some (ChFull r f) \<and> client_step\<^sup>*\<^sup>* s t \<and> length (cs_calls t) < 2 ^ 64 \<longrightarrow>
      cs_calls t ! i = GaveUp q \<and> cl_chans (cs_client t) i = Some (ChFull r f))"
proof (intro conjI impI allI)
  note inv = client_reachable_inv[OF assms]
  from inv show "\<not> cl_blocked (cs_client s)" by (simp add: client_inv_def reader_ok_def)
  { fix i assume "cl_ended (cs_client s)" "i < length (cs_calls s)" "open_call (cs_calls s ! i)"
    with inv show "\<exists>x c. do_receive i (cs_client s) = (Some x, c)" by (rule ended_ready) }
  { fix q i assume "cl_ended (cs_client s)"
    with inv have "cl_closed (cs_client s)" by (simp add: client_inv_def reader_ok_def)
    then show "\<exists>e. fst (do_register q i (cs_client s)) = Inl e"
      by (simp add: do_register_def split: sum.splits) }
  { fix i q r f t
    assume "i < length (cs_calls s) \<and> cs_calls s ! i = GaveUp q \<and>
        cl_chans (cs_client s) i = Some (ChFull r f) \<and> client_step\<^sup>*\<^sup>* s t \<and> length (cs_calls t) < 2 ^ 64"
    with abandoned_stays[OF _ assms(1), of t i q r f]
    show "cs_calls t ! i = GaveUp q" "cl_chans (cs_client t) i = Some (ChFull r f)" by blast+ }
qed

text \<open>The connection of the sample after it is lost, with a call still waiting and with an abandoned one.\<close>

lemma calls_end_witness:
  "cl_ended (read_failed ''EOF'' (cs_client sample_answered)) \<and>
   (\<exists>x c. do_receive 1 (read_failed ''EOF'' (cs_client sample_answered)) = (Some x, c)) \<and>
   cl_chans (read_failed ''EOF'' (cs_client sample_conn)) 1 = Some (ChFull (sample_response 2) (Some 7))"
proof -
  let ?t = "sample_answered\<lparr>cs_client := read_failed ''EOF'' (cs_client sample_answered)\<rparr>"
  have step: "client_step sample_answered ?t"
    by (rule client_step.read_error) (simp_all add: sample_answered_def sample_waiting_def)
  have t: "length (cs_calls ?t) = 2" "open_call (cs_calls ?t ! 1)" "cl_ended (cs_client ?t)"
    by (simp_all add: sample_answered_def sample_waiting_def read_failed_def)
  have r: "conn_reachable ?t" using sample_answered step by (rule rtranclp.rtrancl_into_rtrancl)
  have "length (cs_calls ?t) < 2 ^ 64" unfolding t(1) by simp
  from calls_end[OF r this] t have ready:
    "\<forall>i < length (cs_calls ?t). open_call (cs_calls ?t ! i) \<longrightarrow> (\<exists>x c. do_receive i (cs_client ?t) = (Some x, c))"
    by blast
  have got: "\<exists>x c. do_receive 1 (cs_client ?t) = (Some x, c)"
    by (rule ready[rule_format]) (use t in simp_all)
  have "length (cs_calls sample_conn) = 2" "cs_calls sample_conn ! 1 = GaveUp (sample_request\<lparr>rq_id := 2\<rparr>)"
    "cl_chans (cs_client sample_conn) 1 = Some (ChFull (sample_response 2) (Some 7))"
    by (simp_all add: sample_conn_def)
  note c = this
  have "length (cs_calls sample_conn) < 2 ^ 64" unfolding c(1) by simp
  note stays = calls_end[OF sample_conn this, THEN conjunct2, THEN conjunct2, rule_format]
  let ?u = "sample_conn\<lparr>cs_client := read_failed ''EOF'' (cs_client sample_conn)\<rparr>"
  have "client_step sample_conn ?u" by (rule client_step.read_error) (simp_all add: sample_conn_def)
  then have s: "client_step\<^sup>*\<^sup>* sample_conn ?u" by (rule r_into_rtranclp)
  have l: "length (cs_calls ?u) < 2 ^ 64" by (simp add: c(1))
  have "cl_chans (cs_client ?u) 1 = Some (ChFull (sample_response 2) (Some 7))"
    using stays[of 1 "sample_request\<lparr>rq_id := 2\<rparr>" "sample_response 2" "Some 7" ?u] c s l by simp
  with got t(3) show ?thesis by simp
qed

end
