(* ===== verification/Files.thy ===== *)
theory Files
  imports Vfs Roster
begin

text \<open>
  The file routes of \<^verbatim>\<open>src/internal/server/server.go\<close>: listing, reading, writing, deleting, making
  directories, renaming, moving and modes, over \<open>Vfs\<close> and the roster. A handler runs for the user the
  session check answered; it takes the decoded body, \<open>None\<close> when it does not parse, and answers a
  status and what it sends. \<open>FbPanic\<close> is a handler that dies (\<^verbatim>\<open>net/http\<close> cuts the connection): a stat
  reply without a stat.
\<close>

section \<open>Answers\<close>

record list_row =
  lr_name :: string
  lr_dir :: bool
  lr_size :: int
  lr_mod :: "(int \<times> nat) option"
  lr_mode :: string
  lr_accessible :: "bool option"

record served =
  se_etag :: string
  se_disposition :: string
  se_name :: string
  se_mod :: "int \<times> nat"
  se_file :: fhandle

datatype file_body =
    FbNone | FbError | FbPanic | FbListing string "list_row list" | FbContent served | FbMode string bool bool
  | FbFolders "public_folder list" | FbWhoami string bool

type_synonym file_reply = "nat \<times> file_body"

record 'w file_srv =
  fx_fs :: "'w fs_env"
  fx_anon :: string
  fx_admin :: "'w admin option"

definition write_error :: "nat \<Rightarrow> file_reply" where
  "write_error status = (status, FbError)"

definition no_content :: file_reply where
  "no_content = (204, FbNone)"

definition panicked :: file_reply where
  "panicked = (0, FbPanic)"

text \<open>\<^verbatim>\<open>writeFSError\<close>, with Linux's numbers for the errnos it names.\<close>

definition errno_status :: "uint32 \<Rightarrow> nat" where
  "errno_status c =
     (if c = 2 \<or> c = 20 then 404
      else if c = 13 \<or> c = 1 then 403
      else if c = 17 then 409
      else if c = 21 then 400
      else if c = 39 then 409
      else if c = 18 then 400
      else if c = 28 \<or> c = 122 then 507
      else if c = 36 then 400
      else 500)"

definition write_fs_error :: "fs_error \<Rightarrow> file_reply" where
  "write_fs_error e = (case e of ErrnoErr opn p c \<Rightarrow> write_error (errno_status c) | _ \<Rightarrow> write_error 500)"

definition fs_done :: "fs_error option \<Rightarrow> file_reply" where
  "fs_done r = (case r of Some e \<Rightarrow> write_fs_error e | None \<Rightarrow> no_content)"

definition request_path :: "string \<Rightarrow> string \<Rightarrow> string" where
  "request_path url route = trim_prefix url route"

definition is_anon :: "'w file_srv \<Rightarrow> string \<Rightarrow> bool" where
  "is_anon X user \<longleftrightarrow> fx_anon X \<noteq> [] \<and> user = fx_anon X"

definition handle_whoami :: "'w file_srv \<Rightarrow> string \<Rightarrow> file_reply" where
  "handle_whoami X user = (200, FbWhoami user (is_anon X user))"

section \<open>Names and numbers\<close>

text \<open>\<^verbatim>\<open>strconv.FormatUint(n, 16)\<close>, and \<^verbatim>\<open>urlEscape\<close>, which writes it in capitals behind the percent sign.\<close>

fun format_hex :: "string \<Rightarrow> nat \<Rightarrow> string" where
  "format_hex digits n =
     (if n < 16 then [digits ! n] else format_hex digits (n div 16) @ [digits ! (n mod 16)])"

declare format_hex.simps [simp del]

definition hex_lower :: string where "hex_lower = ''0123456789abcdef''"

definition url_plain :: "char \<Rightarrow> bool" where
  "url_plain c \<longleftrightarrow> lower_alpha c \<or> upper_alpha c \<or> digit c \<or>
     c = CHR ''-'' \<or> c = CHR ''_'' \<or> c = CHR ''.'' \<or> c = CHR ''~''"

definition url_escape :: "string \<Rightarrow> string" where
  "url_escape s =
     concat (map (\<lambda>c. if url_plain c then [c] else CHR ''%'' # format_hex hex_upper (of_char c)) s)"

definition format_hex_int :: "int \<Rightarrow> string" where
  "format_hex_int v = (if v < 0 then CHR ''-'' # format_hex hex_lower (nat (- v)) else format_hex hex_lower (nat v))"

definition etag_of :: "stat \<Rightarrow> string" where
  "etag_of st =
     CHR 0x22 # format_hex hex_lower (unat (st_ino st)) @ ''-'' @ format_hex_int (sint (st_size st)) @ ''-'' @
     format_hex_int (sint (st_mtime_sec st)) @ ''.'' @ format_hex hex_lower (unat (st_mtime_nsec st)) @ [CHR 0x22]"

definition stat_is_dir :: "stat \<Rightarrow> bool" where
  "stat_is_dir st \<longleftrightarrow> st_mode st AND 0xF000 = 0x4000"

definition stat_perm :: "stat \<Rightarrow> string" where
  "stat_perm st = octal4 (unat (st_mode st AND 0xFFF))"

definition stat_time :: "stat \<Rightarrow> int \<times> nat" where
  "stat_time st = (sint (st_mtime_sec st), unat (st_mtime_nsec st))"

section \<open>Listing and reading\<close>

definition list_public_teams :: "'w file_srv \<Rightarrow> 'w \<Rightarrow> file_reply \<times> 'w" where
  "list_public_teams X w =
     (case fx_admin X of
        None \<Rightarrow> ((200, FbListing ''teams'' []), w)
      | Some A \<Rightarrow>
          (case public_folders A w of
             (Inl _, w) \<Rightarrow> ((200, FbListing ''teams'' []), w)
           | (Inr fs, w) \<Rightarrow>
               ((200, FbListing ''teams'' (map (\<lambda>f. \<lparr>lr_name = pf_name f, lr_dir = True, lr_size = 0, lr_mod = None,
                   lr_mode = [], lr_accessible = None\<rparr>) fs)), w)))"

definition list_row_of :: "dir_entry \<Rightarrow> list_row" where
  "list_row_of e =
     (let row = \<lparr>lr_name = de_name e, lr_dir = (de_type e = 4), lr_size = 0, lr_mod = None, lr_mode = [],
                 lr_accessible = None\<rparr>
      in case de_stat e of
           None \<Rightarrow> row
         | Some st \<Rightarrow> row\<lparr>lr_size := sint (st_size st), lr_mod := Some (stat_time st), lr_mode := stat_perm st,
                         lr_dir := stat_is_dir st\<rparr>)"

definition list_rows :: "dir_entry list \<Rightarrow> list_row list" where
  "list_rows ents = map list_row_of (filter (\<lambda>e. \<not> is_temp_name (de_name e)) ents)"

definition mark_access :: "(string \<rightharpoonup> bool) \<Rightarrow> list_row list \<Rightarrow> list_row list" where
  "mark_access access rows =
     map (\<lambda>r. case access (lr_name r) of Some v \<Rightarrow> r\<lparr>lr_accessible := Some v\<rparr> | None \<Rightarrow> r) rows"

text \<open>\<open>None\<close> is a listing that never ends, as in \<open>vfs_read_dir\<close>.\<close>

definition list_dir :: "'w file_srv \<Rightarrow> string \<Rightarrow> string \<Rightarrow> 'w \<Rightarrow> (file_reply \<times> 'w) option" where
  "list_dir X user p w =
     (if is_anon X user \<and> path_clean p = ''teams'' then Some (list_public_teams X w)
      else if is_anon X user \<and> path_clean p = ''homes'' then Some ((200, FbListing p []), w)
      else
        (case vfs_read_dir (fx_fs X) user p True w of
           None \<Rightarrow> None
         | Some (Inl e, w) \<Rightarrow> Some (write_fs_error e, w)
         | Some (Inr ents, w) \<Rightarrow>
             (let out = list_rows ents
              in Some
                (case fx_admin X of
                   Some A \<Rightarrow>
                     if \<not> is_anon X user \<and> path_clean p = ''teams''
                     then (case team_access A user w of
                             (Inr access, w) \<Rightarrow> ((200, FbListing p (mark_access access out)), w)
                           | (Inl _, w) \<Rightarrow> ((200, FbListing p out), w))
                     else ((200, FbListing p out), w)
                 | None \<Rightarrow> ((200, FbListing p out), w)))))"

definition content_of :: "string \<Rightarrow> stat \<Rightarrow> fhandle \<Rightarrow> served" where
  "content_of p st f =
     \<lparr>se_etag = etag_of st, se_disposition = ''attachment; filename*=UTF-8'' @ [CHR 0x27, CHR 0x27] @ url_escape (path_base p),
      se_name = path_base p, se_mod = stat_time st, se_file = f\<rparr>"

definition serve_file :: "'w file_srv \<Rightarrow> string \<Rightarrow> string \<Rightarrow> stat \<Rightarrow> 'w \<Rightarrow> file_reply \<times> 'w" where
  "serve_file X user p st w =
     (case vfs_open (fx_fs X) user p w of
        (Inl e, w) \<Rightarrow> (write_fs_error e, w)
      | (Inr f, w) \<Rightarrow>
          (case fe_close (fx_fs X) f w of (_, w) \<Rightarrow> ((200, FbContent (content_of p st f)), w)))"

definition handle_get :: "'w file_srv \<Rightarrow> string \<Rightarrow> string \<Rightarrow> 'w \<Rightarrow> (file_reply \<times> 'w) option" where
  "handle_get X user p w =
     (if p = [] then Some (write_error 400, w)
      else
        (case vfs_stat (fx_fs X) user p w of
           (Inl e, w) \<Rightarrow> Some (write_fs_error e, w)
         | (Inr None, w) \<Rightarrow> Some (panicked, w)
         | (Inr (Some st), w) \<Rightarrow>
             if stat_is_dir st then list_dir X user p w else Some (serve_file X user p st w)))"

definition handle_public_folders :: "'w file_srv \<Rightarrow> 'w \<Rightarrow> file_reply \<times> 'w" where
  "handle_public_folders X w =
     (case fx_admin X of
        None \<Rightarrow> (write_error 404, w)
      | Some A \<Rightarrow>
          (case public_folders A w of
             (Inl _, w) \<Rightarrow> (write_error 503, w)
           | (Inr fs, w) \<Rightarrow> ((200, FbFolders fs), w)))"

section \<open>Writing, deleting, making directories\<close>

definition widen_other :: "uint32 \<Rightarrow> uint32 \<Rightarrow> bool \<Rightarrow> uint32" where
  "widen_other mode parent_mode dir =
     (let other = parent_mode AND 0x7;
          other = (if \<not> dir then other AND NOT 0x1 else other)
      in mode OR other)"

text \<open>\<open>None\<close> is the panic on a stat reply without a stat.\<close>

definition inherit_other_bits ::
  "'w file_srv \<Rightarrow> string \<Rightarrow> string \<Rightarrow> uint32 \<Rightarrow> bool \<Rightarrow> 'w \<Rightarrow> uint32 option \<times> 'w" where
  "inherit_other_bits X user p mode dir w =
     (case vfs_stat (fx_fs X) user (path_dir p) w of
        (Inl _, w) \<Rightarrow> (Some mode, w)
      | (Inr None, w) \<Rightarrow> (None, w)
      | (Inr (Some st), w) \<Rightarrow> (Some (widen_other mode (st_mode st) dir), w))"

text \<open>The body a PUT stores is what \<open>fe_copy\<close> reads; its cap is part of the reader.\<close>

definition handle_put :: "'w file_srv \<Rightarrow> string \<Rightarrow> string \<Rightarrow> 'w \<Rightarrow> file_reply \<times> 'w" where
  "handle_put X user p w =
     (if p = [] then (write_error 400, w)
      else
        (case create_mode p of
           Inl _ \<Rightarrow> (write_error 400, w)
         | Inr mode \<Rightarrow>
             (case inherit_other_bits X user p mode False w of
                (None, w) \<Rightarrow> (panicked, w)
              | (Some mode, w) \<Rightarrow>
                  (case vfs_write (fx_fs X) user p mode w of (r, w) \<Rightarrow> (fs_done r, w)))))"

definition handle_delete :: "'w file_srv \<Rightarrow> string \<Rightarrow> string \<Rightarrow> 'w \<Rightarrow> file_reply \<times> 'w" where
  "handle_delete X user p w =
     (if p = [] then (write_error 400, w)
      else (case vfs_remove (fx_fs X) user p w of (r, w) \<Rightarrow> (fs_done r, w)))"

definition handle_mkdir :: "'w file_srv \<Rightarrow> string \<Rightarrow> string \<Rightarrow> 'w \<Rightarrow> file_reply \<times> 'w" where
  "handle_mkdir X user p w =
     (if p = [] then (write_error 400, w)
      else
        (case dir_mode p of
           Inl _ \<Rightarrow> (write_error 400, w)
         | Inr mode \<Rightarrow>
             (case inherit_other_bits X user p mode True w of
                (None, w) \<Rightarrow> (panicked, w)
              | (Some mode, w) \<Rightarrow>
                  (case vfs_mkdir (fx_fs X) user p mode w of (r, w) \<Rightarrow> (fs_done r, w)))))"

section \<open>Renaming and moving\<close>

definition valid_rename_name :: "string \<Rightarrow> bool" where
  "valid_rename_name s =
     (if s = [] \<or> s = ''.'' \<or> s = ''..'' \<or> length s > 255 then False
      else if contains_any s [slash, byte 0] then False
      else \<not> is_temp_name s)"

definition handle_rename :: "'w file_srv \<Rightarrow> string \<Rightarrow> string \<Rightarrow> string option \<Rightarrow> 'w \<Rightarrow> file_reply \<times> 'w" where
  "handle_rename X user p body w =
     (if p = [] then (write_error 400, w)
      else
        (case body of
           None \<Rightarrow> (write_error 400, w)
         | Some b \<Rightarrow>
             (let name = trim_space b
              in if \<not> valid_rename_name name then (write_error 400, w)
                 else
                   (let dst = path_join [path_dir p, name]
                    in if dst = p then (no_content, w)
                       else (case vfs_move (fx_fs X) user p dst w of (r, w) \<Rightarrow> (fs_done r, w))))))"

text \<open>\<^verbatim>\<open>strings.Trim(s, "/")\<close>.\<close>

definition trim_slashes :: "string \<Rightarrow> string" where
  "trim_slashes s = rev (dropWhile (\<lambda>c. c = slash) (rev (dropWhile (\<lambda>c. c = slash) s)))"

definition handle_move :: "'w file_srv \<Rightarrow> string \<Rightarrow> string \<Rightarrow> string option \<Rightarrow> 'w \<Rightarrow> file_reply \<times> 'w" where
  "handle_move X user p body w =
     (if p = [] then (write_error 400, w)
      else
        (case body of
           None \<Rightarrow> (write_error 400, w)
         | Some b \<Rightarrow>
             (let dir = trim_slashes (trim_space b)
              in if dir = [] then (write_error 400, w)
                 else
                   (let dst = path_join [dir, path_base p]
                    in if dst = p then (no_content, w)
                       else if dst = p \<or> has_prefix dst (p @ ''/'') then (write_error 400, w)
                       else (case vfs_move (fx_fs X) user p dst w of (r, w) \<Rightarrow> (fs_done r, w))))))"

section \<open>Modes\<close>

definition handle_mode_info :: "'w file_srv \<Rightarrow> string \<Rightarrow> string \<Rightarrow> 'w \<Rightarrow> file_reply \<times> 'w" where
  "handle_mode_info X user p w =
     (if p = [] then (write_error 400, w)
      else
        (case vfs_stat (fx_fs X) user p w of
           (Inl e, w) \<Rightarrow> (write_fs_error e, w)
         | (Inr st, w) \<Rightarrow>
             (case vfs_has_acl (fx_fs X) user p w of
                (acl, w) \<Rightarrow>
                  (let acl = (case acl of Inl _ \<Rightarrow> False | Inr b \<Rightarrow> b)
                   in case st of
                        None \<Rightarrow> (panicked, w)
                      | Some st \<Rightarrow> ((200, FbMode (stat_perm st) (stat_is_dir st) acl), w)))))"

definition in_team :: "string \<Rightarrow> bool" where
  "in_team p = (case domain_root p of Inl _ \<Rightarrow> False | Inr d \<Rightarrow> has_prefix d ''teams/'')"

definition handle_chmod :: "'w file_srv \<Rightarrow> string \<Rightarrow> string \<Rightarrow> string option \<Rightarrow> 'w \<Rightarrow> file_reply \<times> 'w" where
  "handle_chmod X user p body w =
     (if p = [] then (write_error 400, w)
      else
        (case body of
           None \<Rightarrow> (write_error 400, w)
         | Some b \<Rightarrow>
             (case parse_uint (trim_space b) 8 32 of
                None \<Rightarrow> (write_error 400, w)
              | Some mode \<Rightarrow>
                  if mode > 4095 then (write_error 400, w)
                  else
                    (case vfs_stat (fx_fs X) user p w of
                       (Inl e, w) \<Rightarrow> (write_fs_error e, w)
                     | (Inr None, w) \<Rightarrow> (panicked, w)
                     | (Inr (Some st), w) \<Rightarrow>
                         if stat_is_dir st \<and> (word_of_nat mode :: uint32) AND 0x400 = 0 \<and> in_team p
                         then (write_error 409, w)
                         else
                           (case vfs_chmod (fx_fs X) user p (word_of_nat mode) w of (r, w) \<Rightarrow> (fs_done r, w))))))"

section \<open>Acting for one user\<close>

text \<open>
  What a handler for \<open>user\<close> may touch: a property \<open>P\<close> of the world that the requests made as that user
  keep, and that everything that is not a request keeps, is kept by every operation.
\<close>

locale acting =
  fixes E :: "'w fs_env" and user :: string and P :: "'w \<Rightarrow> bool"
  assumes do_keeps: "P w \<Longrightarrow> P (snd (fe_do E user req w))"
    and reroute_keeps: "fe_reroute E = Some f \<Longrightarrow> P w \<Longrightarrow> P (snd (f user p w))"
    and now_keeps: "P w \<Longrightarrow> P (snd (fe_now E w))"
    and random_keeps: "P w \<Longrightarrow> P (snd (fe_random E w))"
    and copy_keeps: "P w \<Longrightarrow> P (snd (fe_copy E h w))"
    and sync_keeps: "P w \<Longrightarrow> P (snd (fe_sync E h w))"
    and close_keeps: "P w \<Longrightarrow> P (snd (fe_close E h w))"
    and record_keeps: "fe_record E = Some g \<Longrightarrow> P w \<Longrightarrow> P (g user action p q w)"
begin

lemma fs_do_keeps: "P w \<Longrightarrow> P (snd (fs_do E user req w))"
  by (auto simp: fs_do_def split: option.splits prod.splits)
    (metis do_keeps reroute_keeps snd_conv)+

lemma fs_doD: "fs_do E user req w = (x, w') \<Longrightarrow> P w \<Longrightarrow> P w'"
  using fs_do_keeps[of w req] by simp

lemma fs_note_keeps: "P w \<Longrightarrow> P (fs_note E user action p q w)"
  by (simp add: fs_note_def record_keeps split: option.splits)

lemma nowD: "fe_now E w = (x, w') \<Longrightarrow> P w \<Longrightarrow> P w'" using now_keeps[of w] by simp
lemma randomD: "fe_random E w = (x, w') \<Longrightarrow> P w \<Longrightarrow> P w'" using random_keeps[of w] by simp
lemma copyD: "fe_copy E h w = (x, w') \<Longrightarrow> P w \<Longrightarrow> P w'" using copy_keeps[of w h] by simp
lemma syncD: "fe_sync E h w = (x, w') \<Longrightarrow> P w \<Longrightarrow> P w'" using sync_keeps[of w h] by simp
lemma closeD: "fe_close E h w = (x, w') \<Longrightarrow> P w \<Longrightarrow> P w'" using close_keeps[of w h] by simp

lemmas keeps = fs_doD nowD randomD copyD syncD closeD

lemma stat_keeps: "vfs_stat E user p w = (x, w') \<Longrightarrow> P w \<Longrightarrow> P w'"
  by (auto simp: vfs_stat_def split: prod.splits sum.splits if_splits dest: fs_doD)

lemma open_keeps: "vfs_open E user p w = (x, w') \<Longrightarrow> P w \<Longrightarrow> P w'"
  by (auto simp: vfs_open_def split: prod.splits sum.splits if_splits dest: fs_doD)

lemma has_acl_keeps: "vfs_has_acl E user p w = (x, w') \<Longrightarrow> P w \<Longrightarrow> P w'"
  by (auto simp: vfs_has_acl_def split: prod.splits sum.splits if_splits dest: fs_doD)

lemma read_dir_from_keeps:
  assumes "read_dir_from E user p fl after out w = Some y" "P w"
  shows "P (snd y)"
proof -
  have "E = E \<and> user = user \<and> P w \<longrightarrow> P (snd y)"
  proof (rule read_dir_from.raw_induct[where P = "\<lambda>E' u p fl after out w y. E' = E \<and> u = user \<and> P w \<longrightarrow> P (snd y)"])
    show "read_dir_from E user p fl after out w = Some y" by (rule assms(1))
  next
    fix rec E' u p fl after out w y
    assume rec: "\<And>E' u p fl after out w y. rec E' u p fl after out w = Some y \<Longrightarrow> E' = E \<and> u = user \<and> P w \<longrightarrow> P (snd y)"
      and y: "(case fs_do E' u (mk_request OpReadDir p\<lparr>rq_flags := fl, rq_name := after\<rparr>) w of
          (Inl e, w) \<Rightarrow> Some (Inl (EnvError e), w)
        | (Inr (resp, xa), w) \<Rightarrow>
            if \<not> resp_ok resp then Some (Inl (ErrnoErr ''readdir'' p (rs_errno resp)), w)
            else if rs_has resp AND HasMore = 0 then Some (Inr (out @ rs_entries resp), w)
            else if length (rs_entries resp) = 0 then Some (Inl (NoProgress p), w)
            else rec E' u p fl (de_name (last (out @ rs_entries resp))) (out @ rs_entries resp) w) = Some y"
    show "E' = E \<and> u = user \<and> P w \<longrightarrow> P (snd y)"
    proof (intro impI, elim conjE)
      assume e: "E' = E" "u = user" and P: "P w"
      obtain r w1 where r: "fs_do E user ((mk_request OpReadDir p)\<lparr>rq_flags := fl, rq_name := after\<rparr>) w = (r, w1)" by fastforce
      with P have "P w1" by (rule fs_doD[rotated])
      with y e r show "P (snd y)" by (auto split: sum.splits if_splits dest!: rec)
    qed
  qed
  with assms(2) show ?thesis by simp
qed

lemma read_dir_keeps: "vfs_read_dir E user p ws w = Some (x, w') \<Longrightarrow> P w \<Longrightarrow> P w'"
  using read_dir_from_keeps[of p _ "[]" "[]" w "(x, w')"] by (auto simp: vfs_read_dir_def)

lemma mkdir_quiet_keeps: "mkdir_quiet E user p mode w = (x, w') \<Longrightarrow> P w \<Longrightarrow> P w'"
  by (auto simp: mkdir_quiet_def split: prod.splits sum.splits dest: fs_doD)

lemma mkdir_keeps: "vfs_mkdir E user p mode w = (x, w') \<Longrightarrow> P w \<Longrightarrow> P w'"
  by (auto simp: vfs_mkdir_def fs_note_keeps split: prod.splits option.splits dest: mkdir_quiet_keeps)

lemma chmod_keeps: "vfs_chmod E user p mode w = (x, w') \<Longrightarrow> P w \<Longrightarrow> P w'"
  by (auto simp: vfs_chmod_def fs_note_keeps split: prod.splits sum.splits option.splits dest: fs_doD)

lemma move_keeps: "vfs_move E user p q w = (x, w') \<Longrightarrow> P w \<Longrightarrow> P w'"
  by (auto simp: vfs_move_def fs_note_keeps split: prod.splits sum.splits option.splits if_splits dest: fs_doD)

lemma vfs_unlink_keeps: "vfs_unlink E user p w = (x, w') \<Longrightarrow> P w \<Longrightarrow> P w'"
  by (auto simp: vfs_unlink_def split: prod.splits sum.splits dest: fs_doD)

lemma random_suffix_keeps: "random_suffix E w = (x, w') \<Longrightarrow> P w \<Longrightarrow> P w'"
  by (auto simp: random_suffix_def split: prod.splits sum.splits dest: randomD)

lemma trash_name_keeps: "trash_name E p w = (x, w') \<Longrightarrow> P w \<Longrightarrow> P w'"
  by (auto simp: trash_name_def split: prod.splits dest: nowD)

lemma ensure_trash_keeps: "ensure_trash E user d w = (x, w') \<Longrightarrow> P w \<Longrightarrow> P w'"
  by (auto simp: ensure_trash_def Let_def split: prod.splits sum.splits option.splits fs_error.splits if_splits
      dest: mkdir_quiet_keeps)

lemma sync_dir_keeps: "sync_dir E user d w = (x, w') \<Longrightarrow> P w \<Longrightarrow> P w'"
  by (auto simp: sync_dir_def split: prod.splits sum.splits if_splits dest!: fs_doD syncD closeD)

lemma link_loop_keeps: "link_to_trash_loop n E user p trash name w = (x, w') \<Longrightarrow> P w \<Longrightarrow> P w'"
proof (induction n arbitrary: name w)
  case 0
  then show ?case
    by (subst (asm) link_to_trash_loop.simps) (auto split: prod.splits sum.splits if_splits dest: fs_doD)
next
  case (Suc n)
  from Suc.prems show ?case
    by (subst (asm) link_to_trash_loop.simps)
      (auto split: prod.splits sum.splits if_splits dest!: fs_doD random_suffix_keeps trash_name_keeps Suc.IH)
qed

lemma move_loop_keeps: "move_to_trash_loop n E user p trash name w = (x, w') \<Longrightarrow> P w \<Longrightarrow> P w'"
proof (induction n arbitrary: name w)
  case 0
  then show ?case
    by (subst (asm) move_to_trash_loop.simps) (auto split: prod.splits sum.splits if_splits dest: fs_doD)
next
  case (Suc n)
  from Suc.prems show ?case
    by (subst (asm) move_to_trash_loop.simps)
      (auto split: prod.splits sum.splits if_splits dest!: fs_doD random_suffix_keeps trash_name_keeps Suc.IH)
qed

lemma link_keeps: "link_to_trash E user p d w = (x, w') \<Longrightarrow> P w \<Longrightarrow> P w'"
  by (auto simp: link_to_trash_def split: prod.splits sum.splits
      dest!: ensure_trash_keeps trash_name_keeps link_loop_keeps)

lemma remove_keeps: "vfs_remove E user p w = (x, w') \<Longrightarrow> P w \<Longrightarrow> P w'"
  by (auto simp: vfs_remove_def move_to_trash_def split: prod.splits sum.splits option.splits if_splits
      dest!: vfs_unlink_keeps ensure_trash_keeps trash_name_keeps move_loop_keeps intro: fs_note_keeps)

lemma write_body_keeps: "write_body E user p d dir tmp h w = (x, w') \<Longrightarrow> P w \<Longrightarrow> P w'"
  by (auto simp: write_body_def split: prod.splits sum.splits option.splits
      dest!: copyD syncD closeD link_keeps fs_doD sync_dir_keeps)

lemma write_keeps: "vfs_write E user p mode w = (x, w') \<Longrightarrow> P w \<Longrightarrow> P w'"
  by (auto simp: vfs_write_def Let_def write_cleanup_def split: prod.splits sum.splits option.splits if_splits
      dest!: random_suffix_keeps fs_doD write_body_keeps closeD vfs_unlink_keeps intro: fs_note_keeps)

end

text \<open>The handlers, whose roster is read by a command that is not a request either.\<close>

locale acting_handlers = acting "fx_fs X" user P
  for X :: "'w file_srv" and user :: string and P :: "'w \<Rightarrow> bool" +
  assumes run_keeps: "fx_admin X = Some A \<Longrightarrow> P w \<Longrightarrow> P (snd (ad_run A stdin bin args w))"
begin

lemma runD: "fx_admin X = Some A \<Longrightarrow> ad_run A stdin bin args w = (x, w') \<Longrightarrow> P w \<Longrightarrow> P w'"
  using run_keeps[of A w stdin bin args] by simp

lemma declaration_keeps: "fx_admin X = Some A \<Longrightarrow> read_declaration A w = (x, w') \<Longrightarrow> P w \<Longrightarrow> P w'"
  by (auto simp: read_declaration_def Let_def split: prod.splits sum.splits if_splits dest!: runD)

lemma folders_keeps: "fx_admin X = Some A \<Longrightarrow> public_folders A w = (x, w') \<Longrightarrow> P w \<Longrightarrow> P w'"
  by (auto simp: public_folders_def split: prod.splits sum.splits dest!: declaration_keeps)

lemma access_keeps: "fx_admin X = Some A \<Longrightarrow> team_access A user w = (x, w') \<Longrightarrow> P w \<Longrightarrow> P w'"
  by (auto simp: team_access_def split: prod.splits sum.splits dest!: declaration_keeps)

lemma public_teams_keeps: "list_public_teams X w = (x, w') \<Longrightarrow> P w \<Longrightarrow> P w'"
  by (cases "fx_admin X") (auto simp: list_public_teams_def split: prod.splits sum.splits dest: folders_keeps)

lemma list_dir_keeps: "list_dir X user p w = Some (r, w') \<Longrightarrow> P w \<Longrightarrow> P w'"
  by (cases "fx_admin X")
    (auto simp: list_dir_def Let_def split: prod.splits sum.splits option.splits if_splits
      dest: public_teams_keeps access_keeps dest!: read_dir_keeps)

lemma get_keeps: "handle_get X user p w = Some (r, w') \<Longrightarrow> P w \<Longrightarrow> P w'"
  by (auto simp: handle_get_def serve_file_def split: prod.splits sum.splits option.splits if_splits
      dest!: stat_keeps open_keeps closeD list_dir_keeps)

lemma inherit_keeps: "inherit_other_bits X user p mode d w = (m, w') \<Longrightarrow> P w \<Longrightarrow> P w'"
  by (auto simp: inherit_other_bits_def split: prod.splits sum.splits option.splits dest!: stat_keeps)

lemma put_keeps: "handle_put X user p w = (r, w') \<Longrightarrow> P w \<Longrightarrow> P w'"
  by (auto simp: handle_put_def split: prod.splits sum.splits option.splits if_splits
      dest!: inherit_keeps write_keeps)

lemma delete_keeps: "handle_delete X user p w = (r, w') \<Longrightarrow> P w \<Longrightarrow> P w'"
  by (auto simp: handle_delete_def split: prod.splits if_splits dest!: remove_keeps)

lemma mkdir_handler_keeps: "handle_mkdir X user p w = (r, w') \<Longrightarrow> P w \<Longrightarrow> P w'"
  by (auto simp: handle_mkdir_def split: prod.splits sum.splits option.splits if_splits
      dest!: inherit_keeps mkdir_keeps)

lemma rename_keeps: "handle_rename X user p body w = (r, w') \<Longrightarrow> P w \<Longrightarrow> P w'"
  by (auto simp: handle_rename_def Let_def split: prod.splits option.splits if_splits dest!: move_keeps)

lemma move_handler_keeps: "handle_move X user p body w = (r, w') \<Longrightarrow> P w \<Longrightarrow> P w'"
  by (auto simp: handle_move_def Let_def split: prod.splits option.splits if_splits dest!: move_keeps)

lemma mode_info_keeps: "handle_mode_info X user p w = (r, w') \<Longrightarrow> P w \<Longrightarrow> P w'"
  by (auto simp: handle_mode_info_def Let_def split: prod.splits sum.splits option.splits if_splits
      dest!: stat_keeps has_acl_keeps)

lemma chmod_handler_keeps: "handle_chmod X user p body w = (r, w') \<Longrightarrow> P w \<Longrightarrow> P w'"
  by (auto simp: handle_chmod_def split: prod.splits sum.splits option.splits if_splits
      dest!: stat_keeps chmod_keeps)

end

text \<open>A server whose requests are recorded with the user they were made as.\<close>

definition unlogged :: "('w \<Rightarrow> 'x \<times> 'w) \<Rightarrow> 'w \<times> 'l \<Rightarrow> 'x \<times> ('w \<times> 'l)" where
  "unlogged f wl = (case f (fst wl) of (x, w) \<Rightarrow> (x, (w, snd wl)))"

lemma snd_unlogged [simp]: "snd (snd (unlogged f wl)) = snd wl"
  by (simp add: unlogged_def split: prod.splits)

definition logged_fs :: "'w fs_env \<Rightarrow> ('w \<times> (string \<times> request) list) fs_env" where
  "logged_fs E = \<lparr>
     fe_do = (\<lambda>u req wl. case fe_do E u req (fst wl) of (x, w) \<Rightarrow> (x, (w, snd wl @ [(u, req)]))),
     fe_reroute = map_option (\<lambda>f u p. unlogged (f u p)) (fe_reroute E),
     fe_now = unlogged (fe_now E), fe_random = unlogged (fe_random E),
     fe_copy = (\<lambda>h. unlogged (fe_copy E h)), fe_sync = (\<lambda>h. unlogged (fe_sync E h)),
     fe_close = (\<lambda>h. unlogged (fe_close E h)),
     fe_record = map_option (\<lambda>g u a p q wl. (g u a p q (fst wl), snd wl)) (fe_record E)\<rparr>"

definition logged_admin :: "'w admin \<Rightarrow> ('w \<times> 'l) admin" where
  "logged_admin A = \<lparr>ad_group = ad_group A, ad_root = ad_root A, ad_resolve = (\<lambda>u. unlogged (ad_resolve A u)),
     ad_run = (\<lambda>i b a. unlogged (ad_run A i b a)), ad_usersync = ad_usersync A, ad_pdbedit = ad_pdbedit A,
     ad_smbpasswd = ad_smbpasswd A, ad_decode = ad_decode A,
     ad_members = map_option (\<lambda>c. \<lparr>cl_add = (\<lambda>a g r. unlogged (cl_add c a g r)),
        cl_erase = (\<lambda>a g. unlogged (cl_erase c a g)), cl_batch = (\<lambda>cs. unlogged (cl_batch c cs))\<rparr>) (ad_members A)\<rparr>"

definition logged_srv :: "'w file_srv \<Rightarrow> ('w \<times> (string \<times> request) list) file_srv" where
  "logged_srv X = \<lparr>fx_fs = logged_fs (fx_fs X), fx_anon = fx_anon X, fx_admin = map_option logged_admin (fx_admin X)\<rparr>"

definition all_as :: "string \<Rightarrow> 'w \<times> (string \<times> request) list \<Rightarrow> bool" where
  "all_as user wl \<longleftrightarrow> (\<forall>x \<in> set (snd wl). fst x = user)"

interpretation logged_fs: acting "logged_fs E" user "all_as user" for E user
  by unfold_locales (auto simp: logged_fs_def all_as_def split: prod.splits option.splits)

interpretation logged_srv: acting_handlers "logged_srv X" user "all_as user" for X user
  by unfold_locales (auto simp: logged_srv_def logged_fs_def logged_admin_def all_as_def split: prod.splits option.splits)

text \<open>
  C4: A request for a file is carried out as the user the session check answered, and as nobody else:
  whatever the path, the body and the answers of the helper, the roster and the other surroundings,
  every request a file handler makes of the file layer's helper carries that user.
\<close>

theorem handlers_act_as_user:
  "(case handle_get (logged_srv X) user p (w, []) of None \<Rightarrow> True | Some (r, wl) \<Rightarrow> all_as user wl) \<and>
   all_as user (snd (handle_put (logged_srv X) user p (w, []))) \<and>
   all_as user (snd (handle_delete (logged_srv X) user p (w, []))) \<and>
   all_as user (snd (handle_mkdir (logged_srv X) user p (w, []))) \<and>
   all_as user (snd (handle_rename (logged_srv X) user p body (w, []))) \<and>
   all_as user (snd (handle_move (logged_srv X) user p body (w, []))) \<and>
   all_as user (snd (handle_mode_info (logged_srv X) user p (w, []))) \<and>
   all_as user (snd (handle_chmod (logged_srv X) user p body (w, [])))"
proof -
  have start: "all_as user (w, [])" by (simp add: all_as_def)
  note k = logged_srv.get_keeps logged_srv.put_keeps logged_srv.delete_keeps logged_srv.mkdir_handler_keeps
    logged_srv.rename_keeps logged_srv.move_handler_keeps logged_srv.mode_info_keeps logged_srv.chmod_handler_keeps
  show ?thesis
    using start by (auto intro: k[OF _ start] prod.collapse[symmetric] split: option.splits)
qed

section \<open>What a change may reach\<close>

lemma clean_comps_snoc:
  assumes "plain_name b"
  shows "clean_comps r st (cs @ [b]) = clean_comps r st cs @ [b]"
  using assms
proof (induction r st cs rule: clean_comps.induct)
  case (1 r st)
  then show ?case by (auto simp: plain_name_def)
next
  case (2 r st c cs)
  then show ?case by (auto split: list.splits)
qed

lemma split_on_snoc:
  assumes "c \<notin> set b"
  shows "split_on c (a @ c # b) = split_on c a @ [b]"
  using split_on_join[of c a b] split_on_absent[OF assms] by simp

lemma path_base_snoc: "plain_name b \<Longrightarrow> path_base (a @ slash # b) = b"
proof -
  assume p: "plain_name b"
  then have b: "b \<noteq> []" "slash \<notin> set b" by (auto simp: plain_name_def)
  then obtain c r where c: "rev b = c # r" "c \<noteq> slash" by (cases "rev b") auto
  have "dropWhile (\<lambda>c. c = slash) (rev (a @ slash # b)) = rev (a @ slash # b)" using c by simp
  with b show ?thesis by (simp add: path_base_def Let_def)
qed

lemma path_base_name: "plain_name b \<Longrightarrow> path_base b = b"
  using path_base_rel_path[of b "[]"] by (simp add: rel_path_def)

text \<open>Joining a directory and a plain name keeps the name.\<close>

lemma path_base_join:
  assumes "d \<noteq> []" and b: "plain_name b"
  shows "path_base (path_join [d, b]) = b"
proof -
  have ne: "b \<noteq> []" "slash \<notin> set b" using b by (auto simp: plain_name_def)
  let ?r = "has_prefix (d @ slash # b) ''/''"
  let ?cs = "clean_comps ?r [] (split_on slash d)"
  have "path_join [d, b] = path_clean (d @ slash # b)" using assms ne by (simp add: path_join_def)
  also have "\<dots> = (if ?r then ''/'' else '''') @ join_with ''/'' (?cs @ [b])"
  proof -
    have "join_with ''/'' (?cs @ [b]) \<noteq> []" using ne by (cases "?cs = []") (simp_all add: join_with_append)
    then show ?thesis using ne by (simp add: path_clean_def Let_def split_on_snoc clean_comps_snoc[OF b])
  qed
  also have "path_base \<dots> = b"
  proof (cases "?cs = []")
    case True
    then show ?thesis using path_base_snoc[OF b, of "[]"] path_base_name[OF b] by simp
  next
    case False
    then have "(if ?r then ''/'' else '''') @ join_with ''/'' (?cs @ [b]) =
        ((if ?r then ''/'' else '''') @ join_with ''/'' ?cs) @ slash # b"
      by (simp add: join_with_append)
    then show ?thesis by (simp only: path_base_snoc[OF b])
  qed
  finally show ?thesis .
qed

lemma valid_rename_plain: "valid_rename_name s \<Longrightarrow> plain_name s \<and> \<not> is_temp_name s"
  by (auto simp: valid_rename_name_def plain_name_def contains_any_iff split: if_splits)

text \<open>A move that reaches the helper stays in one permission domain.\<close>

lemma move_same_domain:
  assumes "vfs_move E user p q w = (r, w')" "w' \<noteq> w \<or> r = None"
  shows "\<exists>d. domain_root p = Inr d \<and> domain_root q = Inr d"
  using assms by (auto simp: vfs_move_def split: sum.splits if_splits)

lemma rename_stays:
  assumes cs: "cs \<noteq> []" "list_all plain_name cs" and b: "plain_name b" and p: "p = rel_path (cs @ [b])"
  shows "case handle_rename X user p body w of (r, w') \<Rightarrow>
      w' = w \<and> (r = write_error 400 \<or> r = no_content) \<or>
      (\<exists>name e. plain_name name \<and> \<not> is_temp_name name \<and> name \<noteq> b \<and> r = fs_done e \<and>
        vfs_move (fx_fs X) user p (rel_path (cs @ [name])) w = (e, w'))"
proof -
  have ne: "p \<noteq> []" using rel_path_not_Nil[of "cs @ [b]"] cs b p by simp
  have dir: "path_dir p = rel_path cs" using p cs b by simp
  show ?thesis
  proof (cases body)
    case None
    with ne show ?thesis by (simp add: handle_rename_def)
  next
    case (Some s)
    let ?name = "trim_space s"
    show ?thesis
    proof (cases "valid_rename_name ?name")
      case False
      with ne Some show ?thesis by (simp add: handle_rename_def)
    next
      case True
      with valid_rename_plain have name: "plain_name ?name" "\<not> is_temp_name ?name" by blast+
      have dst: "path_join [path_dir p, ?name] = rel_path (cs @ [?name])" unfolding dir using cs name(1) by simp
      show ?thesis
      proof (cases "rel_path (cs @ [?name]) = p")
        case same: True
        with ne Some True dst show ?thesis by (simp add: handle_rename_def)
      next
        case diff: False
        with p have nb: "?name \<noteq> b" by auto
        obtain e v where e: "vfs_move (fx_fs X) user p (rel_path (cs @ [?name])) w = (e, v)" by fastforce
        with ne Some True dst diff have "handle_rename X user p body w = (fs_done e, v)"
          by (simp add: handle_rename_def)
        with name nb e show ?thesis by auto
      qed
    qed
  qed
qed

lemma move_keeps_name:
  assumes cs: "cs \<noteq> []" "list_all plain_name cs" and b: "plain_name b" and p: "p = rel_path (cs @ [b])"
  shows "case handle_move X user p body w of (r, w') \<Rightarrow>
      w' = w \<and> (r = write_error 400 \<or> r = no_content) \<or>
      (\<exists>dst e. path_base dst = b \<and> dst \<noteq> p \<and> \<not> has_prefix dst (p @ ''/'') \<and> r = fs_done e \<and>
        vfs_move (fx_fs X) user p dst w = (e, w') \<and> (w' \<noteq> w \<longrightarrow> domain_root dst = domain_root p))"
proof -
  have ne: "p \<noteq> []" using rel_path_not_Nil[of "cs @ [b]"] cs b p by simp
  show ?thesis
  proof (cases body)
    case None
    with ne show ?thesis by (simp add: handle_move_def)
  next
    case (Some s)
    let ?d = "trim_slashes (trim_space s)"
    let ?dst = "path_join [?d, path_base p]"
    show ?thesis
    proof (cases "?d = [] \<or> ?dst = p \<or> has_prefix ?dst (p @ ''/'')")
      case True
      with ne Some have "handle_move X user p body w = (write_error 400, w) \<or> handle_move X user p body w = (no_content, w)"
        by (auto simp: handle_move_def Let_def)
      then show ?thesis by auto
    next
      case False
      have base: "path_base ?dst = b" using False b p by (simp add: path_base_join)
      obtain e v where e: "vfs_move (fx_fs X) user p ?dst w = (e, v)" by fastforce
      with ne Some False have h: "handle_move X user p body w = (fs_done e, v)"
        by (simp add: handle_move_def Let_def)
      have "domain_root ?dst = domain_root p" if "v \<noteq> w"
        using move_same_domain[OF e] that by auto
      with h base False e show ?thesis by auto
    qed
  qed
qed

text \<open>
  C29: Renaming and moving, for a clean path below a top directory. A rename that is not refused and is
  not to the same name is one move to a name in the same directory, a plain component that does not
  hide the file. A move keeps the name, and if it touches anything the destination is in the same home
  or team and not inside what is moved.
\<close>

theorem rename_and_move:
  assumes cs: "cs \<noteq> []" "list_all plain_name cs" and b: "plain_name b" and p: "p = rel_path (cs @ [b])"
  shows "(case handle_rename X user p body w of (r, w') \<Rightarrow>
      w' = w \<and> (r = write_error 400 \<or> r = no_content) \<or>
      (\<exists>name e. plain_name name \<and> \<not> is_temp_name name \<and> name \<noteq> b \<and> r = fs_done e \<and>
        vfs_move (fx_fs X) user p (rel_path (cs @ [name])) w = (e, w'))) \<and>
    (case handle_move X user p body w of (r, w') \<Rightarrow>
      w' = w \<and> (r = write_error 400 \<or> r = no_content) \<or>
      (\<exists>dst e. path_base dst = b \<and> dst \<noteq> p \<and> \<not> has_prefix dst (p @ ''/'') \<and> r = fs_done e \<and>
        vfs_move (fx_fs X) user p dst w = (e, w') \<and> (w' \<noteq> w \<longrightarrow> domain_root dst = domain_root p)))"
  using rename_stays[OF assms] move_keeps_name[OF assms] by (rule conjI)

text \<open>A server whose helper answers yes to everything and records what it was asked.\<close>

definition yes_srv :: "request list file_srv" where
  "yes_srv = \<lparr>fx_fs = \<lparr>fe_do = (\<lambda>u req w. (Inr (\<lparr>rs_id = 0, rs_has = HasStat, rs_errno = 0,
        rs_stat = Some \<lparr>st_mode = 0x45F8, st_uid = 1, st_gid = 1, st_size = 0, st_mtime_sec = 0, st_mtime_nsec = 0,
          st_ino = 1, st_nlink = 1\<rparr>, rs_entries = [], rs_value = []\<rparr>, 0), w @ [req])),
     fe_reroute = None, fe_now = (\<lambda>w. (0, w)), fe_random = (\<lambda>w. (Inr [], w)),
     fe_copy = (\<lambda>h w. (None, w)), fe_sync = (\<lambda>h w. (None, w)), fe_close = (\<lambda>h w. (None, w)), fe_record = None\<rparr>,
     fx_anon = [], fx_admin = None\<rparr>"

lemma yes_rename: "handle_rename yes_srv ''bo'' ''teams/a/x'' (Some ''y'') [] =
    (no_content, [(mk_request OpRename ''teams/a/x'')\<lparr>rq_path2 := ''teams/a/y'', rq_flags := RENAME_NOREPLACE\<rparr>])"
proof -
  have t: "trim_space ''y'' = ''y''"
    by (simp add: trim_space_def drop_spaces.simps space_len_def space_runes_def byte_def char_of_eq_iff)
  have "valid_rename_name ''y''" "path_join [path_dir ''teams/a/x'', ''y''] = ''teams/a/y''" by code_simp+
  moreover have "vfs_move (fx_fs yes_srv) ''bo'' ''teams/a/x'' ''teams/a/y'' [] =
    (None, [(mk_request OpRename ''teams/a/x'')\<lparr>rq_path2 := ''teams/a/y'', rq_flags := RENAME_NOREPLACE\<rparr>])"
  proof -
    have "domain_root ''teams/a/x'' = Inr ''teams/a''" "domain_root ''teams/a/y'' = Inr ''teams/a''" by code_simp+
    then show ?thesis by (simp add: vfs_move_def fs_do_def yes_srv_def fs_errno_of_def fs_note_def)
  qed
  ultimately show ?thesis by (simp add: handle_rename_def t fs_done_def)
qed

lemma rename_and_move_witness:
  "\<exists>name e. plain_name name \<and> name \<noteq> ''x'' \<and> e = None \<and>
     vfs_move (fx_fs yes_srv) ''bo'' ''teams/a/x'' (rel_path [''teams'', ''a'', name]) [] =
       (e, [(mk_request OpRename ''teams/a/x'')\<lparr>rq_path2 := ''teams/a/y'', rq_flags := RENAME_NOREPLACE\<rparr>])"
proof -
  have "list_all plain_name [''teams'', ''a'']" "plain_name ''x''" by (simp_all add: plain_name_def)
  from rename_and_move[OF _ this refl, where X = yes_srv and user = "''bo''" and body = "Some ''y''" and w = "[]"]
  have "case handle_rename yes_srv ''bo'' ''teams/a/x'' (Some ''y'') [] of (r, w') \<Rightarrow>
      w' = [] \<and> (r = write_error 400 \<or> r = no_content) \<or>
      (\<exists>name e. plain_name name \<and> \<not> is_temp_name name \<and> name \<noteq> ''x'' \<and> r = fs_done e \<and>
        vfs_move (fx_fs yes_srv) ''bo'' ''teams/a/x'' (rel_path ([''teams'', ''a''] @ [name])) [] = (e, w'))"
    by (simp add: rel_path_def)
  then obtain name e where n: "plain_name name" "name \<noteq> ''x''" "no_content = fs_done e"
      "vfs_move (fx_fs yes_srv) ''bo'' ''teams/a/x'' (rel_path [''teams'', ''a'', name]) [] =
       (e, [(mk_request OpRename ''teams/a/x'')\<lparr>rq_path2 := ''teams/a/y'', rq_flags := RENAME_NOREPLACE\<rparr>])"
    unfolding yes_rename by auto
  moreover have "e = None"
    using n(3) by (auto simp: fs_done_def no_content_def write_fs_error_def write_error_def split: option.splits fs_error.splits)
  ultimately show ?thesis by blast
qed

unbundle bit_operations_syntax

lemma widen_other_eq: "widen_other mode pm dir = mode OR (pm AND (if dir then 7 else 6))"
proof -
  have "(pm AND 7) AND NOT 1 = pm AND (7 AND NOT (1 :: uint32))" by (simp only: and.assoc)
  then show ?thesis by (simp add: widen_other_def)
qed

lemma create_mode_team: "create_mode p = Inr m \<Longrightarrow> m = (if in_team p then 0x1B0 else 0x180)"
  by (auto simp: create_mode_def in_team_def split: sum.splits if_splits)

lemma dir_mode_team: "dir_mode p = Inr m \<Longrightarrow> m = (if in_team p then 0x5F8 else 0x1C0)"
  by (auto simp: dir_mode_def in_team_def split: sum.splits if_splits)

text \<open>The mode handed on: the base, or the base with what the parent grants to others.\<close>

definition widened :: "'w file_srv \<Rightarrow> string \<Rightarrow> string \<Rightarrow> 'w \<Rightarrow> uint32 \<Rightarrow> uint32 \<Rightarrow> uint32 \<Rightarrow> bool" where
  "widened X user p w base msk m \<longleftrightarrow> m = base \<or>
     (\<exists>st w1. vfs_stat (fx_fs X) user (path_dir p) w = (Inr (Some st), w1) \<and> m = base OR (st_mode st AND msk))"

lemma inherit_widened:
  "inherit_other_bits X user p base dir w = (Some m, w') \<Longrightarrow> widened X user p w base (if dir then 7 else 6) m"
  by (auto simp: inherit_other_bits_def widened_def widen_other_eq split: prod.splits sum.splits option.splits)

lemma put_mode:
  "case handle_put X user p w of (r, w') \<Rightarrow>
     r = write_error 400 \<and> w' = w \<or> r = panicked \<or>
     (\<exists>m w1 e. widened X user p w (if in_team p then 0x1B0 else 0x180) 6 m \<and>
        vfs_write (fx_fs X) user p m w1 = (e, w') \<and> r = fs_done e)"
proof (cases "p = [] \<or> (\<exists>e. create_mode p = Inl e)")
  case True
  then show ?thesis by (auto simp: handle_put_def split: sum.splits)
next
  case False
  then obtain base where base: "p \<noteq> []" "create_mode p = Inr base" by (cases "create_mode p") auto
  obtain x w1 where x: "inherit_other_bits X user p base False w = (x, w1)" by fastforce
  show ?thesis
  proof (cases x)
    case None
    with base x show ?thesis by (simp add: handle_put_def)
  next
    case (Some m)
    with inherit_widened x have m: "widened X user p w (if in_team p then 0x1B0 else 0x180) 6 m"
      using create_mode_team[OF base(2)] by fastforce
    obtain e v where e: "vfs_write (fx_fs X) user p m w1 = (e, v)" by fastforce
    with base x Some have h: "handle_put X user p w = (fs_done e, v)" by (simp add: handle_put_def)
    from m e have "\<exists>m w1 e'. widened X user p w (if in_team p then 0x1B0 else 0x180) 6 m \<and>
        vfs_write (fx_fs X) user p m w1 = (e', v) \<and> fs_done e = fs_done e'" by blast
    then show ?thesis unfolding h by (simp del: split_paired_Ex)
  qed
qed

lemma mkdir_mode:
  "case handle_mkdir X user p w of (r, w') \<Rightarrow>
     r = write_error 400 \<and> w' = w \<or> r = panicked \<or>
     (\<exists>m w1 e. widened X user p w (if in_team p then 0x5F8 else 0x1C0) 7 m \<and>
        vfs_mkdir (fx_fs X) user p m w1 = (e, w') \<and> r = fs_done e)"
proof (cases "p = [] \<or> (\<exists>e. dir_mode p = Inl e)")
  case True
  then show ?thesis by (auto simp: handle_mkdir_def split: sum.splits)
next
  case False
  then obtain base where base: "p \<noteq> []" "dir_mode p = Inr base" by (cases "dir_mode p") auto
  obtain x w1 where x: "inherit_other_bits X user p base True w = (x, w1)" by fastforce
  show ?thesis
  proof (cases x)
    case None
    with base x show ?thesis by (simp add: handle_mkdir_def)
  next
    case (Some m)
    with inherit_widened x have m: "widened X user p w (if in_team p then 0x5F8 else 0x1C0) 7 m"
      using dir_mode_team[OF base(2)] by fastforce
    obtain e v where e: "vfs_mkdir (fx_fs X) user p m w1 = (e, v)" by fastforce
    with base x Some have h: "handle_mkdir X user p w = (fs_done e, v)" by (simp add: handle_mkdir_def)
    from m e have "\<exists>m w1 e'. widened X user p w (if in_team p then 0x5F8 else 0x1C0) 7 m \<and>
        vfs_mkdir (fx_fs X) user p m w1 = (e', v) \<and> fs_done e = fs_done e'" by blast
    then show ?thesis unfolding h by (simp del: split_paired_Ex)
  qed
qed

lemma chmod_mode:
  "case handle_chmod X user p body w of (r, w') \<Rightarrow>
     r = write_error 400 \<and> w' = w \<or>
     (case vfs_stat (fx_fs X) user p w of
        (Inr (Some st), w1) \<Rightarrow>
          r = write_error 409 \<and> w' = w1 \<or>
          (\<exists>mode e. unat mode < 2 ^ 12 \<and> \<not> (stat_is_dir st \<and> in_team p \<and> mode AND 0x400 = 0) \<and>
            vfs_chmod (fx_fs X) user p mode w1 = (e, w') \<and> r = fs_done e)
      | (_, w1) \<Rightarrow> w' = w1)"
proof (cases "p = [] \<or> body = None \<or> (\<exists>b. body = Some b \<and> (parse_uint (trim_space b) 8 32 = None \<or>
    (\<exists>n. parse_uint (trim_space b) 8 32 = Some n \<and> n > 4095)))")
  case True
  then show ?thesis by (auto simp: handle_chmod_def)
next
  case False
  then obtain b n where b: "p \<noteq> []" "body = Some b" "parse_uint (trim_space b) 8 32 = Some n" "n \<le> 4095"
    by (auto simp: not_less)
  have small: "unat (word_of_nat n :: uint32) < 2 ^ 12"
  proof -
    have "n < 2 ^ LENGTH(32)" using b(4) by simp
    then have "take_bit LENGTH(32) n = n" by (rule take_bit_nat_eq_self)
    then have "unat (word_of_nat n :: uint32) = n" by (simp only: unsigned_of_nat of_nat_id)
    with b(4) show ?thesis by simp
  qed
  obtain x w1 where x: "vfs_stat (fx_fs X) user p w = (x, w1)" by fastforce
  show ?thesis
  proof (cases x)
    case (Inl e)
    with x b show ?thesis by (simp add: handle_chmod_def)
  next
    case (Inr st)
    show ?thesis
    proof (cases st)
      case None
      with x b Inr show ?thesis by (simp add: handle_chmod_def)
    next
      case (Some st)
      let ?m = "word_of_nat n :: uint32"
      obtain e v where e: "vfs_chmod (fx_fs X) user p ?m w1 = (e, v)" by fastforce
      show ?thesis
      proof (cases "stat_is_dir st \<and> ?m AND 0x400 = 0 \<and> in_team p")
        case True
        with x b Inr Some show ?thesis by (simp add: handle_chmod_def)
      next
        case False
        with x b Inr Some e have "handle_chmod X user p body w = (fs_done e, v)"
          by (auto simp: handle_chmod_def)
        with x Inr Some e small False show ?thesis by auto
      qed
    qed
  qed
qed

text \<open>
  The modes the handlers ask for. A new file is 0660 in a team and 0600 in a home, a new directory
  2770 and 0700, and others get at most what others have on the directory it is made in, never the
  right to execute a file. A chmod asks for twelve bits at most, and for what the stat calls a
  directory of a team only with the setgid bit; without it nothing is changed.
\<close>

theorem modes_bounded:
  "(case handle_put X user p w of (r, w') \<Rightarrow>
     r = write_error 400 \<and> w' = w \<or> r = panicked \<or>
     (\<exists>m w1 e. widened X user p w (if in_team p then 0x1B0 else 0x180) 6 m \<and>
        vfs_write (fx_fs X) user p m w1 = (e, w') \<and> r = fs_done e)) \<and>
   (case handle_mkdir X user p w of (r, w') \<Rightarrow>
     r = write_error 400 \<and> w' = w \<or> r = panicked \<or>
     (\<exists>m w1 e. widened X user p w (if in_team p then 0x5F8 else 0x1C0) 7 m \<and>
        vfs_mkdir (fx_fs X) user p m w1 = (e, w') \<and> r = fs_done e)) \<and>
   (case handle_chmod X user p body w of (r, w') \<Rightarrow>
     r = write_error 400 \<and> w' = w \<or>
     (case vfs_stat (fx_fs X) user p w of
        (Inr (Some st), w1) \<Rightarrow>
          r = write_error 409 \<and> w' = w1 \<or>
          (\<exists>mode e. unat mode < 2 ^ 12 \<and> \<not> (stat_is_dir st \<and> in_team p \<and> mode AND 0x400 = 0) \<and>
            vfs_chmod (fx_fs X) user p mode w1 = (e, w') \<and> r = fs_done e)
      | (_, w1) \<Rightarrow> w' = w1))"
  using put_mode mkdir_mode chmod_mode by (intro conjI)

text \<open>
  The stat does not follow a symbolic link and the chmod does, so through a link in a team the setgid
  bit of the directory it points to can be cleared.
\<close>

definition link_srv :: "request list file_srv" where
  "link_srv = yes_srv\<lparr>fx_fs := (fx_fs yes_srv)\<lparr>fe_do := (\<lambda>u req w. (Inr (\<lparr>rs_id = 0, rs_has = HasStat, rs_errno = 0,
        rs_stat = Some \<lparr>st_mode = 0xA1FF, st_uid = 1, st_gid = 1, st_size = 0, st_mtime_sec = 0, st_mtime_nsec = 0,
          st_ino = 1, st_nlink = 1\<rparr>, rs_entries = [], rs_value = []\<rparr>, 0), w @ [req]))\<rparr>\<rparr>"

lemma chmod_through_link:
  "handle_chmod link_srv ''bo'' ''teams/a/l'' (Some ''7'') [] =
    (no_content, [(mk_request OpStat ''teams/a/l'')\<lparr>rq_flags := FlagNoFollow\<rparr>,
                  (mk_request OpChmod ''teams/a/l'')\<lparr>rq_mode := 7\<rparr>])"
proof -
  have "trim_space ''7'' = ''7''"
    by (simp add: trim_space_def drop_spaces.simps space_len_def space_runes_def byte_def char_of_eq_iff)
  moreover have "parse_uint ''7'' 8 32 = Some 7" by (simp add: parse_uint_def digit_val_def)
  ultimately show ?thesis
    by (simp add: handle_chmod_def vfs_stat_def vfs_chmod_def fs_do_def link_srv_def yes_srv_def resp_ok_def
        stat_is_dir_def fs_errno_of_def fs_note_def fs_done_def)
qed

text \<open>
  The hexadecimal number of a byte below sixteen has one digit, so two names are written alike.
\<close>

lemma url_escape_ambiguous:
  "url_escape [CHR 0x01, CHR ''2''] = ''%12'' \<and> url_escape [CHR 0x12] = ''%12''"
  by code_simp

end
