(* ===== verification/Links.thy ===== *)
theory Links
  imports Files Share Session
begin

text \<open>
  The routes of share links, \<^verbatim>\<open>src/internal/server/shares.go\<close>, over \<open>Share\<close> and \<open>Vfs\<close>: the owner's, and
  the public one, which needs no session. The store is absent when sharing is off. HMAC-SHA256 and the
  secret of the process are arguments; the password page is a constructor.
\<close>

section \<open>Requests and answers\<close>

text \<open>
  What the handlers read of a request: \<open>lq_cookies\<close> by name, \<open>lq_post\<close> whether it is a POST, and
  \<open>lq_form\<close> the posted password, \<open>None\<close> when the form does not parse.
\<close>

record link_request =
  lq_host :: string
  lq_tls :: bool
  lq_proto :: string
  lq_cookies :: "string \<rightharpoonup> string"
  lq_post :: bool
  lq_form :: "string option"

record share_view =
  sv_token :: string
  sv_url :: string
  sv_path :: string
  sv_name :: string
  sv_created :: time
  sv_expires :: time
  sv_protected :: bool

record unlock_cookie =
  uc_name :: string
  uc_value :: string
  uc_path :: string
  uc_max_age :: int

datatype link_body =
    LbNone | LbError | LbPanic | LbView share_view | LbViews "share_view list" | LbUnlock string bool
  | LbRedirect unlock_cookie | LbContent served

type_synonym link_reply = "nat \<times> link_body"

record 'w link_env =
  le_srv :: "'w file_srv"
  le_disk :: "'w share_disk"
  le_sha :: "uint8 list \<Rightarrow> uint8 list"
  le_hmac :: "string \<Rightarrow> string \<Rightarrow> string"
  le_secret :: string
  le_secure :: bool

definition of_file_reply :: "file_reply \<Rightarrow> link_reply" where
  "of_file_reply r = (fst r, LbError)"

section \<open>The unlock cookie\<close>

definition unlock_cookie_name :: "string \<Rightarrow> string" where
  "unlock_cookie_name token = ''darak_unlock_'' @ token"

definition unlock_value :: "'w link_env \<Rightarrow> string \<Rightarrow> string" where
  "unlock_value L token = b64_encode (le_hmac L (le_secret L) token)"

definition has_unlock :: "'w link_env \<Rightarrow> link_request \<Rightarrow> string \<Rightarrow> bool" where
  "has_unlock L q token =
     (case lq_cookies q (unlock_cookie_name token) of None \<Rightarrow> False | Some v \<Rightarrow> v = unlock_value L token)"

section \<open>The owner's side\<close>

definition share_url :: "'w link_env \<Rightarrow> link_request \<Rightarrow> string \<Rightarrow> string" where
  "share_url L q token =
     (let scheme = ''https'';
          scheme = (if \<not> le_secure L \<and> \<not> lq_tls q then ''http'' else scheme);
          scheme = (if lq_proto q \<noteq> [] then lq_proto q else scheme)
      in scheme @ ''://'' @ lq_host q @ ''/s/'' @ token)"

definition view_of :: "'w link_env \<Rightarrow> link_request \<Rightarrow> link \<Rightarrow> share_view" where
  "view_of L q l = \<lparr>sv_token = l_token l, sv_url = share_url L q (l_token l), sv_path = l_path l,
     sv_name = path_base (l_path l), sv_created = l_created l, sv_expires = l_expires l,
     sv_protected = link_protected l\<rparr>"

text \<open>\<^verbatim>\<open>time.Duration(hours) * time.Hour\<close> wraps at 64 bits.\<close>

definition ttl_of_hours :: "int \<Rightarrow> duration" where
  "ttl_of_hours h = sint (word_of_int h * word_of_int hour :: int64)"

text \<open>The body holds the path, the password and the hours; \<open>raw\<close> and \<open>salt\<close> are the random bytes.\<close>

definition handle_share_create ::
  "'w link_env \<Rightarrow> time \<Rightarrow> (string + uint8 list) \<Rightarrow> (string + uint8 list) \<Rightarrow> string \<Rightarrow> link_request \<Rightarrow>
   (string \<times> string \<times> int) option \<Rightarrow> 'w share_store option \<Rightarrow> 'w \<Rightarrow> link_reply \<times> 'w share_store option \<times> 'w" where
  "handle_share_create L now raw salt user q body st w =
     (case st of
        None \<Rightarrow> ((501, LbError), st, w)
      | Some s \<Rightarrow>
          (case body of
             None \<Rightarrow> ((400, LbError), st, w)
           | Some (p, pw, hours) \<Rightarrow>
               (case vfs_stat (fx_fs (le_srv L)) user p w of
                  (Inl e, w) \<Rightarrow> (of_file_reply (write_fs_error e), st, w)
                | (Inr None, w) \<Rightarrow> ((0, LbPanic), st, w)
                | (Inr (Some sta), w) \<Rightarrow>
                    if stat_is_dir sta then ((400, LbError), st, w)
                    else
                      (case vfs_open (fx_fs (le_srv L)) user p w of
                         (Inl e, w) \<Rightarrow> (of_file_reply (write_fs_error e), st, w)
                       | (Inr f, w) \<Rightarrow>
                           (case fe_close (fx_fs (le_srv L)) f w of
                              (_, w) \<Rightarrow>
                                (case share_create (le_sha L) (le_disk L) now raw salt user p (bytes_of pw) (ttl_of_hours hours) s w of
                                   (Inl _, s, w) \<Rightarrow> ((500, LbError), Some s, w)
                                 | (Inr l, s, w) \<Rightarrow> ((200, LbView (view_of L q l)), Some s, w)))))))"

definition handle_share_list ::
  "'w link_env \<Rightarrow> time \<Rightarrow> string \<Rightarrow> link_request \<Rightarrow> 'w share_store option \<Rightarrow> 'w \<Rightarrow> link_reply \<times> 'w share_store option \<times> 'w" where
  "handle_share_list L now user q st w =
     (case st of
        None \<Rightarrow> ((200, LbViews []), st, w)
      | Some s \<Rightarrow>
          (case share_list_by_owner (le_disk L) now user s w of
             (ls, s, w) \<Rightarrow> ((200, LbViews (map (view_of L q) ls)), Some s, w)))"

definition handle_share_revoke ::
  "'w link_env \<Rightarrow> time \<Rightarrow> string \<Rightarrow> string \<Rightarrow> 'w share_store option \<Rightarrow> 'w \<Rightarrow> link_reply \<times> 'w share_store option \<times> 'w" where
  "handle_share_revoke L now user url st w =
     (case st of
        None \<Rightarrow> ((501, LbError), st, w)
      | Some s \<Rightarrow>
          (case share_revoke (le_disk L) now user (trim_prefix url ''/api/shares/'') s w of
             (Some _, s, w) \<Rightarrow> ((404, LbError), Some s, w)
           | (None, s, w) \<Rightarrow> ((204, LbNone), Some s, w)))"

section \<open>The public side\<close>

definition render_unlock ::
  "'w link_env \<Rightarrow> time \<Rightarrow> string \<Rightarrow> bool \<Rightarrow> 'w share_store \<Rightarrow> 'w \<Rightarrow> link_reply \<times> 'w share_store option \<times> 'w" where
  "render_unlock L now token wrong s w =
     (case share_get (le_disk L) now token s w of
        (r, s, w) \<Rightarrow>
          (let name = (case r of Inr l \<Rightarrow> path_base (l_path l) | Inl _ \<Rightarrow> ''Shared file'')
           in ((if wrong then 401 else 200, LbUnlock name wrong), Some s, w)))"

definition serve_shared :: "'w link_env \<Rightarrow> link \<Rightarrow> 'w \<Rightarrow> link_reply \<times> 'w" where
  "serve_shared L l w =
     (case vfs_stat (fx_fs (le_srv L)) (l_owner l) (l_path l) w of
        (Inl _, w) \<Rightarrow> ((404, LbError), w)
      | (Inr st, w) \<Rightarrow>
          (case vfs_open (fx_fs (le_srv L)) (l_owner l) (l_path l) w of
             (Inl _, w) \<Rightarrow> ((404, LbError), w)
           | (Inr f, w) \<Rightarrow>
               (case fe_close (fx_fs (le_srv L)) f w of
                  (_, w) \<Rightarrow>
                    (case st of
                       None \<Rightarrow> ((0, LbPanic), w)
                     | Some st \<Rightarrow> ((200, LbContent (content_of (l_path l) st f)), w)))))"

definition unlock_cookie_of :: "'w link_env \<Rightarrow> time \<Rightarrow> string \<Rightarrow> link \<Rightarrow> unlock_cookie" where
  "unlock_cookie_of L now token l = \<lparr>uc_name = unlock_cookie_name token, uc_value = unlock_value L token,
     uc_path = ''/s/'' @ token,
     uc_max_age = (if l_expires l < now then - ((now - l_expires l) div second) else (l_expires l - now) div second)\<rparr>"

text \<open>What follows the switch: the password given in this request, or the file.\<close>

definition share_answer ::
  "'w link_env \<Rightarrow> time \<Rightarrow> link_request \<Rightarrow> string \<Rightarrow> link \<Rightarrow> 'w share_store \<Rightarrow> 'w \<Rightarrow> link_reply \<times> 'w share_store option \<times> 'w" where
  "share_answer L now q token l s w =
     (if link_protected l \<and> lq_post q then ((303, LbRedirect (unlock_cookie_of L now token l)), Some s, w)
      else (case serve_shared L l w of (r, w) \<Rightarrow> (r, Some s, w)))"

definition handle_share_public ::
  "'w link_env \<Rightarrow> time \<Rightarrow> string \<Rightarrow> link_request \<Rightarrow> 'w share_store option \<Rightarrow> 'w \<Rightarrow> link_reply \<times> 'w share_store option \<times> 'w" where
  "handle_share_public L now url q st w =
     (case st of
        None \<Rightarrow> ((404, LbError), st, w)
      | Some s \<Rightarrow>
          (let token = trim_prefix url ''/s/''
           in if token = [] then ((404, LbError), st, w)
              else if lq_post q \<and> lq_form q = None then ((400, LbError), st, w)
              else
                (let password = (if lq_post q then (case lq_form q of Some f \<Rightarrow> f | None \<Rightarrow> []) else [])
                 in case share_resolve (le_sha L) (le_disk L) now token (bytes_of password) s w of
                      (Inl ErrPassword, s, w) \<Rightarrow>
                        if has_unlock L q token
                        then (case share_get (le_disk L) now token s w of
                                (Inr l, s, w) \<Rightarrow> share_answer L now q token l s w
                              | (Inl _, s, w) \<Rightarrow> render_unlock L now token (lq_post q) s w)
                        else render_unlock L now token (lq_post q) s w
                    | (Inl ErrNotFound, s, w) \<Rightarrow> ((404, LbError), Some s, w)
                    | (Inl _, s, w) \<Rightarrow> ((500, LbError), Some s, w)
                    | (Inr l, s, w) \<Rightarrow> share_answer L now q token l s w)))"

section \<open>What the public side gives away\<close>

lemma share_resolveE:
  assumes "share_resolve sha D now token pw s w = (Inr l, s', w')"
  shows "\<exists>s1. share_fresh D now s w = (s1, w') \<and> map_of (ss_m s1) token = Some l \<and> \<not> link_expired now l \<and>
    (link_protected l \<longrightarrow> l_hash l = hash_password sha (l_salt l) pw)"
  using assms by (auto simp: share_resolve_def split: prod.splits option.splits if_splits)

lemma share_getE:
  assumes "share_get D now token s w = (Inr l, s', w')"
  shows "share_fresh D now s w = (s', w') \<and> map_of (ss_m s') token = Some l \<and> \<not> link_expired now l"
  using assms by (auto simp: share_get_def split: prod.splits option.splits if_splits)

text \<open>A link that is live in the table of a refresh, for a request that may have it.\<close>

definition link_granted ::
  "'w link_env \<Rightarrow> time \<Rightarrow> link_request \<Rightarrow> string \<Rightarrow> link \<Rightarrow> bool" where
  "link_granted L now q token l \<longleftrightarrow>
     (\<exists>s0 w0 s1 w1. share_fresh (le_disk L) now s0 w0 = (s1, w1) \<and> map_of (ss_m s1) token = Some l) \<and>
     \<not> link_expired now l \<and>
     (link_protected l \<longrightarrow> has_unlock L q token \<or>
        l_hash l = hash_password (le_sha L) (l_salt l) (bytes_of (if lq_post q then the (lq_form q) else [])))"

lemma share_answer_cases:
  assumes "share_answer L now q token l s w = ((st, body), s', w')"
  shows "body = LbRedirect (unlock_cookie_of L now token l) \<and> link_protected l \<and> lq_post q \<or>
    serve_shared L l w = ((st, body), w') \<and> \<not> (link_protected l \<and> lq_post q)"
  using assms by (auto simp: share_answer_def split: if_splits prod.splits)

lemma serve_shared_body:
  "serve_shared L l w = ((st, body), w') \<Longrightarrow> body = LbError \<or> body = LbPanic \<or> (\<exists>c. body = LbContent c \<and> st = 200)"
  by (auto simp: serve_shared_def split: prod.splits sum.splits option.splits)

text \<open>A request is answered with an error or the form, or the link is granted.\<close>

lemma share_public_cases:
  assumes "handle_share_public L now url q (Some s) w = ((st, body), s', w')"
  shows "body = LbError \<or> (\<exists>name wrong. body = LbUnlock name wrong) \<or>
    (\<exists>l s1 w1. link_granted L now q (trim_prefix url ''/s/'') l \<and>
       share_answer L now q (trim_prefix url ''/s/'') l s1 w1 = ((st, body), s', w'))"
proof -
  let ?token = "trim_prefix url ''/s/''"
  let ?pw = "if lq_post q then case lq_form q of Some f \<Rightarrow> f | None \<Rightarrow> [] else []"
  show ?thesis
  proof (cases "?token = [] \<or> lq_post q \<and> lq_form q = None")
    case True
    with assms show ?thesis by (auto simp: handle_share_public_def Let_def split: if_splits)
  next
    case False
    then have pw: "?pw = (if lq_post q then the (lq_form q) else [])" by auto
    obtain r s1 w1 where r: "share_resolve (le_sha L) (le_disk L) now ?token (bytes_of ?pw) s w = (r, s1, w1)"
      by (metis prod.collapse)
    have form: "\<exists>name wrong. b = LbUnlock name wrong"
      if "render_unlock L now ?token x s2 w2 = ((a, b), s3, w3)" for x s2 w2 a b s3 w3
      using that by (auto simp: render_unlock_def Let_def split: prod.splits)
    show ?thesis
    proof (cases r)
      case (Inr l)
      from share_resolveE[OF r[unfolded Inr]] pw have "link_granted L now q ?token l"
        unfolding link_granted_def by auto
      with assms False r Inr show ?thesis by (auto simp: handle_share_public_def Let_def)
    next
      case (Inl e)
      show ?thesis
      proof (cases "e = ErrPassword \<and> has_unlock L q ?token")
        case False
        with assms \<open>\<not> (?token = [] \<or> _)\<close> r Inl show ?thesis
          by (auto simp: handle_share_public_def Let_def split: share_error.splits if_splits dest!: form)
      next
        case True
        obtain g s2 w2 where g: "share_get (le_disk L) now ?token s1 w1 = (g, s2, w2)" by (metis prod.collapse)
        show ?thesis
        proof (cases g)
          case (Inl _)
          with assms \<open>\<not> (?token = [] \<or> _)\<close> r \<open>r = Inl e\<close> True g show ?thesis
            by (auto simp: handle_share_public_def Let_def dest!: form)
        next
          case (Inr l)
          from share_getE[OF g[unfolded Inr]] True have "link_granted L now q ?token l"
            unfolding link_granted_def by auto
          with assms \<open>\<not> (?token = [] \<or> _)\<close> r \<open>r = Inl e\<close> True g Inr show ?thesis
            by (auto simp: handle_share_public_def Let_def)
        qed
      qed
    qed
  qed
qed


text \<open>The sample link, fetched.\<close>

definition ram_srv :: "link list doc ram file_srv" where
  "ram_srv = \<lparr>fx_fs = \<lparr>fe_do = (\<lambda>u req w. (Inr (\<lparr>rs_id = 0, rs_has = HasStat, rs_errno = 0,
        rs_stat = Some \<lparr>st_mode = 0x81A0, st_uid = 1, st_gid = 1, st_size = 5, st_mtime_sec = 0, st_mtime_nsec = 0,
          st_ino = 1, st_nlink = 1\<rparr>, rs_entries = [], rs_value = []\<rparr>, 3), w)),
     fe_reroute = None, fe_now = (\<lambda>w. (0, w)), fe_random = (\<lambda>w. (Inr [], w)),
     fe_copy = (\<lambda>h w. (None, w)), fe_sync = (\<lambda>h w. (None, w)), fe_close = (\<lambda>h w. (None, w)), fe_record = None\<rparr>,
     fx_anon = [], fx_admin = None\<rparr>"

definition ram_links :: "link list doc ram link_env" where
  "ram_links = \<lparr>le_srv = ram_srv, le_disk = ram_disk, le_sha = id, le_hmac = (\<lambda>k m. k @ m), le_secret = ''k'', le_secure = True\<rparr>"

definition get_request :: link_request where
  "get_request = \<lparr>lq_host = ''h'', lq_tls = True, lq_proto = [], lq_cookies = Map.empty, lq_post = False, lq_form = None\<rparr>"

lemma ram_fetch:
  "\<exists>c s' w'. handle_share_public ram_links 20 ''/s/tok'' get_request (Some sample_replica) sample_ram = ((200, LbContent c), s', w')"
proof -
  have tok: "trim_prefix ''/s/tok'' ''/s/'' = ''tok''" by code_simp
  obtain r s1 w1 where r: "share_resolve id ram_disk 20 ''tok'' (bytes_of []) sample_replica sample_ram = (r, s1, w1)"
    by (metis prod.collapse)
  obtain s0 w0 where f: "share_fresh ram_disk 20 sample_replica sample_ram = (s0, w0)" by (metis prod.collapse)
  have "live 20 (ss_m s0) ''tok'' = Some sample_link"
    using f by (auto simp: share_fresh_def guard_fresh_def share_sample_defs live_def)
  then have "r = Inr sample_link"
    using share_resolve_live[OF r f] by (simp add: link_protected_def sample_link_def)
  with r tok show ?thesis
    by (simp add: handle_share_public_def get_request_def ram_links_def share_answer_def link_protected_def
        sample_link_def serve_shared_def vfs_stat_def vfs_open_def fs_do_def ram_srv_def resp_ok_def)
qed


text \<open>
  A browser that already has the cookie is sent on with a new one whatever password it posts; and the
  hours of a new link are multiplied without a check.
\<close>

lemma ttl_wraps: "ttl_of_hours 5124096 = 1526290448384 \<and> 5124096 * hour > max_lifetime"
  by (simp add: ttl_of_hours_def hour_def minute_def second_def max_lifetime_def)

end
