(* ===== verification/Fuzzy.thy ===== *)
theory Fuzzy
  imports GoStrings
begin

text \<open>
  Matching a name against a query, \<^verbatim>\<open>src/internal/fuzzy/fuzzy.go\<close>. Names are folded to lists of UTF-16
  code units. Unicode's tables (the composition of \<^verbatim>\<open>x/text\<close> and the lower case of \<^verbatim>\<open>unicode\<close>) are an
  argument. A score is kept in tenths, so that the subtraction of a tenth per unit is exact; both
  scores \<^verbatim>\<open>Score\<close> compares subtract the same length.
\<close>

section \<open>UTF-8 and UTF-16\<close>

text \<open>
  \<^verbatim>\<open>[]rune(s)\<close>: the lengths and ranges of \<^verbatim>\<open>utf8.DecodeRuneInString\<close>; a byte that starts nothing valid is
  one U+FFFD.
\<close>

definition rune_error :: nat where "rune_error = 65533"

definition is_cont :: "nat \<Rightarrow> bool" where
  "is_cont b \<longleftrightarrow> 128 \<le> b \<and> b < 192"

definition decode_rune :: "nat list \<Rightarrow> nat \<times> nat" where
  "decode_rune s =
     (case s of
        [] \<Rightarrow> (rune_error, 0)
      | b # r \<Rightarrow>
          if b < 128 then (b, 1)
          else if 194 \<le> b \<and> b < 224 \<and> length r \<ge> 1 \<and> is_cont (r ! 0)
          then ((b - 192) * 64 + (r ! 0 - 128), 2)
          else if 224 \<le> b \<and> b < 240 \<and> length r \<ge> 2 \<and> is_cont (r ! 0) \<and> is_cont (r ! 1) \<and>
              (b = 224 \<longrightarrow> 160 \<le> r ! 0) \<and> (b = 237 \<longrightarrow> r ! 0 < 160)
          then ((b - 224) * 4096 + (r ! 0 - 128) * 64 + (r ! 1 - 128), 3)
          else if 240 \<le> b \<and> b < 245 \<and> length r \<ge> 3 \<and> is_cont (r ! 0) \<and> is_cont (r ! 1) \<and> is_cont (r ! 2) \<and>
              (b = 240 \<longrightarrow> 144 \<le> r ! 0) \<and> (b = 244 \<longrightarrow> r ! 0 < 144)
          then ((b - 240) * 262144 + (r ! 0 - 128) * 4096 + (r ! 1 - 128) * 64 + (r ! 2 - 128), 4)
          else (rune_error, 1))"

fun runes_fuel :: "nat \<Rightarrow> nat list \<Rightarrow> nat list" where
  "runes_fuel 0 s = []"
| "runes_fuel (Suc n) s =
     (if s = [] then [] else (case decode_rune s of (c, k) \<Rightarrow> c # runes_fuel n (drop k s)))"

text \<open>Every step takes at least one byte, so the number of bytes is enough.\<close>

definition runes_of :: "string \<Rightarrow> nat list" where
  "runes_of s = runes_fuel (length s) (map of_char s)"

fun utf16_encode :: "nat list \<Rightarrow> uint16 list" where
  "utf16_encode [] = []"
| "utf16_encode (c # cs) =
     (if c < 55296 \<or> 57344 \<le> c \<and> c < 65536 then word_of_nat c # utf16_encode cs
      else if 65536 \<le> c \<and> c \<le> 1114111
      then word_of_nat (55296 + ((c - 65536) div 1024) mod 1024) # word_of_nat (56320 + (c - 65536) mod 1024) # utf16_encode cs
      else word_of_nat rune_error # utf16_encode cs)"

record unicode =
  un_nfc :: "string \<Rightarrow> string"
  un_lower :: "nat \<Rightarrow> nat"

definition fuzzy_fold :: "unicode \<Rightarrow> string \<Rightarrow> uint16 list" where
  "fuzzy_fold U s = utf16_encode (map (un_lower U) (runes_of (un_nfc U s)))"

section \<open>Scores\<close>

record fmatch =
  fm_score :: int
  fm_pos :: "nat list"

text \<open>The space, - _ . / ( ) [ ] , and the quote.\<close>

definition separators :: "uint16 list" where
  "separators = [32, 45, 95, 46, 47, 40, 41, 91, 93, 44, 39]"

definition at_boundary :: "uint16 list \<Rightarrow> nat \<Rightarrow> bool" where
  "at_boundary hay i \<longleftrightarrow> i = 0 \<or> hay ! (i - 1) \<in> set separators"

fun score_loop :: "uint16 list \<Rightarrow> int \<Rightarrow> int \<Rightarrow> nat list \<Rightarrow> int" where
  "score_loop hay prev score [] = score"
| "score_loop hay prev score (at # ps) =
     (let s = 10;
          s = (if int at = prev + 1 then s + 30 else s);
          s = (if at_boundary hay at then s + 25 else s);
          gap = (if prev \<ge> 0 then int at - prev - 1 else int at);
          gap = (if gap > 20 then 20 else gap)
      in score_loop hay (int at) (score + (s - gap)) ps)"

definition score_of :: "uint16 list \<Rightarrow> nat list \<Rightarrow> int" where
  "score_of hay ps = score_loop hay (- 2) 0 ps * 10 - int (length hay)"

text \<open>\<^verbatim>\<open>index\<close>: the positions from \<open>i\<close> up, of which \<open>n\<close> are left.\<close>

fun index_loop :: "nat \<Rightarrow> nat \<Rightarrow> uint16 list \<Rightarrow> uint16 list \<Rightarrow> nat option" where
  "index_loop 0 i hay needle = None"
| "index_loop (Suc n) i hay needle =
     (if \<forall>j \<in> set [0..<length needle]. hay ! (i + j) = needle ! j then Some i
      else index_loop n (i + 1) hay needle)"

definition units_index :: "uint16 list \<Rightarrow> uint16 list \<Rightarrow> nat option" where
  "units_index hay needle =
     (if needle = [] then Some 0
      else if length needle > length hay then None
      else index_loop (length hay - length needle + 1) 0 hay needle)"

section \<open>Find\<close>

function scan_up :: "uint16 list \<Rightarrow> uint16 \<Rightarrow> nat \<Rightarrow> nat" where
  "scan_up hay c h = (if h < length hay \<and> hay ! h \<noteq> c then scan_up hay c (h + 1) else h)"
  by auto
termination by (relation "measure (\<lambda>(hay, c, h). length hay - h)") auto

function scan_down :: "uint16 list \<Rightarrow> uint16 \<Rightarrow> int \<Rightarrow> int" where
  "scan_down hay c hi = (if hi \<ge> 0 \<and> hay ! nat hi \<noteq> c then scan_down hay c (hi - 1) else hi)"
  by auto
termination by (relation "measure (\<lambda>(hay, c, hi). nat (hi + 1))") auto

declare scan_up.simps [simp del] scan_down.simps [simp del]

fun forward_pass :: "uint16 list \<Rightarrow> nat \<Rightarrow> uint16 list \<Rightarrow> nat list option" where
  "forward_pass hay h [] = Some []"
| "forward_pass hay h (c # cs) =
     (let h = scan_up hay c h
      in if h \<ge> length hay then None
         else (case forward_pass hay (h + 1) cs of None \<Rightarrow> None | Some ps \<Rightarrow> Some (h # ps)))"

text \<open>The loop from the needle's last unit down, which is why the units come reversed.\<close>

fun backward_pass :: "uint16 list \<Rightarrow> int \<Rightarrow> uint16 list \<Rightarrow> nat list \<Rightarrow> nat list option" where
  "backward_pass hay hi [] ps = Some ps"
| "backward_pass hay hi (c # cs) ps =
     (let hi = scan_down hay c hi
      in if hi < 0 then None else backward_pass hay (hi - 1) cs (nat hi # ps))"

definition find_match :: "uint16 list \<Rightarrow> uint16 list \<Rightarrow> fmatch option" where
  "find_match hay needle =
     (if needle = [] then Some \<lparr>fm_score = 0, fm_pos = []\<rparr>
      else
        (case units_index hay needle of
           Some at \<Rightarrow>
             (let ps = map (\<lambda>i. at + i) [0..<length needle];
                  score = 1000 - int (if at > 100 then 100 else at) * 2;
                  score = (if at_boundary hay at then score + 200 else score)
              in Some \<lparr>fm_score = score * 10 - int (length hay), fm_pos = ps\<rparr>)
         | None \<Rightarrow>
             (case forward_pass hay 0 needle of
                None \<Rightarrow> None
              | Some ps \<Rightarrow>
                  (case backward_pass hay (int (last ps)) (rev needle) [] of
                     None \<Rightarrow> Some \<lparr>fm_score = score_of hay ps, fm_pos = ps\<rparr>
                   | Some qs \<Rightarrow> Some \<lparr>fm_score = score_of hay qs, fm_pos = qs\<rparr>))))"

section \<open>Lead consonants\<close>

definition lead :: "uint16 list" where
  "lead = [0x3131, 0x3132, 0x3134, 0x3137, 0x3138, 0x3139, 0x3141, 0x3142, 0x3143,
     0x3145, 0x3146, 0x3147, 0x3148, 0x3149, 0x314A, 0x314B, 0x314C, 0x314D, 0x314E]"

definition lead_consonants :: "uint16 list \<Rightarrow> uint16 list" where
  "lead_consonants s =
     map (\<lambda>c. if c \<ge> 0xAC00 \<and> c \<le> 0xD7A3 then lead ! (unat (c - 0xAC00) div 588) else c) s"

definition has_jamo :: "uint16 list \<Rightarrow> bool" where
  "has_jamo s \<longleftrightarrow> (\<exists>c \<in> set s. c \<ge> 0x3131 \<and> c \<le> 0x3163)"

record folded =
  fo_nfc :: string
  fo_fold :: "uint16 list"
  fo_lead :: "uint16 list"

definition fold_of :: "unicode \<Rightarrow> string \<Rightarrow> folded" where
  "fold_of U name =
     (let nfc = un_nfc U name; f = utf16_encode (map (un_lower U) (runes_of nfc))
      in \<lparr>fo_nfc = nfc, fo_fold = f, fo_lead = lead_consonants f\<rparr>)"

record needle =
  ne_text :: "uint16 list"
  ne_try_lead :: bool

definition needle_of :: "unicode \<Rightarrow> string \<Rightarrow> needle" where
  "needle_of U query =
     (let t = fuzzy_fold U (trim_space query) in \<lparr>ne_text = t, ne_try_lead = has_jamo t\<rparr>)"

definition fuzzy_score :: "folded \<Rightarrow> needle \<Rightarrow> fmatch option" where
  "fuzzy_score f n =
     (if ne_text n = [] then None
      else
        (let m = find_match (fo_fold f) (ne_text n)
         in if ne_try_lead n \<and> fo_lead f \<noteq> fo_fold f
            then (case find_match (fo_lead f) (ne_text n) of
                    None \<Rightarrow> m
                  | Some l \<Rightarrow>
                      (case m of
                         None \<Rightarrow> Some l
                       | Some x \<Rightarrow> if fm_score l > fm_score x then Some l else Some x))
            else m))"

definition score_name :: "unicode \<Rightarrow> string \<Rightarrow> string \<Rightarrow> fmatch option" where
  "score_name U name query = fuzzy_score (fold_of U name) (needle_of U query)"

section \<open>Embeddings\<close>

text \<open>
  What a match means: the positions are increasing, inside the name, and spell the needle. \<open>emb\<close> is
  the same with a lower bound, by recursion.
\<close>

definition embeds :: "'a list \<Rightarrow> 'a list \<Rightarrow> nat list \<Rightarrow> bool" where
  "embeds hay needle ps \<longleftrightarrow>
     sorted_wrt (<) ps \<and> (\<forall>p \<in> set ps. p < length hay) \<and> map (\<lambda>p. hay ! p) ps = needle"

fun emb :: "'a list \<Rightarrow> nat \<Rightarrow> 'a list \<Rightarrow> nat list \<Rightarrow> bool" where
  "emb hay l [] [] = True"
| "emb hay l (c # cs) (p # ps) = (l \<le> p \<and> p < length hay \<and> hay ! p = c \<and> emb hay (Suc p) cs ps)"
| "emb hay l _ _ = False"

lemma emb_iff: "emb hay l cs ps \<longleftrightarrow> embeds hay cs ps \<and> (\<forall>p \<in> set ps. l \<le> p)"
proof (induction hay l cs ps rule: emb.induct)
  case (2 hay l c cs p ps)
  then show ?case by (force simp: embeds_def Suc_le_eq)
qed (auto simp: embeds_def)

lemma emb_0: "emb hay 0 cs ps = embeds hay cs ps"
  by (simp add: emb_iff)

lemma emb_mono: "emb hay l cs ps \<Longrightarrow> l' \<le> l \<Longrightarrow> emb hay l' cs ps"
  by (auto simp: emb_iff)

lemma embeds_snoc: "embeds hay (cs @ [c]) (ps @ [p]) \<longleftrightarrow>
    embeds hay cs ps \<and> p < length hay \<and> hay ! p = c \<and> (\<forall>q \<in> set ps. q < p)"
  by (auto simp: embeds_def sorted_wrt_append)

lemma embeds_snocE:
  assumes "embeds hay (cs @ [c]) qs"
  obtains ps p where "qs = ps @ [p]" "embeds hay cs ps" "p < length hay" "hay ! p = c" "\<forall>q \<in> set ps. q < p"
proof (cases qs rule: rev_cases)
  case Nil
  with assms show ?thesis by (simp add: embeds_def)
next
  case (snoc ps p)
  with assms that show ?thesis by (simp add: embeds_snoc)
qed

lemma embeds_length: "embeds hay cs ps \<Longrightarrow> length ps = length cs"
  by (auto simp: embeds_def)

section \<open>The passes\<close>

lemma scan_up_spec:
  assumes "h \<le> length hay"
  shows "h \<le> scan_up hay c h \<and> scan_up hay c h \<le> length hay \<and>
    (scan_up hay c h < length hay \<longrightarrow> hay ! scan_up hay c h = c) \<and>
    (\<forall>j. h \<le> j \<and> j < scan_up hay c h \<longrightarrow> hay ! j \<noteq> c)"
  using assms
proof (induction hay c h rule: scan_up.induct)
  case (1 hay c h)
  show ?case
  proof (cases "h < length hay \<and> hay ! h \<noteq> c")
    case True
    then have s: "scan_up hay c h = scan_up hay c (h + 1)" by (subst scan_up.simps) simp
    from True 1 have "h + 1 \<le> scan_up hay c (h + 1) \<and> scan_up hay c (h + 1) \<le> length hay \<and>
      (scan_up hay c (h + 1) < length hay \<longrightarrow> hay ! scan_up hay c (h + 1) = c) \<and>
      (\<forall>j. h + 1 \<le> j \<and> j < scan_up hay c (h + 1) \<longrightarrow> hay ! j \<noteq> c)" by simp
    moreover have "hay ! j \<noteq> c" if "h \<le> j" "j < h + 1" for j
    proof -
      from that have "j = h" by simp
      with True show ?thesis by simp
    qed
    ultimately show ?thesis unfolding s by (metis add_leD1 linorder_not_le)
  next
    case False
    then have "scan_up hay c h = h" by (subst scan_up.simps) auto
    with False 1(2) show ?thesis by auto
  qed
qed

lemma scan_down_spec:
  assumes "hi < int (length hay)" "- 1 \<le> hi"
  shows "- 1 \<le> scan_down hay c hi \<and> scan_down hay c hi \<le> hi \<and>
    (0 \<le> scan_down hay c hi \<longrightarrow> hay ! nat (scan_down hay c hi) = c) \<and>
    (\<forall>j. scan_down hay c hi < int j \<and> int j \<le> hi \<longrightarrow> hay ! j \<noteq> c)"
  using assms
proof (induction hay c hi rule: scan_down.induct)
  case (1 hay c hi)
  show ?case
  proof (cases "hi \<ge> 0 \<and> hay ! nat hi \<noteq> c")
    case True
    then have s: "scan_down hay c hi = scan_down hay c (hi - 1)" by (subst scan_down.simps) simp
    from True 1 have "- 1 \<le> scan_down hay c (hi - 1) \<and> scan_down hay c (hi - 1) \<le> hi - 1 \<and>
      (0 \<le> scan_down hay c (hi - 1) \<longrightarrow> hay ! nat (scan_down hay c (hi - 1)) = c) \<and>
      (\<forall>j. scan_down hay c (hi - 1) < int j \<and> int j \<le> hi - 1 \<longrightarrow> hay ! j \<noteq> c)" by simp
    moreover have "hay ! j \<noteq> c" if "hi - 1 < int j" "int j \<le> hi" for j
    proof -
      from that have "j = nat hi" by simp
      with True show ?thesis by simp
    qed
    ultimately show ?thesis unfolding s by (smt (verit))
  next
    case False
    then have "scan_down hay c hi = hi" by (subst scan_down.simps) auto
    with False 1(3) show ?thesis by auto
  qed
qed

text \<open>The forward pass finds the embedding that is least at every place, if there is one.\<close>

lemma forward_pass_spec:
  assumes "h \<le> length hay"
  shows "(case forward_pass hay h cs of
      None \<Rightarrow> \<forall>qs. \<not> emb hay h cs qs
    | Some ps \<Rightarrow> emb hay h cs ps \<and> (\<forall>qs. emb hay h cs qs \<longrightarrow> list_all2 (\<le>) ps qs))"
  using assms
proof (induction cs arbitrary: h)
  case Nil
  have "qs = []" if "emb hay h [] qs" for qs using that by (cases qs) auto
  then show ?case by auto
next
  case (Cons c cs)
  let ?k = "scan_up hay c h"
  note k = scan_up_spec[OF Cons(2), of c]
  have ge: "?k \<le> q" if "emb hay h (c # cs) (q # qs)" for q qs
    using k that by (meson emb.simps(2) linorder_not_le)
  have rest: "emb hay (Suc ?k) cs qs" if "emb hay h (c # cs) (q # qs)" for q qs
  proof (rule emb_mono)
    from that show "emb hay (Suc q) cs qs" by simp
    from ge[OF that] show "Suc ?k \<le> Suc q" by simp
  qed
  have shape: "\<exists>q qs'. qs = q # qs'" if "emb hay h (c # cs) qs" for qs
    using that by (cases qs) auto
  show ?case
  proof (cases "?k \<ge> length hay")
    case True
    have "\<not> emb hay h (c # cs) qs" for qs
    proof
      assume e: "emb hay h (c # cs) qs"
      with shape obtain q qs' where q: "qs = q # qs'" by blast
      with ge e True have "length hay \<le> q" by (meson le_trans)
      with e q show False by simp
    qed
    with True show ?thesis by (simp add: Let_def)
  next
    case False
    then have sk: "Suc ?k \<le> length hay" by simp
    note IH = Cons(1)[OF sk]
    show ?thesis
    proof (cases "forward_pass hay (Suc ?k) cs")
      case None
      with IH have "\<not> emb hay (Suc ?k) cs qs" for qs by simp
      with rest shape have "\<not> emb hay h (c # cs) qs" for qs by metis
      with False None show ?thesis by (simp add: Let_def)
    next
      case (Some ps)
      with IH have ps: "emb hay (Suc ?k) cs ps" "\<And>qs. emb hay (Suc ?k) cs qs \<Longrightarrow> list_all2 (\<le>) ps qs"
        by simp_all
      have "emb hay h (c # cs) (?k # ps)" using ps(1) k False by simp
      moreover have "list_all2 (\<le>) (?k # ps) qs" if e: "emb hay h (c # cs) qs" for qs
      proof -
        from shape[OF e] obtain q qs' where "qs = q # qs'" by blast
        with e ge rest ps(2) show ?thesis by (metis list_all2_Cons)
      qed
      ultimately show ?thesis using False Some by (simp add: Let_def)
    qed
  qed
qed

text \<open>The backward pass finds the embedding that is greatest at every place among those up to \<open>hi\<close>.\<close>

lemma backward_pass_spec:
  assumes "hi < int (length hay)" "- 1 \<le> hi"
    and "embeds hay (rev rcs) qs" "\<forall>q \<in> set qs. int q \<le> hi"
  shows "\<exists>ps. backward_pass hay hi rcs acc = Some (ps @ acc) \<and> embeds hay (rev rcs) ps \<and>
    (\<forall>p \<in> set ps. int p \<le> hi) \<and>
    (\<forall>qs. embeds hay (rev rcs) qs \<and> (\<forall>q \<in> set qs. int q \<le> hi) \<longrightarrow> list_all2 (\<le>) qs ps)"
  using assms
proof (induction rcs arbitrary: hi acc qs)
  case Nil
  then show ?case by (auto simp: embeds_def)
next
  case (Cons c rcs)
  let ?k = "scan_down hay c hi"
  note k = scan_down_spec[OF Cons(2,3), of c]
  have split: "\<exists>ps p. qs = ps @ [p] \<and> embeds hay (rev rcs) ps \<and> int p \<le> ?k \<and> p < length hay \<and> (\<forall>q \<in> set ps. int q \<le> ?k - 1)"
    if e: "embeds hay (rev (c # rcs)) qs" and le: "\<forall>q \<in> set qs. int q \<le> hi" for qs
  proof -
    from e have "embeds hay (rev rcs @ [c]) qs" by simp
    then obtain ps p where p: "qs = ps @ [p]" "embeds hay (rev rcs) ps" "p < length hay" "hay ! p = c" "\<forall>q \<in> set ps. q < p"
      by (rule embeds_snocE)
    from p le have "int p \<le> hi" by simp
    from k have above: "\<And>j. ?k < int j \<Longrightarrow> int j \<le> hi \<Longrightarrow> hay ! j \<noteq> c" by blast
    have pk: "int p \<le> ?k"
    proof (rule ccontr)
      assume "\<not> int p \<le> ?k"
      with above[of p] \<open>int p \<le> hi\<close> p(4) show False by simp
    qed
    with p(5) have "\<forall>q \<in> set ps. int q \<le> ?k - 1" by fastforce
    with p pk show ?thesis by blast
  qed
  from split[OF Cons(4,5)] obtain qs' q where q: "embeds hay (rev rcs) qs'" "int q \<le> ?k" "\<forall>q \<in> set qs'. int q \<le> ?k - 1"
    by blast
  from q(2) have pos: "0 \<le> ?k" by linarith
  from k Cons(2) have len: "nat ?k < length hay" using pos by linarith
  have "?k - 1 < int (length hay)" "- 1 \<le> ?k - 1" using len pos by simp_all
  from Cons(1)[OF this q(1,3), of "nat ?k # acc"] obtain ps where
    ps: "backward_pass hay (?k - 1) rcs (nat ?k # acc) = Some (ps @ nat ?k # acc)" "embeds hay (rev rcs) ps"
      "\<forall>p \<in> set ps. int p \<le> ?k - 1"
      "\<And>qs. embeds hay (rev rcs) qs \<Longrightarrow> \<forall>q \<in> set qs. int q \<le> ?k - 1 \<Longrightarrow> list_all2 (\<le>) qs ps" by blast
  have "backward_pass hay hi (c # rcs) acc = Some ((ps @ [nat ?k]) @ acc)"
    using ps(1) pos by (simp add: Let_def)
  moreover have "embeds hay (rev (c # rcs)) (ps @ [nat ?k])"
    using ps(2,3) k pos len by (auto simp: embeds_snoc)
  moreover have "\<forall>p \<in> set (ps @ [nat ?k]). int p \<le> hi" using ps(3) k pos by auto
  moreover have "list_all2 (\<le>) qs (ps @ [nat ?k])"
    if e: "embeds hay (rev (c # rcs)) qs" "\<forall>q \<in> set qs. int q \<le> hi" for qs
  proof -
    from split[OF e] obtain rs r where r: "qs = rs @ [r]" "embeds hay (rev rcs) rs" "int r \<le> ?k" "\<forall>q \<in> set rs. int q \<le> ?k - 1"
      by blast
    have "r \<le> nat ?k" using r(3) by linarith
    with ps(4)[OF r(2,4)] r(1) show ?thesis by (simp add: list_all2_appendI)
  qed
  ultimately show ?case by blast
qed

section \<open>Contiguous occurrences\<close>

definition occurs_at :: "'a list \<Rightarrow> 'a list \<Rightarrow> nat \<Rightarrow> bool" where
  "occurs_at hay needle i \<longleftrightarrow> i + length needle \<le> length hay \<and> (\<forall>j < length needle. hay ! (i + j) = needle ! j)"

lemma index_loop_spec:
  "case index_loop n i hay needle of
     None \<Rightarrow> \<forall>k. i \<le> k \<and> k < i + n \<longrightarrow> \<not> (\<forall>j < length needle. hay ! (k + j) = needle ! j)
   | Some at \<Rightarrow> i \<le> at \<and> at < i + n \<and> (\<forall>j < length needle. hay ! (at + j) = needle ! j) \<and>
       (\<forall>k. i \<le> k \<and> k < at \<longrightarrow> \<not> (\<forall>j < length needle. hay ! (k + j) = needle ! j))"
proof (induction n i hay needle rule: index_loop.induct)
  case (1 i hay needle)
  show ?case by auto
next
  case (2 n i hay needle)
  show ?case
  proof (cases "\<forall>j < length needle. hay ! (i + j) = needle ! j")
    case True
    then show ?thesis by (auto dest: leD)
  next
    case False
    then have s: "index_loop (Suc n) i hay needle = index_loop n (i + 1) hay needle" by auto
    from False have "\<not> (\<forall>j \<in> set [0..<length needle]. hay ! (i + j) = needle ! j)" by auto
    note IH = 2[OF this]
    have step: "k = i \<or> i + 1 \<le> k" if "i \<le> k" for k using that by auto
    show ?thesis
    proof (cases "index_loop n (i + 1) hay needle")
      case None
      have "\<not> (\<forall>j < length needle. hay ! (k + j) = needle ! j)" if "i \<le> k" "k < i + Suc n" for k
      proof (cases "k = i")
        case False
        with that have "i + 1 \<le> k" "k < i + 1 + n" by simp_all
        with IH None show ?thesis by simp
      qed (use False in simp)
      then show ?thesis unfolding s None by simp
    next
      case (Some at)
      with IH have a: "i + 1 \<le> at" "at < i + 1 + n" "\<forall>j < length needle. hay ! (at + j) = needle ! j"
        "\<And>k. i + 1 \<le> k \<Longrightarrow> k < at \<Longrightarrow> \<not> (\<forall>j < length needle. hay ! (k + j) = needle ! j)" by auto
      from a(1,2) have "i \<le> at \<and> at < i + Suc n" by simp
      moreover from a(4) False step have "\<forall>k. i \<le> k \<and> k < at \<longrightarrow> \<not> (\<forall>j < length needle. hay ! (k + j) = needle ! j)"
        by blast
      ultimately show ?thesis unfolding s Some using a(3) by simp
    qed
  qed
qed

lemma units_index_spec:
  assumes "needle \<noteq> []"
  shows "case units_index hay needle of
     None \<Rightarrow> \<forall>i. \<not> occurs_at hay needle i
   | Some at \<Rightarrow> occurs_at hay needle at \<and> (\<forall>i < at. \<not> occurs_at hay needle i)"
proof (cases "length needle > length hay")
  case True
  with assms show ?thesis by (simp add: units_index_def occurs_at_def)
next
  case False
  then have e: "units_index hay needle = index_loop (length hay - length needle + 1) 0 hay needle"
    using assms by (simp add: units_index_def)
  have bound: "i < 0 + (length hay - length needle + 1) \<longleftrightarrow> i + length needle \<le> length hay" for i
    using False by auto
  have occ: "occurs_at hay needle i \<longleftrightarrow> i < 0 + (length hay - length needle + 1) \<and>
      (\<forall>j < length needle. hay ! (i + j) = needle ! j)" for i
    unfolding occurs_at_def bound ..
  show ?thesis
  proof (cases "units_index hay needle")
    case None
    with index_loop_spec[where n = "length hay - length needle + 1" and i = 0 and hay = hay and needle = needle]
    show ?thesis unfolding occ e by (simp del: index_loop.simps)
  next
    case (Some at)
    with index_loop_spec[where n = "length hay - length needle + 1" and i = 0 and hay = hay and needle = needle]
    show ?thesis unfolding occ e by (simp del: index_loop.simps)
  qed
qed

lemma occurs_embeds:
  assumes "occurs_at hay needle at"
  shows "embeds hay needle (map (\<lambda>i. at + i) [0..<length needle])"
  using assms by (auto simp: embeds_def occurs_at_def sorted_wrt_map sorted_wrt_upt intro: nth_equalityI)

section \<open>What Find and Score answer\<close>

text \<open>
  The positions chosen: at the first contiguous occurrence if there is one; otherwise ending as early
  as any embedding ends, and for that end as late as possible at every other place.
\<close>

definition tight :: "uint16 list \<Rightarrow> uint16 list \<Rightarrow> nat list \<Rightarrow> bool" where
  "tight hay needle ps \<longleftrightarrow>
     (if \<exists>i. occurs_at hay needle i
      then \<exists>at. ps = map (\<lambda>i. at + i) [0..<length needle] \<and> occurs_at hay needle at \<and> (\<forall>i < at. \<not> occurs_at hay needle i)
      else \<forall>qs. embeds hay needle qs \<longrightarrow> last ps \<le> last qs \<and> (last qs \<le> last ps \<longrightarrow> list_all2 (\<le>) qs ps))"

lemma list_all2_last: "list_all2 (\<le>) ps qs \<Longrightarrow> ps \<noteq> [] \<Longrightarrow> last ps \<le> last (qs :: nat list)"
  by (cases "qs = []") (auto simp: list_all2_conv_all_nth last_conv_nth)

lemma embeds_le_last: "embeds hay cs ps \<Longrightarrow> p \<in> set ps \<Longrightarrow> p \<le> last ps"
  by (cases ps rule: rev_cases) (auto simp: embeds_def sorted_wrt_append)

lemma find_match_spec:
  assumes ne: "needle \<noteq> []"
  shows "case find_match hay needle of
      None \<Rightarrow> \<forall>ps. \<not> embeds hay needle ps
    | Some m \<Rightarrow> embeds hay needle (fm_pos m) \<and> tight hay needle (fm_pos m)"
proof (cases "units_index hay needle")
  case (Some at)
  with units_index_spec[OF ne, of hay] have at: "occurs_at hay needle at" "\<forall>i < at. \<not> occurs_at hay needle i" by simp_all
  then have "tight hay needle (map (\<lambda>i. at + i) [0..<length needle])" unfolding tight_def by auto
  with occurs_embeds[OF at(1)] ne Some show ?thesis by (simp add: find_match_def Let_def)
next
  case None
  with units_index_spec[OF ne, of hay] have no: "\<not> (\<exists>i. occurs_at hay needle i)" by simp
  show ?thesis
  proof (cases "forward_pass hay 0 needle")
    case fw: None
    with forward_pass_spec[of 0 hay needle] ne None show ?thesis by (simp add: find_match_def emb_0)
  next
    case (Some fs)
    with forward_pass_spec[of 0 hay needle] have fs: "embeds hay needle fs"
      "\<And>qs. embeds hay needle qs \<Longrightarrow> list_all2 (\<le>) fs qs" by (simp_all add: emb_0)
    have fne: "fs \<noteq> []" using embeds_length[OF fs(1)] ne by auto
    let ?hi = "int (last fs)"
    have "last fs \<in> set fs" using fne by simp
    with fs(1) have hi: "?hi < int (length hay)" "- 1 \<le> ?hi" by (auto simp: embeds_def)
    have le: "\<forall>q \<in> set fs. int q \<le> ?hi" using embeds_le_last[OF fs(1)] by simp
    from backward_pass_spec[OF hi, of "rev needle" fs "[]"] fs(1) le obtain ps where
      ps: "backward_pass hay ?hi (rev needle) [] = Some ps" "embeds hay needle ps" "\<forall>p \<in> set ps. int p \<le> ?hi"
        "\<And>qs. embeds hay needle qs \<Longrightarrow> \<forall>q \<in> set qs. int q \<le> ?hi \<Longrightarrow> list_all2 (\<le>) qs ps" by auto
    have pne: "ps \<noteq> []" using embeds_length[OF ps(2)] ne by auto
    have last: "last ps = last fs"
      using list_all2_last[OF ps(4)[OF fs(1) le] fne] ps(3) last_in_set[OF pne] by auto
    have "tight hay needle ps"
    proof -
      { fix qs assume q: "embeds hay needle qs"
        have "last ps \<le> last qs" unfolding last by (rule list_all2_last[OF fs(2)[OF q] fne])
        moreover have "list_all2 (\<le>) qs ps" if "last qs \<le> last ps"
        proof (rule ps(4)[OF q], rule ballI)
          fix p assume "p \<in> set qs"
          with embeds_le_last[OF q] that last show "int p \<le> ?hi" by (metis le_trans of_nat_mono)
        qed
        ultimately have "last ps \<le> last qs \<and> (last qs \<le> last ps \<longrightarrow> list_all2 (\<le>) qs ps)" by blast }
      with no show ?thesis by (simp add: tight_def)
    qed
    with ps(1,2) ne None Some show ?thesis by (simp add: find_match_def)
  qed
qed

lemma length_lead_consonants [simp]: "length (lead_consonants s) = length s"
  by (simp add: lead_consonants_def)

text \<open>Whether a name is an answer to a query, by what an embedding is.\<close>

definition name_matches :: "folded \<Rightarrow> needle \<Rightarrow> bool" where
  "name_matches f n \<longleftrightarrow> ne_text n \<noteq> [] \<and>
     ((\<exists>ps. embeds (fo_fold f) (ne_text n) ps) \<or> ne_try_lead n \<and> (\<exists>ps. embeds (fo_lead f) (ne_text n) ps))"

lemma fuzzy_score_spec:
  "case fuzzy_score f n of
     None \<Rightarrow> \<not> name_matches f n
   | Some m \<Rightarrow> name_matches f n \<and>
       (\<exists>hay \<in> {fo_fold f, fo_lead f}. embeds hay (ne_text n) (fm_pos m) \<and> tight hay (ne_text n) (fm_pos m))"
proof (cases "ne_text n = []")
  case True
  then show ?thesis by (simp add: fuzzy_score_def name_matches_def)
next
  case False
  note spec = find_match_spec[OF False]
  have f: "case find_match (fo_fold f) (ne_text n) of
      None \<Rightarrow> \<forall>ps. \<not> embeds (fo_fold f) (ne_text n) ps
    | Some m \<Rightarrow> embeds (fo_fold f) (ne_text n) (fm_pos m) \<and> tight (fo_fold f) (ne_text n) (fm_pos m)" by (rule spec)
  have l: "case find_match (fo_lead f) (ne_text n) of
      None \<Rightarrow> \<forall>ps. \<not> embeds (fo_lead f) (ne_text n) ps
    | Some m \<Rightarrow> embeds (fo_lead f) (ne_text n) (fm_pos m) \<and> tight (fo_lead f) (ne_text n) (fm_pos m)" by (rule spec)
  show ?thesis
    using False f l
    by (cases "find_match (fo_fold f) (ne_text n)"; cases "find_match (fo_lead f) (ne_text n)")
      (auto simp: fuzzy_score_def name_matches_def Let_def)
qed

text \<open>
  C35: For every name and query: a name is offered exactly when the folded query appears in order in
  the folded name, or, for a query with Hangul consonants, in its lead consonants. The positions sent
  are an embedding in one of the two (equally long) forms, so each is a position of the name; it is the
  first contiguous occurrence if there is one, and otherwise the embedding that ends first, as tight
  for that end as any.
\<close>

theorem score_name_exact:
  "case score_name U name query of
     None \<Rightarrow> \<not> name_matches (fold_of U name) (needle_of U query)
   | Some m \<Rightarrow> name_matches (fold_of U name) (needle_of U query) \<and>
       length (fo_lead (fold_of U name)) = length (fo_fold (fold_of U name)) \<and>
       (\<exists>hay \<in> {fo_fold (fold_of U name), fo_lead (fold_of U name)}.
          embeds hay (ne_text (needle_of U query)) (fm_pos m) \<and> tight hay (ne_text (needle_of U query)) (fm_pos m))"
  using fuzzy_score_spec[of "fold_of U name" "needle_of U query"]
  by (simp add: score_name_def fold_of_def Let_def split: option.splits)

text \<open>
  The comment on \<^verbatim>\<open>Find\<close> says a contiguous hit outranks every scattered one. Within one name it does by
  construction; across names a long query broken once can score higher than a whole one.
\<close>

lemma scattered_outranks_contiguous:
  "(case (find_match (98 # replicate 27 97) (replicate 27 97), find_match (replicate 13 97 @ 45 # replicate 14 97) (replicate 27 97)) of
      (Some c, Some s) \<Rightarrow> fm_pos c = [1..<28] \<and> fm_pos s = [0..<13] @ [14..<28] \<and> fm_score c < fm_score s
    | _ \<Rightarrow> False)"
  by code_simp

end
