(* ===== verification/Search.thy ===== *)
theory Search
  imports Fuzzy Files
begin

text \<open>
  Searching below a directory: the bounded walk of \<^verbatim>\<open>src/internal/vfs/walk.go\<close>, breadth first and one
  listing per directory, and the handler of \<^verbatim>\<open>src/internal/server/search.go\<close> that scores each name it
  is offered and streams the matches.

  The visitor threads a state of its own beside the world. \<open>None\<close> is a walk in which a listing never
  returns, as in \<open>vfs_read_dir\<close>.
\<close>

section \<open>The walk\<close>

record walk_limits =
  wl_depth :: nat
  wl_visit :: nat

record 's walk_state =
  ws_visited :: nat
  ws_truncated :: bool
  ws_next :: "string list"
  ws_deeper :: bool
  ws_visitor :: 's

type_synonym ('s, 'w) visitor = "string \<Rightarrow> dir_entry \<Rightarrow> 's \<Rightarrow> 'w \<Rightarrow> bool \<times> 's \<times> 'w"

definition skipped_name :: "string \<Rightarrow> bool" where
  "skipped_name name \<longleftrightarrow> is_temp_name name \<or> name = trash_dir"

definition rel_below :: "string \<Rightarrow> string \<Rightarrow> string" where
  "rel_below dir name = (if dir \<noteq> [] then dir @ ''/'' @ name else name)"

definition is_errno :: "fs_error \<Rightarrow> uint32 list \<Rightarrow> bool" where
  "is_errno e codes = (case e of ErrnoErr opn p c \<Rightarrow> c \<in> set codes | _ \<Rightarrow> False)"

text \<open>The entries of one directory; \<open>False\<close> is an early return of the walk.\<close>

fun walk_entries ::
  "walk_limits \<Rightarrow> nat \<Rightarrow> ('s, 'w) visitor \<Rightarrow> string \<Rightarrow> dir_entry list \<Rightarrow> 's walk_state \<Rightarrow> 'w \<Rightarrow>
   bool \<times> 's walk_state \<times> 'w" where
  "walk_entries L depth visit dir [] st w = (True, st, w)"
| "walk_entries L depth visit dir (e # es) st w =
     (if skipped_name (de_name e) then walk_entries L depth visit dir es st w
      else if ws_visited st \<ge> wl_visit L then (False, st\<lparr>ws_truncated := True\<rparr>, w)
      else
        (let st = st\<lparr>ws_visited := ws_visited st + 1\<rparr>;
             rel = rel_below dir (de_name e)
         in case visit rel e (ws_visitor st) w of
              (go, s, w) \<Rightarrow>
                (let st = st\<lparr>ws_visitor := s\<rparr>
                 in if \<not> go then (False, st, w)
                    else
                      (let st = (if de_type e = 4
                                 then (if depth < wl_depth L then st\<lparr>ws_next := ws_next st @ [rel]\<rparr>
                                       else st\<lparr>ws_deeper := True\<rparr>)
                                 else st)
                       in walk_entries L depth visit dir es st w))))"

text \<open>The directories of one level: an error, or whether the walk goes on.\<close>

fun walk_level ::
  "'w fs_env \<Rightarrow> ('w \<Rightarrow> bool) \<Rightarrow> string \<Rightarrow> string \<Rightarrow> walk_limits \<Rightarrow> ('s, 'w) visitor \<Rightarrow> nat \<Rightarrow> string list \<Rightarrow>
   's walk_state \<Rightarrow> 'w \<Rightarrow> ((fs_error + bool) \<times> 's walk_state \<times> 'w) option" where
  "walk_level E alive user p L visit depth [] st w = Some (Inr True, st, w)"
| "walk_level E alive user p L visit depth (dir # dirs) st w =
     (if \<not> alive w then Some (Inr False, st\<lparr>ws_truncated := True\<rparr>, w)
      else
        (case vfs_read_dir E user (if dir \<noteq> [] then p @ ''/'' @ dir else p) False w of
           None \<Rightarrow> None
         | Some (Inl e, w) \<Rightarrow>
             if is_errno e [13, 1, 2, 20] then walk_level E alive user p L visit depth dirs st w
             else Some (Inl e, st, w)
         | Some (Inr ents, w) \<Rightarrow>
             (case walk_entries L depth visit dir ents st w of
                (go, st, w) \<Rightarrow>
                  if go then walk_level E alive user p L visit depth dirs st w else Some (Inr False, st, w))))"

text \<open>The loop over the levels; \<open>n\<close> is how many may still be listed.\<close>

fun walk_depths ::
  "nat \<Rightarrow> 'w fs_env \<Rightarrow> ('w \<Rightarrow> bool) \<Rightarrow> string \<Rightarrow> string \<Rightarrow> walk_limits \<Rightarrow> ('s, 'w) visitor \<Rightarrow> nat \<Rightarrow> string list \<Rightarrow>
   's walk_state \<Rightarrow> 'w \<Rightarrow> (fs_error option \<times> 's walk_state \<times> 'w) option" where
  "walk_depths 0 E alive user p L visit depth level st w = Some (None, st, w)"
| "walk_depths (Suc n) E alive user p L visit depth level st w =
     (if level = [] then Some (None, st, w)
      else
        (case walk_level E alive user p L visit depth level (st\<lparr>ws_next := [], ws_deeper := False\<rparr>) w of
           None \<Rightarrow> None
         | Some (Inl e, st, w) \<Rightarrow> Some (Some e, st, w)
         | Some (Inr go, st, w) \<Rightarrow>
             if \<not> go then Some (None, st, w)
             else
               (let st = (if ws_deeper st then st\<lparr>ws_truncated := True\<rparr> else st)
                in walk_depths n E alive user p L visit (depth + 1) (ws_next st) st w)))"

definition vfs_walk ::
  "'w fs_env \<Rightarrow> ('w \<Rightarrow> bool) \<Rightarrow> string \<Rightarrow> string \<Rightarrow> walk_limits \<Rightarrow> ('s, 'w) visitor \<Rightarrow> 's \<Rightarrow> 'w \<Rightarrow>
   (fs_error option \<times> 's walk_state \<times> 'w) option" where
  "vfs_walk E alive user p L visit s w =
     walk_depths (wl_depth L + 1) E alive user p L visit 0 [[]]
       \<lparr>ws_visited = 0, ws_truncated = False, ws_next = [], ws_deeper = False, ws_visitor = s\<rparr> w"

section \<open>The search handler\<close>

definition search_depth :: nat where "search_depth = 8"
definition search_visit :: nat where "search_visit = 20000"
definition search_matches :: nat where "search_matches = 1000"
definition search_deadline :: duration where "search_deadline = 2 * second"
definition batch_size :: nat where "batch_size = 64"
definition batch_wait :: duration where "batch_wait = 120000000"
definition short_query :: nat where "short_query = 3"

record search_hit =
  sh_path :: string
  sh_name :: string
  sh_dir :: bool
  sh_score :: int
  sh_pos :: "nat list"

datatype search_line = SlHit search_hit | SlDone nat nat bool "fs_error option"

text \<open>
  What the handler calls besides the file layer. \<open>sq_encode\<close> writes a line and says whether the client
  is still there; \<open>sq_alive\<close> is the request's context.
\<close>

record 'w search_env =
  sq_srv :: "'w file_srv"
  sq_unicode :: unicode
  sq_alive :: "'w \<Rightarrow> bool"
  sq_now :: "'w \<Rightarrow> time"
  sq_encode :: "search_line \<Rightarrow> 'w \<Rightarrow> bool \<times> 'w"
  sq_flush :: "'w \<Rightarrow> 'w"

text \<open>The closure's variables, with the lines written so far.\<close>

record search_state =
  sr_sent :: nat
  sr_pending :: nat
  sr_last_flush :: time
  sr_failed :: bool
  sr_lines :: "search_line list"

fun contiguous :: "nat list \<Rightarrow> bool" where
  "contiguous [] = True"
| "contiguous [x] = True"
| "contiguous (x # y # ps) = (y = x + 1 \<and> contiguous (y # ps))"

definition search_flush :: "'w search_env \<Rightarrow> search_state \<Rightarrow> 'w \<Rightarrow> search_state \<times> 'w" where
  "search_flush Q s w = (s\<lparr>sr_pending := 0, sr_last_flush := sq_now Q w\<rparr>, sq_flush Q w)"

definition search_visitor :: "'w search_env \<Rightarrow> needle \<Rightarrow> (search_state, 'w) visitor" where
  "search_visitor Q n rel e s w =
     (let folded = fold_of (sq_unicode Q) (de_name e); exact_only = length (ne_text n) < short_query
      in case fuzzy_score folded n of
           None \<Rightarrow> (True, s, w)
         | Some m \<Rightarrow>
             if exact_only \<and> \<not> contiguous (fm_pos m) then (True, s, w)
             else
               (let line = SlHit \<lparr>sh_path = rel, sh_name = fo_nfc folded, sh_dir = (de_type e = 4),
                                  sh_score = fm_score m, sh_pos = fm_pos m\<rparr>
                in case sq_encode Q line w of
                     (ok, w) \<Rightarrow>
                       if \<not> ok then (False, s\<lparr>sr_failed := True\<rparr>, w)
                       else
                         (let s = s\<lparr>sr_sent := sr_sent s + 1, sr_pending := sr_pending s + 1,
                                     sr_lines := sr_lines s @ [line]\<rparr>;
                              (s, w) = (if sr_pending s \<ge> batch_size \<or> sq_now Q w - sr_last_flush s \<ge> batch_wait
                                        then search_flush Q s w else (s, w))
                          in (sr_sent s < search_matches, s, w))))"

text \<open>An error before the stream, or the lines of the stream.\<close>

definition handle_search ::
  "'w search_env \<Rightarrow> string \<Rightarrow> string \<Rightarrow> string \<Rightarrow> 'w \<Rightarrow> ((file_reply + search_line list) \<times> 'w) option" where
  "handle_search Q user p query w =
     (if p = [] then Some (Inl (write_error 400), w)
      else
        (let n = needle_of (sq_unicode Q) query
         in if ne_text n = [] then Some (Inl (write_error 400), w)
            else
              (case vfs_stat (fx_fs (sq_srv Q)) user p w of
                 (Inl e, w) \<Rightarrow> Some (Inl (write_fs_error e), w)
               | (Inr None, w) \<Rightarrow> Some (Inl panicked, w)
               | (Inr (Some st), w) \<Rightarrow>
                   if \<not> stat_is_dir st then Some (Inl (write_error 400), w)
                   else
                     (let deadline = sq_now Q w + search_deadline;
                          alive = (\<lambda>w. sq_alive Q w \<and> sq_now Q w < deadline);
                          s = \<lparr>sr_sent = 0, sr_pending = 0, sr_last_flush = sq_now Q w, sr_failed = False, sr_lines = []\<rparr>
                      in case vfs_walk (fx_fs (sq_srv Q)) alive user p \<lparr>wl_depth = search_depth, wl_visit = search_visit\<rparr>
                                (search_visitor Q n) s w of
                           None \<Rightarrow> None
                         | Some (err, st, w) \<Rightarrow>
                             (let s = ws_visitor st
                              in if sr_failed s then Some (Inr (sr_lines s), w)
                                 else
                                   (let line = SlDone (ws_visited st) (sr_sent s)
                                              (ws_truncated st \<or> sr_sent s \<ge> search_matches) err
                                    in case sq_encode Q line w of
                                         (ok, w) \<Rightarrow>
                                           (case search_flush Q s w of
                                              (s, w) \<Rightarrow> Some (Inr (sr_lines s @ (if ok then [line] else [])), w))))))))"

section \<open>What the walk offers\<close>

text \<open>
  A tree as \<open>R\<close> lists it, level by level: \<open>tree_level R p k\<close> are the entries \<open>k\<close> directories below \<open>p\<close>,
  each with its path below \<open>p\<close>. A directory that cannot be listed has no entries.
\<close>

type_synonym tree = "string \<Rightarrow> fs_error + dir_entry list"

definition entries_of :: "tree \<Rightarrow> string \<Rightarrow> string \<Rightarrow> (string \<times> dir_entry) list" where
  "entries_of R p dir =
     (case R (if dir \<noteq> [] then p @ ''/'' @ dir else p) of
        Inl _ \<Rightarrow> []
      | Inr es \<Rightarrow> map (\<lambda>e. (rel_below dir (de_name e), e)) (filter (\<lambda>e. \<not> skipped_name (de_name e)) es))"

definition dirs_of :: "(string \<times> dir_entry) list \<Rightarrow> string list" where
  "dirs_of xs = map fst (filter (\<lambda>x. de_type (snd x) = 4) xs)"

definition level_entries :: "tree \<Rightarrow> string \<Rightarrow> string list \<Rightarrow> (string \<times> dir_entry) list" where
  "level_entries R p dirs = concat (map (entries_of R p) dirs)"

primrec tree_level :: "tree \<Rightarrow> string \<Rightarrow> nat \<Rightarrow> (string \<times> dir_entry) list" where
  "tree_level R p 0 = level_entries R p [[]]"
| "tree_level R p (Suc k) = level_entries R p (dirs_of (tree_level R p k))"

text \<open>Offering a list to a visitor that does not look at the world, with a limit on how many.\<close>

datatype walk_end = WeAll | WeLimit | WeStop

fun offer ::
  "(string \<Rightarrow> dir_entry \<Rightarrow> 's \<Rightarrow> bool \<times> 's) \<Rightarrow> nat \<Rightarrow> (string \<times> dir_entry) list \<Rightarrow> nat \<Rightarrow> 's \<Rightarrow> walk_end \<times> nat \<times> 's" where
  "offer v limit [] n s = (WeAll, n, s)"
| "offer v limit (x # xs) n s =
     (if n \<ge> limit then (WeLimit, n, s)
      else (case v (fst x) (snd x) s of
              (go, s) \<Rightarrow> if go then offer v limit xs (n + 1) s else (WeStop, n + 1, s)))"

lemma offer_append:
  "offer v limit (xs @ ys) n s =
     (case offer v limit xs n s of (r, n', s') \<Rightarrow> if r = WeAll then offer v limit ys n' s' else (r, n', s'))"
  by (induction v limit xs n s rule: offer.induct) (auto split: prod.splits)

locale still_tree =
  fixes E :: "'w fs_env" and user :: string and R :: tree and alive :: "'w \<Rightarrow> bool"
    and L :: walk_limits and visit :: "('s, 'w) visitor" and v :: "string \<Rightarrow> dir_entry \<Rightarrow> 's \<Rightarrow> bool \<times> 's"
  assumes listing: "\<exists>w'. vfs_read_dir E user q False w = Some (R q, w')"
    and skippable: "R q = Inl e \<Longrightarrow> is_errno e [13, 1, 2, 20]"
    and awake: "alive w"
    and visiting: "\<exists>w'. visit rel x s w = (fst (v rel x s), snd (v rel x s), w')"
begin

text \<open>What a state becomes when the entries \<open>xs\<close> of a level were offered with result \<open>r\<close>.\<close>

definition offered :: "nat \<Rightarrow> (string \<times> dir_entry) list \<Rightarrow> 's walk_state \<Rightarrow> walk_end \<Rightarrow> 's walk_state \<Rightarrow> bool" where
  "offered depth xs st r st' \<longleftrightarrow>
     (r, ws_visited st', ws_visitor st') = offer v (wl_visit L) xs (ws_visited st) (ws_visitor st) \<and>
     ws_truncated st' = (ws_truncated st \<or> r = WeLimit) \<and>
     (r = WeAll \<longrightarrow>
       ws_next st' = (if depth < wl_depth L then ws_next st @ dirs_of xs else ws_next st) \<and>
       ws_deeper st' = (if depth < wl_depth L then ws_deeper st else ws_deeper st \<or> dirs_of xs \<noteq> []))"

lemma offered_Nil: "offered depth [] st WeAll st"
  by (simp add: offered_def dirs_of_def)

lemma offered_append:
  assumes "offered depth xs st WeAll st1" "offered depth ys st1 r st2"
  shows "offered depth (xs @ ys) st r st2"
proof -
  have a: "offer v (wl_visit L) xs (ws_visited st) (ws_visitor st) = (WeAll, ws_visited st1, ws_visitor st1)"
    using assms(1) by (simp add: offered_def)
  from assms show ?thesis
    unfolding offered_def offer_append a by (auto simp: dirs_of_def)
qed

lemma offered_stop:
  assumes "offered depth xs st r st1" "r \<noteq> WeAll"
  shows "offered depth (xs @ ys) st r st1"
proof -
  have a: "offer v (wl_visit L) xs (ws_visited st) (ws_visitor st) = (r, ws_visited st1, ws_visitor st1)"
    using assms(1) by (simp add: offered_def)
  from assms show ?thesis unfolding offered_def offer_append a by simp
qed

lemma walk_entries_offers:
  "\<exists>r st' w'. walk_entries L depth visit dir es st w = (r = WeAll, st', w') \<and>
     offered depth (map (\<lambda>e. (rel_below dir (de_name e), e)) (filter (\<lambda>e. \<not> skipped_name (de_name e)) es)) st r st'"
proof (induction es arbitrary: st w)
  case Nil
  show ?case using offered_Nil[of depth st] by auto
next
  case (Cons e es)
  let ?map = "\<lambda>es. map (\<lambda>e. (rel_below dir (de_name e), e)) (filter (\<lambda>e. \<not> skipped_name (de_name e)) es)"
  let ?rel = "rel_below dir (de_name e)"
  show ?case
  proof (cases "skipped_name (de_name e)")
    case True
    with Cons[of st w] show ?thesis by simp
  next
    case name: False
    show ?thesis
    proof (cases "ws_visited st \<ge> wl_visit L")
      case True
      with name have w: "walk_entries L depth visit dir (e # es) st w = (False, st\<lparr>ws_truncated := True\<rparr>, w)" by simp
      have "offered depth (?map (e # es)) st WeLimit (st\<lparr>ws_truncated := True\<rparr>)"
        using True name by (simp add: offered_def)
      with w show ?thesis by (intro exI[of _ WeLimit]) simp
    next
      case room: False
      obtain go s where v: "v ?rel e (ws_visitor st) = (go, s)" by fastforce
      obtain w1 where vis: "visit ?rel e (ws_visitor st) w = (go, s, w1)"
        using visiting[of ?rel e "ws_visitor st" w] v by auto
      show ?thesis
      proof (cases go)
        case False
        let ?st = "st\<lparr>ws_visited := ws_visited st + 1, ws_visitor := s\<rparr>"
        have "walk_entries L depth visit dir (e # es) st w = (False, ?st, w1)"
          using name room vis False by (simp add: Let_def)
        moreover have "offered depth (?map (e # es)) st WeStop ?st"
          using name room v False by (simp add: offered_def)
        ultimately show ?thesis by (intro exI[of _ WeStop]) simp
      next
        case True
        let ?st0 = "st\<lparr>ws_visited := ws_visited st + 1, ws_visitor := s\<rparr>"
        let ?st = "if de_type e = 4 then (if depth < wl_depth L then ?st0\<lparr>ws_next := ws_next st @ [?rel]\<rparr>
            else ?st0\<lparr>ws_deeper := True\<rparr>) else ?st0"
        have step: "walk_entries L depth visit dir (e # es) st w = walk_entries L depth visit dir es ?st w1"
          using name room vis True by (simp add: Let_def)
        have one: "offered depth [(?rel, e)] st WeAll ?st"
          using room v True by (simp add: offered_def dirs_of_def)
        from Cons[of ?st w1] obtain r st' w' where
          "walk_entries L depth visit dir es ?st w1 = (r = WeAll, st', w')" "offered depth (?map es) ?st r st'" by blast
        with step offered_append[OF one] name show ?thesis by fastforce
      qed
    qed
  qed
qed

lemma walk_level_offers:
  "\<exists>r st' w'. walk_level E alive user p L visit depth dirs st w = Some (Inr (r = WeAll), st', w') \<and>
     offered depth (level_entries R p dirs) st r st'"
proof (induction dirs arbitrary: st w)
  case Nil
  show ?case using offered_Nil[of depth st] by (auto simp: level_entries_def)
next
  case (Cons dir dirs)
  let ?q = "if dir \<noteq> [] then p @ ''/'' @ dir else p"
  obtain w1 where l: "vfs_read_dir E user ?q False w = Some (R ?q, w1)" using listing by blast
  have le: "level_entries R p (dir # dirs) = entries_of R p dir @ level_entries R p dirs"
    by (simp add: level_entries_def)
  show ?case
  proof (cases "R ?q")
    case (Inl e)
    then have "entries_of R p dir = []" by (simp add: entries_of_def)
    moreover have "walk_level E alive user p L visit depth (dir # dirs) st w = walk_level E alive user p L visit depth dirs st w1"
      using l Inl skippable[OF Inl] awake by simp
    ultimately show ?thesis using Cons[of st w1] le by simp
  next
    case (Inr es)
    have ent: "entries_of R p dir = map (\<lambda>e. (rel_below dir (de_name e), e)) (filter (\<lambda>e. \<not> skipped_name (de_name e)) es)"
      using Inr by (simp add: entries_of_def)
    from walk_entries_offers[of depth dir es st w1] obtain r st1 w2 where
      e: "walk_entries L depth visit dir es st w1 = (r = WeAll, st1, w2)" "offered depth (entries_of R p dir) st r st1"
      unfolding ent by blast
    show ?thesis
    proof (cases "r = WeAll")
      case True
      then have step: "walk_level E alive user p L visit depth (dir # dirs) st w = walk_level E alive user p L visit depth dirs st1 w2"
        using l Inr e(1) awake by simp
      from Cons[of st1 w2] obtain r' st2 w3 where
        "walk_level E alive user p L visit depth dirs st1 w2 = Some (Inr (r' = WeAll), st2, w3)"
        "offered depth (level_entries R p dirs) st1 r' st2" by blast
      with step offered_append[OF e(2)[unfolded True]] le show ?thesis by metis
    next
      case False
      then have "walk_level E alive user p L visit depth (dir # dirs) st w = Some (Inr (r = WeAll), st1, w2)"
        using l Inr e(1) awake by simp
      with offered_stop[OF e(2) False] le show ?thesis by metis
    qed
  qed
qed

definition level_dirs :: "string \<Rightarrow> nat \<Rightarrow> string list" where
  "level_dirs p k = (case k of 0 \<Rightarrow> [[]] | Suc j \<Rightarrow> dirs_of (tree_level R p j))"

lemma tree_level_dirs: "tree_level R p k = level_entries R p (level_dirs p k)"
  by (cases k) (simp_all add: level_dirs_def)

lemma level_dirs_Suc: "level_dirs p (Suc k) = dirs_of (tree_level R p k)"
  by (simp add: level_dirs_def)

lemma tree_level_empty: "level_dirs p k = [] \<Longrightarrow> k \<le> j \<Longrightarrow> tree_level R p j = []"
proof (induction j)
  case 0
  then show ?case by (simp add: level_dirs_def)
next
  case (Suc j)
  show ?case
  proof (cases "k = Suc j")
    case True
    with Suc(2) show ?thesis by (simp add: level_dirs_Suc level_entries_def)
  next
    case False
    with Suc have "tree_level R p j = []" by simp
    then show ?thesis by (simp add: dirs_of_def level_entries_def)
  qed
qed

lemma walk_depths_offers:
  assumes "k + n = wl_depth L + 1"
  shows "\<exists>r st' w'. walk_depths n E alive user p L visit k (level_dirs p k) st w = Some (None, st', w') \<and>
     (r, ws_visited st', ws_visitor st') =
       offer v (wl_visit L) (concat (map (tree_level R p) [k..<k + n])) (ws_visited st) (ws_visitor st) \<and>
     ws_truncated st' = (ws_truncated st \<or> r = WeLimit \<or>
       r = WeAll \<and> 0 < n \<and> dirs_of (tree_level R p (wl_depth L)) \<noteq> [])"
  using assms
proof (induction n arbitrary: k st w)
  case 0
  show ?case by (intro exI[of _ WeAll]) simp
next
  case (Suc n)
  show ?case
  proof (cases "level_dirs p k = []")
    case True
    have e: "tree_level R p j = []" if "k \<le> j" for j by (rule tree_level_empty[OF True that])
    then have "map (tree_level R p) [k..<k + Suc n] = map (\<lambda>_. []) [k..<k + Suc n]"
      by (intro map_cong) auto
    then have c: "concat (map (tree_level R p) [k..<k + Suc n]) = []" by (simp add: concat_eq_Nil_conv)
    have "tree_level R p (wl_depth L) = []" using e Suc.prems by simp
    then show ?thesis unfolding c using True by (intro exI[of _ WeAll]) (simp add: dirs_of_def)
  next
    case False
    let ?st = "st\<lparr>ws_next := [], ws_deeper := False\<rparr>"
    from walk_level_offers[of p k "level_dirs p k" ?st w] obtain r st1 w1 where
      l: "walk_level E alive user p L visit k (level_dirs p k) ?st w = Some (Inr (r = WeAll), st1, w1)"
        "offered k (tree_level R p k) ?st r st1"
      unfolding tree_level_dirs by blast
    have split: "concat (map (tree_level R p) [k..<k + Suc n]) =
        tree_level R p k @ concat (map (tree_level R p) [Suc k..<Suc k + n])"
    proof -
      have "[k..<k + Suc n] = k # [Suc k..<Suc k + n]" using upt_conv_Cons[of k "k + Suc n"] by (simp del: upt_Suc)
      then show ?thesis by (simp del: upt_Suc)
    qed
    have o: "offer v (wl_visit L) (tree_level R p k) (ws_visited st) (ws_visitor st) = (r, ws_visited st1, ws_visitor st1)"
      "ws_truncated st1 = (ws_truncated st \<or> r = WeLimit)"
      using l(2) by (simp_all add: offered_def)
    show ?thesis
    proof (cases "r = WeAll")
      case stop: False
      then have "walk_depths (Suc n) E alive user p L visit k (level_dirs p k) st w = Some (None, st1, w1)"
        using False l(1) by simp
      moreover have "offer v (wl_visit L) (concat (map (tree_level R p) [k..<k + Suc n])) (ws_visited st) (ws_visitor st) =
          (r, ws_visited st1, ws_visitor st1)"
        unfolding split offer_append o(1) using stop by simp
      ultimately show ?thesis using o(2) stop by (intro exI[of _ r] exI[of _ st1] exI[of _ w1]) auto
    next
      case all: True
      let ?st1 = "if ws_deeper st1 then st1\<lparr>ws_truncated := True\<rparr> else st1"
      have step: "walk_depths (Suc n) E alive user p L visit k (level_dirs p k) st w =
          walk_depths n E alive user p L visit (Suc k) (ws_next ?st1) ?st1 w1"
        using False l(1) all by (simp add: Let_def)
      have same: "ws_visited ?st1 = ws_visited st1" "ws_visitor ?st1 = ws_visitor st1" by simp_all
      show ?thesis
      proof (cases "k < wl_depth L")
        case True
        with l(2) all have nx: "ws_next ?st1 = level_dirs p (Suc k)" "\<not> ws_deeper st1"
          by (simp_all add: offered_def level_dirs_Suc)
        from True Suc.prems have n: "0 < n" "Suc k + n = wl_depth L + 1" by simp_all
        from Suc.IH[OF n(2), of ?st1 w1] obtain r' st2 w2 where
          r: "walk_depths n E alive user p L visit (Suc k) (level_dirs p (Suc k)) ?st1 w1 = Some (None, st2, w2)"
            "(r', ws_visited st2, ws_visitor st2) =
               offer v (wl_visit L) (concat (map (tree_level R p) [Suc k..<Suc k + n])) (ws_visited st1) (ws_visitor st1)"
            "ws_truncated st2 = (ws_truncated ?st1 \<or> r' = WeLimit \<or>
               r' = WeAll \<and> 0 < n \<and> dirs_of (tree_level R p (wl_depth L)) \<noteq> [])"
          unfolding same by blast
        have "offer v (wl_visit L) (concat (map (tree_level R p) [k..<k + Suc n])) (ws_visited st) (ws_visitor st) =
            (r', ws_visited st2, ws_visitor st2)"
          unfolding split offer_append o(1) using all r(2) by simp
        with step nx r(1,3) o(2) all n(1) show ?thesis
          by (intro exI[of _ r'] exI[of _ st2] exI[of _ w2]) auto
      next
        case bottom: False
        with Suc.prems have n: "n = 0" "k = wl_depth L" by simp_all
        with l(2) all have d: "ws_deeper st1 = (dirs_of (tree_level R p (wl_depth L)) \<noteq> [])"
          by (simp add: offered_def)
        have "walk_depths (Suc n) E alive user p L visit k (level_dirs p k) st w = Some (None, ?st1, w1)"
          using step by (simp only: n(1) walk_depths.simps(1))
        moreover have "offer v (wl_visit L) (concat (map (tree_level R p) [k..<k + Suc n])) (ws_visited st) (ws_visitor st) =
            (WeAll, ws_visited ?st1, ws_visitor ?st1)"
          unfolding split offer_append o(1) using all n by simp
        ultimately show ?thesis using o(2) all d by (intro exI[of _ WeAll] exI[of _ ?st1] exI[of _ w1]) auto
      qed
    qed
  qed
qed

lemma walk_offers:
  "\<exists>r st' w'. vfs_walk E alive user p L visit s w = Some (None, st', w') \<and>
     (r, ws_visited st', ws_visitor st') =
       offer v (wl_visit L) (concat (map (tree_level R p) [0..<wl_depth L + 1])) 0 s \<and>
     ws_truncated st' = (r = WeLimit \<or> r = WeAll \<and> dirs_of (tree_level R p (wl_depth L)) \<noteq> [])"
proof -
  have "level_dirs p 0 = [[]]" by (simp add: level_dirs_def)
  with walk_depths_offers[of 0 "wl_depth L + 1" p
      "\<lparr>ws_visited = 0, ws_truncated = False, ws_next = [], ws_deeper = False, ws_visitor = s\<rparr>" w]
  show ?thesis by (simp add: vfs_walk_def)
qed

end

section \<open>Bounds of the walk\<close>

text \<open>
  For any file layer: the walk visits no more than its limit, returns when its listings do, and keeps
  what the visitor keeps. \<open>J\<close> holds while the visitor wants more, \<open>I\<close> always.
\<close>

locale bounded_walk =
  fixes L :: walk_limits and visit :: "('s, 'w) visitor" and I J :: "'s \<Rightarrow> bool"
  assumes weaker: "J s \<Longrightarrow> I s"
    and visit_keeps: "J s \<Longrightarrow> visit rel x s w = (go, s', w') \<Longrightarrow> I s' \<and> (go \<longrightarrow> J s')"
begin

definition within :: "bool \<Rightarrow> 's walk_state \<Rightarrow> bool" where
  "within go st \<longleftrightarrow> ws_visited st \<le> wl_visit L \<and> I (ws_visitor st) \<and> (go \<longrightarrow> J (ws_visitor st))"

lemma within_step:
  "within True st \<Longrightarrow> ws_visited st' = ws_visited st \<Longrightarrow> ws_visitor st' = ws_visitor st \<Longrightarrow> within go st'"
  by (simp add: within_def)

lemma walk_entries_within:
  "walk_entries L depth visit dir es st w = (go, st', w') \<Longrightarrow> within True st \<Longrightarrow> within go st'"
proof (induction es arbitrary: st w)
  case Nil
  then show ?case by simp
next
  case (Cons e es)
  let ?rel = "rel_below dir (de_name e)"
  obtain g s w1 where v: "visit ?rel e (ws_visitor st) w = (g, s, w1)" by (metis prod.collapse)
  have s: "I s \<and> (g \<longrightarrow> J s)" using visit_keeps[OF _ v] Cons.prems(2) by (simp add: within_def)
  show ?case
  proof (cases "skipped_name (de_name e) \<or> ws_visited st \<ge> wl_visit L \<or> \<not> g")
    case True
    then show ?thesis
      using Cons.IH[of st w] Cons.prems v s by (auto simp: Let_def within_def split: if_splits)
  next
    case False
    let ?st0 = "st\<lparr>ws_visited := ws_visited st + 1, ws_visitor := s\<rparr>"
    let ?st = "if de_type e = 4 then (if depth < wl_depth L then ?st0\<lparr>ws_next := ws_next st @ [?rel]\<rparr>
        else ?st0\<lparr>ws_deeper := True\<rparr>) else ?st0"
    have "walk_entries L depth visit dir es ?st w1 = (go, st', w')"
      using False Cons.prems(1) v by (auto simp: Let_def split: if_splits)
    moreover have "within True ?st" using False s by (simp add: within_def)
    ultimately show ?thesis by (rule Cons.IH)
  qed
qed

lemma walk_level_within:
  "walk_level E alive user p L visit depth dirs st w = Some (r, st', w') \<Longrightarrow> within True st \<Longrightarrow> within (r = Inr True) st'"
proof (induction dirs arbitrary: st w)
  case Nil
  then show ?case by simp
next
  case (Cons dir dirs)
  show ?case
  proof (cases "alive w")
    case False
    with Cons.prems show ?thesis by (auto simp: within_def)
  next
    case True
    let ?q = "if dir \<noteq> [] then p @ ''/'' @ dir else p"
    from Cons.prems(1) True obtain x w1 where l: "vfs_read_dir E user ?q False w = Some (x, w1)"
      by (cases "vfs_read_dir E user ?q False w") auto
    show ?thesis
    proof (cases x)
      case (Inl e)
      with Cons l True show ?thesis by (auto simp: within_def split: if_splits)
    next
      case (Inr es)
      obtain g st1 w2 where e: "walk_entries L depth visit dir es st w1 = (g, st1, w2)" by (metis prod.collapse)
      from walk_entries_within[OF e Cons.prems(2)] have "within g st1" .
      with Cons.IH[of st1 w2] Cons.prems(1) l True Inr e show ?thesis by (cases g) auto
    qed
  qed
qed

lemma walk_depths_within:
  "walk_depths n E alive user p L visit depth level st w = Some (err, st', w') \<Longrightarrow> within True st \<Longrightarrow> within False st'"
proof (induction n arbitrary: depth level st w)
  case 0
  then show ?case by (simp add: within_def)
next
  case (Suc n)
  show ?case
  proof (cases "level = []")
    case True
    with Suc.prems show ?thesis by (simp add: within_def)
  next
    case False
    let ?st = "st\<lparr>ws_next := [], ws_deeper := False\<rparr>"
    have st: "within True ?st" using Suc.prems(2) by (rule within_step) simp_all
    from Suc.prems(1) False obtain r st1 w1 where l: "walk_level E alive user p L visit depth level ?st w = Some (r, st1, w1)"
      by (cases "walk_level E alive user p L visit depth level ?st w") auto
    from walk_level_within[OF l st] have st1: "within (r = Inr True) st1" .
    show ?thesis
    proof (cases "r = Inr True")
      case True
      let ?st1 = "if ws_deeper st1 then st1\<lparr>ws_truncated := True\<rparr> else st1"
      have "walk_depths n E alive user p L visit (depth + 1) (ws_next ?st1) ?st1 w1 = Some (err, st', w')"
        using Suc.prems(1) False l True by (simp add: Let_def)
      moreover have "within True ?st1" using st1 True by (simp add: within_def)
      ultimately show ?thesis by (rule Suc.IH)
    next
      case stop: False
      then have "st' = st1" using Suc.prems(1) False l by (cases r) auto
      with st1 show ?thesis by (simp add: within_def)
    qed
  qed
qed

lemma walk_within:
  assumes "vfs_walk E alive user p L visit s w = Some (err, st, w')" "J s"
  shows "ws_visited st \<le> wl_visit L \<and> I (ws_visitor st)"
proof -
  have "within True \<lparr>ws_visited = 0, ws_truncated = False, ws_next = [], ws_deeper = False, ws_visitor = s\<rparr>"
    using assms(2) weaker by (simp add: within_def)
  with walk_depths_within assms(1) have "within False st" unfolding vfs_walk_def by blast
  then show ?thesis by (simp add: within_def)
qed

end

lemma walk_level_returns:
  assumes "\<And>q w. vfs_read_dir E user q False w \<noteq> None"
  shows "walk_level E alive user p L visit depth dirs st w \<noteq> None"
proof (induction dirs arbitrary: st w)
  case (Cons dir dirs)
  obtain x w1 where "vfs_read_dir E user (if dir \<noteq> [] then p @ ''/'' @ dir else p) False w = Some (x, w1)"
    using assms by fastforce
  then show ?case using Cons by (auto split: sum.splits prod.splits)
qed simp

lemma walk_depths_returns:
  assumes "\<And>q w. vfs_read_dir E user q False w \<noteq> None"
  shows "walk_depths n E alive user p L visit depth level st w \<noteq> None"
proof (induction n arbitrary: depth level st w)
  case (Suc n)
  obtain r st1 w1 where
    "walk_level E alive user p L visit depth level (st\<lparr>ws_next := [], ws_deeper := False\<rparr>) w = Some (r, st1, w1)"
    using walk_level_returns[OF assms] by fastforce
  then show ?case using Suc by (cases r) (auto simp: Let_def)
qed simp

section \<open>The stream\<close>

definition hit_ok :: "unicode \<Rightarrow> needle \<Rightarrow> search_hit \<Rightarrow> bool" where
  "hit_ok U n h \<longleftrightarrow> (\<exists>name. sh_name h = fo_nfc (fold_of U name) \<and> name_matches (fold_of U name) n \<and>
     (\<exists>hay \<in> {fo_fold (fold_of U name), fo_lead (fold_of U name)}. embeds hay (ne_text n) (sh_pos h)) \<and>
     (length (ne_text n) < short_query \<longrightarrow> contiguous (sh_pos h)))"

definition sent_lines :: "'w search_env \<Rightarrow> needle \<Rightarrow> nat \<Rightarrow> search_state \<Rightarrow> bool" where
  "sent_lines Q n limit s \<longleftrightarrow> sr_sent s \<le> limit \<and>
     (\<exists>hits. sr_lines s = map SlHit hits \<and> length hits = sr_sent s \<and> (\<forall>h \<in> set hits. hit_ok (sq_unicode Q) n h))"

lemma sent_lines_flush [simp]: "sent_lines Q n limit (fst (search_flush Q s w)) = sent_lines Q n limit s"
  by (simp add: search_flush_def sent_lines_def)

lemma sent_lines_more:
  assumes "sent_lines Q n limit s" "hit_ok (sq_unicode Q) n h"
    and "sr_sent s' = sr_sent s + 1" "sr_lines s' = sr_lines s @ [SlHit h]"
  shows "sent_lines Q n (limit + 1) s'"
proof -
  from assms(1) obtain hits where "sr_lines s = map SlHit hits" "length hits = sr_sent s" "\<forall>h \<in> set hits. hit_ok (sq_unicode Q) n h"
    by (auto simp: sent_lines_def)
  then have "sr_lines s' = map SlHit (hits @ [h])" "length (hits @ [h]) = sr_sent s'" "\<forall>h \<in> set (hits @ [h]). hit_ok (sq_unicode Q) n h"
    using assms(2-4) by auto
  then show ?thesis using assms(1,3) unfolding sent_lines_def by (metis add_le_mono1)
qed

lemma visitor_keeps:
  assumes v: "search_visitor Q n rel e s w = (go, s', w')" and s: "sent_lines Q n 999 s"
  shows "sent_lines Q n 1000 s' \<and> (go \<longrightarrow> sent_lines Q n 999 s')"
proof -
  have weak: "sent_lines Q n 1000 x" if "sent_lines Q n 999 x" for x using that by (simp add: sent_lines_def)
  have eq: "sent_lines Q n m (x\<lparr>sr_failed := f\<rparr>) = sent_lines Q n m x" for m x f by (simp add: sent_lines_def)
  let ?f = "fold_of (sq_unicode Q) (de_name e)"
  show ?thesis
  proof (cases "fuzzy_score ?f n")
    case None
    with v s weak show ?thesis by (auto simp: search_visitor_def)
  next
    case (Some m)
    let ?h = "\<lparr>sh_path = rel, sh_name = fo_nfc ?f, sh_dir = (de_type e = 4), sh_score = fm_score m, sh_pos = fm_pos m\<rparr>"
    show ?thesis
    proof (cases "length (ne_text n) < short_query \<and> \<not> contiguous (fm_pos m)")
      case True
      with v s weak Some show ?thesis by (auto simp: search_visitor_def)
    next
      case False
      from fuzzy_score_spec[of ?f n] Some have "name_matches ?f n \<and>
          (\<exists>hay \<in> {fo_fold ?f, fo_lead ?f}. embeds hay (ne_text n) (fm_pos m))" by auto
      with False have ok: "hit_ok (sq_unicode Q) n ?h" unfolding hit_ok_def by (intro exI[of _ "de_name e"]) simp
      obtain b w1 where enc: "sq_encode Q (SlHit ?h) w = (b, w1)" by fastforce
      show ?thesis
      proof (cases b)
        case gone: False
        with v Some False enc s weak eq show ?thesis by (auto simp: search_visitor_def)
      next
        case there: True
        let ?s = "s\<lparr>sr_sent := sr_sent s + 1, sr_pending := sr_pending s + 1, sr_lines := sr_lines s @ [SlHit ?h]\<rparr>"
        obtain s2 w2 where fl: "(if sr_pending ?s \<ge> batch_size \<or> sq_now Q w1 - sr_last_flush ?s \<ge> batch_wait
            then search_flush Q ?s w1 else (?s, w1)) = (s2, w2)" by fastforce
        have same: "sr_sent s2 = sr_sent ?s" "sr_lines s2 = sr_lines ?s"
          using fl by (auto simp: search_flush_def split: if_splits)
        have r: "(go, s', w') = (sr_sent s2 < search_matches, s2, w2)"
          using v Some False enc there fl
          by (cases "batch_size \<le> Suc (sr_pending s) \<or> batch_wait \<le> sq_now Q w1 - sr_last_flush s")
            (auto simp: search_visitor_def Let_def)
        have "sent_lines Q n (999 + 1) s2"
          by (rule sent_lines_more[OF s ok]) (use same in simp_all)
        with r same show ?thesis by (auto simp: sent_lines_def search_matches_def)
      qed
    qed
  qed
qed

interpretation search_walk: bounded_walk "\<lparr>wl_depth = search_depth, wl_visit = search_visit\<rparr>" "search_visitor Q n"
  "sent_lines Q n 1000" "sent_lines Q n 999" for Q n
  by unfold_locales (simp add: sent_lines_def, rule visitor_keeps)

section \<open>A tree in memory\<close>

definition tree_env :: "(string \<Rightarrow> dir_entry list option) \<Rightarrow> 'w fs_env" where
  "tree_env T = \<lparr>fe_do = (\<lambda>u req w. (Inr (case T (rq_path req) of
        None \<Rightarrow> \<lparr>rs_id = 0, rs_has = 0, rs_errno = 13, rs_stat = None, rs_entries = [], rs_value = []\<rparr>
      | Some es \<Rightarrow> \<lparr>rs_id = 0, rs_has = HasEntries, rs_errno = 0,
          rs_stat = Some \<lparr>st_mode = 0x41F8, st_uid = 1, st_gid = 1, st_size = 0, st_mtime_sec = 0, st_mtime_nsec = 0,
            st_ino = 1, st_nlink = 1\<rparr>, rs_entries = es, rs_value = []\<rparr>, 0), w)),
     fe_reroute = None, fe_now = (\<lambda>w. (0, w)), fe_random = (\<lambda>w. (Inr [], w)),
     fe_copy = (\<lambda>h w. (None, w)), fe_sync = (\<lambda>h w. (None, w)), fe_close = (\<lambda>h w. (None, w)), fe_record = None\<rparr>"

definition tree_lists :: "(string \<Rightarrow> dir_entry list option) \<Rightarrow> tree" where
  "tree_lists T q = (case T q of None \<Rightarrow> Inl (ErrnoErr ''readdir'' q 13) | Some es \<Rightarrow> Inr es)"

lemma tree_read_dir: "vfs_read_dir (tree_env T) user q ws w = Some (tree_lists T q, w)"
  unfolding vfs_read_dir_def
  by (subst read_dir_from.simps) (simp add: fs_do_def tree_env_def tree_lists_def mk_request_def resp_ok_def
      split: option.splits)

interpretation memory_tree: still_tree "tree_env T" user "tree_lists T" "\<lambda>_. True" L
  "\<lambda>rel e s w. (fst (v rel e s), snd (v rel e s), w)" v for T user L v
  by unfold_locales (auto simp: tree_read_dir tree_lists_def is_errno_def split: option.splits)

text \<open>
  C30: The bounded walk is a breadth-first listing. For a tree that does not change while it is walked,
  whose unreadable directories are the ones passed over, and a context that is not cancelled, the
  entries offered to the visitor are those of the levels of the tree one after the other, each level
  in the order of its directories, without temporary files and trash, until the visitor stops or the
  limit is reached. The result counts exactly the entries offered, and says truncated exactly when the
  limit cut the walk short or a directory at the deepest level was not entered.
\<close>

theorem walk_is_breadth_first:
  assumes "\<And>q w. \<exists>w'. vfs_read_dir E user q False w = Some (R q, w')"
    and "\<And>q e. R q = Inl e \<Longrightarrow> is_errno e [13, 1, 2, 20]"
    and "\<And>w. alive w"
    and "\<And>rel x s w. \<exists>w'. visit rel x s w = (fst (v rel x s), snd (v rel x s), w')"
  shows "case offer v (wl_visit L) (concat (map (tree_level R p) [0..<wl_depth L + 1])) 0 s of
    (r, n, s') \<Rightarrow> \<exists>st w'. vfs_walk E alive user p L visit s w = Some (None, st, w') \<and>
      ws_visited st = n \<and> ws_visitor st = s' \<and>
      ws_truncated st = (r = WeLimit \<or> r = WeAll \<and> dirs_of (tree_level R p (wl_depth L)) \<noteq> [])"
proof -
  have "still_tree E user R alive visit v"
  proof (rule still_tree.intro)
    show "\<exists>w'. vfs_read_dir E user q False w = Some (R q, w')" for q w by (rule assms(1))
    show "is_errno e [13, 1, 2, 20]" if "R q = Inl e" for q e using that by (rule assms(2))
    show "alive w" for w by (rule assms(3))
    show "\<exists>w'. visit rel x s w = (fst (v rel x s), snd (v rel x s), w')" for rel x s w by (rule assms(4))
  qed
  from still_tree.walk_offers[OF this, of p L s w] obtain r st w' where
    "vfs_walk E alive user p L visit s w = Some (None, st, w')"
    "(r, ws_visited st, ws_visitor st) = offer v (wl_visit L) (concat (map (tree_level R p) [0..<wl_depth L + 1])) 0 s"
    "ws_truncated st = (r = WeLimit \<or> r = WeAll \<and> dirs_of (tree_level R p (wl_depth L)) \<noteq> [])"
    by (elim exE conjE)
  then show ?thesis by (auto split: prod.splits simp del: upt_Suc)
qed

text \<open>A directory with a file, a subdirectory, a crashed upload and a trash, walked one level deep and no deeper.\<close>

definition sample_tree :: "string \<Rightarrow> dir_entry list option" where
  "sample_tree q =
     (if q = ''d'' then Some [\<lparr>de_name = ''x'', de_type = 8, de_stat = None\<rparr>, \<lparr>de_name = ''sub'', de_type = 4, de_stat = None\<rparr>,
        \<lparr>de_name = ''.upload-q'', de_type = 8, de_stat = None\<rparr>, \<lparr>de_name = ''.trash'', de_type = 4, de_stat = None\<rparr>]
      else if q = ''d/sub'' then Some [\<lparr>de_name = ''y'', de_type = 8, de_stat = None\<rparr>] else None)"

definition collect :: "string \<Rightarrow> dir_entry \<Rightarrow> string list \<Rightarrow> bool \<times> string list" where
  "collect rel e s = (True, s @ [rel])"

lemma sample_levels:
  "tree_level (tree_lists sample_tree) ''d'' 0 = [(''x'', \<lparr>de_name = ''x'', de_type = 8, de_stat = None\<rparr>),
     (''sub'', \<lparr>de_name = ''sub'', de_type = 4, de_stat = None\<rparr>)]"
  "tree_level (tree_lists sample_tree) ''d'' 1 = [(''sub/y'', \<lparr>de_name = ''y'', de_type = 8, de_stat = None\<rparr>)]"
proof -
  show zero: "tree_level (tree_lists sample_tree) ''d'' 0 = [(''x'', \<lparr>de_name = ''x'', de_type = 8, de_stat = None\<rparr>),
     (''sub'', \<lparr>de_name = ''sub'', de_type = 4, de_stat = None\<rparr>)]"
    by (simp add: level_entries_def entries_of_def tree_lists_def sample_tree_def skipped_name_def is_temp_name_def
        tmp_prefix_def trash_dir_def rel_below_def)
  show "tree_level (tree_lists sample_tree) ''d'' 1 = [(''sub/y'', \<lparr>de_name = ''y'', de_type = 8, de_stat = None\<rparr>)]"
    using zero by (simp add: level_entries_def entries_of_def tree_lists_def sample_tree_def skipped_name_def is_temp_name_def
        tmp_prefix_def trash_dir_def rel_below_def dirs_of_def)
qed

lemma walk_is_breadth_first_witness:
  "\<exists>st w'. vfs_walk (tree_env sample_tree) (\<lambda>_. True) ''bo'' ''d'' \<lparr>wl_depth = 1, wl_visit = 9\<rparr>
       (\<lambda>rel e s w. (fst (collect rel e s), snd (collect rel e s), w)) [] (0 :: nat) = Some (None, st, w') \<and>
     ws_visited st = 3 \<and> ws_visitor st = [''x'', ''sub'', ''sub/y''] \<and> \<not> ws_truncated st"
proof -
  let ?v = "\<lambda>rel e s w. (fst (collect rel e s), snd (collect rel e s), w)"
  let ?L = "\<lparr>wl_depth = 1, wl_visit = 9\<rparr>"
  let ?xs = "concat (map (tree_level (tree_lists sample_tree) ''d'') [0..<wl_depth ?L + 1])"
  have "[0..<wl_depth ?L + 1] = [0, 1]" by (simp add: upt_rec)
  then have xs: "?xs = [(''x'', \<lparr>de_name = ''x'', de_type = 8, de_stat = None\<rparr>), (''sub'', \<lparr>de_name = ''sub'', de_type = 4, de_stat = None\<rparr>),
       (''sub/y'', \<lparr>de_name = ''y'', de_type = 8, de_stat = None\<rparr>)]"
    using sample_levels by (simp del: tree_level.simps)
  have o: "offer collect (wl_visit ?L) ?xs 0 [] = (WeAll, 3, [''x'', ''sub'', ''sub/y''])"
    unfolding xs by (simp add: collect_def)
  have d: "dirs_of (tree_level (tree_lists sample_tree) ''d'' (wl_depth ?L)) = []"
    using sample_levels(2) by (simp add: dirs_of_def del: tree_level.simps)
  have "case offer collect (wl_visit ?L) ?xs 0 [] of
    (r, n, s') \<Rightarrow> \<exists>st w'. vfs_walk (tree_env sample_tree) (\<lambda>_. True) ''bo'' ''d'' ?L ?v [] (0 :: nat) = Some (None, st, w') \<and>
      ws_visited st = n \<and> ws_visitor st = s' \<and>
      ws_truncated st = (r = WeLimit \<or> r = WeAll \<and> dirs_of (tree_level (tree_lists sample_tree) ''d'' (wl_depth ?L)) \<noteq> [])"
    by (rule walk_is_breadth_first) (auto simp: tree_read_dir tree_lists_def is_errno_def split: option.splits)
  then show ?thesis unfolding o d by simp
qed

lemma write_fs_error_status: "fst (write_fs_error e) \<noteq> 200"
  by (auto simp: write_fs_error_def write_error_def errno_status_def split: fs_error.splits)

text \<open>What a stream of a search is: hits, then at most the line that counts them.\<close>

definition stream_ok :: "'w search_env \<Rightarrow> string \<Rightarrow> search_line list \<Rightarrow> bool" where
  "stream_ok Q query lines \<longleftrightarrow>
     (\<exists>hits tail. lines = map SlHit hits @ tail \<and> length hits \<le> 1000 \<and>
       (\<forall>h \<in> set hits. hit_ok (sq_unicode Q) (needle_of (sq_unicode Q) query) h) \<and>
       (tail = [] \<or> (\<exists>visited truncated err. tail = [SlDone visited (length hits) truncated err] \<and>
          visited \<le> 20000 \<and> (length hits = 1000 \<longrightarrow> truncated))))"

lemma search_streams:
  assumes listing: "\<And>q w. vfs_read_dir (fx_fs (sq_srv Q)) user q False w \<noteq> None"
    and sta: "p \<noteq> []" "ne_text (needle_of (sq_unicode Q) query) \<noteq> []"
      "vfs_stat (fx_fs (sq_srv Q)) user p w = (Inr (Some sta), w1)" "stat_is_dir sta"
  shows "\<exists>lines v. handle_search Q user p query w = Some (Inr lines, v) \<and> stream_ok Q query lines"
proof -
  let ?n = "needle_of (sq_unicode Q) query" and ?E = "fx_fs (sq_srv Q)"
  let ?L = "\<lparr>wl_depth = search_depth, wl_visit = search_visit\<rparr>"
  let ?alive = "\<lambda>w. sq_alive Q w \<and> sq_now Q w < sq_now Q w1 + search_deadline"
  let ?s = "\<lparr>sr_sent = 0, sr_pending = 0, sr_last_flush = sq_now Q w1, sr_failed = False, sr_lines = []\<rparr>"
  have "vfs_walk ?E ?alive user p ?L (search_visitor Q ?n) ?s w1 \<noteq> None"
    unfolding vfs_walk_def by (rule walk_depths_returns[OF listing])
  then obtain err ws w2 where wk: "vfs_walk ?E ?alive user p ?L (search_visitor Q ?n) ?s w1 = Some (err, ws, w2)"
    by auto
  have "sent_lines Q ?n 999 ?s" by (simp add: sent_lines_def)
  from search_walk.walk_within[OF wk this] have
    vis: "ws_visited ws \<le> 20000" and sl: "sent_lines Q ?n 1000 (ws_visitor ws)"
    by (simp_all add: search_visit_def)
  from sl obtain hits where hits: "sr_lines (ws_visitor ws) = map SlHit hits" "length hits = sr_sent (ws_visitor ws)"
    "\<forall>h \<in> set hits. hit_ok (sq_unicode Q) ?n h" "length hits \<le> 1000"
    by (auto simp: sent_lines_def)
  let ?line = "SlDone (ws_visited ws) (sr_sent (ws_visitor ws))
      (ws_truncated ws \<or> sr_sent (ws_visitor ws) \<ge> search_matches) err"
  obtain ok w3 where enc: "sq_encode Q ?line w2 = (ok, w3)" by fastforce
  have "\<exists>v. handle_search Q user p query w =
      Some (Inr (map SlHit hits @ (if sr_failed (ws_visitor ws) \<or> \<not> ok then [] else [?line])), v)"
    using sta wk enc hits(1) by (simp add: handle_search_def Let_def search_flush_def)
  moreover have "stream_ok Q query (map SlHit hits @ (if sr_failed (ws_visitor ws) \<or> \<not> ok then [] else [?line]))"
    unfolding stream_ok_def
    by (rule exI[of _ hits], rule exI[of _ "if sr_failed (ws_visitor ws) \<or> \<not> ok then [] else [?line]"])
      (use hits(2-4) vis in \<open>simp add: search_matches_def\<close>)
  ultimately show ?thesis by blast
qed


definition sample_unicode :: unicode where
  "sample_unicode = \<lparr>un_nfc = (\<lambda>s. s), un_lower = (\<lambda>c. c)\<rparr>"

definition sample_search :: "nat search_env" where
  "sample_search = \<lparr>sq_srv = \<lparr>fx_fs = tree_env sample_tree, fx_anon = [], fx_admin = None\<rparr>,
     sq_unicode = sample_unicode, sq_alive = (\<lambda>_. True), sq_now = (\<lambda>_. 0),
     sq_encode = (\<lambda>_ w. (True, w + 1)), sq_flush = id\<rparr>"

definition y_needle :: needle where
  "y_needle = \<lparr>ne_text = [121], ne_try_lead = False\<rparr>"

definition y_hit :: search_hit where
  "y_hit = \<lparr>sh_path = ''sub/y'', sh_name = ''y'', sh_dir = False, sh_score = 11999, sh_pos = [0]\<rparr>"

lemma sample_search_unicode [simp]: "sq_unicode sample_search = sample_unicode"
  by (simp add: sample_search_def)

lemma y_needle: "needle_of sample_unicode ''y'' = y_needle"
proof -
  have "trim_space ''y'' = ''y''"
    by (simp add: trim_space_def drop_spaces.simps space_len_def space_runes_def byte_def char_of_eq_iff)
  moreover have "fuzzy_fold sample_unicode ''y'' = [121]"
    by (simp add: fuzzy_fold_def sample_unicode_def runes_of_def decode_rune_def)
  ultimately show ?thesis by (simp add: needle_of_def y_needle_def has_jamo_def)
qed

lemma y_folds:
  "fold_of sample_unicode ''x'' = \<lparr>fo_nfc = ''x'', fo_fold = [120], fo_lead = [120]\<rparr>"
  "fold_of sample_unicode ''sub'' = \<lparr>fo_nfc = ''sub'', fo_fold = [115, 117, 98], fo_lead = [115, 117, 98]\<rparr>"
  "fold_of sample_unicode ''y'' = \<lparr>fo_nfc = ''y'', fo_fold = [121], fo_lead = [121]\<rparr>"
  by (simp_all add: fold_of_def sample_unicode_def runes_of_def decode_rune_def lead_consonants_def Let_def)

lemma y_finds:
  "find_match [120] [121] = None" "find_match [115, 117, 98] [121] = None"
  "find_match [121] [121] = Some \<lparr>fm_score = 11999, fm_pos = [0]\<rparr>"
  by code_simp+

lemma y_scores:
  "fuzzy_score (fold_of sample_unicode ''x'') y_needle = None"
  "fuzzy_score (fold_of sample_unicode ''sub'') y_needle = None"
  "fuzzy_score (fold_of sample_unicode ''y'') y_needle = Some \<lparr>fm_score = 11999, fm_pos = [0]\<rparr>"
  "fo_nfc (fold_of sample_unicode ''y'') = ''y''"
  by (simp_all add: y_folds fuzzy_score_def y_needle_def y_finds)

lemma y_visits:
  "search_visitor sample_search y_needle rel \<lparr>de_name = ''x'', de_type = t, de_stat = None\<rparr> s w = (True, s, w)"
  "search_visitor sample_search y_needle rel \<lparr>de_name = ''sub'', de_type = t, de_stat = None\<rparr> s w = (True, s, w)"
  "search_visitor sample_search y_needle ''sub/y'' \<lparr>de_name = ''y'', de_type = 8, de_stat = None\<rparr>
     \<lparr>sr_sent = 0, sr_pending = 0, sr_last_flush = 0, sr_failed = False, sr_lines = []\<rparr> w =
   (True, \<lparr>sr_sent = 1, sr_pending = 1, sr_last_flush = 0, sr_failed = False, sr_lines = [SlHit y_hit]\<rparr>, w + 1)"
  by (simp_all add: search_visitor_def y_scores)
    (simp add: sample_search_def y_needle_def short_query_def batch_size_def batch_wait_def search_matches_def y_hit_def)

lemma walk_depths_numeral:
  "walk_depths (numeral k) E alive user p L visit depth level st w =
     (if level = [] then Some (None, st, w)
      else
        (case walk_level E alive user p L visit depth level (st\<lparr>ws_next := [], ws_deeper := False\<rparr>) w of
           None \<Rightarrow> None
         | Some (Inl e, st, w) \<Rightarrow> Some (Some e, st, w)
         | Some (Inr go, st, w) \<Rightarrow>
             if \<not> go then Some (None, st, w)
             else
               (let st = (if ws_deeper st then st\<lparr>ws_truncated := True\<rparr> else st)
                in walk_depths (pred_numeral k) E alive user p L visit (depth + 1) (ws_next st) st w)))"
  by (simp only: numeral_eq_Suc walk_depths.simps)

lemma y_search:
  "handle_search sample_search ''bo'' ''d'' ''y'' 0 = Some (Inr [SlHit y_hit, SlDone 3 1 False None], 2)"
proof -
  have st: "vfs_stat (tree_env sample_tree) ''bo'' ''d'' w = (Inr (Some \<lparr>st_mode = 0x41F8, st_uid = 1, st_gid = 1,
      st_size = 0, st_mtime_sec = 0, st_mtime_nsec = 0, st_ino = 1, st_nlink = 1\<rparr>), w)" for w :: nat
    by (simp add: vfs_stat_def fs_do_def tree_env_def mk_request_def sample_tree_def resp_ok_def)
  have "vfs_walk (tree_env sample_tree) (\<lambda>_. True) ''bo'' ''d'' \<lparr>wl_depth = search_depth, wl_visit = search_visit\<rparr>
      (search_visitor sample_search y_needle)
      \<lparr>sr_sent = 0, sr_pending = 0, sr_last_flush = 0, sr_failed = False, sr_lines = []\<rparr> 0 =
    Some (None, \<lparr>ws_visited = 3, ws_truncated = False, ws_next = [], ws_deeper = False,
      ws_visitor = \<lparr>sr_sent = 1, sr_pending = 1, sr_last_flush = 0, sr_failed = False, sr_lines = [SlHit y_hit]\<rparr>\<rparr>, 1)"
    unfolding vfs_walk_def
    by (simp add: walk_depths_numeral tree_read_dir tree_lists_def sample_tree_def skipped_name_def is_temp_name_def tmp_prefix_def trash_dir_def
        rel_below_def y_visits search_visit_def search_depth_def)
  then show ?thesis
    using st by (simp add: handle_search_def y_needle)
      (simp add: sample_search_def y_needle_def stat_is_dir_def search_deadline_def second_def search_flush_def search_matches_def)
qed


end
