(* ===== verification/Calendar.thy ===== *)
theory Calendar
  imports GoTime "HOL-Library.List_Lexorder" "HOL-Library.Char_ord"
begin

text \<open>
  The calendar of \<open>GoTime\<close> keeps the order of time: later instants never have an earlier date, and
  for years of four digits the printed dates compare as strings the way the instants do. The
  activity log names its files by date and compares the names.
\<close>

section \<open>The date of a day\<close>

text \<open>The year of the era, counted from March, and the day the year starts with.\<close>

definition era_year :: "int \<Rightarrow> int" where
  "era_year doe = (doe - doe div 1460 + doe div 36524 - doe div 146096) div 365"

definition year_start :: "int \<Rightarrow> int" where
  "year_start y = 365 * y + y div 4 - y div 100"

lemma minus_div_mono:
  assumes "0 < (k :: int)" "a \<le> b" shows "a - a div k \<le> b - b div k"
proof -
  have "b \<le> a + (b - a) * k" using assms mult_left_mono[of 1 k "b - a"] by simp
  then have "b div k \<le> (a + (b - a) * k) div k" using assms(1) by (rule zdiv_mono1)
  also have "\<dots> = a div k + (b - a)" using assms(1) by simp
  finally show ?thesis by simp
qed

lemma era_year_mono:
  assumes "m \<le> n" shows "era_year m \<le> era_year n"
proof -
  have split: "x - x div 1460 + x div 36524 - x div 146096 =
      (x - x div 1460) + (x div 36524 - x div 36524 div 4)" for x :: int
    by (simp add: zdiv_zmult2_eq[symmetric])
  have "m div 36524 \<le> n div 36524" using assms by (rule zdiv_mono1) simp
  then have "m - m div 1460 + (m div 36524 - m div 36524 div 4) \<le> n - n div 1460 + (n div 36524 - n div 36524 div 4)"
    by (intro add_mono minus_div_mono assms) simp_all
  then show ?thesis unfolding era_year_def split by (rule zdiv_mono1) simp
qed

lemma div_eqI:
  assumes "k * q \<le> (x :: int)" "x < k * q + k" shows "x div k = q"
  using assms by (intro int_div_pos_eq[of x k q "x - k * q"]) simp_all

text \<open>A year \<open>100 c + 4 a + b\<close> of the era starts on that day, and the day before is in an earlier one.\<close>

lemma year_of_start:
  assumes "0 \<le> a" "a \<le> 24" "0 \<le> b" "b \<le> 3" "0 \<le> c" "c \<le> (3 :: int)"
  shows "era_year (36524 * c + 1461 * a + 365 * b) = 100 * c + 4 * a + b"
proof -
  let ?n = "36524 * c + 1461 * a + 365 * b"
  have "?n div 1460 = 25 * c + a" "?n div 36524 = c" "?n div 146096 = 0"
    using assms by (intro div_eqI; simp)+
  then show ?thesis by (simp add: era_year_def)
qed

lemma year_before_start:
  assumes "0 \<le> a" "a \<le> 24" "0 \<le> b" "b \<le> 3" "0 \<le> c" "c \<le> (3 :: int)" "0 < 100 * c + 4 * a + b"
  shows "era_year (36524 * c + 1461 * a + 365 * b - 1) < 100 * c + 4 * a + b"
proof -
  let ?n = "36524 * c + 1461 * a + 365 * b - 1"
  have "?n div 1460 = 25 * c + a" "?n div 146096 = 0" using assms by (intro div_eqI; simp)+
  moreover have "?n div 36524 \<le> c" using zdiv_mono1[of ?n "36524 * c + 36523" 36524] assms by simp
  ultimately have "?n - ?n div 1460 + ?n div 36524 - ?n div 146096 \<le> 365 * (100 * c + 4 * a + b) - 1" by simp
  from zdiv_mono1[OF this, of 365] show ?thesis unfolding era_year_def by simp
qed

lemma year_start_digits:
  assumes "0 \<le> a" "a \<le> 24" "0 \<le> b" "b \<le> 3"
  shows "year_start (100 * c + 4 * a + b) = 36524 * c + 1461 * a + 365 * b"
proof -
  have "(100 * c + 4 * a + b) div 4 = 25 * c + a" "(100 * c + 4 * a + b) div 100 = c"
    using assms by (intro div_eqI; simp)+
  then show ?thesis by (simp add: year_start_def)
qed

lemma era_year_starts:
  assumes "0 \<le> y" "y < 400"
  shows "era_year (year_start y) = y" "0 < y \<Longrightarrow> era_year (year_start y - 1) < y"
proof -
  let ?c = "y div 100" and ?a = "y mod 100 div 4" and ?b = "y mod 100 mod 4"
  have y: "100 * ?c + 4 * ?a + ?b = y" by simp
  have r: "0 \<le> ?a" "?a \<le> 24" "0 \<le> ?b" "?b \<le> 3" "0 \<le> ?c" "?c \<le> 3" using assms by simp_all
  show "era_year (year_start y) = y" using year_of_start[OF r] year_start_digits[OF r(1-4), of ?c] y by simp
  show "era_year (year_start y - 1) < y" if "0 < y"
    using year_before_start[OF r] year_start_digits[OF r(1-4), of ?c] y that by simp
qed

text \<open>So the day of the year is within a year.\<close>

lemma era_bounds:
  assumes "0 \<le> doe" "doe < 146097"
  shows "0 \<le> era_year doe" "era_year doe < 400"
    "year_start (era_year doe) \<le> doe" "doe \<le> year_start (era_year doe) + 365"
proof -
  have "era_year 0 = 0" "era_year 146096 = 399" by (simp_all add: era_year_def)
  then show y: "0 \<le> era_year doe" "era_year doe < 400"
    using era_year_mono[of 0 doe] era_year_mono[of doe 146096] assms by simp_all
  show "year_start (era_year doe) \<le> doe"
  proof (rule ccontr)
    assume "\<not> ?thesis"
    then have less: "doe \<le> year_start (era_year doe) - 1" by simp
    then have "era_year doe \<noteq> 0" using assms by (auto simp: year_start_def)
    then show False using era_year_mono[OF less] era_year_starts(2)[OF y] y by simp
  qed
  have step: "year_start (z + 1) \<le> year_start z + 366" for z
    using zdiv_mono1[of "z + 1" "z + 4" 4] zdiv_mono1[of z "z + 1" 100] by (simp add: year_start_def)
  show "doe \<le> year_start (era_year doe) + 365"
  proof (cases "era_year doe = 399")
    case True
    then show ?thesis using assms by (simp add: year_start_def)
  next
    case False
    have "doe < year_start (era_year doe + 1)"
    proof (rule ccontr)
      assume "\<not> ?thesis"
      then have "year_start (era_year doe + 1) \<le> doe" by simp
      then show False using era_year_mono[of "year_start (era_year doe + 1)" doe] era_year_starts(1)[of "era_year doe + 1"] y False
        by simp
    qed
    then show ?thesis using step[of "era_year doe"] by simp
  qed
qed

text \<open>Months are counted from March of the era's first year.\<close>

definition march_year :: "int \<Rightarrow> int" where
  "march_year n = era_year ((n + 306) mod 146097) + (n + 306) div 146097 * 400"

definition year_day :: "int \<Rightarrow> int" where
  "year_day n = (n + 306) mod 146097 - year_start (era_year ((n + 306) mod 146097))"

definition march_month :: "int \<Rightarrow> int" where
  "march_month n = (5 * year_day n + 2) div 153"

definition month_day :: "int \<Rightarrow> int" where
  "month_day n = year_day n - (153 * march_month n + 2) div 5 + 1"

lemma civil_of_days_parts:
  "civil_of_days n =
     (let m = (if march_month n < 10 then march_month n + 3 else march_month n - 9)
      in (march_year n + (if m \<le> 2 then 1 else 0), m, month_day n))"
  unfolding civil_of_days_def march_year_def march_month_def month_day_def year_day_def era_year_def
    year_start_def Let_def by (rule refl)

lemma year_day_bounds: "0 \<le> year_day n" "year_day n \<le> 365"
  using era_bounds[of "(n + 306) mod 146097"] by (simp_all add: year_day_def)

lemma march_month_bounds: "0 \<le> march_month n" "march_month n \<le> 11"
  using year_day_bounds[of n] zdiv_mono1[of "5 * year_day n + 2" 1827 153] by (simp_all add: march_month_def)

lemma month_day_bounds: "1 \<le> month_day n" "month_day n \<le> 31"
proof -
  let ?x = "5 * year_day n + 2" and ?m = "march_month n"
  have x: "153 * ?m \<le> ?x" "?x < 153 * ?m + 153"
    using div_mult_mod_eq[of ?x 153] pos_mod_bound[of 153 ?x] pos_mod_sign[of 153 ?x] by (simp_all add: march_month_def)
  define q where "q = (153 * ?m + 2) div 5"
  have q: "5 * q \<le> 153 * ?m + 2" "153 * ?m + 2 < 5 * q + 5"
    using div_mult_mod_eq[of "153 * ?m + 2" 5] pos_mod_bound[of 5 "153 * ?m + 2"] pos_mod_sign[of 5 "153 * ?m + 2"]
    by (simp_all add: q_def)
  from x q show "1 \<le> month_day n" "month_day n \<le> 31" by (simp_all add: month_day_def q_def[symmetric])
qed

lemma march_year_mono:
  assumes "m \<le> n" shows "march_year m \<le> march_year n"
proof (cases "(m + 306) div 146097 = (n + 306) div 146097")
  case True
  with assms have "(m + 306) mod 146097 \<le> (n + 306) mod 146097"
    using div_mult_mod_eq[of "m + 306" 146097] div_mult_mod_eq[of "n + 306" 146097] by linarith
  then show ?thesis using True era_year_mono by (simp add: march_year_def)
next
  case False
  have "(m + 306) div 146097 \<le> (n + 306) div 146097" using assms by (intro zdiv_mono1) simp_all
  with False have "(m + 306) div 146097 + 1 \<le> (n + 306) div 146097" by simp
  moreover have "era_year ((m + 306) mod 146097) < 400" "0 \<le> era_year ((n + 306) mod 146097)"
    by (rule era_bounds; simp)+
  ultimately show ?thesis by (simp add: march_year_def)
qed

lemma year_day_mono:
  assumes "m \<le> n" "march_year m = march_year n" shows "year_day m \<le> year_day n"
proof -
  have b: "0 \<le> era_year ((k + 306) mod 146097)" "era_year ((k + 306) mod 146097) < 400" for k
    by (rule era_bounds; simp)+
  have "(m + 306) div 146097 = (n + 306) div 146097"
    using assms(2) b[of m] b[of n] by (simp add: march_year_def)
  then have "(m + 306) mod 146097 \<le> (n + 306) mod 146097"
    using assms(1) div_mult_mod_eq[of "m + 306" 146097] div_mult_mod_eq[of "n + 306" 146097] by linarith
  moreover from \<open>(m + 306) div 146097 = (n + 306) div 146097\<close>
  have "era_year ((m + 306) mod 146097) = era_year ((n + 306) mod 146097)" using assms(2) by (simp add: march_year_def)
  ultimately have "(m + 306) mod 146097 \<le> (n + 306) mod 146097"
    "era_year ((m + 306) mod 146097) = era_year ((n + 306) mod 146097)" by simp_all
  then show ?thesis by (simp add: year_day_def)
qed

text \<open>Later days have later months, or the same month and no earlier day.\<close>

lemma civil_mono:
  assumes "n1 \<le> n2" "civil_of_days n1 = (y1, m1, d1)" "civil_of_days n2 = (y2, m2, d2)"
  shows "12 * y1 + m1 < 12 * y2 + m2 \<or> 12 * y1 + m1 = 12 * y2 + m2 \<and> d1 \<le> d2"
proof -
  have month: "12 * y + m = 12 * march_year n + march_month n + 3" "d = month_day n"
    if "civil_of_days n = (y, m, d)" for n y m d
    using that march_month_bounds[of n] by (auto simp: civil_of_days_parts Let_def split: if_splits)
  show ?thesis
  proof (cases "march_year n1 = march_year n2")
    case False
    then show ?thesis using march_year_mono[OF assms(1)] month[OF assms(2)] month[OF assms(3)]
        march_month_bounds[of n1] march_month_bounds[of n2] by simp
  next
    case True
    note day = year_day_mono[OF assms(1) True]
    then have "march_month n1 \<le> march_month n2" unfolding march_month_def by (intro zdiv_mono1) simp_all
    then show ?thesis using True day month[OF assms(2)] month[OF assms(3)] by (auto simp: month_day_def)
  qed
qed

lemma civil_bounds: "civil_of_days n = (y, m, d) \<Longrightarrow> 1 \<le> m \<and> m \<le> 12 \<and> 1 \<le> d \<and> d \<le> 31"
  using march_month_bounds[of n] month_day_bounds[of n] by (auto simp: civil_of_days_parts Let_def split: if_splits)

text \<open>The days of the calendar are those from the first of January of the year 1.\<close>

lemma civil_year_pos:
  assumes "0 \<le> n" "civil_of_days n = (y, m, d)" shows "1 \<le> y"
proof -
  have "civil_of_days 0 = (1, 1, 1)" by code_simp
  from civil_mono[OF assms(1) this assms(2)] civil_bounds[OF assms(2)] show ?thesis by linarith
qed

section \<open>Dates as strings\<close>

lemma pad_nat_Suc: "pad_nat (Suc k) v = pad_nat k (v div 10) @ [char_of (48 + v mod 10)]" if "1 \<le> k"
proof (cases "v < 10")
  case True
  then have "v div 10 = 0" "format_nat v = [char_of (48 + v)]" "format_nat 0 = [char_of (48 :: nat)]"
    by (simp_all add: format_nat.simps[of v] format_nat.simps[of 0])
  moreover have "replicate k CHR ''0'' = replicate (k - 1) CHR ''0'' @ [CHR ''0'']"
    using that by (metis Suc_diff_1 less_le_trans replicate_Suc replicate_append_same zero_less_one)
  moreover have "char_of (48 :: nat) = CHR ''0''" by (simp add: char_of_eq_iff)
  ultimately show ?thesis using True by (simp add: pad_nat_def Let_def)
next
  case False
  then show ?thesis by (simp add: pad_nat_def Let_def format_nat.simps[of v])
qed

lemma pad_nat_1: "v < 10 \<Longrightarrow> pad_nat (Suc 0) v = [char_of (48 + v)]"
  by (simp add: pad_nat_def Let_def format_nat.simps[of v])

lemma length_pad_nat: "1 \<le> k \<Longrightarrow> v < 10 ^ k \<Longrightarrow> length (pad_nat k v) = k"
proof (induction k arbitrary: v rule: nat_induct_at_least)
  case base
  then show ?case by (simp add: pad_nat_1)
next
  case (Suc k)
  then have "v div 10 < 10 ^ k" by (simp add: less_mult_imp_div_less)
  with Suc show ?case by (simp add: pad_nat_Suc)
qed

text \<open>The order of strings is the lexicographic one, so between strings of one length the first part decides.\<close>

lemma list_less_append:
  assumes "length a = length b"
  shows "a @ c < b @ (d :: string) \<longleftrightarrow> a < b \<or> a = b \<and> c < d"
  using assms by (induction a b rule: list_induct2) auto

lemma digit_less: "a < 10 \<Longrightarrow> b < 10 \<Longrightarrow> (char_of (48 + a :: nat) :: char) < char_of (48 + b) \<longleftrightarrow> a < (b :: nat)"
  by (simp add: less_char_def)

lemma pad_nat_less:
  assumes "1 \<le> k" "v < 10 ^ k" "w < 10 ^ k"
  shows "pad_nat k v < pad_nat k w \<longleftrightarrow> v < w"
  using assms
proof (induction k arbitrary: v w rule: nat_induct_at_least)
  case base
  then show ?case by (simp add: pad_nat_1 digit_less)
next
  case (Suc k)
  then have d: "v div 10 < 10 ^ k" "w div 10 < 10 ^ k" by (simp_all add: less_mult_imp_div_less)
  have "v < w \<longleftrightarrow> v div 10 < w div 10 \<or> v div 10 = w div 10 \<and> v mod 10 < w mod 10"
  proof -
    have "v = v div 10 * 10 + v mod 10" "w = w div 10 * 10 + w mod 10" "v mod 10 < 10" "w mod 10 < 10" by simp_all
    then show ?thesis by linarith
  qed
  moreover have "pad_nat k (v div 10) = pad_nat k (w div 10) \<longleftrightarrow> v div 10 = w div 10"
    using Suc.IH[OF d] Suc.IH[OF d(2,1)] by (metis less_irrefl nat_neq_iff)
  moreover have "length (pad_nat k (v div 10)) = length (pad_nat k (w div 10))"
    using length_pad_nat[OF Suc.hyps d(1)] length_pad_nat[OF Suc.hyps d(2)] by simp
  moreover have "([char_of (48 + v mod 10)] :: string) < [char_of (48 + w mod 10)] \<longleftrightarrow> v mod 10 < w mod 10"
    by (simp add: digit_less del: add_numeral_left)
  ultimately show ?case unfolding pad_nat_Suc[OF Suc.hyps] using Suc.IH[OF d] by (simp only: list_less_append)
qed

lemma pad_nat_eq:
  assumes "1 \<le> k" "v < 10 ^ k" "w < 10 ^ k"
  shows "pad_nat k v = pad_nat k w \<longleftrightarrow> v = w"
  using pad_nat_less[OF assms] pad_nat_less[OF assms(1,3,2)] by (metis less_irrefl nat_neq_iff)

text \<open>Instants with a date of four digits; the codec of the log takes no others.\<close>

definition dated :: "time \<Rightarrow> bool" where
  "dated t \<longleftrightarrow> 0 \<le> t \<and> fst (civil_of_days (t div 1000000000 div day_seconds)) \<le> 9999"

lemma dated_earlier:
  assumes "dated t" "0 \<le> s" "s \<le> t" shows "dated s"
proof -
  let ?day = "\<lambda>t. t div 1000000000 div day_seconds"
  obtain y1 m1 d1 y2 m2 d2 where c: "civil_of_days (?day s) = (y1, m1, d1)" "civil_of_days (?day t) = (y2, m2, d2)"
    by (metis prod.collapse)
  have "?day s \<le> ?day t" using assms(3) by (simp add: day_seconds_def zdiv_mono1)
  from civil_mono[OF this c] civil_bounds[OF c(1)] civil_bounds[OF c(2)] have "y1 \<le> y2" by linarith
  then show ?thesis using assms by (simp add: dated_def c)
qed

lemma length_date_string:
  assumes "dated t" shows "length (date_string t) = 10"
proof -
  let ?n = "t div 1000000000 div day_seconds"
  obtain y m d where c: "civil_of_days ?n = (y, m, d)" by (metis prod.collapse)
  have "y \<le> 9999" using assms by (simp add: dated_def c)
  with civil_bounds[OF c] show ?thesis by (simp add: date_string_def c length_pad_nat nat_less_iff)
qed

lemma date_string_mono:
  assumes "dated s" "dated t" "s \<le> t" shows "date_string s \<le> date_string t"
proof -
  let ?day = "\<lambda>t. t div 1000000000 div day_seconds"
  obtain y1 m1 d1 y2 m2 d2 where c: "civil_of_days (?day s) = (y1, m1, d1)" "civil_of_days (?day t) = (y2, m2, d2)"
    by (metis prod.collapse)
  have day: "0 \<le> ?day s" "?day s \<le> ?day t"
    using assms by (simp_all add: dated_def day_seconds_def zdiv_mono1 pos_imp_zdiv_nonneg_iff)
  have y: "1 \<le> y1" "1 \<le> y2" "y1 \<le> 9999" "y2 \<le> 9999"
    using civil_year_pos[OF day(1) c(1)] civil_year_pos[OF _ c(2)] day assms(1,2) by (auto simp: dated_def c)
  note b = civil_bounds[OF c(1)] civil_bounds[OF c(2)]
  note mono = civil_mono[OF day(2) c]
  have len: "length (pad_nat 4 (nat y1)) = length (pad_nat 4 (nat y2))"
    "length (pad_nat 2 (nat m1)) = length (pad_nat 2 (nat m2))"
    using y b by (simp_all add: length_pad_nat nat_less_iff)
  have "\<not> date_string t < date_string s"
  proof
    assume "date_string t < date_string s"
    then have "y2 < y1 \<or> y2 = y1 \<and> (m2 < m1 \<or> m2 = m1 \<and> d2 < d1)"
      using len y b by (auto simp: date_string_def c list_less_append pad_nat_less pad_nat_eq nat_less_iff)
    then show False using mono b by auto
  qed
  then show ?thesis by simp
qed

end
