(* ===== verification/Activity.thy ===== *)
theory Activity
  imports Calendar GoPath
begin

text \<open>
  The record of who changed which file, \<^verbatim>\<open>src/internal/activity/\<close>: the events and their filters
  (\<^verbatim>\<open>activity.go\<close>) and the store of one file per day with its rolling window (\<^verbatim>\<open>store.go\<close>).

  The JSON codec of an event, the directory and the clock are parameters over a state \<open>'w\<close>. A time
  of zero is \<^verbatim>\<open>time.Time{}\<close>, instant 0. The locale \<open>day_dir\<close> is what the store needs of its directory;
  \<open>book\<close> is the log as the events of each day, which records append to and listings read.
\<close>

section \<open>Events\<close>

definition source_smb :: string where "source_smb = ''smb''"
definition source_web :: string where "source_web = ''web''"

definition act_created :: string where "act_created = ''create''"
definition act_wrote :: string where "act_wrote = ''write''"
definition act_deleted :: string where "act_deleted = ''delete''"
definition act_renamed :: string where "act_renamed = ''rename''"
definition act_mkdir :: string where "act_mkdir = ''mkdir''"
definition act_chmoded :: string where "act_chmoded = ''chmod''"

record event =
  ev_at :: time
  ev_user :: string
  ev_action :: string
  ev_path :: string
  ev_to :: string
  ev_source :: string
  ev_from :: string

record event_query =
  qu_user :: string
  qu_path :: string
  qu_action :: string
  qu_since :: time
  qu_limit :: int

definition default_limit :: int where "default_limit = 500"

definition event_matches :: "event_query \<Rightarrow> event \<Rightarrow> bool" where
  "event_matches q e \<longleftrightarrow>
     \<not> (qu_user q \<noteq> [] \<and> ev_user e \<noteq> qu_user q) \<and>
     \<not> (qu_action q \<noteq> [] \<and> ev_action e \<noteq> qu_action q) \<and>
     \<not> (qu_path q \<noteq> [] \<and> \<not> str_contains (ev_path e) (qu_path q) \<and> \<not> str_contains (ev_to e) (qu_path q)) \<and>
     \<not> (qu_since q \<noteq> 0 \<and> ev_at e < qu_since q)"

definition sort_newest_first :: "event list \<Rightarrow> event list" where
  "sort_newest_first es = sort_by (\<lambda>x y. ev_at y \<le> ev_at x) es"

section \<open>The store\<close>

text \<open>Opening and reading a day's file: it may be gone, or give text and then an error.\<close>

datatype day_text = DayGone | DayError string | DayText string "string option"

record 'w log_disk =
  ld_now :: "'w \<Rightarrow> time \<times> 'w"
  ld_marshal :: "event \<Rightarrow> string + string"
  ld_parse :: "string \<Rightarrow> event option"
  ld_mkdir_all :: "string \<Rightarrow> 'w \<Rightarrow> string option \<times> 'w"
  ld_append :: "string \<Rightarrow> 'w \<Rightarrow> (string + nat) \<times> 'w"
  ld_write :: "nat \<Rightarrow> string \<Rightarrow> 'w \<Rightarrow> string option \<times> 'w"
  ld_close :: "nat \<Rightarrow> 'w \<Rightarrow> string option \<times> 'w"
  ld_read_dir :: "string \<Rightarrow> 'w \<Rightarrow> (string + string list) \<times> 'w"
  ld_remove :: "string \<Rightarrow> 'w \<Rightarrow> 'w"
  ld_read :: "string \<Rightarrow> 'w \<Rightarrow> day_text \<times> 'w"

definition newline_char :: char where "newline_char = CHR 0x0A"

definition marshal_line :: "'w log_disk \<Rightarrow> event \<Rightarrow> string + string" where
  "marshal_line D e = (case ld_marshal D e of Inl err \<Rightarrow> Inl err | Inr b \<Rightarrow> Inr (b @ [newline_char]))"

definition parse_line :: "'w log_disk \<Rightarrow> string \<Rightarrow> event option" where
  "parse_line D b = ld_parse D b"

record act_store =
  as_dir :: string
  as_keep :: duration
  as_day :: string
  as_file :: "nat option"

definition default_keep :: duration where "default_keep = 30 * 24 * hour"

definition act_new_store :: "'w log_disk \<Rightarrow> string \<Rightarrow> duration \<Rightarrow> 'w \<Rightarrow> (string + act_store) \<times> 'w" where
  "act_new_store D dir keep w =
     (if dir = [] then (Inl ''activity: a directory is required'', w)
      else
        (case ld_mkdir_all D dir w of
           (Some e, w) \<Rightarrow> (Inl e, w)
         | (None, w) \<Rightarrow>
             (Inr \<lparr>as_dir = dir, as_keep = (if keep \<le> 0 then default_keep else keep), as_day = [], as_file = None\<rparr>, w)))"

definition day_suffix :: string where "day_suffix = ''.jsonl''"

fun remove_before :: "'w log_disk \<Rightarrow> string \<Rightarrow> string \<Rightarrow> string list \<Rightarrow> 'w \<Rightarrow> 'w" where
  "remove_before D dir cutoff [] w = w"
| "remove_before D dir cutoff (name # names) w =
     (if has_suffix name day_suffix \<and> trim_suffix name day_suffix < cutoff
      then remove_before D dir cutoff names (ld_remove D (path_join [dir, name]) w)
      else remove_before D dir cutoff names w)"

definition prune_locked :: "'w log_disk \<Rightarrow> act_store \<Rightarrow> time \<Rightarrow> 'w \<Rightarrow> 'w" where
  "prune_locked D s now w =
     (let cutoff = date_string (now - as_keep s)
      in case ld_read_dir D (as_dir s) w of
           (Inl _, w) \<Rightarrow> w
         | (Inr names, w) \<Rightarrow> remove_before D (as_dir s) cutoff names w)"

definition roll_locked :: "'w log_disk \<Rightarrow> act_store \<Rightarrow> time \<Rightarrow> 'w \<Rightarrow> string option \<times> act_store \<times> 'w" where
  "roll_locked D s at w =
     (let day = date_string at
      in if as_file s \<noteq> None \<and> as_day s = day then (None, s, w)
         else
           (let w = (case as_file s of None \<Rightarrow> w | Some h \<Rightarrow> snd (ld_close D h w));
                s = s\<lparr>as_file := None\<rparr>
            in case ld_append D (path_join [as_dir s, day @ day_suffix]) w of
                 (Inl e, w) \<Rightarrow> (Some e, s, w)
               | (Inr h, w) \<Rightarrow>
                   (let s = s\<lparr>as_file := Some h, as_day := day\<rparr> in (None, s, prune_locked D s at w))))"

definition act_record :: "'w log_disk \<Rightarrow> act_store \<Rightarrow> event \<Rightarrow> 'w \<Rightarrow> string option \<times> act_store \<times> 'w" where
  "act_record D s e w =
     (case (if ev_at e = 0 then ld_now D w else (ev_at e, w)) of (at, w) \<Rightarrow>
        (let e = e\<lparr>ev_at := at\<rparr>
         in case marshal_line D e of
              Inl err \<Rightarrow> (Some err, s, w)
            | Inr line \<Rightarrow>
                (case roll_locked D s (ev_at e) w of
                   (Some err, s, w) \<Rightarrow> (Some err, s, w)
                 | (None, s, w) \<Rightarrow>
                     (case as_file s of
                        None \<Rightarrow> (Some ''invalid argument'', s, w)
                      | Some h \<Rightarrow> (case ld_write D h line w of (err, w) \<Rightarrow> (err, s, w))))))"

definition act_close :: "'w log_disk \<Rightarrow> act_store \<Rightarrow> 'w \<Rightarrow> string option \<times> act_store \<times> 'w" where
  "act_close D s w =
     (case as_file s of
        None \<Rightarrow> (None, s, w)
      | Some h \<Rightarrow> (case ld_close D h w of (err, w) \<Rightarrow> (err, s\<lparr>as_file := None\<rparr>, w)))"

text \<open>
  \<^verbatim>\<open>bufio.Scanner\<close> over lines with the buffer the code gives it: a line of \<open>cap\<close> bytes or more does
  not fit and ends the scan with an error; one carriage return before the newline is dropped.
\<close>

definition drop_cr :: "string \<Rightarrow> string" where
  "drop_cr l = (if l \<noteq> [] \<and> last l = CHR 0x0D then butlast l else l)"

fun scan_parts :: "nat \<Rightarrow> string list \<Rightarrow> string list \<times> bool" where
  "scan_parts cap [] = ([], False)"
| "scan_parts cap (l # ls) =
     (if ls = [] \<and> l = [] then ([], False)
      else if length l \<ge> cap then ([], True)
      else (case scan_parts cap ls of (r, long) \<Rightarrow> (drop_cr l # r, long)))"

definition max_line :: nat where "max_line = 1048576"

definition read_day :: "'w log_disk \<Rightarrow> string \<Rightarrow> event_query \<Rightarrow> 'w \<Rightarrow> (string + event list) \<times> 'w" where
  "read_day D p q w =
     (case ld_read D p w of
        (DayGone, w) \<Rightarrow> (Inr [], w)
      | (DayError e, w) \<Rightarrow> (Inl e, w)
      | (DayText s err, w) \<Rightarrow>
          (case scan_parts max_line (split_on newline_char s) of (ls, long) \<Rightarrow>
             (if long then (Inl ''bufio.Scanner: token too long'', w)
              else
                (case err of
                   Some e \<Rightarrow> (Inl e, w)
                 | None \<Rightarrow>
                     (Inr (filter (event_matches q) (List.map_filter (parse_line D) (filter (\<lambda>l. l \<noteq> []) ls))), w)))))"

fun query_days ::
  "'w log_disk \<Rightarrow> string \<Rightarrow> event_query \<Rightarrow> nat \<Rightarrow> string list \<Rightarrow> event list \<Rightarrow> 'w \<Rightarrow> (string + event list) \<times> 'w"
where
  "query_days D dir q limit [] out w = (Inr out, w)"
| "query_days D dir q limit (name # names) out w =
     (if qu_since q \<noteq> 0 \<and> trim_suffix name day_suffix < date_string (qu_since q) then (Inr out, w)
      else
        (case read_day D (path_join [dir, name]) q w of
           (Inl e, w) \<Rightarrow> (Inl e, w)
         | (Inr es, w) \<Rightarrow>
             (let out = out @ es
              in if length out \<ge> limit then (Inr out, w) else query_days D dir q limit names out w)))"

definition act_query :: "'w log_disk \<Rightarrow> act_store \<Rightarrow> event_query \<Rightarrow> 'w \<Rightarrow> (string + event list) \<times> 'w" where
  "act_query D s q w =
     (let limit = nat (if qu_limit q \<le> 0 then default_limit else qu_limit q)
      in case ld_read_dir D (as_dir s) w of
           (Inl e, w) \<Rightarrow> (Inl e, w)
         | (Inr entries, w) \<Rightarrow>
             (let days = sort_by (\<lambda>x y. y \<le> x) (filter (\<lambda>n. has_suffix n day_suffix) entries)
              in case query_days D (as_dir s) q limit days [] w of
                   (Inl e, w) \<Rightarrow> (Inl e, w)
                 | (Inr out, w) \<Rightarrow>
                     (let out = sort_newest_first out
                      in (Inr (if length out > limit then take limit out else out), w))))"

section \<open>Sorting by time\<close>

lemma insert_by_skip:
  "(\<And>y. y \<in> set ys \<Longrightarrow> \<not> le x y) \<Longrightarrow> insert_by le x (ys @ zs) = ys @ insert_by le x zs"
  by (induction ys) auto

lemma insert_by_stop:
  "(\<And>z. z \<in> set zs \<Longrightarrow> le x z) \<Longrightarrow> insert_by le x (ys @ zs) = insert_by le x ys @ zs"
proof (induction ys)
  case Nil
  then show ?case by (cases zs) auto
qed auto

text \<open>Lists that are wholly newer or wholly older sort side by side.\<close>

lemma sort_newest_older_first:
  assumes "\<And>x y. x \<in> set xs \<Longrightarrow> y \<in> set ys \<Longrightarrow> ev_at x < ev_at y"
  shows "sort_newest_first (xs @ ys) = sort_newest_first ys @ sort_newest_first xs"
  using assms unfolding sort_newest_first_def
proof (induction xs)
  case (Cons x xs)
  let ?le = "\<lambda>x y. ev_at y \<le> ev_at x"
  have "\<not> ?le x y" if "y \<in> set (sort_by ?le ys)" for y using Cons.prems[of x y] that by simp
  then have "insert_by ?le x (sort_by ?le ys @ sort_by ?le xs) = sort_by ?le ys @ insert_by ?le x (sort_by ?le xs)"
    by (rule insert_by_skip)
  with Cons show ?case by simp
qed simp

lemma sort_newest_newer_first:
  assumes "\<And>x y. x \<in> set xs \<Longrightarrow> y \<in> set ys \<Longrightarrow> ev_at y < ev_at x"
  shows "sort_newest_first (xs @ ys) = sort_newest_first xs @ sort_newest_first ys"
  using assms unfolding sort_newest_first_def
proof (induction xs)
  case (Cons x xs)
  let ?le = "\<lambda>x y. ev_at y \<le> ev_at x"
  have "?le x y" if "y \<in> set (sort_by ?le ys)" for y using Cons.prems[of x y] that by simp
  then have "insert_by ?le x (sort_by ?le xs @ sort_by ?le ys) = insert_by ?le x (sort_by ?le xs) @ sort_by ?le ys"
    by (rule insert_by_stop)
  with Cons show ?case by simp
qed simp

lemma set_sort_newest [simp]: "set (sort_newest_first es) = set es"
  and length_sort_newest [simp]: "length (sort_newest_first es) = length es"
  by (simp_all add: sort_newest_first_def)

text \<open>A list of blocks, each newer than the ones after it.\<close>

definition newer_blocks :: "event list list \<Rightarrow> bool" where
  "newer_blocks bs \<longleftrightarrow> sorted_wrt (\<lambda>a b. \<forall>x \<in> set a. \<forall>y \<in> set b. ev_at y < ev_at x) bs"

lemma sort_newest_blocks:
  "newer_blocks bs \<Longrightarrow>
    sort_newest_first (concat bs) = concat (map sort_newest_first bs) \<and>
    sort_newest_first (concat (rev bs)) = concat (map sort_newest_first bs)"
proof (induction bs)
  case Nil
  then show ?case by (simp add: sort_newest_first_def)
next
  case (Cons b bs)
  from Cons.prems have n: "newer_blocks bs" "\<And>x y. x \<in> set b \<Longrightarrow> y \<in> set (concat bs) \<Longrightarrow> ev_at y < ev_at x"
    by (auto simp: newer_blocks_def)
  have "sort_newest_first (b @ concat bs) = sort_newest_first b @ sort_newest_first (concat bs)"
    using n(2) by (rule sort_newest_newer_first)
  moreover have "sort_newest_first (concat (rev bs) @ b) = sort_newest_first b @ sort_newest_first (concat (rev bs))"
    using n(2) by (intro sort_newest_older_first) auto
  ultimately show ?case using Cons.IH[OF n(1)] by simp
qed

text \<open>A reader that stops after enough blocks has the newest of all.\<close>

lemma newest_of_enough:
  assumes "newer_blocks bs" "length (concat (take k bs)) \<ge> n \<or> concat (drop k bs) = []"
  shows "take n (sort_newest_first (concat (take k bs))) = take n (sort_newest_first (concat (rev bs)))"
proof -
  have t: "newer_blocks (take k bs)" using assms(1) by (simp add: newer_blocks_def sorted_wrt_take)
  have "concat (map sort_newest_first bs) =
      sort_newest_first (concat (take k bs)) @ concat (map sort_newest_first (drop k bs))"
    unfolding sort_newest_blocks[OF t, THEN conjunct1] by (metis append_take_drop_id concat_append map_append)
  moreover have "concat (map sort_newest_first (drop k bs)) = []" if "concat (drop k bs) = []"
    using that by (auto simp: sort_newest_first_def)
  ultimately show ?thesis using assms(2) unfolding sort_newest_blocks[OF assms(1), THEN conjunct2] by auto
qed

section \<open>The text of a day\<close>

definition day_events :: "'w log_disk \<Rightarrow> string \<Rightarrow> event list" where
  "day_events D t =
     List.map_filter (parse_line D) (filter (\<lambda>l. l \<noteq> []) (fst (scan_parts max_line (split_on newline_char t))))"

text \<open>Text of whole lines that all fit the scanner.\<close>

definition whole_text :: "string \<Rightarrow> bool" where
  "whole_text t \<longleftrightarrow> (\<exists>ls. t = concat (map (\<lambda>l. l @ [newline_char]) ls) \<and>
     (\<forall>l \<in> set ls. newline_char \<notin> set l \<and> length l < max_line))"

lemma whole_text_Nil [simp]: "whole_text []"
  by (auto simp: whole_text_def intro: exI[of _ "[]"])

lemma whole_text_snoc:
  assumes "whole_text t" "newline_char \<notin> set b" "length b < max_line"
  shows "whole_text (t @ b @ [newline_char])"
proof -
  from assms(1) obtain ls where ls: "t = concat (map (\<lambda>l. l @ [newline_char]) ls)"
    "\<forall>l \<in> set ls. newline_char \<notin> set l \<and> length l < max_line" by (auto simp: whole_text_def)
  show ?thesis unfolding whole_text_def by (rule exI[of _ "ls @ [b]"]) (use ls assms in auto)
qed

lemma split_on_lines:
  "\<forall>l \<in> set ls. c \<notin> set l \<Longrightarrow> split_on c (concat (map (\<lambda>l. l @ [c]) ls)) = ls @ [[]]"
  by (induction ls) auto

lemma scan_parts_lines:
  "\<forall>l \<in> set ls. length l < cap \<Longrightarrow> scan_parts cap (ls @ [[]]) = (map drop_cr ls, False)"
  by (induction ls) auto

lemma whole_text_scan:
  assumes "whole_text t"
  shows "\<not> snd (scan_parts max_line (split_on newline_char t))"
proof -
  from assms obtain ls where "t = concat (map (\<lambda>l. l @ [newline_char]) ls)"
    "\<forall>l \<in> set ls. newline_char \<notin> set l \<and> length l < max_line" by (auto simp: whole_text_def)
  then show ?thesis by (simp add: split_on_lines scan_parts_lines)
qed

lemma day_events_snoc:
  assumes "whole_text t" "newline_char \<notin> set b" "length b < max_line" "b \<noteq> []" "last b \<noteq> CHR 0x0D" "ld_parse D b = Some e"
  shows "day_events D (t @ b @ [newline_char]) = day_events D t @ [e]"
proof -
  from assms(1) obtain ls where ls: "t = concat (map (\<lambda>l. l @ [newline_char]) ls)"
    "\<forall>l \<in> set ls. newline_char \<notin> set l \<and> length l < max_line" by (auto simp: whole_text_def)
  have t: "split_on newline_char t = ls @ [[]]" using ls by (simp add: split_on_lines)
  have "t @ b @ [newline_char] = concat (map (\<lambda>l. l @ [newline_char]) (ls @ [b]))" using ls by simp
  moreover have "split_on newline_char (concat (map (\<lambda>l. l @ [newline_char]) (ls @ [b]))) = (ls @ [b]) @ [[]]"
    using ls(2) assms(2) by (intro split_on_lines) simp
  ultimately have tb: "split_on newline_char (t @ b @ [newline_char]) = (ls @ [b]) @ [[]]" by (simp only:)
  have "drop_cr b = b" using assms(5) by (simp add: drop_cr_def)
  then show ?thesis unfolding day_events_def t tb using ls assms(3,4,6)
    by (simp add: scan_parts_lines map_filter_simps List.map_filter_def parse_line_def del: append_assoc)
qed

lemma day_events_Nil [simp]: "day_events D [] = []"
  by (simp add: day_events_def List.map_filter_def)

section \<open>What the store promises\<close>

text \<open>
  The directory of the store: \<open>texts\<close> is the text of each file by name, \<open>hnd\<close> the name an open file
  still has. Reading changes nothing, an append opens the file or an empty one, a write puts the whole
  line at the end or nothing, and a removal takes one name away if it works. An event that is
  \<open>writable\<close> is encoded as one line that decodes to it; its date has four digits.
\<close>

locale day_dir =
  fixes D :: "'w log_disk" and dir :: "string" and texts :: "'w \<Rightarrow> string \<Rightarrow> string option"
    and hnd :: "'w \<Rightarrow> nat \<Rightarrow> string option" and writable :: "event \<Rightarrow> bool"
  assumes dd_names: "texts w n \<noteq> None \<Longrightarrow> plain_name n"
    and dd_now: "ld_now D w = (at, w') \<Longrightarrow> texts w' = texts w \<and> hnd w' = hnd w"
    and dd_read_dir: "ld_read_dir D dir w = (r, w') \<Longrightarrow> texts w' = texts w \<and> hnd w' = hnd w \<and>
      (\<forall>ns. r = Inr ns \<longrightarrow> distinct ns \<and> set ns = dom (texts w))"
    and dd_read: "plain_name n \<Longrightarrow> ld_read D (path_join [dir, n]) w = (x, w') \<Longrightarrow> texts w' = texts w \<and> hnd w' = hnd w \<and>
      (\<forall>s. x = DayText s None \<longrightarrow> texts w n = Some s) \<and> (x = DayGone \<longrightarrow> texts w n = None)"
    and dd_append_ok: "plain_name n \<Longrightarrow> ld_append D (path_join [dir, n]) w = (Inr h, w') \<Longrightarrow>
      texts w' = (texts w)(n \<mapsto> (case texts w n of None \<Rightarrow> [] | Some t \<Rightarrow> t)) \<and> hnd w' h = Some n"
    and dd_append_err: "plain_name n \<Longrightarrow> ld_append D (path_join [dir, n]) w = (Inl msg, w') \<Longrightarrow> texts w' = texts w"
    and dd_write: "ld_write D h b w = (err, w') \<Longrightarrow> hnd w h = Some n \<Longrightarrow> texts w n = Some t \<Longrightarrow>
      texts w' = (if err = None then (texts w)(n \<mapsto> t @ b) else texts w) \<and> hnd w' = hnd w"
    and dd_close: "texts (snd (ld_close D h w)) = texts w"
    and dd_remove: "plain_name n \<Longrightarrow> texts (ld_remove D (path_join [dir, n]) w) \<in> {texts w, (texts w)(n := None)} \<and>
      (\<forall>h m. hnd w h = Some m \<longrightarrow> m \<noteq> n \<longrightarrow> hnd (ld_remove D (path_join [dir, n]) w) h = Some m)"
    and dd_codec: "writable e \<Longrightarrow> ld_marshal D e = Inr b \<Longrightarrow> ld_parse D b = Some e \<and> newline_char \<notin> set b \<and>
      b \<noteq> [] \<and> last b \<noteq> CHR 0x0D \<and> length b < max_line"
    and dd_writable_dated: "writable e \<Longrightarrow> dated (ev_at e)"

text \<open>The book of a directory: the events of each day, in the order they were written.\<close>

definition book :: "'w log_disk \<Rightarrow> (string \<Rightarrow> string option) \<Rightarrow> string \<Rightarrow> event list" where
  "book D m day = (case m (day @ day_suffix) of None \<Rightarrow> [] | Some t \<Rightarrow> day_events D t)"

text \<open>Every day's file is named by a date and holds whole lines of events of that date.\<close>

definition filed :: "'w log_disk \<Rightarrow> (string \<Rightarrow> string option) \<Rightarrow> bool" where
  "filed D m \<longleftrightarrow>
     (\<forall>n t. m n = Some t \<longrightarrow> has_suffix n day_suffix \<longrightarrow>
        whole_text t \<and> (\<exists>at. dated at \<and> n = date_string at @ day_suffix) \<and>
        (\<forall>e \<in> set (day_events D t). dated (ev_at e) \<and> date_string (ev_at e) @ day_suffix = n))"

definition store_ok :: "string \<Rightarrow> ('w \<Rightarrow> string \<Rightarrow> string option) \<Rightarrow> ('w \<Rightarrow> nat \<Rightarrow> string option) \<Rightarrow> act_store \<Rightarrow> 'w \<Rightarrow> bool" where
  "store_ok dir texts hnd s w \<longleftrightarrow>
     as_dir s = dir \<and> 0 < as_keep s \<and>
     (\<forall>h. as_file s = Some h \<longrightarrow> hnd w h = Some (as_day s @ day_suffix) \<and> texts w (as_day s @ day_suffix) \<noteq> None)"

lemma date_chars: "c \<in> set (date_string t) \<Longrightarrow> digit_char c \<or> c = CHR ''-''"
  by (auto simp: date_string_def split: prod.splits dest: pad_nat_digits)

lemma plain_day: "plain_name (date_string t @ day_suffix)"
proof -
  have "CHR ''/'' \<notin> set (date_string t)" using date_chars[of "CHR ''/''" t] by (auto simp: digit_char_def)
  then show ?thesis by (auto simp: plain_name_def day_suffix_def)
qed

lemma book_filed:
  assumes "filed D m" "x \<in> set (book D m d)" shows "dated (ev_at x) \<and> date_string (ev_at x) = d"
proof -
  obtain t where t: "m (d @ day_suffix) = Some t" "x \<in> set (day_events D t)"
    using assms(2) by (cases "m (d @ day_suffix)") (auto simp: book_def)
  have "has_suffix (d @ day_suffix) day_suffix" by (simp add: has_suffix_def)
  with assms(1) t have "dated (ev_at x) \<and> date_string (ev_at x) @ day_suffix = d @ day_suffix"
    unfolding filed_def by blast
  then show ?thesis by simp
qed

lemma filed_update:
  assumes "filed D m" "\<And>n t. m' n = Some t \<Longrightarrow> m n = Some t \<or> t = [] \<and> (\<exists>at. dated at \<and> n = date_string at @ day_suffix)"
  shows "filed D m'"
  unfolding filed_def
proof (intro allI impI)
  fix n t assume "m' n = Some t" "has_suffix n day_suffix"
  with assms show "whole_text t \<and> (\<exists>at. dated at \<and> n = date_string at @ day_suffix) \<and>
      (\<forall>e \<in> set (day_events D t). dated (ev_at e) \<and> date_string (ev_at e) @ day_suffix = n)"
    unfolding filed_def by fastforce
qed

text \<open>What pruning may do: take files away, but none from the window.\<close>

definition window_kept ::
  "('w \<Rightarrow> string \<Rightarrow> string option) \<Rightarrow> ('w \<Rightarrow> nat \<Rightarrow> string option) \<Rightarrow> string \<Rightarrow> 'w \<Rightarrow> 'w \<Rightarrow> bool"
where
  "window_kept texts hnd cutoff w w' \<longleftrightarrow>
     (\<forall>n. texts w' n = texts w n \<or> texts w' n = None) \<and>
     (\<forall>n. has_suffix n day_suffix \<and> \<not> trim_suffix n day_suffix < cutoff \<longrightarrow>
        texts w' n = texts w n \<and> (\<forall>h. hnd w h = Some n \<longrightarrow> hnd w' h = Some n))"

lemma window_kept_same: "texts w' = texts w \<Longrightarrow> hnd w' = hnd w \<Longrightarrow> window_kept texts hnd cutoff w w'"
  by (simp add: window_kept_def)

lemma window_kept_trans:
  assumes "window_kept texts hnd cutoff u v" "window_kept texts hnd cutoff v w"
  shows "window_kept texts hnd cutoff u w"
  unfolding window_kept_def
proof (intro conjI allI impI)
  show "texts w n = texts u n \<or> texts w n = None" for n using assms unfolding window_kept_def by metis
  fix n assume "has_suffix n day_suffix \<and> \<not> trim_suffix n day_suffix < cutoff"
  then show "texts w n = texts u n" "hnd u h = Some n \<Longrightarrow> hnd w h = Some n" for h
    using assms unfolding window_kept_def by metis+
qed

context day_dir
begin

lemma remove_before_window:
  "(\<And>n. n \<in> set ns \<Longrightarrow> plain_name n) \<Longrightarrow> window_kept texts hnd cutoff w (remove_before D dir cutoff ns w)"
proof (induction ns arbitrary: w)
  case Nil
  then show ?case by (simp add: window_kept_same)
next
  case (Cons n ns)
  show ?case
  proof (cases "has_suffix n day_suffix \<and> trim_suffix n day_suffix < cutoff")
    case True
    have "plain_name n" using Cons.prems by simp
    from dd_remove[OF this, of w] True have "window_kept texts hnd cutoff w (ld_remove D (path_join [dir, n]) w)"
      by (auto simp: window_kept_def split: if_splits)
    moreover have "window_kept texts hnd cutoff (ld_remove D (path_join [dir, n]) w)
        (remove_before D dir cutoff ns (ld_remove D (path_join [dir, n]) w))"
      by (rule Cons.IH) (simp add: Cons.prems)
    ultimately show ?thesis using True by (simp add: window_kept_trans)
  next
    case False
    with Cons show ?thesis by auto
  qed
qed

lemma prune_window:
  assumes "as_dir s = dir"
  shows "window_kept texts hnd (date_string (at - as_keep s)) w (prune_locked D s at w)"
proof -
  obtain r w1 where rd: "ld_read_dir D dir w = (r, w1)" by fastforce
  note same = dd_read_dir[OF rd]
  then have start: "window_kept texts hnd cutoff w w1" for cutoff by (simp add: window_kept_same)
  show ?thesis
  proof (cases r)
    case (Inl msg)
    then show ?thesis using rd start assms by (simp add: prune_locked_def Let_def)
  next
    case (Inr ns)
    have "plain_name n" if "n \<in> set ns" for n using same Inr that dd_names[of w n] by auto
    from window_kept_trans[OF start remove_before_window[OF this]] show ?thesis
      using rd Inr assms by (simp add: prune_locked_def Let_def)
  qed
qed

text \<open>Rolling opens the day's file; it touches nothing in the window.\<close>

lemma roll_opens:
  assumes roll: "roll_locked D s at w = (None, s', w')" and s: "store_ok dir texts hnd s w"
    and at: "dated at" "as_keep s \<le> at"
  shows "store_ok dir texts hnd s' w' \<and> as_keep s' = as_keep s \<and>
    (\<exists>h t. as_file s' = Some h \<and> hnd w' h = Some (date_string at @ day_suffix) \<and>
       texts w' (date_string at @ day_suffix) = Some t \<and>
       t = (case texts w (date_string at @ day_suffix) of None \<Rightarrow> [] | Some t \<Rightarrow> t)) \<and>
    (\<forall>n. n \<noteq> date_string at @ day_suffix \<longrightarrow> texts w' n = texts w n \<or>
       texts w' n = None \<and> \<not> (has_suffix n day_suffix \<and> date_string (at - as_keep s) \<le> trim_suffix n day_suffix))"
proof (cases "as_file s \<noteq> None \<and> as_day s = date_string at")
  case True
  then show ?thesis using roll s by (auto simp: roll_locked_def store_ok_def)
next
  case False
  let ?n = "date_string at @ day_suffix" and ?s = "s\<lparr>as_file := None\<rparr>"
  define w1 where "w1 = (case as_file s of None \<Rightarrow> w | Some h \<Rightarrow> snd (ld_close D h w))"
  have w1: "texts w1 = texts w" by (simp add: w1_def dd_close split: option.split)
  from s have dir: "as_dir s = dir" "0 < as_keep s" by (simp_all add: store_ok_def)
  obtain h w2 where op: "ld_append D (path_join [dir, ?n]) w1 = (Inr h, w2)"
    and s': "s' = ?s\<lparr>as_file := Some h, as_day := date_string at\<rparr>" and w': "w' = prune_locked D s' at w2"
    using roll False dir by (auto simp: roll_locked_def Let_def w1_def split: prod.splits sum.splits)
  note o = dd_append_ok[OF plain_day op]
  have p: "window_kept texts hnd (date_string (at - as_keep s)) w2 w'"
    using prune_window[of s' at w2] dir unfolding s' w' by simp
  have early: "date_string (at - as_keep s) \<le> date_string at"
    using at dir dated_earlier[of at "at - as_keep s"] by (intro date_string_mono) simp_all
  then have kept: "texts w' ?n = texts w2 ?n" "hnd w' h = Some ?n"
    using p o unfolding window_kept_def by (auto simp: has_suffix_def)
  have t2: "texts w2 ?n = Some (case texts w ?n of None \<Rightarrow> [] | Some t \<Rightarrow> t)"
    "\<And>n. n \<noteq> ?n \<Longrightarrow> texts w2 n = texts w n" using o w1 by simp_all
  have others: "texts w' n = texts w n \<or>
      texts w' n = None \<and> \<not> (has_suffix n day_suffix \<and> date_string (at - as_keep s) \<le> trim_suffix n day_suffix)"
    if "n \<noteq> ?n" for n
    using p t2(2)[OF that] unfolding window_kept_def by (metis not_le)
  show ?thesis using kept t2(1) others dir by (simp add: store_ok_def s')
qed

lemma roll_fails:
  assumes "roll_locked D s at w = (Some err, s', w')" "store_ok dir texts hnd s w"
  shows "texts w' = texts w \<and> store_ok dir texts hnd s' w'"
proof -
  let ?w = "case as_file s of None \<Rightarrow> w | Some h \<Rightarrow> snd (ld_close D h w)"
  have "texts ?w = texts w" by (simp add: dd_close split: option.split)
  then show ?thesis using assms dd_append_err[OF plain_day, of at ?w]
    by (auto simp: roll_locked_def Let_def store_ok_def split: if_splits prod.splits sum.splits)
qed

text \<open>The two outcomes of a record, on the texts: nothing written, or one line at the end of its day.\<close>

lemma record_cases:
  assumes rec: "act_record D s e w = (err, s', w')"
    and at: "(if ev_at e = 0 then ld_now D w else (ev_at e, w)) = (at, w0)"
    and s: "store_ok dir texts hnd s w" and ok: "writable (e\<lparr>ev_at := at\<rparr>)" and keep: "as_keep s \<le> at"
  shows "store_ok dir texts hnd s' w' \<and>
    (\<forall>n. n \<noteq> date_string at @ day_suffix \<longrightarrow> texts w' n = texts w n \<or>
       texts w' n = None \<and> \<not> (has_suffix n day_suffix \<and> date_string (at - as_keep s) \<le> trim_suffix n day_suffix)) \<and>
    (err \<noteq> None \<and> (texts w' (date_string at @ day_suffix) = texts w (date_string at @ day_suffix) \<or>
        texts w (date_string at @ day_suffix) = None \<and> texts w' (date_string at @ day_suffix) = Some []) \<or>
     err = None \<and> (\<exists>b. ld_marshal D (e\<lparr>ev_at := at\<rparr>) = Inr b \<and> texts w' (date_string at @ day_suffix) =
        Some ((case texts w (date_string at @ day_suffix) of None \<Rightarrow> [] | Some t \<Rightarrow> t) @ b @ [newline_char])))"
proof -
  let ?n = "date_string at @ day_suffix" and ?e = "e\<lparr>ev_at := at\<rparr>"
  have w0: "texts w0 = texts w" "hnd w0 = hnd w" using at dd_now[of w at w0] by (auto split: if_splits)
  then have s0: "store_ok dir texts hnd s w0" using s by (simp add: store_ok_def)
  show ?thesis
  proof (cases "ld_marshal D ?e")
    case (Inl msg)
    then show ?thesis using rec at w0 s0 by (auto simp: act_record_def marshal_line_def Let_def)
  next
    case (Inr b)
    obtain r s1 w1 where roll: "roll_locked D s at w0 = (r, s1, w1)" by (metis prod.collapse)
    show ?thesis
    proof (cases r)
      case (Some msg)
      then have "err = Some msg" "s' = s1" "w' = w1" using rec at Inr roll by (simp_all add: act_record_def marshal_line_def Let_def)
      with roll_fails[OF roll[unfolded Some] s0] w0 show ?thesis by simp
    next
      case None
      from roll_opens[OF roll[unfolded None] s0 dd_writable_dated[OF ok, simplified] keep] w0
      obtain h t where s1: "store_ok dir texts hnd s1 w1" and h: "as_file s1 = Some h" "hnd w1 h = Some ?n" "texts w1 ?n = Some t"
        "t = (case texts w ?n of None \<Rightarrow> [] | Some t \<Rightarrow> t)"
        and others: "\<forall>n. n \<noteq> ?n \<longrightarrow> texts w1 n = texts w n \<or> texts w1 n = None \<and>
          \<not> (has_suffix n day_suffix \<and> date_string (at - as_keep s) \<le> trim_suffix n day_suffix)" by auto
      obtain err' w2 where wr: "ld_write D h (b @ [newline_char]) w1 = (err', w2)" by fastforce
      have r: "err = err'" "s' = s1" "w' = w2"
        using rec at Inr roll None h(1) wr by (simp_all add: act_record_def marshal_line_def Let_def)
      note x = dd_write[OF wr h(2,3)]
      have "store_ok dir texts hnd s1 w2" using s1 x by (auto simp: store_ok_def)
      moreover have "texts w ?n = None \<and> texts w1 ?n = Some [] \<or> texts w1 ?n = texts w ?n"
        using h(3,4) by (cases "texts w ?n") auto
      ultimately show ?thesis using x others h(3,4) Inr unfolding r by (cases err') auto
    qed
  qed
qed

lemma record_files:
  assumes filed: "filed D (texts w)" and rec: "act_record D s e w = (err, s', w')"
    and at: "(if ev_at e = 0 then ld_now D w else (ev_at e, w)) = (at, w0)"
    and s: "store_ok dir texts hnd s w" and ok: "writable (e\<lparr>ev_at := at\<rparr>)" and keep: "as_keep s \<le> at"
  shows "filed D (texts w') \<and> store_ok dir texts hnd s' w' \<and>
    (\<forall>day. date_string (at - as_keep s) \<le> day \<longrightarrow> book D (texts w') day =
       book D (texts w) day @ (if err = None \<and> day = date_string at then [e\<lparr>ev_at := at\<rparr>] else [])) \<and>
    (\<forall>day. book D (texts w') day = [] \<or> prefix (book D (texts w) day) (book D (texts w') day))"
proof -
  let ?day = "date_string at" and ?e = "e\<lparr>ev_at := at\<rparr>"
  let ?n = "?day @ day_suffix" and ?cut = "date_string (at - as_keep s)"
  note c = record_cases[OF rec at s ok keep]
  from c have others: "texts w' n = texts w n \<or> texts w' n = None \<and> \<not> (has_suffix n day_suffix \<and> ?cut \<le> trim_suffix n day_suffix)"
    if "n \<noteq> ?n" for n using that by blast
  have dated: "dated at" using dd_writable_dated[OF ok] by simp
  have other_days: "book D (texts w') d = book D (texts w) d \<or> book D (texts w') d = [] \<and> d < ?cut" if "d \<noteq> ?day" for d
    using others[of "d @ day_suffix"] that by (auto simp: book_def has_suffix_def not_le)
  have suffix: "has_suffix ?n day_suffix" by (simp add: has_suffix_def)
  have "whole_text t" if "texts w ?n = Some t" for t using filed that suffix by (auto simp: filed_def)
  then have old: "whole_text (case texts w ?n of None \<Rightarrow> [] | Some t \<Rightarrow> t)" by (cases "texts w ?n") auto
  have today: "filed D (texts w') \<and> book D (texts w') ?day = book D (texts w) ?day @ (if err = None then [?e] else [])"
  proof (cases err)
    case (Some msg)
    with c have t: "texts w' ?n = texts w ?n \<or> texts w ?n = None \<and> texts w' ?n = Some []" by simp
    then have "texts w n = Some u \<or> u = [] \<and> (\<exists>at. dated at \<and> n = date_string at @ day_suffix)" if "texts w' n = Some u" for n u
      using others[of n] that dated by (cases "n = ?n") auto
    with filed have "filed D (texts w')" by (rule filed_update)
    with t Some show ?thesis by (auto simp: book_def)
  next
    case None
    with c obtain b where b: "ld_marshal D ?e = Inr b"
      "texts w' ?n = Some ((case texts w ?n of None \<Rightarrow> [] | Some t \<Rightarrow> t) @ b @ [newline_char])" by auto
    note cb = dd_codec[OF ok b(1)]
    have ev: "day_events D ((case texts w ?n of None \<Rightarrow> [] | Some t \<Rightarrow> t) @ b @ [newline_char]) =
        book D (texts w) ?day @ [?e]"
      using day_events_snoc[OF old, of b D ?e] cb by (auto simp: book_def split: option.splits)
    have "filed D (texts w')"
      unfolding filed_def
    proof (intro allI impI)
      fix n u assume u: "texts w' n = Some u" "has_suffix n day_suffix"
      show "whole_text u \<and> (\<exists>at. dated at \<and> n = date_string at @ day_suffix) \<and>
          (\<forall>e \<in> set (day_events D u). dated (ev_at e) \<and> date_string (ev_at e) @ day_suffix = n)"
      proof (cases "n = ?n")
        case True
        have "x \<in> set (book D (texts w) ?day) \<Longrightarrow> dated (ev_at x) \<and> date_string (ev_at x) @ day_suffix = n" for x
          using book_filed[OF filed] True by blast
        then show ?thesis using True u b(2) ev whole_text_snoc[OF old] cb dated by auto
      next
        case False
        then have "texts w n = Some u" using others[OF False] u by auto
        with filed u(2) show ?thesis by (auto simp: filed_def)
      qed
    qed
    with b(2) ev None show ?thesis by (simp add: book_def)
  qed
  show ?thesis
  proof (intro conjI allI impI)
    show "filed D (texts w')" using today by simp
    show "store_ok dir texts hnd s' w'" using c by simp
    show "book D (texts w') d = book D (texts w) d @ (if err = None \<and> d = ?day then [?e] else [])" if "?cut \<le> d" for d
      using today other_days[of d] that by (cases "d = ?day") auto
    show "book D (texts w') d = [] \<or> prefix (book D (texts w) d) (book D (texts w') d)" for d
      using today other_days[of d] by (cases "d = ?day") auto
  qed
qed

end

section \<open>What a listing shows\<close>

lemma trim_day [simp]: "trim_suffix (d @ day_suffix) day_suffix = d"
  by simp

lemma filed_name:
  assumes "filed D m" "m n \<noteq> None" "has_suffix n day_suffix"
  obtains at where "dated at" "n = date_string at @ day_suffix"
  using assms unfolding filed_def by blast

lemma filed_order:
  assumes "filed D m" "m a \<noteq> None" "has_suffix a day_suffix" "m b \<noteq> None" "has_suffix b day_suffix"
  shows "a < b \<longleftrightarrow> trim_suffix a day_suffix < trim_suffix b day_suffix"
proof -
  obtain s where s: "dated s" "a = date_string s @ day_suffix" using filed_name[OF assms(1-3)] .
  obtain t where t: "dated t" "b = date_string t @ day_suffix" using filed_name[OF assms(1,4,5)] .
  have "length (date_string s) = length (date_string t)" using length_date_string s(1) t(1) by simp
  then show ?thesis unfolding s(2) t(2) trim_day by (simp only: list_less_append less_irrefl simp_thms)
qed

lemma book_order:
  assumes "filed D m" "x \<in> set (book D m c)" "y \<in> set (book D m d)" "c < d"
  shows "ev_at x < ev_at y"
proof (rule ccontr)
  assume "\<not> ?thesis"
  with book_filed[OF assms(1,2)] book_filed[OF assms(1,3)] have "d \<le> c"
    using date_string_mono[of "ev_at y" "ev_at x"] by auto
  with assms(4) show False by simp
qed

text \<open>No event of a day before the day of \<open>since\<close> matches.\<close>

lemma before_since:
  assumes "filed D m" "qu_since q \<noteq> 0" "dated (qu_since q)" "d < date_string (qu_since q)"
  shows "filter (event_matches q) (book D m d) = []"
proof -
  have "ev_at x < qu_since q" if "x \<in> set (book D m d)" for x
    using book_filed[OF assms(1) that] assms(3,4) date_string_mono[of "qu_since q" "ev_at x"] by force
  with assms(2) show ?thesis by (auto simp: filter_empty_conv event_matches_def)
qed

lemma strictly_down: "sorted_wrt (\<lambda>a b. b \<le> a) xs \<Longrightarrow> distinct xs \<Longrightarrow> sorted_wrt (\<lambda>a b. b < a) (xs :: 'a :: order list)"
proof (induction xs)
  case (Cons x xs)
  have "y < x" if "y \<in> set xs" for y
    using Cons.prems that by (intro le_neq_trans) auto
  with Cons show ?case by simp
qed simp

context day_dir
begin

lemma read_day_book:
  assumes "filed D (texts w)" "texts w n \<noteq> None" "has_suffix n day_suffix"
    and "ld_read D (path_join [dir, n]) w = (x, w')" "x = DayGone \<or> (\<exists>s. x = DayText s None)"
  shows "read_day D (path_join [dir, n]) q w =
      (Inr (filter (event_matches q) (book D (texts w) (trim_suffix n day_suffix))), w') \<and> texts w' = texts w"
proof -
  note r = dd_read[OF dd_names[OF assms(2)] assms(4)]
  with assms(2,5) obtain s where s: "x = DayText s None" "texts w n = Some s" by auto
  obtain at where n: "n = date_string at @ day_suffix" using filed_name[OF assms(1-3)] by blast
  have "whole_text s" using assms(1,3) s(2) by (auto simp: filed_def)
  then obtain ls where "scan_parts max_line (split_on newline_char s) = (ls, False)"
    using whole_text_scan[of s] by (metis prod.collapse)
  with assms(4) r s n show ?thesis by (simp add: read_day_def book_def day_events_def)
qed

lemma query_days_spec:
  assumes "filed D m" "qu_since q = 0 \<or> dated (qu_since q)"
    and reads: "\<And>n v. \<exists>x v'. ld_read D (path_join [dir, n]) v = (x, v') \<and> (x = DayGone \<or> (\<exists>s. x = DayText s None))"
    and "sorted_wrt (\<lambda>a b. trim_suffix b day_suffix < trim_suffix a day_suffix) ns"
    and "\<And>n. n \<in> set ns \<Longrightarrow> m n \<noteq> None \<and> has_suffix n day_suffix" "texts w = m"
  shows "\<exists>k w'. query_days D dir q limit ns out w =
      (Inr (out @ concat (take k (map (\<lambda>n. filter (event_matches q) (book D m (trim_suffix n day_suffix))) ns))), w') \<and>
    (limit \<le> length (out @ concat (take k (map (\<lambda>n. filter (event_matches q) (book D m (trim_suffix n day_suffix))) ns))) \<or>
     concat (drop k (map (\<lambda>n. filter (event_matches q) (book D m (trim_suffix n day_suffix))) ns)) = [])"
  using assms(4-6)
proof (induction ns arbitrary: out w)
  case Nil
  then show ?case by auto
next
  case (Cons n ns)
  let ?F = "\<lambda>n. filter (event_matches q) (book D m (trim_suffix n day_suffix))"
  show ?case
  proof (cases "qu_since q \<noteq> 0 \<and> trim_suffix n day_suffix < date_string (qu_since q)")
    case True
    have "trim_suffix b day_suffix < date_string (qu_since q)" if "b \<in> set (n # ns)" for b
      using True that Cons.prems(1) by (cases "b = n") (auto intro: less_trans)
    then have "?F b = []" if "b \<in> set (n # ns)" for b
      using before_since[OF assms(1)] True assms(2) that by blast
    then have "concat (map ?F (n # ns)) = []" by (simp only: concat_eq_Nil_conv set_map) blast
    moreover have "query_days D dir q limit (n # ns) out w = (Inr out, w)" using True by simp
    ultimately show ?thesis by (intro exI[of _ 0] exI[of _ w]) simp
  next
    case False
    have n: "texts w n \<noteq> None" "has_suffix n day_suffix" using Cons.prems by simp_all
    obtain x w1 where x: "ld_read D (path_join [dir, n]) w = (x, w1)" "x = DayGone \<or> (\<exists>s. x = DayText s None)"
      using reads by blast
    have "filed D (texts w)" using assms(1) Cons.prems(3) by simp
    from read_day_book[OF this n x, of q] Cons.prems(3)
    have rd: "read_day D (path_join [dir, n]) q w = (Inr (?F n), w1)" and m: "texts w1 = m" by simp_all
    show ?thesis
    proof (cases "limit \<le> length (out @ ?F n)")
      case True
      then have "query_days D dir q limit (n # ns) out w = (Inr (out @ ?F n), w1)"
        unfolding query_days.simps if_not_P[OF False] using rd by simp
      moreover have "take 1 (map ?F (n # ns)) = [?F n]" by simp
      ultimately show ?thesis using True by (intro exI[of _ 1] exI[of _ w1]) (simp del: query_days.simps)
    next
      case more: False
      then have "query_days D dir q limit (n # ns) out w = query_days D dir q limit ns (out @ ?F n) w1"
        unfolding query_days.simps if_not_P[OF False] using rd by simp
      moreover obtain k w2 where "query_days D dir q limit ns (out @ ?F n) w1 =
          (Inr ((out @ ?F n) @ concat (take k (map ?F ns))), w2)"
        "limit \<le> length ((out @ ?F n) @ concat (take k (map ?F ns))) \<or> concat (drop k (map ?F ns)) = []"
        using Cons.IH[of w1 "out @ ?F n"] Cons.prems m by auto
      ultimately show ?thesis by (intro exI[of _ "Suc k"] exI[of _ w2]) (simp del: query_days.simps)
    qed
  qed
qed

text \<open>The names of a directory, sorted: newest first, without equal ones.\<close>

lemma day_names:
  assumes "filed D (texts w)" "distinct ns" "set ns = dom (texts w)"
  defines "days \<equiv> sort_by (\<lambda>x y. y \<le> x) (filter (\<lambda>n. has_suffix n day_suffix) ns)"
  shows "sorted_wrt (\<lambda>a b. trim_suffix b day_suffix < trim_suffix a day_suffix) days \<and>
    (\<forall>n \<in> set days. texts w n \<noteq> None \<and> has_suffix n day_suffix) \<and>
    set (map (\<lambda>n. trim_suffix n day_suffix) days) = {day. texts w (day @ day_suffix) \<noteq> None}"
proof (intro conjI)
  show mem: "\<forall>n \<in> set days. texts w n \<noteq> None \<and> has_suffix n day_suffix"
    using assms(3) by (auto simp: days_def)
  have "sorted_wrt (\<lambda>a b. b \<le> a) days" unfolding days_def
    by (rule sorted_wrt_sort_by) (rule total_preorder_key_desc)
  moreover have "distinct days" using assms(2) by (simp add: days_def)
  ultimately have "sorted_wrt (\<lambda>a b. b < a) days" by (rule strictly_down)
  then show "sorted_wrt (\<lambda>a b. trim_suffix b day_suffix < trim_suffix a day_suffix) days"
  proof (rule sorted_wrt_mono_rel[rotated])
    fix a b assume "a \<in> set days" "b \<in> set days" "b < a"
    with mem show "trim_suffix b day_suffix < trim_suffix a day_suffix"
      using filed_order[OF assms(1), of b a] by blast
  qed
  have "day \<in> set (map (\<lambda>n. trim_suffix n day_suffix) days)" if "texts w (day @ day_suffix) \<noteq> None" for day
  proof -
    have "day @ day_suffix \<in> set days" using that assms(3) by (auto simp: days_def has_suffix_def)
    then show ?thesis by (metis (no_types, lifting) image_eqI list.set_map trim_day)
  qed
  moreover have "texts w (trim_suffix n day_suffix @ day_suffix) \<noteq> None" if "n \<in> set days" for n
  proof -
    from mem that have n: "texts w n \<noteq> None" "has_suffix n day_suffix" by blast+
    obtain at where "n = date_string at @ day_suffix" using filed_name[OF assms(1) n] by blast
    with n(1) show ?thesis by simp
  qed
  ultimately show "set (map (\<lambda>n. trim_suffix n day_suffix) days) = {day. texts w (day @ day_suffix) \<noteq> None}"
    unfolding set_map by blast
qed

lemma query_newest:
  assumes filed: "filed D (texts w)" and s: "as_dir s = dir" and since: "qu_since q = 0 \<or> dated (qu_since q)"
    and listable: "\<And>v. \<exists>ns v'. ld_read_dir D dir v = (Inr ns, v')"
    and reads: "\<And>n v. \<exists>x v'. ld_read D (path_join [dir, n]) v = (x, v') \<and> (x = DayGone \<or> (\<exists>s. x = DayText s None))"
  shows "\<exists>days w'. sorted_wrt (<) days \<and> set days = {day. texts w (day @ day_suffix) \<noteq> None} \<and>
    act_query D s q w =
      (Inr (take (nat (if qu_limit q \<le> 0 then default_limit else qu_limit q))
         (sort_newest_first (filter (event_matches q) (concat (map (book D (texts w)) days))))), w')"
proof -
  obtain ns w1 where rd: "ld_read_dir D dir w = (Inr ns, w1)" using listable by blast
  note r = dd_read_dir[OF rd]
  define names where "names = sort_by (\<lambda>x y. y \<le> x) (filter (\<lambda>n. has_suffix n day_suffix) ns)"
  let ?trim = "\<lambda>n. trim_suffix n day_suffix" and ?limit = "nat (if qu_limit q \<le> 0 then default_limit else qu_limit q)"
  let ?F = "\<lambda>n. filter (event_matches q) (book D (texts w) (?trim n))"
  have filed1: "filed D (texts w1)" and t1: "texts w1 = texts w" using filed r by simp_all
  have "distinct ns" "set ns = dom (texts w)" using r by simp_all
  from day_names[OF filed this] have
    down: "sorted_wrt (\<lambda>a b. ?trim b < ?trim a) names" and mem: "\<And>n. n \<in> set names \<Longrightarrow> texts w n \<noteq> None \<and> has_suffix n day_suffix"
    and days: "set (map ?trim names) = {day. texts w (day @ day_suffix) \<noteq> None}" unfolding names_def[symmetric] by blast+
  from query_days_spec[OF filed since reads down mem t1, where out = "[]" and limit = ?limit]
  obtain k w2 where q: "query_days D dir q ?limit names [] w1 = (Inr (concat (take k (map ?F names))), w2)"
    and enough: "?limit \<le> length (concat (take k (map ?F names))) \<or> concat (drop k (map ?F names)) = []"
    unfolding append_Nil by blast
  have "newer_blocks (map ?F names)"
    unfolding newer_blocks_def sorted_wrt_map using down
    by (rule sorted_wrt_mono_rel[rotated]) (use book_order[OF filed] in auto)
  note newest = newest_of_enough[OF this enough]
  have all: "concat (rev (map ?F names)) = filter (event_matches q) (concat (map (book D (texts w)) (rev (map ?trim names))))"
    by (simp add: filter_concat rev_map comp_def)
  have "act_query D s q w = (Inr (take ?limit (sort_newest_first (concat (take k (map ?F names))))), w2)"
    using rd q s by (simp add: act_query_def Let_def names_def)
  moreover have "sorted_wrt (<) (rev (map ?trim names))" using down by (simp add: sorted_wrt_rev sorted_wrt_map)
  ultimately show ?thesis unfolding newest all using days
    by (intro exI[of _ "rev (map ?trim names)"] exI[of _ w2]) simp
qed

end

section \<open>A directory in memory\<close>

text \<open>
  The files by name and the names the open handles were opened with, for the directory \<open>d\<close>; events
  are lines of fields, which is enough for texts without a bar or a line break.
\<close>

type_synonym log_ram = "(string \<times> string) list \<times> string list"

definition ram_name :: "string \<Rightarrow> string" where
  "ram_name p = trim_prefix p ''d/''"

definition ram_fields :: "event \<Rightarrow> string list" where
  "ram_fields e = [format_nat (nat (ev_at e)), ev_user e, ev_action e, ev_path e, ev_to e, ev_source e, ev_from e]"

definition ram_parse :: "string \<Rightarrow> event option" where
  "ram_parse s =
     (case split_on CHR ''|'' s of
        [a, u, c, p, t, src, f] \<Rightarrow>
          (case parse_uint a 10 69 of
             None \<Rightarrow> None
           | Some v \<Rightarrow> Some \<lparr>ev_at = int v, ev_user = u, ev_action = c, ev_path = p, ev_to = t, ev_source = src, ev_from = f\<rparr>)
      | _ \<Rightarrow> None)"

definition ram_writable :: "event \<Rightarrow> bool" where
  "ram_writable e \<longleftrightarrow> dated (ev_at e) \<and> ev_at e < 2 ^ 69 \<and>
     list_all (\<lambda>f. CHR ''|'' \<notin> set f \<and> newline_char \<notin> set f \<and> CHR 0x0D \<notin> set f) (ram_fields e) \<and>
     length (join_with ''|'' (ram_fields e)) < max_line"

definition ram_log :: "log_ram log_disk" where
  "ram_log = \<lparr>ld_now = (\<lambda>w. (1, w)),
     ld_marshal = (\<lambda>e. Inr (join_with ''|'' (ram_fields e))),
     ld_parse = ram_parse,
     ld_mkdir_all = (\<lambda>p w. (None, w)),
     ld_append = (\<lambda>p (fs, hs).
       (Inr (length hs), (if map_of fs (ram_name p) = None then (ram_name p, []) # fs else fs, hs @ [ram_name p]))),
     ld_write = (\<lambda>h b (fs, hs).
       if h < length hs then
         (case map_of fs (hs ! h) of
            None \<Rightarrow> (Some ''gone'', (fs, hs))
          | Some t \<Rightarrow> (None, ((hs ! h, t @ b) # fs, hs)))
       else (Some ''closed'', (fs, hs))),
     ld_close = (\<lambda>h w. (None, w)),
     ld_read_dir = (\<lambda>p w. (Inr (filter plain_name (remdups (map fst (fst w)))), w)),
     ld_remove = (\<lambda>p (fs, hs). (filter (\<lambda>x. fst x \<noteq> ram_name p) fs, hs)),
     ld_read = (\<lambda>p w. (case map_of (fst w) (ram_name p) of None \<Rightarrow> DayGone | Some t \<Rightarrow> DayText t None, w))\<rparr>"

definition ram_texts :: "log_ram \<Rightarrow> string \<Rightarrow> string option" where
  "ram_texts w n = (if plain_name n then map_of (fst w) n else None)"

definition ram_handles :: "log_ram \<Rightarrow> nat \<Rightarrow> string option" where
  "ram_handles w h = (if h < length (snd w) then Some (snd w ! h) else None)"

lemma ram_name_join: "plain_name n \<Longrightarrow> ram_name (path_join [''d'', n]) = n"
proof -
  assume n: "plain_name n"
  have "path_join [rel_path [''d''], n] = rel_path ([''d''] @ [n])"
    using n by (intro path_join_rel_path) (simp_all add: plain_name_def)
  then show ?thesis by (simp add: ram_name_def rel_path_def trim_prefix_append[of "''d/''", simplified])
qed

lemma map_of_filter_other: "map_of (filter (\<lambda>x. fst x \<noteq> n) fs) = (map_of fs)(n := None)"
  by (rule ext, induction fs) auto

lemma join_with_not_Nil: "f \<noteq> [] \<Longrightarrow> join_with sep (f # fs) \<noteq> []"
  by (cases fs) auto

lemma ram_codec:
  assumes "ram_writable e"
  shows "ram_parse (join_with ''|'' (ram_fields e)) = Some e" "join_with ''|'' (ram_fields e) \<noteq> []"
    "newline_char \<notin> set (join_with ''|'' (ram_fields e))" "CHR 0x0D \<notin> set (join_with ''|'' (ram_fields e))"
proof -
  have bar: "\<forall>f \<in> set (ram_fields e). CHR ''|'' \<notin> set f"
    using assms by (simp add: ram_writable_def list_all_iff)
  have "split_on CHR ''|'' (join_with ''|'' (ram_fields e)) = ram_fields e"
  proof (rule split_join)
    show "ram_fields e \<noteq> []" by (simp add: ram_fields_def)
    show "CHR ''|'' \<notin> set f" if "f \<in> set (ram_fields e)" for f using bar that by blast
  qed
  moreover have "parse_uint (format_nat (nat (ev_at e))) 10 69 = Some (nat (ev_at e))"
    using assms by (intro parse_uint_format) (simp add: ram_writable_def nat_less_iff dated_def)
  ultimately show "ram_parse (join_with ''|'' (ram_fields e)) = Some e"
    using assms by (simp add: ram_parse_def ram_fields_def ram_writable_def dated_def)
  show "join_with ''|'' (ram_fields e) \<noteq> []" by (simp add: ram_fields_def)
  have join: "c \<notin> set (join_with ''|'' fs)" if "c \<noteq> CHR ''|''" "\<forall>f \<in> set fs. c \<notin> set f" for c fs
    using that by (induction "''|''" fs rule: join_with.induct) auto
  show "newline_char \<notin> set (join_with ''|'' (ram_fields e))" "CHR 0x0D \<notin> set (join_with ''|'' (ram_fields e))"
    using assms by (intro join; simp add: ram_writable_def list_all_iff newline_char_def)+
qed

lemma dom_ram_texts: "dom (ram_texts w) = {n. plain_name n} \<inter> fst ` set (fst w)"
  unfolding dom_map_of_conv_image_fst[symmetric] by (auto simp: ram_texts_def split: if_splits)

interpretation ram_days: day_dir ram_log "''d''" ram_texts ram_handles ram_writable
proof (unfold_locales, goal_cases)
  case (1 w n)
  then show ?case by (auto simp: ram_texts_def split: if_splits)
next
  case (2 w at w')
  then show ?case by (simp add: ram_log_def)
next
  case (3 w r w')
  then show ?case by (force simp: ram_log_def dom_ram_texts)
next
  case (4 n w x w')
  then show ?case by (auto simp: ram_log_def ram_name_join ram_texts_def split: option.splits)
next
  case (5 n w h w')
  then show ?case
    by (cases w) (auto simp: ram_log_def ram_name_join ram_texts_def ram_handles_def fun_eq_iff nth_append split: option.splits)
next
  case (6 n w msg w')
  then show ?case by (cases w) (simp add: ram_log_def)
next
  case (7 h b w err w' n t)
  then show ?case
    by (cases w) (auto simp: ram_log_def ram_texts_def ram_handles_def fun_eq_iff split: if_splits option.splits)
next
  case (8 h w)
  then show ?case by (simp add: ram_log_def)
next
  case (9 n w)
  then show ?case
    by (cases w) (auto simp: ram_log_def ram_name_join ram_texts_def ram_handles_def fun_eq_iff map_of_filter_other)
next
  case (10 e b)
  then have b: "b = join_with ''|'' (ram_fields e)" by (simp add: ram_log_def)
  have "last b \<noteq> CHR 0x0D" using ram_codec(2,4)[OF 10(1)] b by (metis last_in_set)
  then show ?case using ram_codec[OF 10(1)] 10(1) b by (simp add: ram_log_def ram_writable_def)
next
  case (11 e)
  then show ?case by (simp add: ram_writable_def)
qed

section \<open>The properties of the log\<close>


definition sample_event :: event where
  "sample_event = \<lparr>ev_at = 63921744000000000000, ev_user = ''ann'', ev_action = ''delete'', ev_path = ''teams/a/x'',
     ev_to = [], ev_source = ''web'', ev_from = []\<rparr>"

definition sample_store :: act_store where
  "sample_store = \<lparr>as_dir = ''d'', as_keep = default_keep, as_day = [], as_file = None\<rparr>"

text \<open>A first record on an empty directory.\<close>

lemma sample_days: "date_string (ev_at sample_event) = ''2026-08-08''"
    "date_string (ev_at sample_event - default_keep) = ''2026-07-09''" "dated (ev_at sample_event)"
  by code_simp+

definition sample_line :: string where
  "sample_line = join_with ''|'' (ram_fields sample_event)"

lemma sample_recorded:
  "act_record ram_log sample_store sample_event ([], []) =
     (None, sample_store\<lparr>as_day := ''2026-08-08'', as_file := Some 0\<rparr>,
      ([(''2026-08-08.jsonl'', sample_line @ [newline_char]), (''2026-08-08.jsonl'', [])], [''2026-08-08.jsonl'']))"
proof -
  have p: "plain_name ''2026-08-08.jsonl''" by (simp add: plain_name_def)
  note n = ram_name_join[OF p]
  have at: "ev_at sample_event \<noteq> 0" "sample_event\<lparr>ev_at := ev_at sample_event\<rparr> = sample_event" by (simp_all add: sample_event_def)
  have cut: "\<not> ''2026-08-08'' < (''2026-07-09'' :: string)" by code_simp
  have trim: "trim_suffix ''2026-08-08.jsonl'' day_suffix = ''2026-08-08''" "has_suffix ''2026-08-08.jsonl'' day_suffix" by code_simp+
  show ?thesis using n p at cut trim
    by (simp add: act_record_def marshal_line_def roll_locked_def prune_locked_def Let_def sample_store_def sample_days
        day_suffix_def ram_log_def sample_line_def)
qed

lemma sample_writable: "ram_writable sample_event"
proof -
  have "list_all (\<lambda>f. CHR ''|'' \<notin> set f \<and> newline_char \<notin> set f \<and> CHR 0x0D \<notin> set f) (ram_fields sample_event)"
    using format_nat_digits[of "CHR ''|''" "nat (ev_at sample_event)"] format_nat_digits[of newline_char "nat (ev_at sample_event)"]
      format_nat_digits[of "CHR 0x0D" "nat (ev_at sample_event)"]
    by (auto simp: ram_fields_def sample_event_def newline_char_def)
  moreover have "length (join_with ''|'' (ram_fields sample_event)) < max_line"
    by (simp add: ram_fields_def sample_event_def max_line_def format_nat.simps)
  ultimately show ?thesis using sample_days by (simp add: ram_writable_def sample_event_def)
qed

lemma sample_start: "filed ram_log (ram_texts ([], []))" "store_ok ''d'' ram_texts ram_handles sample_store ([], [])"
  "as_keep sample_store \<le> ev_at sample_event"
  by (simp_all add: filed_def ram_texts_def store_ok_def sample_store_def sample_event_def default_keep_def
      hour_def minute_def second_def)

lemma sample_at:
  "(if ev_at sample_event = 0 then ld_now ram_log ([], []) else (ev_at sample_event, ([], []))) = (ev_at sample_event, ([], []))"
  "sample_event\<lparr>ev_at := ev_at sample_event\<rparr> = sample_event"
  by (simp_all add: sample_event_def)

lemma sample_filed:
  "filed ram_log (ram_texts (snd (snd (act_record ram_log sample_store sample_event ([], [])))))"
  "book ram_log (ram_texts (snd (snd (act_record ram_log sample_store sample_event ([], []))))) ''2026-08-08'' = [sample_event]"
proof -
  have "ram_writable (sample_event\<lparr>ev_at := ev_at sample_event\<rparr>)" using sample_writable sample_at(2) by simp
  note c = ram_days.record_files[OF sample_start(1) sample_recorded sample_at(1) sample_start(2) this sample_start(3)]
  have "date_string (ev_at sample_event - as_keep sample_store) \<le> ''2026-08-08''"
    using sample_days by (simp add: sample_store_def)
  moreover have "book ram_log (ram_texts ([], [])) ''2026-08-08'' = []" by (simp add: book_def ram_texts_def)
  ultimately show "filed ram_log (ram_texts (snd (snd (act_record ram_log sample_store sample_event ([], [])))))"
    "book ram_log (ram_texts (snd (snd (act_record ram_log sample_store sample_event ([], []))))) ''2026-08-08'' = [sample_event]"
    using c sample_days sample_at(2) sample_recorded by simp_all
qed


text \<open>
  C33: The listing is the newest matching events of the whole log. Reading days newest first and
  stopping as soon as there are enough gives what sorting all matching events of all days by time,
  newest first and otherwise as recorded, and cutting at the limit gives. A limit that is not positive
  is 500.
\<close>

theorem query_is_newest:
  assumes "day_dir D dir texts hnd writable" and "filed D (texts w)" and "as_dir s = dir"
    and "qu_since q = 0 \<or> dated (qu_since q)"
    and "\<And>v. \<exists>ns v'. ld_read_dir D dir v = (Inr ns, v')"
    and "\<And>n v. \<exists>x v'. ld_read D (path_join [dir, n]) v = (x, v') \<and> (x = DayGone \<or> (\<exists>s. x = DayText s None))"
  shows "\<exists>days w'. sorted_wrt (<) days \<and> set days = {day. texts w (day @ day_suffix) \<noteq> None} \<and>
    act_query D s q w =
      (Inr (take (nat (if qu_limit q \<le> 0 then default_limit else qu_limit q))
         (sort_newest_first (filter (event_matches q) (concat (map (book D (texts w)) days))))), w')"
  by (rule day_dir.query_newest[OF assms])

definition sample_query :: event_query where
  "sample_query = \<lparr>qu_user = ''ann'', qu_path = [], qu_action = [], qu_since = 0, qu_limit = 0\<rparr>"

text \<open>What a listing shows after a record.\<close>

lemma query_is_newest_witness:
  "\<exists>w'. act_query ram_log sample_store sample_query (snd (snd (act_record ram_log sample_store sample_event ([], [])))) =
     (Inr [sample_event], w')"
proof -
  let ?w = "([(''2026-08-08.jsonl'', sample_line @ [newline_char]), (''2026-08-08.jsonl'', [])], [''2026-08-08.jsonl'']) :: log_ram"
  have w: "snd (snd (act_record ram_log sample_store sample_event ([], []))) = ?w" by (simp add: sample_recorded)
  have filed: "filed ram_log (ram_texts ?w)" using sample_filed(1) w by simp
  have reads: "\<exists>x v'. ld_read ram_log (path_join [''d'', n]) v = (x, v') \<and> (x = DayGone \<or> (\<exists>s. x = DayText s None))" for n v
    by (auto simp: ram_log_def split: option.split)
  have lists: "\<exists>ns v'. ld_read_dir ram_log ''d'' v = (Inr ns, v')" for v by (simp add: ram_log_def)
  have s: "as_dir sample_store = ''d''" "qu_since sample_query = 0 \<or> dated (qu_since sample_query)"
    by (simp_all add: sample_store_def sample_query_def)
  obtain days w' where d: "sorted_wrt (<) days" "set days = {day. ram_texts ?w (day @ day_suffix) \<noteq> None}"
    and q: "act_query ram_log sample_store sample_query ?w =
      (Inr (take (nat (if qu_limit sample_query \<le> 0 then default_limit else qu_limit sample_query))
         (sort_newest_first (filter (event_matches sample_query) (concat (map (book ram_log (ram_texts ?w)) days))))), w')"
    using query_is_newest[where D = ram_log and dir = "''d''" and texts = ram_texts and hnd = ram_handles
        and writable = ram_writable and w = ?w and s = sample_store and q = sample_query,
        OF ram_days.day_dir_axioms filed s lists reads] by blast
  have p: "plain_name ''2026-08-08.jsonl''" by (simp add: plain_name_def)
  have "day @ day_suffix = ''2026-08-08'' @ day_suffix \<longleftrightarrow> day = ''2026-08-08''" for day by simp
  then have "{day. ram_texts ?w (day @ day_suffix) \<noteq> None} = {''2026-08-08''}"
    using p by (auto simp: ram_texts_def day_suffix_def split: if_splits)
  moreover have "distinct days" using d(1) by (induction days) auto
  ultimately have days: "days = [''2026-08-08'']" using d(2) by (cases days; cases "tl days") auto
  have "book ram_log (ram_texts ?w) ''2026-08-08'' = [sample_event]"
    using sample_filed(2) w by simp
  then show ?thesis unfolding w q days
    by (simp add: sample_query_def event_matches_def sample_event_def sort_newest_first_def default_limit_def)
qed

end
