(* ===== verification/SmbLog.thy ===== *)
theory SmbLog
  imports Activity
begin

text \<open>
  smbd's log, \<^verbatim>\<open>src/internal/activity/\<close>: the parser of its audit lines (\<^verbatim>\<open>smblog.go\<close>) and the loop that
  follows the file and records what it finds (\<^verbatim>\<open>Tail\<close> in \<^verbatim>\<open>store.go\<close>). The log file, the clock and the
  store's \<^verbatim>\<open>Record\<close> are parameters.
\<close>

section \<open>The audit lines of smbd\<close>

definition audit_fields :: nat where "audit_fields = 5"
definition tmp_name_prefix :: string where "tmp_name_prefix = ''.::TMPNAME:''"

definition audit_rel :: "string \<Rightarrow> string \<Rightarrow> string option" where
  "audit_rel root p =
     (if p = [] then None
      else
        (let root = trim_suffix root ''/''
         in if p = root then None
            else if has_prefix p (root @ ''/'') then Some (trim_prefix p (root @ ''/''))
            else None))"

definition base_of :: "string \<Rightarrow> string" where
  "base_of p = rev (takeWhile (\<lambda>c. c \<noteq> CHR ''/'') (rev p))"

definition last_field :: "string list \<Rightarrow> nat \<Rightarrow> string" where
  "last_field f least = (if length f < least then [] else last f)"

definition parse_audit_line :: "string \<Rightarrow> string \<Rightarrow> time \<Rightarrow> event option" where
  "parse_audit_line line root at =
     (if CHR ''|'' \<notin> set line then None
      else
        (let f = split_on CHR ''|'' (trim_space line); n = length f
         in if n < audit_fields then None
            else
              (let user = trim_space (f ! 0); from = f ! 1; opn = f ! 3; result = f ! 4
               in if user = [] \<or> result \<noteq> ''ok'' then None
                  else
                    (let e = \<lparr>ev_at = at, ev_user = user, ev_action = [], ev_path = [], ev_to = [],
                              ev_source = source_smb, ev_from = from\<rparr>
                     in if opn = ''unlinkat'' then
                          (case audit_rel root (last_field f 5) of
                             None \<Rightarrow> None
                           | Some p \<Rightarrow> Some (e\<lparr>ev_action := act_deleted, ev_path := p\<rparr>))
                        else if opn = ''renameat'' then
                          (if n < 7 then None
                           else
                             (let src = f ! (n - 2); dst = f ! (n - 1)
                              in case audit_rel root dst of
                                   None \<Rightarrow> None
                                 | Some to \<Rightarrow>
                                     if str_contains (base_of src) tmp_name_prefix
                                     then Some (e\<lparr>ev_action := act_mkdir, ev_path := to\<rparr>)
                                     else
                                       (case audit_rel root src of
                                          None \<Rightarrow> None
                                        | Some from \<Rightarrow>
                                            Some (e\<lparr>ev_action := act_renamed, ev_path := from, ev_to := to\<rparr>))))
                        else if opn = ''mkdirat'' then
                          (case audit_rel root (last_field f 5) of
                             None \<Rightarrow> None
                           | Some p \<Rightarrow>
                               if str_contains (base_of p) tmp_name_prefix then None
                               else Some (e\<lparr>ev_action := act_mkdir, ev_path := p\<rparr>))
                        else if opn = ''create_file'' then
                          (if n < 8 then None
                           else
                             (let disposition = f ! (n - 2); p = f ! (n - 1)
                              in if disposition \<notin> {''create'', ''overwrite_if'', ''overwrite'', ''supersede''} then None
                                 else if f ! (n - 3) = ''dir'' then None
                                 else
                                   (case audit_rel root p of
                                      None \<Rightarrow> None
                                    | Some p \<Rightarrow> Some (e\<lparr>ev_action := act_created, ev_path := p\<rparr>))))
                        else None))))"

definition extract_payload :: "string \<Rightarrow> string option" where
  "extract_payload line =
     (let s = trim_space line
      in if has_prefix s ''[20'' \<or> str_contains s ''vfs_full_audit.c'' then None
         else if count_list s CHR ''|'' < audit_fields - 1 then None
         else Some s)"

section \<open>Following the log\<close>

text \<open>
  The log: its size, opening and positioning it, and everything from an offset to its end; with the
  clock, the store's \<^verbatim>\<open>Record\<close> and the error callback. \<open>tl_pos\<close> is how far the open file was read.
\<close>

record 'w tail_env =
  te_stat :: "'w \<Rightarrow> (string + nat) \<times> 'w"
  te_open :: "'w \<Rightarrow> (string + nat) \<times> 'w"
  te_seek :: "nat \<Rightarrow> nat \<Rightarrow> 'w \<Rightarrow> bool \<times> 'w"
  te_read :: "nat \<Rightarrow> nat \<Rightarrow> 'w \<Rightarrow> string \<times> 'w"
  te_now :: "'w \<Rightarrow> time \<times> 'w"
  te_record :: "event \<Rightarrow> 'w \<Rightarrow> string option \<times> 'w"
  te_on_err :: "(string \<Rightarrow> 'w \<Rightarrow> 'w) option"

record tail_state =
  tl_file :: "nat option"
  tl_size :: nat
  tl_pos :: nat

definition open_log :: "'w tail_env \<Rightarrow> tail_state \<Rightarrow> 'w \<Rightarrow> bool \<times> tail_state \<times> 'w" where
  "open_log E t w =
     (case te_stat E w of
        (Inl _, w) \<Rightarrow> (False, t, w)
      | (Inr n, w) \<Rightarrow>
          (case te_open E w of
             (Inl _, w) \<Rightarrow> (False, t, w)
           | (Inr h, w) \<Rightarrow>
               (case te_seek E h n w of
                  (False, w) \<Rightarrow> (False, t\<lparr>tl_file := None, tl_size := n\<rparr>, w)
                | (True, w) \<Rightarrow> (True, t\<lparr>tl_file := Some h, tl_size := n, tl_pos := n\<rparr>, w))))"

text \<open>
  \<^verbatim>\<open>ReadString\<close> to the end of the file: the complete lines, with their newlines; what comes after the
  last of them is taken from the reader too.
\<close>

definition whole_lines :: "string \<Rightarrow> string list" where
  "whole_lines s = map (\<lambda>l. l @ [newline_char]) (butlast (split_on newline_char s))"

fun tail_lines :: "'w tail_env \<Rightarrow> string \<Rightarrow> string list \<Rightarrow> 'w \<Rightarrow> 'w" where
  "tail_lines E root [] w = w"
| "tail_lines E root (line # ls) w =
     (case extract_payload line of
        None \<Rightarrow> tail_lines E root ls w
      | Some payload \<Rightarrow>
          (case te_now E w of (now, w) \<Rightarrow>
             (case parse_audit_line payload root now of
                None \<Rightarrow> tail_lines E root ls w
              | Some e \<Rightarrow>
                  (case te_record E e w of
                     (None, w) \<Rightarrow> tail_lines E root ls w
                   | (Some err, w) \<Rightarrow>
                       tail_lines E root ls (case te_on_err E of None \<Rightarrow> w | Some f \<Rightarrow> f err w)))))"

definition tail_read :: "'w tail_env \<Rightarrow> string \<Rightarrow> nat \<Rightarrow> tail_state \<Rightarrow> 'w \<Rightarrow> tail_state \<times> 'w" where
  "tail_read E root h t w =
     (case te_stat E w of
        (Inl _, w) \<Rightarrow> (t\<lparr>tl_file := None, tl_size := 0\<rparr>, w)
      | (Inr n, w) \<Rightarrow>
          if n < tl_size t then (t\<lparr>tl_file := None, tl_size := 0\<rparr>, w)
          else
            (case te_read E h (tl_pos t) w of (s, w) \<Rightarrow>
               (t\<lparr>tl_size := tl_size t + length (concat (whole_lines s)), tl_pos := tl_pos t + length s\<rparr>,
                tail_lines E root (whole_lines s) w)))"

definition tail_tick :: "'w tail_env \<Rightarrow> string \<Rightarrow> tail_state \<Rightarrow> 'w \<Rightarrow> tail_state \<times> 'w" where
  "tail_tick E root t w =
     (case tl_file t of
        Some h \<Rightarrow> tail_read E root h t w
      | None \<Rightarrow>
          (case open_log E t w of
             (False, t, w) \<Rightarrow> (t, w)
           | (True, t, w) \<Rightarrow> (case tl_file t of None \<Rightarrow> (t, w) | Some h \<Rightarrow> tail_read E root h t w)))"

text \<open>What the loop waits for: the ticker, or the end.\<close>

datatype tail_wake = WakeTick | WakeDone

fun tail_loop :: "'w tail_env \<Rightarrow> string \<Rightarrow> tail_wake list \<Rightarrow> tail_state \<Rightarrow> 'w \<Rightarrow> tail_state \<times> 'w" where
  "tail_loop E root [] t w = (t, w)"
| "tail_loop E root (WakeDone # _) t w = (t, w)"
| "tail_loop E root (WakeTick # ws) t w = (case tail_tick E root t w of (t, w) \<Rightarrow> tail_loop E root ws t w)"

definition act_tail :: "'w tail_env \<Rightarrow> string \<Rightarrow> tail_wake list \<Rightarrow> 'w \<Rightarrow> tail_state \<times> 'w" where
  "act_tail E root ws w = tail_loop E root ws \<lparr>tl_file = None, tl_size = 0, tl_pos = 0\<rparr> w"

section \<open>What is recorded of the log\<close>

text \<open>A log file as its text, beside the state of everything else; between two ticks it grows.\<close>

definition text_log :: "('v \<Rightarrow> time \<times> 'v) \<Rightarrow> (event \<Rightarrow> 'v \<Rightarrow> string option \<times> 'v) \<Rightarrow> (string \<times> 'v) tail_env" where
  "text_log now rec = \<lparr>te_stat = (\<lambda>w. (Inr (length (fst w)), w)),
     te_open = (\<lambda>w. (Inr 0, w)),
     te_seek = (\<lambda>h n w. (True, w)),
     te_read = (\<lambda>h n w. (drop n (fst w), w)),
     te_now = (\<lambda>(t, v). case now v of (x, v) \<Rightarrow> (x, (t, v))),
     te_record = (\<lambda>e (t, v). case rec e v of (x, v) \<Rightarrow> (x, (t, v))),
     te_on_err = None\<rparr>"

fun grow_and_tick :: "(string \<times> 'v) tail_env \<Rightarrow> string \<Rightarrow> string list \<Rightarrow> tail_state \<Rightarrow> string \<times> 'v \<Rightarrow> tail_state \<times> string \<times> 'v" where
  "grow_and_tick E root [] t w = (t, w)"
| "grow_and_tick E root (c # cs) t w =
     (case tail_tick E root t (fst w @ c, snd w) of (t, w) \<Rightarrow> grow_and_tick E root cs t w)"

lemma tail_lines_append: "tail_lines E root (xs @ ys) w = tail_lines E root ys (tail_lines E root xs w)"
  by (induction E root xs w rule: tail_lines.induct) (auto split: option.splits prod.splits)

text \<open>Recording does not touch the log, and what is recorded does not depend on the rest of it.\<close>

lemma tail_lines_text:
  "tail_lines (text_log now rec) root ls (t, v) = (t, snd (tail_lines (text_log now rec) root ls (t', v)))"
proof (induction ls arbitrary: v)
  case Nil
  then show ?case by simp
next
  case (Cons l ls)
  have split: "tail_lines (text_log now rec) root (l # ls) w =
      tail_lines (text_log now rec) root ls (tail_lines (text_log now rec) root [l] w)" for w
    using tail_lines_append[of "text_log now rec" root "[l]" ls] by simp
  have one: "\<exists>v'. \<forall>t. tail_lines (text_log now rec) root [l] (t, v) = (t, v')"
  proof (cases "extract_payload l")
    case None
    then show ?thesis by auto
  next
    case (Some pl)
    obtain x u where n: "now v = (x, u)" by fastforce
    show ?thesis
    proof (cases "parse_audit_line pl root x")
      case None
      with Some n show ?thesis by (auto simp: text_log_def)
    next
      case e: (Some e)
      obtain r u' where "rec e u = (r, u')" by fastforce
      with Some n e show ?thesis by (cases r) (auto simp: text_log_def)
    qed
  qed
  then obtain v' where "\<And>t. tail_lines (text_log now rec) root [l] (t, v) = (t, v')" by blast
  then show ?case using Cons.IH[of v'] by (simp only: split)
qed

definition ends_line :: "string \<Rightarrow> bool" where
  "ends_line c \<longleftrightarrow> c = [] \<or> last c = newline_char"

lemma split_on_snoc_sep: "split_on c (s @ [c]) = split_on c s @ [[]]"
  by (induction s) (auto split: list.splits)

lemma whole_lines_concat: "ends_line c \<Longrightarrow> concat (whole_lines c) = c"
proof -
  have join: "concat (map (\<lambda>l. l @ [d]) (split_on d s)) = s @ [d]" for d s
    by (induction s) (auto split: list.splits)
  assume "ends_line c"
  then consider "c = []" | s where "c = s @ [newline_char]"
    unfolding ends_line_def by (metis append_butlast_last_id)
  then show ?thesis
    by cases (simp_all add: whole_lines_def split_on_snoc_sep join)
qed

lemma whole_lines_append:
  assumes "ends_line c" shows "whole_lines (c @ d) = whole_lines c @ whole_lines d"
proof -
  have two: "split_on x (s @ x # d) = split_on x s @ split_on x d" for x s
    by (induction s) (auto split: list.splits)
  from assms consider "c = []" | s where "c = s @ [newline_char]"
    unfolding ends_line_def by (metis append_butlast_last_id)
  then show ?thesis
    by cases (simp_all add: whole_lines_def split_on_snoc_sep two butlast_append)
qed

text \<open>A tick that finds whole lines added handles exactly those.\<close>

lemma tick_reads:
  assumes "ends_line c"
  shows "tail_tick (text_log now rec) root \<lparr>tl_file = Some h, tl_size = length t, tl_pos = length t\<rparr> (t @ c, v) =
    (\<lparr>tl_file = Some h, tl_size = length (t @ c), tl_pos = length (t @ c)\<rparr>,
     tail_lines (text_log now rec) root (whole_lines c) (t @ c, v))"
  using whole_lines_concat[OF assms] by (simp add: tail_tick_def tail_read_def text_log_def)

lemma ticks_follow:
  assumes "\<forall>c \<in> set cs. ends_line c"
  shows "grow_and_tick (text_log now rec) root cs \<lparr>tl_file = Some h, tl_size = length t, tl_pos = length t\<rparr> (t, v) =
    (\<lparr>tl_file = Some h, tl_size = length (t @ concat cs), tl_pos = length (t @ concat cs)\<rparr>,
     tail_lines (text_log now rec) root (whole_lines (concat cs)) (t @ concat cs, v))"
  using assms
proof (induction cs arbitrary: t v)
  case Nil
  then show ?case by (simp add: whole_lines_def)
next
  case (Cons c cs)
  let ?E = "text_log now rec"
  from Cons.prems have c: "ends_line c" by simp
  obtain v' where v': "\<And>u. tail_lines ?E root (whole_lines c) (u, v) = (u, v')"
    using tail_lines_text[of now rec root "whole_lines c"] by metis
  have "grow_and_tick ?E root (c # cs) \<lparr>tl_file = Some h, tl_size = length t, tl_pos = length t\<rparr> (t, v) =
      grow_and_tick ?E root cs \<lparr>tl_file = Some h, tl_size = length (t @ c), tl_pos = length (t @ c)\<rparr> (t @ c, v')"
    unfolding grow_and_tick.simps fst_conv snd_conv tick_reads[OF c] v' prod.case ..
  also have "\<dots> = (\<lparr>tl_file = Some h, tl_size = length (t @ concat (c # cs)), tl_pos = length (t @ concat (c # cs))\<rparr>,
      tail_lines ?E root (whole_lines (concat cs)) (t @ concat (c # cs), v'))"
    using Cons.IH[of "t @ c" v'] Cons.prems by simp
  also have "tail_lines ?E root (whole_lines (concat cs)) (t @ concat (c # cs), v') =
      tail_lines ?E root (whole_lines (concat (c # cs))) (t @ concat (c # cs), v)"
    by (simp add: whole_lines_append[OF c] tail_lines_append v')
  finally show ?case .
qed

text \<open>The first tick only finds the end of the file.\<close>

lemma first_tick:
  "tail_tick (text_log now rec) root \<lparr>tl_file = None, tl_size = 0, tl_pos = 0\<rparr> (t, v) =
    (\<lparr>tl_file = Some 0, tl_size = length t, tl_pos = length t\<rparr>, (t, v))"
  by (simp add: tail_tick_def open_log_def tail_read_def text_log_def whole_lines_def)

text \<open>
  C34: The follower of smbd's log misses nothing and repeats nothing, as long as the log only grows by
  whole lines while it runs. What was in the file before the first tick is left alone; of the rest,
  however it is divided among the ticks, every line is handled once and in order, as if all of them had
  been read at once.
\<close>

theorem tail_follows:
  assumes "\<forall>c \<in> set cs. ends_line c"
  shows "grow_and_tick (text_log now rec) root (old # cs) \<lparr>tl_file = None, tl_size = 0, tl_pos = 0\<rparr> ([], v) =
    (\<lparr>tl_file = Some 0, tl_size = length (old @ concat cs), tl_pos = length (old @ concat cs)\<rparr>,
     tail_lines (text_log now rec) root (whole_lines (concat cs)) (old @ concat cs, v))"
  using ticks_follow[OF assms] by (simp add: first_tick)

text \<open>A log that keeps the events it is given.\<close>

definition kept_log :: "(string \<times> event list) tail_env" where
  "kept_log = text_log (\<lambda>v. (7, v)) (\<lambda>e v. (None, v @ [e]))"

definition audit_line :: "string \<Rightarrow> string \<Rightarrow> string" where
  "audit_line user p = user @ ''|10.0.0.9|team-a|unlinkat|ok|/srv/data/'' @ p @ [newline_char]"

definition audit_event :: "string \<Rightarrow> string \<Rightarrow> event" where
  "audit_event user p = \<lparr>ev_at = 7, ev_user = user, ev_action = ''delete'', ev_path = p, ev_to = [], ev_source = ''smb'', ev_from = ''10.0.0.9''\<rparr>"

lemma newline_byte: "newline_char = byte 10"
  by (simp add: newline_char_def byte_iff)

lemma audit_line_trim:
  assumes "user \<noteq> []" "visible (hd user)" "p \<noteq> []" "visible (last p)"
  shows "trim_space (audit_line user p) = user @ ''|10.0.0.9|team-a|unlinkat|ok|/srv/data/'' @ p"
    "trim_space (user @ ''|10.0.0.9|team-a|unlinkat|ok|/srv/data/'' @ p) = user @ ''|10.0.0.9|team-a|unlinkat|ok|/srv/data/'' @ p"
  using assms trim_space_line[of "user @ ''|10.0.0.9|team-a|unlinkat|ok|/srv/data/'' @ p"]
    trimmed_id[OF visible_trimmed[of "user @ ''|10.0.0.9|team-a|unlinkat|ok|/srv/data/'' @ p"]]
  by (simp_all add: audit_line_def newline_byte)

text \<open>A deletion by a user whose name has no bar, at a path that may have bars.\<close>

lemma audit_line_parsed:
  assumes "user \<noteq> []" "visible (hd user)" "visible (last user)" "CHR ''|'' \<notin> set user" "p \<noteq> []" "visible (last p)"
  shows "parse_audit_line (user @ ''|10.0.0.9|team-a|unlinkat|ok|/srv/data/'' @ p) ''/srv/data'' 7 =
    (case audit_rel ''/srv/data'' (last (split_on CHR ''|'' (''/srv/data/'' @ p))) of
       None \<Rightarrow> None | Some q \<Rightarrow> Some (audit_event user q))"
proof -
  have "split_on CHR ''|'' (user @ ''|10.0.0.9|team-a|unlinkat|ok|/srv/data/'' @ p) =
      user # split_on CHR ''|'' (''10.0.0.9|team-a|unlinkat|ok|/srv/data/'' @ p)"
    using split_on_append[OF assms(4), of "''10.0.0.9|team-a|unlinkat|ok|/srv/data/'' @ p"] by simp
  also have "split_on CHR ''|'' (''10.0.0.9|team-a|unlinkat|ok|/srv/data/'' @ p) =
      [''10.0.0.9'', ''team-a'', ''unlinkat'', ''ok''] @ split_on CHR ''|'' (''/srv/data/'' @ p)"
    by (simp split: list.split)
  finally have f: "split_on CHR ''|'' (user @ ''|10.0.0.9|team-a|unlinkat|ok|/srv/data/'' @ p) =
      [user, ''10.0.0.9'', ''team-a'', ''unlinkat'', ''ok''] @ split_on CHR ''|'' (''/srv/data/'' @ p)" by simp
  have user: "trim_space user = user" using assms by (intro trimmed_id visible_trimmed)
  obtain x xs where last: "split_on CHR ''|'' (''/srv/data/'' @ p) = x # xs"
    using split_on_not_Nil by (meson neq_Nil_conv)
  show ?thesis
    unfolding parse_audit_line_def audit_line_trim(2)[OF assms(1,2,5,6)] Let_def f last
    using assms(1) user
    by (auto simp: audit_fields_def last_field_def audit_event_def source_smb_def act_deleted_def split: option.split)
qed

lemma contains_chars: "str_contains s p \<Longrightarrow> set p \<subseteq> set s"
proof -
  assume "str_contains s p"
  then obtain i where "take (length p) (drop i s) = p" using str_index_Some by (auto simp: str_contains_def)
  then have "set p \<subseteq> set (drop i s)" using set_take_subset by metis
  then show ?thesis using set_drop_subset[of i s] by blast
qed

lemma audit_line_extracted:
  assumes "user \<noteq> []" "visible (hd user)" "p \<noteq> []" "visible (last p)" "CHR ''['' \<notin> set user" "CHR ''_'' \<notin> set (user @ p)"
  shows "extract_payload (audit_line user p) = Some (user @ ''|10.0.0.9|team-a|unlinkat|ok|/srv/data/'' @ p)"
proof -
  let ?s = "user @ ''|10.0.0.9|team-a|unlinkat|ok|/srv/data/'' @ p"
  have "\<not> has_prefix ?s ''[20''" using assms(1,5) by (cases user) auto
  moreover have "\<not> str_contains ?s ''vfs_full_audit.c''"
    using contains_chars[of ?s "''vfs_full_audit.c''"] assms(6) by auto
  ultimately show ?thesis unfolding extract_payload_def audit_line_trim(1)[OF assms(1-4)] Let_def
    by (simp add: audit_fields_def)
qed

text \<open>A line with a plain name is handled as the deletion it reports.\<close>

lemma kept_log_line:
  assumes "user \<noteq> []" "visible (hd user)" "visible (last user)" "CHR ''|'' \<notin> set user" "CHR ''['' \<notin> set user"
    "p \<noteq> []" "visible (last p)" "CHR ''|'' \<notin> set p" "CHR ''_'' \<notin> set (user @ p)"
  shows "tail_lines kept_log ''/srv/data'' (audit_line user p # ls) (t, v) =
    tail_lines kept_log ''/srv/data'' ls (t, v @ [audit_event user p])"
proof -
  have "CHR ''|'' \<notin> set (''/srv/data/'' @ p)" using assms(8) by simp
  then have "split_on CHR ''|'' (''/srv/data/'' @ p) = [''/srv/data/'' @ p]" by (rule split_on_absent)
  moreover have "audit_rel ''/srv/data'' (''/srv/data/'' @ p) = Some p"
    by (simp add: audit_rel_def trim_suffix_def has_suffix_def trim_prefix_append[of "''/srv/data/''", simplified])
  ultimately show ?thesis
    using audit_line_extracted[OF assms(1,2,6,7,5,9)] audit_line_parsed[OF assms(1-4,6,7)]
    by (simp add: kept_log_def text_log_def)
qed

lemma whole_lines_line: "newline_char \<notin> set l \<Longrightarrow> whole_lines (l @ newline_char # s) = (l @ [newline_char]) # whole_lines s"
  by (simp add: whole_lines_def)

lemma whole_lines_part: "newline_char \<notin> set l \<Longrightarrow> whole_lines l = []"
  by (simp add: whole_lines_def)

lemma tail_follows_witness:
  "snd (snd (grow_and_tick kept_log ''/srv/data'' [''old'', audit_line ''ann'' ''a'', audit_line ''bob'' ''b'']
      \<lparr>tl_file = None, tl_size = 0, tl_pos = 0\<rparr> ([], []))) = [audit_event ''ann'' ''a'', audit_event ''bob'' ''b'']"
proof -
  have "\<forall>c \<in> set [audit_line ''ann'' ''a'', audit_line ''bob'' ''b'']. ends_line c"
    by (simp add: ends_line_def audit_line_def)
  note f = tail_follows[OF this, where now = "\<lambda>v. (7, v)" and rec = "\<lambda>e v. (None, v @ [e])" and root = "''/srv/data''"
      and old = "''old''" and v = "[]", folded kept_log_def]
  have "whole_lines (concat [audit_line ''ann'' ''a'', audit_line ''bob'' ''b'']) = [audit_line ''ann'' ''a'', audit_line ''bob'' ''b'']"
    using whole_lines_append[of "audit_line ''ann'' ''a''" "audit_line ''bob'' ''b''"]
    by (simp add: ends_line_def audit_line_def whole_lines_def newline_char_def)
  then show ?thesis unfolding f by (simp add: kept_log_line visible_def del: tail_lines.simps(2))
qed

text \<open>
  Where it does not hold. A line found half written is lost, and its second half is read as a line of
  its own: a deletion by ann becomes one by \<open>n\<close>. A log that became shorter is noticed, but the new one is
  entered at its end as well. And a path with a bar is read from the last bar on, so a file can be named
  to be reported as another.
\<close>

lemma torn_line_misreports:
  "snd (snd (grow_and_tick kept_log ''/srv/data'' [[], ''an'', drop 2 (audit_line ''ann'' ''a'')]
      \<lparr>tl_file = None, tl_size = 0, tl_pos = 0\<rparr> ([], []))) = [audit_event ''n'' ''a'']"
proof -
  have d: "drop 2 (audit_line ''ann'' ''a'') = audit_line ''n'' ''a''" by (simp add: audit_line_def)
  have an: "whole_lines ''an'' = []" by (rule whole_lines_part) (simp add: newline_char_def)
  have l: "whole_lines (audit_line ''n'' ''a'') = [audit_line ''n'' ''a'']"
    by (simp add: audit_line_def whole_lines_def newline_char_def)
  have k: "te_stat kept_log = (\<lambda>w. (Inr (length (fst w)), w))" "te_read kept_log = (\<lambda>h n w. (drop n (fst w), w))"
    by (simp_all add: kept_log_def text_log_def)
  show ?thesis
    unfolding d grow_and_tick.simps fst_conv snd_conv append_Nil append_Nil2
      first_tick[where now = "\<lambda>v. (7, v)" and rec = "\<lambda>e v. (None, v @ [e])", folded kept_log_def] prod.case
    by (simp add: tail_tick_def tail_read_def k an l kept_log_line visible_def del: tail_lines.simps(2))
qed

lemma rotation_skips:
  assumes "length u < n"
  shows "tail_tick (text_log now rec) root \<lparr>tl_file = Some h, tl_size = n, tl_pos = m\<rparr> (u, v) =
      (\<lparr>tl_file = None, tl_size = 0, tl_pos = m\<rparr>, (u, v)) \<and>
    tail_tick (text_log now rec) root \<lparr>tl_file = None, tl_size = 0, tl_pos = m\<rparr> (u @ c, v) =
      (\<lparr>tl_file = Some 0, tl_size = length (u @ c), tl_pos = length (u @ c)\<rparr>, (u @ c, v))"
  using assms by (simp add: tail_tick_def open_log_def tail_read_def text_log_def whole_lines_def)

lemma bar_misreports:
  "parse_audit_line (''ann|10.0.0.9|team-a|unlinkat|ok|/srv/data/'' @ ''teams/a/x|/srv/data/teams/b/f'') ''/srv/data'' 7 =
    Some (audit_event ''ann'' ''teams/b/f'')"
proof -
  have "audit_rel ''/srv/data'' ''/srv/data/teams/b/f'' = Some ''teams/b/f''"
    by (simp add: audit_rel_def trim_suffix_def has_suffix_def trim_prefix_append[of "''/srv/data/''", simplified])
  then show ?thesis using audit_line_parsed[of "''ann''" "''teams/a/x|/srv/data/teams/b/f''"]
    by (simp add: visible_def)
qed

end
