(* ===== verification/Csv.thy ===== *)
theory Csv
  imports GoStrings
begin

text \<open>
  \<^verbatim>\<open>encoding/csv\<close>, a reader with the default settings and records of any length, as the account export
  of \<^verbatim>\<open>src/internal/admin/users.go\<close> is read with. Lines keep their newline, \<open>\r\n\<close> counts as one.
\<close>

datatype csv_error = BareQuote | StrayQuote

definition csv_newline :: char where "csv_newline = CHR 0x0A"

text \<open>A line as the reader gives it: a carriage return before the newline, or before the end, goes.\<close>

definition csv_normal :: "string \<Rightarrow> string" where
  "csv_normal l = (if l \<noteq> [] \<and> last l = CHR 0x0D then butlast l else l)"

definition csv_lines :: "string \<Rightarrow> string list" where
  "csv_lines s =
     (let parts = split_on csv_newline s; end_part = csv_normal (last parts)
      in map (\<lambda>l. csv_normal l @ [csv_newline]) (butlast parts) @ (if last parts = [] then [] else [end_part]))"

definition csv_blank :: "string \<Rightarrow> bool" where
  "csv_blank l \<longleftrightarrow> l = [] \<or> l = [csv_newline]"

definition csv_strip :: "string \<Rightarrow> string" where
  "csv_strip l = (if l \<noteq> [] \<and> last l = csv_newline then butlast l else l)"

text \<open>A field without quotes: itself, and the rest of the line after a comma.\<close>

definition csv_plain :: "string \<Rightarrow> csv_error + string \<times> string option" where
  "csv_plain line =
     (case cut line CHR '','' of (before, after, found) \<Rightarrow>
        (let field = (if found then before else csv_strip line)
         in if CHR 0x22 \<in> set field then Inl BareQuote
            else Inr (field, if found then Some after else None)))"

text \<open>The characters left to read.\<close>

definition csv_size :: "string \<Rightarrow> string list \<Rightarrow> nat" where
  "csv_size line ls = length line + sum_list (map length ls)"

lemma cut_rest: "(before, after, True) = cut s c \<Longrightarrow> s = before @ c # after"
  using cut_found[of s c before after] by simp

lemma csv_size_rest: "line = before @ c # after \<Longrightarrow> csv_size after ls < csv_size line ls \<and> csv_size (tl after) ls < csv_size line ls"
  by (auto simp: csv_size_def less_Suc_eq_le)

lemma csv_size_next: "line \<noteq> [] \<Longrightarrow> csv_size l ls < csv_size line (l # ls)"
  by (cases line) (simp_all add: csv_size_def)

text \<open>A quoted field after its opening quote; it may go on over the following lines.\<close>

function csv_quoted :: "string \<Rightarrow> string \<Rightarrow> string list \<Rightarrow> csv_error + string \<times> string option \<times> string list" where
  "csv_quoted acc line ls =
     (case cut line CHR 0x22 of
        (before, after, True) \<Rightarrow>
          (if csv_blank after then Inr (acc @ before, None, ls)
           else if hd after = CHR 0x22 then csv_quoted (acc @ before @ [CHR 0x22]) (tl after) ls
           else if hd after = CHR '','' then Inr (acc @ before, Some (tl after), ls)
           else Inl StrayQuote)
      | (_, _, False) \<Rightarrow>
          (if line = [] then Inl StrayQuote
           else (case ls of [] \<Rightarrow> Inl StrayQuote | l # ls' \<Rightarrow> csv_quoted (acc @ line) l ls')))"
  by pat_completeness auto
termination
  by (relation "measure (\<lambda>(acc, line, ls). csv_size line ls)")
    (auto dest!: cut_rest simp: csv_size_rest csv_size_next)

declare csv_quoted.simps [simp del]

lemma csv_quoted_shrinks:
  "csv_quoted acc line ls = Inr (f, Some rest, ls') \<Longrightarrow> csv_size rest ls' < csv_size line ls"
proof (induction acc line ls rule: csv_quoted.induct)
  case (1 acc line ls)
  obtain before after found where c: "cut line CHR 0x22 = (before, after, found)" by (metis prod.collapse)
  show ?case
  proof (cases found)
    case True
    then have line: "line = before @ CHR 0x22 # after" using c cut_found[of line "CHR 0x22"] by auto
    show ?thesis
    proof (cases "csv_blank after")
      case True
      then show ?thesis using "1.prems" c \<open>found\<close> by (simp add: csv_quoted.simps[of acc line ls])
    next
      case False
      then have ne: "after \<noteq> []" by (auto simp: csv_blank_def)
      show ?thesis
      proof (cases "hd after = CHR 0x22")
        case True
        then have "csv_quoted (acc @ before @ [CHR 0x22]) (tl after) ls = Inr (f, Some rest, ls')"
          using "1.prems" c \<open>found\<close> False by (simp add: csv_quoted.simps[of acc line ls])
        from "1.IH"(1)[OF c[symmetric] refl _ False True this] \<open>found\<close> have "csv_size rest ls' < csv_size (tl after) ls" by simp
        then show ?thesis using line by (simp add: csv_size_def)
      next
        case no: False
        then have "rest = tl after" "ls' = ls"
          using "1.prems" c \<open>found\<close> False by (simp_all add: csv_quoted.simps[of acc line ls] split: if_splits)
        then show ?thesis using line by (simp add: csv_size_def)
      qed
    qed
  next
    case False
    then obtain l ls2 where l: "line \<noteq> []" "ls = l # ls2" and q: "csv_quoted (acc @ line) l ls2 = Inr (f, Some rest, ls')"
      using "1.prems" c by (auto simp: csv_quoted.simps[of acc line ls] split: if_splits list.splits)
    from "1.IH"(2)[OF c[symmetric] refl _ l q] False have "csv_size rest ls' < csv_size l ls2" by simp
    then show ?thesis using l by (simp add: csv_size_def)
  qed
qed

lemma csv_plain_shrinks: "csv_plain line = Inr (f, Some rest) \<Longrightarrow> csv_size rest ls < csv_size line ls"
proof -
  assume "csv_plain line = Inr (f, Some rest)"
  then obtain before where "cut line CHR '','' = (before, rest, True)"
    by (auto simp: csv_plain_def Let_def split: prod.splits if_splits)
  then show ?thesis using cut_rest csv_size_rest by metis
qed

lemma csv_size_tl: "csv_size (tl line) ls \<le> csv_size line ls"
  by (cases line) (simp_all add: csv_size_def)

text \<open>The fields of a record that starts in \<open>line\<close>, and the lines after it.\<close>

function csv_record :: "string \<Rightarrow> string list \<Rightarrow> csv_error + string list \<times> string list" where
  "csv_record line ls =
     (if line = [] \<or> hd line \<noteq> CHR 0x22 then
        (case csv_plain line of
           Inl e \<Rightarrow> Inl e
         | Inr (f, None) \<Rightarrow> Inr ([f], ls)
         | Inr (f, Some rest) \<Rightarrow> (case csv_record rest ls of Inl e \<Rightarrow> Inl e | Inr (fs, ls) \<Rightarrow> Inr (f # fs, ls)))
      else
        (case csv_quoted [] (tl line) ls of
           Inl e \<Rightarrow> Inl e
         | Inr (f, None, ls') \<Rightarrow> Inr ([f], ls')
         | Inr (f, Some rest, ls') \<Rightarrow>
             (case csv_record rest ls' of Inl e \<Rightarrow> Inl e | Inr (fs, ls) \<Rightarrow> Inr (f # fs, ls))))"
  by pat_completeness auto
termination
  by (relation "measure (\<lambda>(line, ls). csv_size line ls)")
    (auto dest: csv_plain_shrinks dest!: csv_quoted_shrinks intro: less_le_trans csv_size_tl)

declare csv_record.simps [simp del]

lemma csv_quoted_lines: "csv_quoted acc line ls = Inr (f, r, ls') \<Longrightarrow> length ls' \<le> length ls"
proof (induction acc line ls rule: csv_quoted.induct)
  case (1 acc line ls)
  then show ?case
    by (subst (asm) csv_quoted.simps[of acc line ls]) (fastforce split: prod.splits bool.splits if_splits list.splits)
qed

lemma csv_record_lines: "csv_record line ls = Inr (fs, ls') \<Longrightarrow> length ls' \<le> length ls"
proof (induction line ls arbitrary: fs ls' rule: csv_record.induct)
  case (1 line ls)
  show ?case
  proof (cases "line = [] \<or> hd line \<noteq> CHR 0x22")
    case True
    with 1 show ?thesis
      by (subst (asm) (3) csv_record.simps) (auto split: sum.splits option.splits)
  next
    case False
    then obtain f r ls2 where q: "csv_quoted [] (tl line) ls = Inr (f, r, ls2)"
      using "1.prems" by (auto simp: csv_record.simps[of line ls] split: sum.splits)
    note le = csv_quoted_lines[OF q]
    show ?thesis
    proof (cases r)
      case None
      then show ?thesis using "1.prems" False q le by (simp add: csv_record.simps[of line ls])
    next
      case (Some rest)
      then obtain gs where "csv_record rest ls2 = Inr (gs, ls')"
        using "1.prems" False q by (auto simp: csv_record.simps[of line ls] split: sum.splits)
      from "1.IH"(2)[OF False q refl refl Some this] le show ?thesis by simp
    qed
  qed
qed

text \<open>\<^verbatim>\<open>ReadAll\<close>: blank lines between records are skipped, the first error ends it.\<close>

function csv_read_lines :: "string list \<Rightarrow> csv_error + string list list" where
  "csv_read_lines [] = Inr []"
| "csv_read_lines (l # ls) =
     (if csv_blank l then csv_read_lines ls
      else
        (case csv_record l ls of
           Inl e \<Rightarrow> Inl e
         | Inr (fs, ls') \<Rightarrow> (case csv_read_lines ls' of Inl e \<Rightarrow> Inl e | Inr rs \<Rightarrow> Inr (fs # rs))))"
  by pat_completeness auto
termination
  by (relation "measure length") (auto dest: csv_record_lines)

definition csv_read :: "string \<Rightarrow> csv_error + string list list" where
  "csv_read s = csv_read_lines (csv_lines s)"

end
