(* ===== verification/Accounts.thy ===== *)
theory Accounts
  imports Roster Csv
begin

text \<open>
  The operator's view of the accounts, \<^verbatim>\<open>src/internal/admin/\<close>: the inventory and the audit
  (\<^verbatim>\<open>users.go\<close>), the operations on Samba accounts (\<^verbatim>\<open>ops.go\<close>), initial passwords (\<^verbatim>\<open>initpw.go\<close>), and
  capacity and usage (\<^verbatim>\<open>disk.go\<close>).

  \<open>op_run\<close> is the runner with the output a failed command leaves; \<open>op_missing\<close> says that an error means
  the command is not installed; \<open>op_drift\<close> is the JSON decoder of an audit report and \<open>op_statfs\<close> the
  system call on the data root.
\<close>

section \<open>The inventory\<close>

record acct_user =
  au_name :: string
  au_uid :: uint32
  au_gid :: uint32
  au_home :: string
  au_groups :: "string list"
  au_full_name :: string
  au_smb :: "bool option"
  au_usage :: "uint64 option"

record acct_group =
  ag_name :: string
  ag_gid :: uint32
  ag_members :: "string list"

datatype inv_warning = WarnUsersync string | WarnExport csv_error | WarnGroups string creds_error | WarnSmb string

datatype inv_source = SourceUsersync | SourceNSS

record inventory =
  in_users :: "acct_user list"
  in_groups :: "acct_group list"
  in_source :: inv_source
  in_warnings :: "inv_warning list"

record drift =
  dr_kind :: string
  dr_name :: string
  dr_code :: string
  dr_want :: uint32
  dr_got :: uint32

record drift_report =
  rp_findings :: "drift list"
  rp_ok :: bool
  rp_available :: bool
  rp_error :: string

record statfs =
  fs_bsize :: uint64
  fs_blocks :: uint64
  fs_bfree :: uint64
  fs_bavail :: uint64
  fs_files :: uint64
  fs_ffree :: uint64

record 'w operator =
  op_admin :: "'w admin"
  op_run :: "string \<Rightarrow> string \<Rightarrow> string list \<Rightarrow> 'w \<Rightarrow> (string \<times> string option) \<times> 'w"
  op_missing :: "string \<Rightarrow> bool"
  op_drift :: "string \<Rightarrow> drift list option"
  op_statfs :: "string \<Rightarrow> 'w \<Rightarrow> (string + statfs) \<times> 'w"
  op_now :: "'w \<Rightarrow> time \<times> 'w"

definition new_user :: "string \<Rightarrow> uint32 \<Rightarrow> uint32 \<Rightarrow> string \<Rightarrow> string \<Rightarrow> acct_user" where
  "new_user name uid gid home full =
     \<lparr>au_name = name, au_uid = uid, au_gid = gid, au_home = home, au_groups = [], au_full_name = full,
      au_smb = None, au_usage = None\<rparr>"

definition sort_users :: "acct_user list \<Rightarrow> acct_user list" where
  "sort_users us = sort_by (\<lambda>x y. au_name x \<le> au_name y) us"

definition sort_groups :: "acct_group list \<Rightarrow> acct_group list" where
  "sort_groups gs = sort_by (\<lambda>x y. ag_name x \<le> ag_name y) gs"

definition col_type :: nat where "col_type = 0"
definition col_name :: nat where "col_name = 1"
definition col_uid :: nat where "col_uid = 2"
definition col_gid :: nat where "col_gid = 3"
definition col_home :: nat where "col_home = 4"

definition export_num :: "string list \<Rightarrow> nat \<Rightarrow> uint32 option" where
  "export_num row col = (if col \<ge> length row then None else map_option word_of_nat (parse_uint (row ! col) 10 32))"

text \<open>
  The number \<^verbatim>\<open>strconv.ParseUint(s, 10, 32)\<close> returns whether or not it also returns an error: 0 for what is
  no number, the largest one as soon as the digits exceed 32 bits.
\<close>

fun uint_value :: "nat \<Rightarrow> string \<Rightarrow> nat" where
  "uint_value acc [] = acc"
| "uint_value acc (c # s) =
     (case digit_val 10 c of
        None \<Rightarrow> 0
      | Some d \<Rightarrow> if acc * 10 + d > 2 ^ 32 - 1 then 2 ^ 32 - 1 else uint_value (acc * 10 + d) s)"

text \<open>The loop over the rows after the header.\<close>

definition export_row :: "string list \<Rightarrow> acct_user list \<times> acct_group list \<Rightarrow> acct_user list \<times> acct_group list" where
  "export_row row st =
     (case st of (us, gs) \<Rightarrow>
        (if length row \<le> col_gid then (us, gs)
         else if row ! col_type = ''user'' then
           (case export_num row col_uid of
              None \<Rightarrow> (us, gs)
            | Some uid \<Rightarrow>
                (us @ [new_user (row ! col_name) uid (word_of_nat (uint_value 0 (row ! col_gid)))
                         (if length row > col_home then row ! col_home else []) []], gs))
         else if row ! col_type = ''group'' then
           (case export_num row col_gid of
              None \<Rightarrow> (us, gs)
            | Some gid \<Rightarrow> (us, gs @ [\<lparr>ag_name = row ! col_name, ag_gid = gid, ag_members = []\<rparr>]))
         else (us, gs)))"

definition parse_export :: "string \<Rightarrow> csv_error + acct_user list \<times> acct_group list" where
  "parse_export out =
     (case csv_read out of
        Inl e \<Rightarrow> Inl e
      | Inr rows \<Rightarrow> (case fold export_row (tl rows) ([], []) of (us, gs) \<Rightarrow> Inr (sort_users us, sort_groups gs)))"

definition min_managed_uid :: nat where "min_managed_uid = 3000"
definition max_managed_uid :: nat where "max_managed_uid = 9999"
definition min_managed_gid :: nat where "min_managed_gid = 10000"
definition max_managed_gid :: nat where "max_managed_gid = 19999"

definition passwd_user :: "string \<Rightarrow> acct_user option" where
  "passwd_user line =
     (let f = split_on CHR '':'' line
      in if length f < 7 then None
         else
           (case parse_uint (f ! 2) 10 32 of
              None \<Rightarrow> None
            | Some uid \<Rightarrow>
                (if uid < min_managed_uid \<or> uid > max_managed_uid then None
                 else
                   Some (new_user (f ! 0) (word_of_nat uid)
                     (word_of_nat (uint_value 0 (f ! 3))) (f ! (length f - 2)) (f ! 4)))))"

definition group_entry :: "string \<Rightarrow> acct_group option" where
  "group_entry line =
     (let f = split_on CHR '':'' line
      in if length f < 3 then None
         else
           (case parse_uint (f ! 2) 10 32 of
              None \<Rightarrow> None
            | Some gid \<Rightarrow>
                (if gid < min_managed_gid \<or> gid > max_managed_gid then None
                 else Some \<lparr>ag_name = f ! 0, ag_gid = word_of_nat gid, ag_members = []\<rparr>)))"

definition enumerate_nss :: "'w operator \<Rightarrow> 'w \<Rightarrow> (acct_user list \<times> acct_group list) \<times> 'w" where
  "enumerate_nss Op w =
     (case ad_run (op_admin Op) [] ''getent'' [''passwd''] w of (r, w) \<Rightarrow>
        (let us = (case r of Inl _ \<Rightarrow> [] | Inr out \<Rightarrow> List.map_filter passwd_user (split_on newline out))
         in case ad_run (op_admin Op) [] ''getent'' [''group''] w of (r, w) \<Rightarrow>
              (let gs = (case r of Inl _ \<Rightarrow> [] | Inr out \<Rightarrow> List.map_filter group_entry (split_on newline out))
               in ((sort_users us, sort_groups gs), w))))"

definition smb_accounts :: "'w operator \<Rightarrow> 'w \<Rightarrow> (string + (string \<rightharpoonup> bool)) \<times> 'w" where
  "smb_accounts Op w =
     (case ad_run (op_admin Op) [] (ad_pdbedit (op_admin Op)) [''-L'', ''-v''] w of
        (Inl e, w) \<Rightarrow> (Inl e, w)
      | (Inr out, w) \<Rightarrow> (Inr (parse_account_flags out), w))"

text \<open>
  Membership: the users in order, each resolved; \<open>by_gid\<close> is the last name given to a number, \<open>members\<close>
  collects who is in it.
\<close>

definition by_gid :: "acct_group list \<Rightarrow> uint32 \<rightharpoonup> string" where
  "by_gid gs = fold (\<lambda>g m. m(ag_gid g \<mapsto> ag_name g)) gs Map.empty"

definition named_gids :: "(uint32 \<rightharpoonup> string) \<Rightarrow> creds \<Rightarrow> uint32 list" where
  "named_gids names c = filter (\<lambda>g. names g \<noteq> None \<and> g \<noteq> cr_uid c) (cr_groups c)"

fun resolve_users ::
  "'w operator \<Rightarrow> (uint32 \<rightharpoonup> string) \<Rightarrow> acct_user list \<Rightarrow> (uint32 \<Rightarrow> string list) \<Rightarrow> 'w \<Rightarrow>
    acct_user list \<times> (uint32 \<Rightarrow> string list) \<times> inv_warning list \<times> 'w"
where
  "resolve_users Op names [] members w = ([], members, [], w)"
| "resolve_users Op names (u # us) members w =
     (case ad_resolve (op_admin Op) (au_name u) w of
        (Inl e, w) \<Rightarrow>
          (case resolve_users Op names us members w of (vs, members, warn, w) \<Rightarrow>
             (u # vs, members, WarnGroups (au_name u) e # warn, w))
      | (Inr c, w) \<Rightarrow>
          (let gids = named_gids names c;
               u = u\<lparr>au_gid := cr_gid c, au_groups := sort_names (au_groups u @ map (\<lambda>g. the (names g)) gids)\<rparr>;
               members = fold (\<lambda>g m. m(g := m g @ [au_name u])) gids members
           in case resolve_users Op names us members w of (vs, members, warn, w) \<Rightarrow> (u # vs, members, warn, w)))"

definition fill_members :: "(uint32 \<Rightarrow> string list) \<Rightarrow> acct_group \<Rightarrow> acct_group" where
  "fill_members members g = g\<lparr>ag_members := sort_names (members (ag_gid g))\<rparr>"

definition acct_inventory :: "'w operator \<Rightarrow> (uint32 \<rightharpoonup> uint64) \<Rightarrow> 'w \<Rightarrow> inventory \<times> 'w" where
  "acct_inventory Op usage w =
     (case ad_run (op_admin Op) [] (ad_usersync (op_admin Op)) [''export'', ''--format'', ''csv''] w of (r, w) \<Rightarrow>
        (let exported = (case r of
               Inl e \<Rightarrow> Inl (if op_missing Op e then [] else [WarnUsersync e])
             | Inr out \<Rightarrow> (case parse_export out of Inl e \<Rightarrow> Inl [WarnExport e] | Inr x \<Rightarrow> Inr x))
         in case (case exported of
                    Inl warn \<Rightarrow> (case enumerate_nss Op w of (x, w) \<Rightarrow> (x, SourceNSS, warn, w))
                  | Inr x \<Rightarrow> (x, SourceUsersync, [], w)) of ((us, gs), src, warn, w) \<Rightarrow>
              (case resolve_users Op (by_gid gs) us (\<lambda>_. []) w of (us, members, warn2, w) \<Rightarrow>
                 (let gs = map (fill_members members) gs
                  in case smb_accounts Op w of (smb, w) \<Rightarrow>
                       (let us = (case smb of Inl _ \<Rightarrow> us | Inr m \<Rightarrow> map (\<lambda>u. u\<lparr>au_smb := m (au_name u)\<rparr>) us);
                            warn3 = (case smb of Inl e \<Rightarrow> [WarnSmb e] | Inr _ \<Rightarrow> []);
                            us = map (\<lambda>u. case usage (au_uid u) of None \<Rightarrow> u | Some n \<Rightarrow> u\<lparr>au_usage := Some n\<rparr>) us
                        in (\<lparr>in_users = us, in_groups = gs, in_source = src, in_warnings = warn @ warn2 @ warn3\<rparr>, w))))))"

definition audit_roster :: "'w operator \<Rightarrow> 'w \<Rightarrow> (admin_error + drift_report) \<times> 'w" where
  "audit_roster Op w =
     (case op_run Op [] (ad_usersync (op_admin Op)) [''audit'', ''--json''] w of ((out, err), w) \<Rightarrow>
        (if (case err of None \<Rightarrow> False | Some e \<Rightarrow> op_missing Op e)
         then (Inr \<lparr>rp_findings = [], rp_ok = False, rp_available = False, rp_error = []\<rparr>, w)
         else
           (let json = dropWhile (\<lambda>c. c \<noteq> CHR 0x7B) out;
                decoded = (if json = [] then None else op_drift Op json)
            in case decoded of
                 Some fs \<Rightarrow> (Inr \<lparr>rp_findings = fs, rp_ok = (fs = []), rp_available = True, rp_error = []\<rparr>, w)
               | None \<Rightarrow>
                   (case err of
                      Some e \<Rightarrow> (Inr \<lparr>rp_findings = [], rp_ok = False, rp_available = True, rp_error = e\<rparr>, w)
                    | None \<Rightarrow> (Inl (AeTool ''could not read the audit report''), w)))))"

section \<open>Operations on an account\<close>

definition managed :: "'w operator \<Rightarrow> (uint32 \<rightharpoonup> uint64) \<Rightarrow> string \<Rightarrow> 'w \<Rightarrow> admin_error option \<times> 'w" where
  "managed Op usage user w =
     (if user = [] \<or> contains_any user [CHR '':'', CHR ''/'', newline, byte 0, CHR '' ''] then (Some (AeUnknownUser user), w)
      else
        (case acct_inventory Op usage w of (iv, w) \<Rightarrow>
           (if list_ex (\<lambda>u. au_name u = user) (in_users iv) then (None, w) else (Some (AeUnknownUser user), w))))"

definition set_smb_enabled ::
  "'w operator \<Rightarrow> (uint32 \<rightharpoonup> uint64) \<Rightarrow> string \<Rightarrow> bool \<Rightarrow> 'w \<Rightarrow> admin_error option \<times> 'w" where
  "set_smb_enabled Op usage user enabled w =
     (case managed Op usage user w of
        (Some e, w) \<Rightarrow> (Some e, w)
      | (None, w) \<Rightarrow>
          (let flag = (if enabled then ''-e'' else ''-d'')
           in case ad_run (op_admin Op) [] (ad_smbpasswd (op_admin Op)) [flag, user] w of
                (Inl e, w) \<Rightarrow> (Some (AeTool e), w)
              | (Inr _, w) \<Rightarrow> (None, w)))"

definition set_smb_password ::
  "'w operator \<Rightarrow> (uint32 \<rightharpoonup> uint64) \<Rightarrow> string \<Rightarrow> string \<Rightarrow> 'w \<Rightarrow> admin_error option \<times> 'w" where
  "set_smb_password Op usage user pw w =
     (case managed Op usage user w of
        (Some e, w) \<Rightarrow> (Some e, w)
      | (None, w) \<Rightarrow>
          (case password_set (ad_run (op_admin Op)) (ad_smbpasswd (op_admin Op)) user pw w of
             (Some e, w) \<Rightarrow> (Some (AeStore e), w)
           | (None, w) \<Rightarrow> (None, w)))"

definition last_line :: "string \<Rightarrow> string" where
  "last_line out =
     fold (\<lambda>line pw. if trim_space line \<noteq> [] then trim_space line else pw) (split_on newline out) []"

definition initial_password ::
  "'w operator \<Rightarrow> (uint32 \<rightharpoonup> uint64) \<Rightarrow> string \<Rightarrow> 'w \<Rightarrow> (admin_error + string) \<times> 'w" where
  "initial_password Op usage user w =
     (case managed Op usage user w of
        (Some e, w) \<Rightarrow> (Inl e, w)
      | (None, w) \<Rightarrow>
          (case ad_run (op_admin Op) [] (ad_usersync (op_admin Op)) [''passwd'', user] w of
             (Inl e, w) \<Rightarrow> (Inl (AeTool e), w)
           | (Inr out, w) \<Rightarrow>
               (let pw = last_line out
                in if pw = [] \<or> contains_any pw [CHR '' '', byte 9] then (Inl (AeInitial user), w) else (Inr pw, w))))"

section \<open>Capacity and usage\<close>

record capacity =
  cp_path :: string
  cp_total :: uint64
  cp_free :: uint64
  cp_used :: uint64
  cp_total_inodes :: uint64
  cp_free_inodes :: uint64

definition admin_capacity :: "'w operator \<Rightarrow> 'w \<Rightarrow> (admin_error + capacity) \<times> 'w" where
  "admin_capacity Op w =
     (case op_statfs Op (ad_root (op_admin Op)) w of
        (Inl e, w) \<Rightarrow> (Inl (AeTool e), w)
      | (Inr st, w) \<Rightarrow>
          (Inr \<lparr>cp_path = ad_root (op_admin Op), cp_total = fs_blocks st * fs_bsize st,
                cp_free = fs_bavail st * fs_bsize st, cp_used = (fs_blocks st - fs_bfree st) * fs_bsize st,
                cp_total_inodes = fs_files st, cp_free_inodes = fs_ffree st\<rparr>, w))"

record usage_cache =
  uc_by_uid :: "uint32 \<rightharpoonup> uint64"
  uc_at :: time
  uc_source :: string
  uc_err :: string

definition new_usage_cache :: usage_cache where
  "new_usage_cache = \<lparr>uc_by_uid = Map.empty, uc_at = 0, uc_source = [], uc_err = []\<rparr>"

definition usage_get :: "usage_cache \<Rightarrow> uint32 \<Rightarrow> uint64 option" where
  "usage_get c uid = uc_by_uid c uid"

definition usage_store :: "'w operator \<Rightarrow> (uint32 \<rightharpoonup> uint64) \<Rightarrow> string \<Rightarrow> string option \<Rightarrow> usage_cache \<Rightarrow> 'w \<Rightarrow> usage_cache \<times> 'w" where
  "usage_store Op by_uid src err c w =
     (case err of
        Some e \<Rightarrow> (c\<lparr>uc_err := e\<rparr>, w)
      | None \<Rightarrow>
          (case op_now Op w of (at, w) \<Rightarrow> (\<lparr>uc_by_uid = by_uid, uc_at = at, uc_source = src, uc_err = []\<rparr>, w)))"

text \<open>\<^verbatim>\<open>byUID[uid] += n\<close>, a missing entry counting as zero.\<close>

definition add_usage :: "uint32 \<Rightarrow> uint64 \<Rightarrow> (uint32 \<rightharpoonup> uint64) \<Rightarrow> (uint32 \<rightharpoonup> uint64)" where
  "add_usage uid n m = m(uid \<mapsto> (case m uid of None \<Rightarrow> 0 | Some k \<Rightarrow> k) + n)"

definition zfs_line :: "string \<Rightarrow> (uint32 \<times> uint64) option" where
  "zfs_line line =
     (let f = GoStrings.fields line
      in if length f < 2 then None
         else
           (case parse_uint (f ! 0) 10 32 of
              None \<Rightarrow> None
            | Some uid \<Rightarrow> map_option (\<lambda>n. (word_of_nat uid, word_of_nat n)) (parse_uint (f ! 1) 10 64)))"

definition du_line :: "string \<Rightarrow> (uint32 \<times> uint64) option" where
  "du_line line =
     (case cut line CHR '' '' of (uid, blocks, ok) \<Rightarrow>
        (if \<not> ok then None
         else
           (case parse_uint uid 10 32 of
              None \<Rightarrow> None
            | Some uid \<Rightarrow> map_option (\<lambda>n. (word_of_nat uid, word_of_nat n * 512)) (parse_uint blocks 10 64))))"

definition sum_usage :: "(string \<Rightarrow> (uint32 \<times> uint64) option) \<Rightarrow> string \<Rightarrow> (uint32 \<rightharpoonup> uint64)" where
  "sum_usage line out =
     fold (\<lambda>l m. case line l of None \<Rightarrow> m | Some (uid, n) \<Rightarrow> add_usage uid n m) (split_on newline (trim_space out)) Map.empty"

definition zfs_userspace :: "'w operator \<Rightarrow> 'w \<Rightarrow> (string + (uint32 \<rightharpoonup> uint64)) \<times> 'w" where
  "zfs_userspace Op w =
     (case ad_run (op_admin Op) [] ''zfs'' [''userspace'', ''-Hpn'', ''-o'', ''name,used'', ad_root (op_admin Op)] w of
        (Inl e, w) \<Rightarrow> (Inl e, w)
      | (Inr out, w) \<Rightarrow>
          (let m = sum_usage zfs_line out
           in if list_all (\<lambda>l. zfs_line l = None) (split_on newline (trim_space out))
              then (Inl ''zfs userspace reported nothing'', w) else (Inr m, w)))"

definition du_usage :: "'w operator \<Rightarrow> 'w \<Rightarrow> (string + (uint32 \<rightharpoonup> uint64)) \<times> 'w" where
  "du_usage Op w =
     (case op_run Op [] ''find'' [ad_root (op_admin Op), ''-xdev'', ''-type'', ''f'', ''-printf'', ''%U %b\<newline>''] w of ((out, err), w) \<Rightarrow>
        (case err of
           Some e \<Rightarrow> if out = [] then (Inl e, w) else (Inr (sum_usage du_line out), w)
         | None \<Rightarrow> (Inr (sum_usage du_line out), w)))"

definition refresh_usage :: "'w operator \<Rightarrow> usage_cache \<Rightarrow> 'w \<Rightarrow> usage_cache \<times> 'w" where
  "refresh_usage Op c w =
     (case zfs_userspace Op w of
        (Inr m, w) \<Rightarrow> usage_store Op m ''zfs'' None c w
      | (Inl _, w) \<Rightarrow>
          (case du_usage Op w of
             (Inl e, w) \<Rightarrow> usage_store Op Map.empty ''du'' (Some e) c w
           | (Inr m, w) \<Rightarrow> usage_store Op m ''du'' None c w))"

text \<open>The report writes the numbers under their decimal names.\<close>

record usage_report =
  ur_source :: string
  ur_at :: time
  ur_by_uid :: "string \<rightharpoonup> uint64"
  ur_error :: string

definition admin_usage :: "usage_cache \<Rightarrow> usage_report" where
  "admin_usage c =
     \<lparr>ur_source = uc_source c, ur_at = uc_at c,
      ur_by_uid = (\<lambda>s. case parse_uint s 10 32 of
         None \<Rightarrow> None
       | Some n \<Rightarrow> if format_nat n = s then uc_by_uid c (word_of_nat n) else None),
      ur_error = uc_err c\<rparr>"

section \<open>The usage that is kept\<close>

text \<open>What a tool's output says a uid occupies: the sum of its lines, in 64 bits.\<close>

definition amounts :: "(string \<Rightarrow> (uint32 \<times> uint64) option) \<Rightarrow> uint32 \<Rightarrow> string list \<Rightarrow> uint64 list" where
  "amounts line uid ls = map snd (filter (\<lambda>p. fst p = uid) (List.map_filter line ls))"

definition reported :: "(string \<Rightarrow> (uint32 \<times> uint64) option) \<Rightarrow> string \<Rightarrow> uint32 \<Rightarrow> uint64 option" where
  "reported line out uid =
     (let ns = amounts line uid (split_on newline (trim_space out)) in if ns = [] then None else Some (sum_list ns))"

lemma fold_usage:
  "fold (\<lambda>l m. case line l of None \<Rightarrow> m | Some (uid, n) \<Rightarrow> add_usage uid n m) ls m uid =
     (if amounts line uid ls = [] then m uid
      else Some ((case m uid of None \<Rightarrow> 0 | Some k \<Rightarrow> k) + sum_list (amounts line uid ls)))"
proof (induction ls arbitrary: m)
  case Nil
  then show ?case by (simp add: amounts_def List.map_filter_def)
next
  case (Cons l ls)
  show ?case
  proof (cases "line l")
    case None
    then show ?thesis using Cons by (simp add: amounts_def List.map_filter_def)
  next
    case (Some p)
    obtain u n where p: "p = (u, n)" by (cases p)
    have a: "amounts line uid (l # ls) = (if u = uid then n # amounts line uid ls else amounts line uid ls)"
      using Some p by (simp add: amounts_def List.map_filter_def)
    have step: "(case line l of None \<Rightarrow> m | Some (uid, n) \<Rightarrow> add_usage uid n m) = add_usage u n m" using Some p by simp
    have at: "add_usage u n m uid = (if uid = u then Some ((case m uid of None \<Rightarrow> 0 | Some k \<Rightarrow> k) + n) else m uid)"
      by (simp add: add_usage_def)
    show ?thesis unfolding fold_simps step Cons.IH a at by (simp add: add.assoc)
  qed
qed

lemma sum_usage_reported: "sum_usage line out = reported line out"
  by (rule ext) (simp add: sum_usage_def fold_usage reported_def Let_def)

text \<open>
  C39: A failed measurement costs nothing that was known. A refresh either replaces the numbers by what
  one tool's output says each uid occupies, ZFS's if it reports anything and \<^verbatim>\<open>find\<close>'s otherwise, and
  clears the error; or both failed without output, and then the numbers, their time and their source
  stay and only the error is noted.
\<close>

theorem usage_survives_errors:
  "case refresh_usage Op c w of (c', w') \<Rightarrow>
     (\<exists>out w1. ad_run (op_admin Op) [] ''zfs'' [''userspace'', ''-Hpn'', ''-o'', ''name,used'', ad_root (op_admin Op)] w = (Inr out, w1) \<and>
        uc_by_uid c' = reported zfs_line out \<and> uc_by_uid c' \<noteq> Map.empty \<and> uc_source c' = ''zfs'' \<and> uc_err c' = []) \<or>
     (\<exists>e w1 out err w2. zfs_userspace Op w = (Inl e, w1) \<and>
        op_run Op [] ''find'' [ad_root (op_admin Op), ''-xdev'', ''-type'', ''f'', ''-printf'', ''%U %b\<newline>''] w1 = ((out, err), w2) \<and>
        (if out = [] \<and> err \<noteq> None then c' = c\<lparr>uc_err := the err\<rparr> \<and> w' = w2
         else uc_by_uid c' = reported du_line out \<and> uc_source c' = ''du'' \<and> uc_err c' = []))"
proof -
  obtain r w1 where z: "zfs_userspace Op w = (r, w1)" by fastforce
  show ?thesis
  proof (cases r)
    case (Inr m)
    then obtain out where out: "ad_run (op_admin Op) [] ''zfs'' [''userspace'', ''-Hpn'', ''-o'', ''name,used'', ad_root (op_admin Op)] w = (Inr out, w1)"
      "m = reported zfs_line out" "\<not> list_all (\<lambda>l. zfs_line l = None) (split_on newline (trim_space out))"
      using z by (auto simp: zfs_userspace_def sum_usage_reported Let_def split: prod.splits sum.splits if_splits)
    from out(3) obtain l uid n where l: "l \<in> set (split_on newline (trim_space out))" "zfs_line l = Some (uid, n)"
      by (auto simp: list_all_iff)
    then have "(uid, n) \<in> set (List.map_filter zfs_line (split_on newline (trim_space out)))"
      by (force simp: List.map_filter_def)
    then have "amounts zfs_line uid (split_on newline (trim_space out)) \<noteq> []"
      by (force simp: amounts_def filter_empty_conv)
    then have "m uid \<noteq> None" using out(2) by (simp add: reported_def Let_def)
    then have "m \<noteq> Map.empty" by auto
    with Inr z out show ?thesis by (auto simp: refresh_usage_def usage_store_def split: prod.splits)
  next
    case (Inl e)
    obtain out err w2 where f: "op_run Op [] ''find'' [ad_root (op_admin Op), ''-xdev'', ''-type'', ''f'', ''-printf'', ''%U %b\<newline>''] w1 = ((out, err), w2)"
      by (metis prod.collapse)
    show ?thesis using Inl z f
      by (cases err) (auto simp: refresh_usage_def du_usage_def usage_store_def sum_usage_reported split: prod.splits)
  qed
qed

section \<open>Members and groups agree\<close>

text \<open>What a resolution adds to a user and to the members of a number.\<close>

fun with_creds :: "(uint32 \<rightharpoonup> string) \<Rightarrow> acct_user \<Rightarrow> creds option \<Rightarrow> acct_user" where
  "with_creds names u None = u"
| "with_creds names u (Some c) =
     u\<lparr>au_gid := cr_gid c, au_groups := sort_names (au_groups u @ map (\<lambda>g. the (names g)) (named_gids names c))\<rparr>"

definition in_gid :: "(uint32 \<rightharpoonup> string) \<Rightarrow> creds option \<Rightarrow> uint32 \<Rightarrow> bool" where
  "in_gid names co g \<longleftrightarrow> (case co of None \<Rightarrow> False | Some c \<Rightarrow> g \<in> set (named_gids names c))"

lemma fold_members:
  "set (fold (\<lambda>g m. m(g := m g @ [n])) gids m h) = set (m h) \<union> (if h \<in> set gids then {n} else {})"
  by (induction gids arbitrary: m) auto

lemma resolve_users_spec:
  "resolve_users Op names us members w = (vs, members', warn, w') \<Longrightarrow>
    \<exists>cs. length cs = length us \<and> vs = map2 (with_creds names) us cs \<and>
      (\<forall>g. set (members' g) = set (members g) \<union> {au_name u |u c. (u, c) \<in> set (zip us cs) \<and> in_gid names c g})"
proof (induction us arbitrary: members w vs members' warn w')
  case Nil
  then show ?case by auto
next
  case (Cons u us)
  obtain r w1 where r: "ad_resolve (op_admin Op) (au_name u) w = (r, w1)" by fastforce
  define c where "c = (case r of Inl _ \<Rightarrow> None | Inr c \<Rightarrow> Some c)"
  define m1 where "m1 = (case r of Inl _ \<Rightarrow> members | Inr c \<Rightarrow> fold (\<lambda>g m. m(g := m g @ [au_name u])) (named_gids names c) members)"
  obtain vs2 warn2 where rest: "resolve_users Op names us m1 w1 = (vs2, members', warn2, w')" and vs: "vs = with_creds names u c # vs2"
    using Cons.prems r by (cases r) (auto simp: c_def m1_def Let_def split: prod.splits)
  from Cons.IH[OF rest] obtain cs where cs: "length cs = length us" "vs2 = map2 (with_creds names) us cs"
    "\<And>g. set (members' g) = set (m1 g) \<union> {au_name u |u c. (u, c) \<in> set (zip us cs) \<and> in_gid names c g}" by blast
  have "set (m1 g) = set (members g) \<union> {au_name u |x. x = u \<and> in_gid names c g}" for g
    by (cases r) (auto simp: m1_def c_def in_gid_def fold_members)
  with cs vs show ?case by (intro exI[of _ "c # cs"]) auto
qed

lemma set_sort_names [simp]: "set (sort_names xs) = set xs"
  by (simp add: sort_names_def)

lemma by_gid_entry: "distinct (map ag_gid gs) \<Longrightarrow> by_gid gs k = Some n \<longleftrightarrow> (\<exists>g \<in> set gs. ag_gid g = k \<and> ag_name g = n)"
proof -
  have "fold (\<lambda>g m. m(ag_gid g \<mapsto> ag_name g)) gs m k = Some n \<longleftrightarrow>
      (\<exists>g \<in> set gs. ag_gid g = k \<and> ag_name g = n) \<or> k \<notin> ag_gid ` set gs \<and> m k = Some n"
    if "distinct (map ag_gid gs)" for m
    using that by (induction gs arbitrary: m) auto
  then show "distinct (map ag_gid gs) \<Longrightarrow> by_gid gs k = Some n \<longleftrightarrow> (\<exists>g \<in> set gs. ag_gid g = k \<and> ag_name g = n)"
    by (simp add: by_gid_def)
qed

lemma with_creds_fields [simp]:
  "au_name (with_creds names u c) = au_name u" "au_uid (with_creds names u c) = au_uid u"
  by (cases c; simp)+

lemma with_creds_groups:
  "set (au_groups (with_creds names u c)) = set (au_groups u) \<union> {n. \<exists>g. in_gid names c g \<and> names g = Some n}"
  by (cases c) (force simp: in_gid_def named_gids_def image_iff)+

lemma fresh_export:
  "fold export_row rows (us, gs) = (us', gs') \<Longrightarrow> \<forall>u \<in> set us. au_groups u = [] \<Longrightarrow> \<forall>u \<in> set us'. au_groups u = []"
proof (induction rows arbitrary: us gs)
  case (Cons row rows)
  obtain us1 gs1 where r: "export_row row (us, gs) = (us1, gs1)" by fastforce
  then have fresh: "\<forall>u \<in> set us1. au_groups u = []"
    using Cons.prems(2) by (auto simp: export_row_def new_user_def split: if_splits option.splits)
  have "fold export_row rows (us1, gs1) = (us', gs')" using Cons.prems(1) unfolding fold_simps r .
  then show ?case using fresh by (rule Cons.IH)
qed simp

lemma set_sort_users [simp]: "set (sort_users us) = set us"
  and set_sort_groups [simp]: "set (sort_groups gs) = set gs"
  by (simp_all add: sort_users_def sort_groups_def)

lemma small_number: "n \<le> 19999 \<Longrightarrow> unat (word_of_nat n :: uint32) = n"
  by (simp add: unsigned_of_nat take_bit_nat_eq_self_iff)

lemma enumerate_band:
  assumes "enumerate_nss Op w = ((us, gs), w')"
  shows "\<forall>u \<in> set us. au_groups u = [] \<and> 3000 \<le> unat (au_uid u) \<and> unat (au_uid u) \<le> 9999"
    "\<forall>g \<in> set gs. 10000 \<le> unat (ag_gid g) \<and> unat (ag_gid g) \<le> 19999"
proof -
  have u: "au_groups u = [] \<and> 3000 \<le> unat (au_uid u) \<and> unat (au_uid u) \<le> 9999" if "passwd_user l = Some u" for l u
    using that by (auto simp: passwd_user_def new_user_def Let_def min_managed_uid_def max_managed_uid_def
        small_number split: if_splits option.splits)
  have g: "10000 \<le> unat (ag_gid g) \<and> unat (ag_gid g) \<le> 19999" if "group_entry l = Some g" for l g
    using that by (auto simp: group_entry_def Let_def min_managed_gid_def max_managed_gid_def
        small_number split: if_splits option.splits)
  show "\<forall>u \<in> set us. au_groups u = [] \<and> 3000 \<le> unat (au_uid u) \<and> unat (au_uid u) \<le> 9999"
    "\<forall>g \<in> set gs. 10000 \<le> unat (ag_gid g) \<and> unat (ag_gid g) \<le> 19999"
  proof -
    obtain r1 w1 r2 w2 where r: "ad_run (op_admin Op) [] ''getent'' [''passwd''] w = (r1, w1)"
      "ad_run (op_admin Op) [] ''getent'' [''group''] w1 = (r2, w2)" by (metis prod.collapse)
    have "us = sort_users (case r1 of Inl _ \<Rightarrow> [] | Inr out \<Rightarrow> List.map_filter passwd_user (split_on newline out))"
      "gs = sort_groups (case r2 of Inl _ \<Rightarrow> [] | Inr out \<Rightarrow> List.map_filter group_entry (split_on newline out))"
      using assms r by (simp_all add: enumerate_nss_def Let_def)
    then show "\<forall>u \<in> set us. au_groups u = [] \<and> 3000 \<le> unat (au_uid u) \<and> unat (au_uid u) \<le> 9999"
      "\<forall>g \<in> set gs. 10000 \<le> unat (ag_gid g) \<and> unat (ag_gid g) \<le> 19999"
      using u g by (auto simp: List.map_filter_def split: sum.splits)
  qed
qed

text \<open>The accounts an inventory starts from, and what is filled in.\<close>

definition acct_core :: "acct_user \<Rightarrow> string \<times> uint32 \<times> string list" where
  "acct_core u = (au_name u, au_uid u, au_groups u)"

lemma inventory_parts:
  assumes "acct_inventory Op usage w = (iv, w')"
  shows "\<exists>us gs w1 us2 members warn w2. resolve_users Op (by_gid gs) us (\<lambda>_. []) w1 = (us2, members, warn, w2) \<and>
    (\<forall>u \<in> set us. au_groups u = []) \<and> in_groups iv = map (fill_members members) gs \<and>
    map acct_core (in_users iv) = map acct_core us2 \<and>
    (in_source iv = SourceNSS \<longrightarrow> (\<exists>w0. enumerate_nss Op w0 = ((us, gs), w1)))"
proof -
  obtain r w0 where run: "ad_run (op_admin Op) [] (ad_usersync (op_admin Op)) [''export'', ''--format'', ''csv''] w = (r, w0)" by fastforce
  define start where "start = (case (case r of
       Inl e \<Rightarrow> Inl (if op_missing Op e then [] else [WarnUsersync e])
     | Inr out \<Rightarrow> (case parse_export out of Inl e \<Rightarrow> Inl [WarnExport e] | Inr x \<Rightarrow> Inr x)) of
       Inl warn \<Rightarrow> (case enumerate_nss Op w0 of (x, w) \<Rightarrow> (x, SourceNSS, warn, w))
     | Inr x \<Rightarrow> (x, SourceUsersync, [], w0))"
  obtain us gs src warn w1 where start: "start = ((us, gs), src, warn, w1)" by (metis prod.collapse)
  obtain us2 members warn2 w2 where res: "resolve_users Op (by_gid gs) us (\<lambda>_. []) w1 = (us2, members, warn2, w2)"
    by (metis prod.collapse)
  have fresh: "\<forall>u \<in> set us. au_groups u = []"
  proof (cases src)
    case SourceNSS
    then obtain v where "enumerate_nss Op w0 = ((us, gs), v)"
      using start by (auto simp: start_def split: sum.splits prod.splits)
    from enumerate_band(1)[OF this] show ?thesis by blast
  next
    case SourceUsersync
    then obtain rows us0 gs0 where "fold export_row rows ([], []) = (us0, gs0)" "us = sort_users us0"
      using start by (auto simp: start_def parse_export_def split: sum.splits prod.splits)
    from fresh_export[OF this(1)] this(2) show ?thesis by simp
  qed
  have nss: "src = SourceNSS \<Longrightarrow> enumerate_nss Op w0 = ((us, gs), w1)"
    using start by (auto simp: start_def split: sum.splits prod.splits)
  obtain smb w3 where smb: "smb_accounts Op w2 = (smb, w3)" by fastforce
  have "iv = \<lparr>in_users = map (\<lambda>u. case usage (au_uid u) of None \<Rightarrow> u | Some n \<Rightarrow> u\<lparr>au_usage := Some n\<rparr>)
      (case smb of Inl _ \<Rightarrow> us2 | Inr m \<Rightarrow> map (\<lambda>u. u\<lparr>au_smb := m (au_name u)\<rparr>) us2),
      in_groups = map (fill_members members) gs, in_source = src,
      in_warnings = warn @ warn2 @ (case smb of Inl e \<Rightarrow> [WarnSmb e] | Inr _ \<Rightarrow> [])\<rparr>"
    using assms run smb res start[unfolded start_def] by (simp add: acct_inventory_def Let_def)
  then have "in_groups iv = map (fill_members members) gs" "in_source iv = src" "map acct_core (in_users iv) = map acct_core us2"
    by (auto simp: acct_core_def split: sum.splits option.splits)
  with res fresh nss show ?thesis by blast
qed

lemma zip_user:
  assumes "map acct_core vs = map acct_core (map2 (with_creds names) us cs)" "length cs = length us" "i < length us"
  shows "i < length vs \<and> acct_core (vs ! i) = acct_core (with_creds names (us ! i) (cs ! i))"
proof -
  have l: "length vs = length us" using map_eq_imp_length_eq[OF assms(1)] assms(2) by simp
  then show ?thesis using assms nth_map[of i vs acct_core] by simp
qed

lemma picture_user:
  assumes "map acct_core vs = map acct_core us2" "length cs = length us" "us2 = map2 (with_creds names) us cs"
    and "\<forall>u \<in> set us. au_groups u = []" "u \<in> set vs"
  shows "\<exists>v c. (v, c) \<in> set (zip us cs) \<and> au_name u = au_name v \<and> au_uid u = au_uid v \<and> v \<in> set us \<and>
    set (au_groups u) = {n. \<exists>k. in_gid names c k \<and> names k = Some n}"
proof -
  have l: "length vs = length us" using map_eq_imp_length_eq[OF assms(1)] assms(2,3) by simp
  from assms(5) obtain i where i: "i < length us" "u = vs ! i" using l by (metis in_set_conv_nth)
  have "acct_core u = acct_core (with_creds names (us ! i) (cs ! i))"
    using zip_user[of vs names us cs i] assms i by simp
  moreover have "au_groups (us ! i) = []" using assms(4) i(1) by simp
  ultimately show ?thesis using i assms(2)
    by (intro exI[of _ "us ! i"] exI[of _ "cs ! i"]) (auto simp: acct_core_def with_creds_groups in_set_zip)
qed

lemma picture_unique:
  assumes "map acct_core vs = map acct_core us2" "length cs = length us" "us2 = map2 (with_creds names) us cs"
    and "distinct (map au_name vs)" "(v, c) \<in> set (zip us cs)" "(x, d) \<in> set (zip us cs)" "au_name v = au_name x"
  shows "c = d"
proof -
  have "map au_name vs = map au_name us2" using arg_cong[OF assms(1), of "map fst"] by (simp add: acct_core_def comp_def)
  also have "map au_name us2 = map au_name us" unfolding assms(3) using assms(2) by (auto intro: nth_equalityI)
  finally have dist: "distinct (map au_name us)" using assms(4) by simp
  from assms(5)[unfolded in_set_zip] obtain i where i: "i < length us" "us ! i = v" "cs ! i = c" by auto
  from assms(6)[unfolded in_set_zip] obtain j where j: "j < length us" "us ! j = x" "cs ! j = d" by auto
  have "map au_name us ! i = au_name v" "map au_name us ! j = au_name x" using i j by simp_all
  then have "map au_name us ! i = map au_name us ! j" using assms(7) by simp
  then have "i = j" by (rule nth_eq_iff_index_eq[OF dist, THEN iffD1, rotated 2]) (simp_all add: i(1) j(1))
  then show ?thesis using i(3) j(3) by simp
qed


text \<open>A server without usersync and with one account.\<close>

definition small_operator :: "unit operator" where
  "small_operator = \<lparr>op_admin = sample_admin\<lparr>ad_run := (\<lambda>stdin bin args w.
       (if bin = ''getent'' \<and> args = [''passwd''] then Inr ''ann:x:3001:3001:Ann:/h:/s''
        else if bin = ''getent'' \<and> args = [''group''] then Inr ''team:x:10001:''
        else Inl ''not found'', w)),
       ad_resolve := (\<lambda>user w. (Inr \<lparr>cr_uid = 3001, cr_gid = 3001, cr_groups = [3001, 10001]\<rparr>, w))\<rparr>,
     op_run = (\<lambda>stdin bin args w. (([], Some ''not found''), w)),
     op_missing = (\<lambda>e. True), op_drift = (\<lambda>_. None), op_statfs = (\<lambda>p w. (Inl [], w)), op_now = (\<lambda>w. (0, w))\<rparr>"

lemma small_lines:
  "passwd_user ''ann:x:3001:3001:Ann:/h:/s'' = Some (new_user ''ann'' 3001 3001 ''/h'' ''Ann'')"
  "group_entry ''team:x:10001:'' = Some \<lparr>ag_name = ''team'', ag_gid = 10001, ag_members = []\<rparr>"
  by (simp_all add: passwd_user_def group_entry_def parse_uint_def digit_val_def min_managed_uid_def max_managed_uid_def
      min_managed_gid_def max_managed_gid_def Let_def)

lemma small_inventory:
  "acct_inventory small_operator Map.empty () =
    (\<lparr>in_users = [(new_user ''ann'' 3001 3001 ''/h'' ''Ann'')\<lparr>au_groups := [''team'']\<rparr>],
      in_groups = [\<lparr>ag_name = ''team'', ag_gid = 10001, ag_members = [''ann'']\<rparr>],
      in_source = SourceNSS, in_warnings = [WarnSmb ''not found'']\<rparr>, ())"
proof -
  have split: "split_on newline ''ann:x:3001:3001:Ann:/h:/s'' = [''ann:x:3001:3001:Ann:/h:/s'']"
    "split_on newline ''team:x:10001:'' = [''team:x:10001:'']"
    by (intro split_on_absent; simp add: newline_def byte_iff[symmetric] byte_def char_of_eq_iff)+
  have run: "ad_run (op_admin small_operator) [] ''getent'' [''passwd''] () = (Inr ''ann:x:3001:3001:Ann:/h:/s'', ())"
    "ad_run (op_admin small_operator) [] ''getent'' [''group''] () = (Inr ''team:x:10001:'', ())"
    "ad_run (op_admin small_operator) [] (ad_usersync (op_admin small_operator)) [''export'', ''--format'', ''csv''] () = (Inl ''not found'', ())"
    "ad_run (op_admin small_operator) [] (ad_pdbedit (op_admin small_operator)) [''-L'', ''-v''] () = (Inl ''not found'', ())"
    by (simp_all add: small_operator_def sample_admin_def)
  let ?u = "new_user ''ann'' 3001 3001 ''/h'' ''Ann''" and ?g = "\<lparr>ag_name = ''team'', ag_gid = 10001 :: uint32, ag_members = []\<rparr>"
  have nss: "enumerate_nss small_operator () = (([?u], [?g]), ())"
    unfolding enumerate_nss_def run prod.case Let_def sum.case split
    by (simp add: small_lines List.map_filter_def sort_users_def sort_groups_def)
  have names: "by_gid [?g] = [10001 \<mapsto> ''team'']" by (simp add: by_gid_def)
  have res: "resolve_users small_operator [10001 \<mapsto> ''team''] [?u] (\<lambda>_. []) () =
      ([?u\<lparr>au_groups := [''team'']\<rparr>], (\<lambda>_. [])(10001 := [''ann'']), [], ())"
    by (simp add: small_operator_def named_gids_def new_user_def sort_names_def)
  have smb: "smb_accounts small_operator () = (Inl ''not found'', ())" unfolding smb_accounts_def run by simp
  have missing: "op_missing small_operator e" for e by (simp add: small_operator_def)
  show ?thesis
    unfolding acct_inventory_def run prod.case sum.case Let_def nss names res smb
    by (simp add: missing nss names res smb fill_members_def sort_names_def)
qed


end
