(* ===== verification/Operator.thy ===== *)
theory Operator
  imports Accounts Activity
begin

text \<open>
  The operator's routes, \<^verbatim>\<open>src/internal/server/admin.go\<close>: the gate on the administrators' group and the
  handlers behind it, the team owners' routes, and the activity listing. A request's body is given
  decoded, or \<open>None\<close> if it does not decode; \<open>user\<close> is the session's.
\<close>

datatype admin_body =
    AbNone | AbError | AbWhoami bool string | AbInventory inventory | AbDisk capacity usage_report
  | AbDrift drift_report | AbInitial "string option" | AbTeams "string list"
  | AbTeamViews "team_view list" "string list" | AbEvents "event list" bool

type_synonym admin_reply = "nat \<times> admin_body"

definition admin_only ::
  "'w operator option \<Rightarrow> string \<Rightarrow> ('w operator \<Rightarrow> 'w \<Rightarrow> admin_reply \<times> 'w) \<Rightarrow> 'w \<Rightarrow> admin_reply \<times> 'w" where
  "admin_only adm user next_handler w =
     (case adm of
        None \<Rightarrow> ((404, AbError), w)
      | Some Op \<Rightarrow>
          (case is_admin (op_admin Op) user w of
             (Inl _, w) \<Rightarrow> ((503, AbError), w)
           | (Inr False, w) \<Rightarrow> ((404, AbError), w)
           | (Inr True, w) \<Rightarrow> next_handler Op w))"

definition handle_admin_whoami :: "'w operator option \<Rightarrow> string \<Rightarrow> 'w \<Rightarrow> admin_reply \<times> 'w" where
  "handle_admin_whoami adm user w =
     (case adm of
        None \<Rightarrow> ((200, AbWhoami False []), w)
      | Some Op \<Rightarrow>
          (case is_admin (op_admin Op) user w of
             (Inl _, w) \<Rightarrow> ((200, AbWhoami False (ad_group (op_admin Op))), w)
           | (Inr ok, w) \<Rightarrow> ((200, AbWhoami ok (ad_group (op_admin Op))), w)))"

definition handle_admin_users :: "usage_cache \<Rightarrow> 'w operator \<Rightarrow> 'w \<Rightarrow> admin_reply \<times> 'w" where
  "handle_admin_users c Op w = (case acct_inventory Op (usage_get c) w of (iv, w) \<Rightarrow> ((200, AbInventory iv), w))"

definition handle_admin_disk :: "usage_cache \<Rightarrow> 'w operator \<Rightarrow> 'w \<Rightarrow> admin_reply \<times> 'w" where
  "handle_admin_disk c Op w =
     (case admin_capacity Op w of
        (Inl _, w) \<Rightarrow> ((503, AbError), w)
      | (Inr cp, w) \<Rightarrow> ((200, AbDisk cp (admin_usage c)), w))"

definition handle_admin_audit :: "'w operator \<Rightarrow> 'w \<Rightarrow> admin_reply \<times> 'w" where
  "handle_admin_audit Op w =
     (case audit_roster Op w of
        (Inl _, w) \<Rightarrow> ((503, AbError), w)
      | (Inr rep, w) \<Rightarrow> ((200, AbDrift rep), w))"

text \<open>\<open>auth\<close> is the credential store's check.\<close>

definition handle_admin_initial_password ::
  "(string \<Rightarrow> string \<Rightarrow> 'w \<Rightarrow> (auth_error + bool) \<times> 'w) \<Rightarrow> usage_cache \<Rightarrow> 'w operator \<Rightarrow> string \<Rightarrow> 'w \<Rightarrow> admin_reply \<times> 'w" where
  "handle_admin_initial_password auth c Op name w =
     (case initial_password Op (usage_get c) name w of
        (Inl (AeUnknownUser _), w) \<Rightarrow> ((404, AbError), w)
      | (Inl _, w) \<Rightarrow> ((503, AbError), w)
      | (Inr pw, w) \<Rightarrow>
          (case auth name pw w of
             (Inl _, w) \<Rightarrow> ((503, AbError), w)
           | (Inr False, w) \<Rightarrow> ((200, AbInitial None), w)
           | (Inr True, w) \<Rightarrow> ((200, AbInitial (Some pw)), w)))"

text \<open>The caller's own, \<^verbatim>\<open>src/internal/server/password.go\<close>.\<close>

definition handle_my_initial_password ::
  "(string \<Rightarrow> string \<Rightarrow> 'w \<Rightarrow> (auth_error + bool) \<times> 'w) \<Rightarrow> usage_cache \<Rightarrow> 'w operator option \<Rightarrow> string \<Rightarrow> 'w \<Rightarrow> admin_reply \<times> 'w" where
  "handle_my_initial_password auth c adm user w =
     (case adm of
        None \<Rightarrow> ((404, AbError), w)
      | Some Op \<Rightarrow>
          (case initial_password Op (usage_get c) user w of
             (Inl _, w) \<Rightarrow> ((503, AbError), w)
           | (Inr pw, w) \<Rightarrow>
               (case auth user pw w of
                  (Inl _, w) \<Rightarrow> ((503, AbError), w)
                | (Inr False, w) \<Rightarrow> ((200, AbInitial None), w)
                | (Inr True, w) \<Rightarrow> ((200, AbInitial (Some pw)), w))))"

definition users_route :: string where "users_route = ''/api/admin/users/''"

definition handle_admin_user_read ::
  "(string \<Rightarrow> string \<Rightarrow> 'w \<Rightarrow> (auth_error + bool) \<times> 'w) \<Rightarrow> usage_cache \<Rightarrow> string \<Rightarrow> 'w operator \<Rightarrow> 'w \<Rightarrow> admin_reply \<times> 'w" where
  "handle_admin_user_read auth c url Op w =
     (case cut (trim_prefix url users_route) CHR ''/'' of (name, opn, ok) \<Rightarrow>
        (if \<not> ok \<or> name = [] then ((400, AbError), w)
         else if opn = ''initial-password'' then handle_admin_initial_password auth c Op name w
         else ((404, AbError), w)))"

definition user_op_reply :: "admin_error option \<Rightarrow> admin_reply" where
  "user_op_reply err =
     (case err of Some (AeUnknownUser _) \<Rightarrow> (404, AbError) | Some _ \<Rightarrow> (503, AbError) | None \<Rightarrow> (204, AbNone))"

definition handle_admin_user_op ::
  "usage_cache \<Rightarrow> string \<Rightarrow> string \<Rightarrow> (bool option \<times> string) option \<Rightarrow> 'w operator \<Rightarrow> 'w \<Rightarrow> admin_reply \<times> 'w" where
  "handle_admin_user_op c user url body Op w =
     (case cut (trim_prefix url users_route) CHR ''/'' of (name, opn, ok) \<Rightarrow>
        (if \<not> ok \<or> name = [] then ((400, AbError), w)
         else
           (case body of
              None \<Rightarrow> ((400, AbError), w)
            | Some (enabled, pw) \<Rightarrow>
                (if opn = ''smb'' then
                   (case enabled of
                      None \<Rightarrow> ((400, AbError), w)
                    | Some en \<Rightarrow>
                        (if \<not> en \<and> name = user then ((409, AbError), w)
                         else (case set_smb_enabled Op (usage_get c) name en w of (err, w) \<Rightarrow> (user_op_reply err, w))))
                 else if opn = ''password'' then
                   (case set_smb_password Op (usage_get c) name pw w of (err, w) \<Rightarrow> (user_op_reply err, w))
                 else ((404, AbError), w)))))"

section \<open>Team owners\<close>

definition handle_team_whoami :: "'w operator option \<Rightarrow> string \<Rightarrow> 'w \<Rightarrow> admin_reply \<times> 'w" where
  "handle_team_whoami adm user w =
     (case adm of
        None \<Rightarrow> ((200, AbTeams []), w)
      | Some Op \<Rightarrow>
          (case owned_teams (op_admin Op) user w of
             (Inl _, w) \<Rightarrow> ((200, AbTeams []), w)
           | (Inr ts, w) \<Rightarrow> ((200, AbTeams ts), w)))"

definition handle_teams :: "'w operator option \<Rightarrow> string \<Rightarrow> 'w \<Rightarrow> admin_reply \<times> 'w" where
  "handle_teams adm user w =
     (case adm of
        None \<Rightarrow> ((200, AbTeamViews [] []), w)
      | Some Op \<Rightarrow>
          (case manageable_teams (op_admin Op) user w of
             (Inl _, w) \<Rightarrow> ((503, AbError), w)
           | (Inr (ts, us), w) \<Rightarrow> ((200, AbTeamViews ts us), w)))"

definition team_op_reply :: "admin_error option \<Rightarrow> admin_reply" where
  "team_op_reply err =
     (case err of
        Some (AeNotOwner _) \<Rightarrow> (404, AbError)
      | Some (AeUnknownUser _) \<Rightarrow> (404, AbError)
      | Some _ \<Rightarrow> (503, AbError)
      | None \<Rightarrow> (204, AbNone))"

definition handle_team_members ::
  "'w operator option \<Rightarrow> string \<Rightarrow> string \<Rightarrow> (string \<times> bool option) option \<Rightarrow> 'w \<Rightarrow> admin_reply \<times> 'w" where
  "handle_team_members adm user url body w =
     (case adm of
        None \<Rightarrow> ((404, AbError), w)
      | Some Op \<Rightarrow>
          (case cut (trim_prefix url ''/api/teams/'') CHR ''/'' of (team, rest, ok) \<Rightarrow>
             (if \<not> ok \<or> rest \<noteq> ''members'' \<or> team = [] then ((400, AbError), w)
              else
                (case body of
                   Some (member, Some add) \<Rightarrow>
                     (case set_team_membership (op_admin Op) user team member add w of (err, w) \<Rightarrow> (team_op_reply err, w))
                 | _ \<Rightarrow> ((400, AbError), w)))))"

section \<open>Activity\<close>

text \<open>
  The query parameters; \<open>days_ago\<close> is \<^verbatim>\<open>time.Now().AddDate(0, 0, -n)\<close> in the server's zone.
\<close>

record activity_params =
  ap_user :: string
  ap_path :: string
  ap_action :: string
  ap_days :: string
  ap_limit :: string

definition positive_param :: "string \<Rightarrow> int option" where
  "positive_param s =
     (if s = [] then None else case parse_int s of None \<Rightarrow> None | Some n \<Rightarrow> if n > 0 then Some n else None)"

definition query_of_params :: "(int \<Rightarrow> 'w \<Rightarrow> time \<times> 'w) \<Rightarrow> activity_params \<Rightarrow> 'w \<Rightarrow> event_query \<times> 'w" where
  "query_of_params days_ago p w =
     (case (case positive_param (ap_days p) of None \<Rightarrow> (0, w) | Some n \<Rightarrow> days_ago n w) of (since, w) \<Rightarrow>
        (\<lparr>qu_user = ap_user p, qu_path = ap_path p, qu_action = ap_action p, qu_since = since,
          qu_limit = (case positive_param (ap_limit p) of None \<Rightarrow> 0 | Some n \<Rightarrow> n)\<rparr>, w))"

definition handle_activity ::
  "'w log_disk \<Rightarrow> act_store option \<Rightarrow> (int \<Rightarrow> 'w \<Rightarrow> time \<times> 'w) \<Rightarrow> activity_params \<Rightarrow> 'w \<Rightarrow> admin_reply \<times> 'w" where
  "handle_activity D st days_ago p w =
     (case st of
        None \<Rightarrow> ((200, AbEvents [] False), w)
      | Some s \<Rightarrow>
          (case query_of_params days_ago p w of (q, w) \<Rightarrow>
             (case act_query D s q w of
                (Inl _, w) \<Rightarrow> ((503, AbError), w)
              | (Inr es, w) \<Rightarrow> ((200, AbEvents es True), w))))"

section \<open>What the routes may do\<close>

lemma managed_cases:
  "managed Op usage name w = (e, w') \<Longrightarrow>
    e = Some (AeUnknownUser name) \<and> (w' = w \<or> w' = snd (acct_inventory Op usage w)) \<or>
    e = None \<and> (\<exists>iv. acct_inventory Op usage w = (iv, w') \<and> name \<in> au_name ` set (in_users iv)) \<and>
      name \<noteq> [] \<and> \<not> contains_any name [CHR '':'', CHR ''/'', newline, byte 0, CHR '' '']"
  by (auto simp: managed_def list_ex_iff split: if_splits prod.splits)

text \<open>The account an operation is aimed at is one the inventory lists.\<close>

definition aimed_at :: "'w operator \<Rightarrow> usage_cache \<Rightarrow> string \<Rightarrow> 'w \<Rightarrow> 'w \<Rightarrow> bool" where
  "aimed_at Op c name w w' \<longleftrightarrow>
     (\<exists>iv. acct_inventory Op (usage_get c) w = (iv, w') \<and> name \<in> au_name ` set (in_users iv)) \<and>
     name \<noteq> [] \<and> \<not> contains_any name [CHR '':'', CHR ''/'', newline, byte 0, CHR '' '']"

lemma user_op_cases:
  assumes "handle_admin_user_op c user url body Op w = (r, w')"
  shows "fst r \<in> {400, 404, 409} \<and> (w' = w \<or> w' = snd (acct_inventory Op (usage_get c) w)) \<or>
    (\<exists>name w1. aimed_at Op c name w w1 \<and> fst r \<in> {204, 503} \<and>
      ((\<exists>en. \<not> (\<not> en \<and> name = user) \<and>
          w' = snd (ad_run (op_admin Op) [] (ad_smbpasswd (op_admin Op)) [if en then ''-e'' else ''-d'', name] w1)) \<or>
       (\<exists>pw. w' = snd (password_set (ad_run (op_admin Op)) (ad_smbpasswd (op_admin Op)) name pw w1))))"
proof -
  obtain name opn ok where cut: "cut (trim_prefix url users_route) CHR ''/'' = (name, opn, ok)" by (metis prod.collapse)
  obtain e w1 where m: "managed Op (usage_get c) name w = (e, w1)" by fastforce
  note mc = managed_cases[OF m]
  have run_smb: ?thesis if run: "set_smb_enabled Op (usage_get c) name en w = (err, w')" "r = user_op_reply err" "\<not> (\<not> en \<and> name = user)" for en err
  proof (cases e)
    case (Some x)
    then show ?thesis using run mc m by (auto simp: set_smb_enabled_def user_op_reply_def)
  next
    case None
    then have aim: "aimed_at Op c name w w1" using mc by (auto simp: aimed_at_def)
    have "w' = snd (ad_run (op_admin Op) [] (ad_smbpasswd (op_admin Op)) [if en then ''-e'' else ''-d'', name] w1)" "fst r \<in> {204, 503}"
      using run m None by (auto simp: set_smb_enabled_def user_op_reply_def Let_def split: prod.splits sum.splits)
    with aim run(3) show ?thesis by blast
  qed
  have run_pw: ?thesis if run: "set_smb_password Op (usage_get c) name pw w = (err, w')" "r = user_op_reply err" for pw err
  proof (cases e)
    case (Some x)
    then show ?thesis using run mc m by (auto simp: set_smb_password_def user_op_reply_def)
  next
    case None
    then have aim: "aimed_at Op c name w w1" using mc by (auto simp: aimed_at_def)
    have "w' = snd (password_set (ad_run (op_admin Op)) (ad_smbpasswd (op_admin Op)) name pw w1)" "fst r \<in> {204, 503}"
      using run m None by (auto simp: set_smb_password_def user_op_reply_def split: prod.splits option.splits)
    with aim show ?thesis by blast
  qed
  note body = assms[unfolded handle_admin_user_op_def cut prod.case]
  consider (early) "fst r \<in> {400, 404, 409}" "w' = w"
    | (smb) en err where "set_smb_enabled Op (usage_get c) name en w = (err, w')" "r = user_op_reply err" "\<not> (\<not> en \<and> name = user)"
    | (pw) pw err where "set_smb_password Op (usage_get c) name pw w = (err, w')" "r = user_op_reply err"
    using body by (fastforce split: if_splits option.splits prod.splits)
  then show ?thesis
  proof cases
    case early
    then show ?thesis by blast
  next
    case (smb en err)
    then show ?thesis by (rule run_smb)
  next
    case (pw q err)
    then show ?thesis by (rule run_pw)
  qed
qed


text \<open>A password is shown exactly if the credential store just accepted it for that account.\<close>

lemma reveal_exact:
  "handle_admin_initial_password auth c Op name w = ((200, AbInitial (Some pw)), w') \<longleftrightarrow>
    (\<exists>w1. initial_password Op (usage_get c) name w = (Inr pw, w1) \<and> auth name pw w1 = (Inr True, w'))"
  by (auto simp: handle_admin_initial_password_def split: prod.splits sum.splits admin_error.splits bool.splits)

lemma own_reveal_exact:
  "handle_my_initial_password auth c (Some Op) user w = ((200, AbInitial (Some pw)), w') \<longleftrightarrow>
    (\<exists>w1. initial_password Op (usage_get c) user w = (Inr pw, w1) \<and> auth user pw w1 = (Inr True, w'))"
  by (auto simp: handle_my_initial_password_def split: prod.splits sum.splits bool.splits)

lemma initial_managed:
  assumes "initial_password Op usage name w = (Inr pw, w')"
  shows "\<exists>iv w1. acct_inventory Op usage w = (iv, w1) \<and> name \<in> au_name ` set (in_users iv)"
proof -
  obtain e w1 where m: "managed Op usage name w = (e, w1)" by fastforce
  then have "e = None" using assms by (cases e) (auto simp: initial_password_def)
  with managed_cases[OF m] show ?thesis by auto
qed

end
