(* ===== verification/Compress.thy ===== *)
theory Compress
  imports GoStrings
begin

text \<open>
  Compressed responses, \<^verbatim>\<open>src/internal/server/gzip.go\<close>: the reading of \<^verbatim>\<open>Accept-Encoding\<close>, the decision at
  the header, and the response writer that puts the compressor between the handler and the connection.

  A handler is the list of what it does to its response writer. The response of net/http keeps the header
  a handler is still changing, the status and header that were sent, and the body. \<open>gzip.Writer\<close> is a
  parameter: what it emits for a write, for a flush and when it is closed; an emission is empty when the
  compressor keeps the bytes. Header names and media types are ASCII, and writes to the connection succeed.
\<close>

section \<open>What the client accepts\<close>

text \<open>\<^verbatim>\<open>strings.Trim(s, "c")\<close> for one character.\<close>

definition trim_char :: "char \<Rightarrow> string \<Rightarrow> string" where
  "trim_char c s = rev (dropWhile (\<lambda>x. x = c) (rev (dropWhile (\<lambda>x. x = c) s)))"

definition zero_weight :: "string \<Rightarrow> bool" where
  "zero_weight p =
     (case cut (trim_space p) CHR ''='' of (k, v, ok) \<Rightarrow>
        (if \<not> ok \<or> \<not> equal_fold (trim_space k) ''q'' then False
         else
           (let v = trim_space v
            in v = ''0'' \<or> has_prefix v ''0.'' \<and> trim_char CHR ''0'' (drop 2 v) = [])))"

definition q_zero :: "string \<Rightarrow> bool" where
  "q_zero params = list_ex zero_weight (split_on CHR '';'' params)"

definition gzip_token :: string where "gzip_token = ''gzip''"

fun accepts_loop :: "string list \<Rightarrow> bool \<Rightarrow> bool" where
  "accepts_loop [] accepted = accepted"
| "accepts_loop (part # parts) accepted =
     (case cut (trim_space part) CHR '';'' of (name, params, _) \<Rightarrow>
        (let name = trim_space name
         in if \<not> equal_fold name gzip_token \<and> name \<noteq> ''*'' then accepts_loop parts accepted
            else if q_zero params then (if equal_fold name gzip_token then False else accepts_loop parts accepted)
            else if equal_fold name gzip_token then True
            else accepts_loop parts True))"

definition accepts_gzip :: "string \<Rightarrow> bool" where
  "accepts_gzip header = accepts_loop (split_on CHR '','' header) False"

text \<open>What the header says: the codings it lists, each with whether its weight is zero.\<close>

definition coding_of :: "string \<Rightarrow> string \<times> bool" where
  "coding_of part = (case cut (trim_space part) CHR '';'' of (name, params, _) \<Rightarrow> (trim_space name, q_zero params))"

definition codings :: "string \<Rightarrow> (string \<times> bool) list" where
  "codings header = map coding_of (split_on CHR '','' header)"

definition gzip_wanted :: "(string \<times> bool) list \<Rightarrow> bool" where
  "gzip_wanted cs =
     (case filter (\<lambda>c. equal_fold (fst c) gzip_token) cs of
        (_, refused) # _ \<Rightarrow> \<not> refused
      | [] \<Rightarrow> (''*'', False) \<in> set cs)"

lemma star_is_not_gzip: "\<not> equal_fold ''*'' gzip_token"
  by (simp add: equal_fold_def gzip_token_def to_lower_def)

lemma accepts_loop_codings:
  "accepts_loop parts acc \<longleftrightarrow>
     (case filter (\<lambda>c. equal_fold (fst c) gzip_token) (map coding_of parts) of
        (_, refused) # _ \<Rightarrow> \<not> refused
      | [] \<Rightarrow> acc \<or> (''*'', False) \<in> set (map coding_of parts))"
proof (induction parts arbitrary: acc)
  case Nil
  then show ?case by simp
next
  case (Cons part parts)
  obtain name params ok where cut: "cut (trim_space part) CHR '';'' = (name, params, ok)" by (metis prod.collapse)
  have of_part: "coding_of part = (trim_space name, q_zero params)" by (simp add: coding_of_def cut)
  consider (gzip) "equal_fold (trim_space name) gzip_token"
    | (star) "trim_space name = ''*''" "\<not> equal_fold (trim_space name) gzip_token"
    | (other) "trim_space name \<noteq> ''*''" "\<not> equal_fold (trim_space name) gzip_token" by blast
  then show ?case
    using Cons.IH by cases (simp_all add: cut of_part Let_def split: list.splits)
qed

text \<open>A coding named gzip decides, the first one if there are several; otherwise a wildcard that is not refused.\<close>

lemma accepts_gzip_codings: "accepts_gzip header = gzip_wanted (codings header)"
  by (simp add: accepts_gzip_def gzip_wanted_def codings_def accepts_loop_codings split: list.split)

section \<open>Headers and responses\<close>

type_synonym http_header = "string \<rightharpoonup> string list"

definition h_get :: "http_header \<Rightarrow> string \<Rightarrow> string" where
  "h_get h k = (case h k of Some (v # _) \<Rightarrow> v | _ \<Rightarrow> [])"

definition h_set :: "http_header \<Rightarrow> string \<Rightarrow> string \<Rightarrow> http_header" where
  "h_set h k v = h(k \<mapsto> [v])"

definition h_add :: "http_header \<Rightarrow> string \<Rightarrow> string \<Rightarrow> http_header" where
  "h_add h k v = h(k \<mapsto> (case h k of None \<Rightarrow> [] | Some vs \<Rightarrow> vs) @ [v])"

definition h_del :: "http_header \<Rightarrow> string \<Rightarrow> http_header" where
  "h_del h k = h(k := None)"

record response_state =
  rs_header :: http_header
  rs_sent :: "(nat \<times> http_header) option"
  rs_body :: string

text \<open>
  net/http's own writer: the first final status is sent with the header as it is then, a write or a flush
  sends 200 if nothing was sent, and an informational status sends nothing final.
\<close>

definition informational :: "nat \<Rightarrow> bool" where
  "informational status \<longleftrightarrow> 100 \<le> status \<and> status \<le> 199 \<and> status \<noteq> 101"

definition base_write_header :: "nat \<Rightarrow> response_state \<Rightarrow> response_state" where
  "base_write_header status r =
     (if rs_sent r \<noteq> None \<or> informational status then r
      else r\<lparr>rs_sent := Some (status, rs_header r)\<rparr>)"

definition base_write :: "string \<Rightarrow> response_state \<Rightarrow> response_state" where
  "base_write b r = (let r = base_write_header 200 r in r\<lparr>rs_body := rs_body r @ b\<rparr>)"

definition base_flush :: "response_state \<Rightarrow> response_state" where
  "base_flush r = base_write_header 200 r"

section \<open>The compressing writer\<close>

record 'z gzip_codec =
  gz_fresh :: 'z
  gz_write :: "string \<Rightarrow> 'z \<Rightarrow> string \<times> 'z"
  gz_flush :: "'z \<Rightarrow> string \<times> 'z"
  gz_close :: "'z \<Rightarrow> string"

record 'z gzip_writer =
  gw_resp :: response_state
  gw_gz :: "'z option"
  gw_wrote_header :: bool

definition compressible :: "string list" where
  "compressible =
     [''application/json'', ''application/x-ndjson'', ''application/javascript'', ''text/javascript'', ''text/html'',
      ''text/css'', ''text/plain'', ''text/markdown'', ''image/svg+xml'']"

definition too_small_to_bother :: int where "too_small_to_bother = 1024"

definition should_compress :: "http_header \<Rightarrow> nat \<Rightarrow> bool" where
  "should_compress h status =
     (if status \<noteq> 200 then False
      else if h_get h ''Content-Encoding'' \<noteq> [] then False
      else if str_contains (to_lower (h_get h ''Content-Disposition'')) ''attachment'' then False
      else
        (case cut (h_get h ''Content-Type'') CHR '';'' of (media_type, _, _) \<Rightarrow>
           (if to_lower (trim_space media_type) \<notin> set compressible then False
            else
              (case parse_int (h_get h ''Content-Length'') of
                 None \<Rightarrow> True
               | Some n \<Rightarrow> \<not> n < too_small_to_bother))))"

definition gzip_header :: "http_header \<Rightarrow> http_header" where
  "gzip_header h =
     h_add (h_set (h_del (h_del h ''Content-Length'') ''Accept-Ranges'') ''Content-Encoding'' ''gzip'') ''Vary'' ''Accept-Encoding''"

definition gw_write_header :: "'z gzip_codec \<Rightarrow> nat \<Rightarrow> 'z gzip_writer \<Rightarrow> 'z gzip_writer" where
  "gw_write_header C status g =
     (if gw_wrote_header g then g
      else
        (let g = g\<lparr>gw_wrote_header := True\<rparr>;
             r = gw_resp g;
             g = (if should_compress (rs_header r) status
                  then g\<lparr>gw_resp := r\<lparr>rs_header := gzip_header (rs_header r)\<rparr>, gw_gz := Some (gz_fresh C)\<rparr>
                  else g)
         in g\<lparr>gw_resp := base_write_header status (gw_resp g)\<rparr>))"

text \<open>The compressor writes what it emits to the underlying writer.\<close>

definition gz_put :: "'z gzip_codec \<Rightarrow> string \<Rightarrow> 'z \<Rightarrow> 'z gzip_writer \<Rightarrow> 'z gzip_writer" where
  "gz_put C b z g = (case gz_write C b z of (out, z) \<Rightarrow> g\<lparr>gw_resp := base_write out (gw_resp g), gw_gz := Some z\<rparr>)"

definition gw_write :: "'z gzip_codec \<Rightarrow> string \<Rightarrow> 'z gzip_writer \<Rightarrow> 'z gzip_writer" where
  "gw_write C b g =
     (let g = (if \<not> gw_wrote_header g then gw_write_header C 200 g else g)
      in case gw_gz g of
           Some z \<Rightarrow> gz_put C b z g
         | None \<Rightarrow> g\<lparr>gw_resp := base_write b (gw_resp g)\<rparr>)"

text \<open>A copy from a reader that yields the chunks \<open>bs\<close>.\<close>

definition gw_read_from :: "'z gzip_codec \<Rightarrow> string list \<Rightarrow> 'z gzip_writer \<Rightarrow> 'z gzip_writer" where
  "gw_read_from C bs g =
     (let g = (if \<not> gw_wrote_header g then gw_write_header C 200 g else g)
      in case gw_gz g of
           Some _ \<Rightarrow> fold (\<lambda>b g. case gw_gz g of None \<Rightarrow> g | Some z \<Rightarrow> gz_put C b z g) bs g
         | None \<Rightarrow> g\<lparr>gw_resp := fold base_write bs (gw_resp g)\<rparr>)"

definition gw_flush :: "'z gzip_codec \<Rightarrow> 'z gzip_writer \<Rightarrow> 'z gzip_writer" where
  "gw_flush C g =
     (let g = (case gw_gz g of
                 None \<Rightarrow> g
               | Some z \<Rightarrow> (case gz_flush C z of (out, z) \<Rightarrow> g\<lparr>gw_resp := base_write out (gw_resp g), gw_gz := Some z\<rparr>))
      in g\<lparr>gw_resp := base_flush (gw_resp g)\<rparr>)"

definition gw_close :: "'z gzip_codec \<Rightarrow> 'z gzip_writer \<Rightarrow> 'z gzip_writer" where
  "gw_close C g =
     (case gw_gz g of
        None \<Rightarrow> g
      | Some z \<Rightarrow> g\<lparr>gw_resp := base_write (gz_close C z) (gw_resp g), gw_gz := None\<rparr>)"

section \<open>A request\<close>

datatype handler_act =
    SetHeader string string | AddHeader string string | DelHeader string
  | WriteHeader nat | WriteBody string | CopyBody "string list" | FlushBody

fun base_act :: "handler_act \<Rightarrow> response_state \<Rightarrow> response_state" where
  "base_act (SetHeader k v) r = r\<lparr>rs_header := h_set (rs_header r) k v\<rparr>"
| "base_act (AddHeader k v) r = r\<lparr>rs_header := h_add (rs_header r) k v\<rparr>"
| "base_act (DelHeader k) r = r\<lparr>rs_header := h_del (rs_header r) k\<rparr>"
| "base_act (WriteHeader status) r = base_write_header status r"
| "base_act (WriteBody b) r = base_write b r"
| "base_act (CopyBody bs) r = fold base_write bs r"
| "base_act FlushBody r = base_flush r"

fun gw_act :: "'z gzip_codec \<Rightarrow> handler_act \<Rightarrow> 'z gzip_writer \<Rightarrow> 'z gzip_writer" where
  "gw_act C (SetHeader k v) g = g\<lparr>gw_resp := base_act (SetHeader k v) (gw_resp g)\<rparr>"
| "gw_act C (AddHeader k v) g = g\<lparr>gw_resp := base_act (AddHeader k v) (gw_resp g)\<rparr>"
| "gw_act C (DelHeader k) g = g\<lparr>gw_resp := base_act (DelHeader k) (gw_resp g)\<rparr>"
| "gw_act C (WriteHeader status) g = gw_write_header C status g"
| "gw_act C (WriteBody b) g = gw_write C b g"
| "gw_act C (CopyBody bs) g = gw_read_from C bs g"
| "gw_act C FlushBody g = gw_flush C g"

record request_headers =
  rh_accept_encoding :: string
  rh_range :: string
  rh_if_range :: string

definition range_request :: "request_headers \<Rightarrow> bool" where
  "range_request q \<longleftrightarrow> rh_range q \<noteq> [] \<or> rh_if_range q \<noteq> []"

definition compress_handler ::
  "'z gzip_codec \<Rightarrow> request_headers \<Rightarrow> handler_act list \<Rightarrow> response_state \<Rightarrow> response_state" where
  "compress_handler C q acts r =
     (if \<not> accepts_gzip (rh_accept_encoding q) \<or> range_request q then fold base_act acts r
      else gw_resp (gw_close C (fold (gw_act C) acts \<lparr>gw_resp = r, gw_gz = None, gw_wrote_header = False\<rparr>)))"

section \<open>What the client gets\<close>

datatype gz_op = GzWrite string | GzFlush

fun gz_run :: "'z gzip_codec \<Rightarrow> gz_op list \<Rightarrow> 'z \<Rightarrow> string \<times> 'z" where
  "gz_run C [] z = ([], z)"
| "gz_run C (GzWrite b # ops) z =
     (case gz_write C b z of (out, z) \<Rightarrow> case gz_run C ops z of (rest, z) \<Rightarrow> (out @ rest, z))"
| "gz_run C (GzFlush # ops) z =
     (case gz_flush C z of (out, z) \<Rightarrow> case gz_run C ops z of (rest, z) \<Rightarrow> (out @ rest, z))"

fun gz_payload :: "gz_op list \<Rightarrow> string" where
  "gz_payload [] = []"
| "gz_payload (GzWrite b # ops) = b @ gz_payload ops"
| "gz_payload (GzFlush # ops) = gz_payload ops"

text \<open>The compressor's promise: what a fresh one emits until it is closed decodes to what was written.\<close>

definition gzip_decodes :: "'z gzip_codec \<Rightarrow> (string \<Rightarrow> string option) \<Rightarrow> bool" where
  "gzip_decodes C gunzip \<longleftrightarrow>
     (\<forall>ops. case gz_run C ops (gz_fresh C) of (out, z) \<Rightarrow> gunzip (out @ gz_close C z) = Some (gz_payload ops))"

text \<open>A handler that first sends a final status or writes: it flushes, or copies nothing, only after that.\<close>

fun sends_first :: "handler_act list \<Rightarrow> bool" where
  "sends_first [] = True"
| "sends_first (FlushBody # acts) = False"
| "sends_first (CopyBody bs # acts) = (bs \<noteq> [])"
| "sends_first (WriteHeader status # acts) = (\<not> informational status)"
| "sends_first (WriteBody _ # acts) = True"
| "sends_first (_ # acts) = sends_first acts"

lemma gz_run_append:
  "gz_run C (xs @ ys) z = (case gz_run C xs z of (out, z) \<Rightarrow> case gz_run C ys z of (rest, z) \<Rightarrow> (out @ rest, z))"
  by (induction C xs z rule: gz_run.induct) (simp_all split: prod.split)

lemma gz_payload_append [simp]: "gz_payload (xs @ ys) = gz_payload xs @ gz_payload ys"
  by (induction xs rule: gz_payload.induct) simp_all

text \<open>
  The simulation. Before the header both responses are the same; after it they stay the same, or the
  compressor stands between: its output so far is the body sent, what it was given is the plain body.
\<close>

definition squeezed :: "'z gzip_codec \<Rightarrow> http_header \<Rightarrow> 'z gzip_writer \<Rightarrow> response_state \<Rightarrow> bool" where
  "squeezed C h g r \<longleftrightarrow>
     gw_wrote_header g \<and> rs_sent r = Some (200, h) \<and> should_compress h 200 \<and>
     rs_sent (gw_resp g) = Some (200, gzip_header h) \<and>
     (\<exists>ops z. gw_gz g = Some z \<and> gz_run C ops (gz_fresh C) = (rs_body (gw_resp g), z) \<and> gz_payload ops = rs_body r)"

definition untouched :: "'z gzip_writer \<Rightarrow> response_state \<Rightarrow> bool" where
  "untouched g r \<longleftrightarrow> gw_gz g = None \<and> gw_resp g = r"

definition sim :: "'z gzip_codec \<Rightarrow> 'z gzip_writer \<Rightarrow> response_state \<Rightarrow> bool" where
  "sim C g r \<longleftrightarrow> gw_wrote_header g \<and> rs_sent r \<noteq> None \<and> untouched g r \<or> (\<exists>h. squeezed C h g r)"

lemma base_sent [simp]:
  "rs_sent r = Some x \<Longrightarrow> base_write_header status r = r"
  "rs_sent r = Some x \<Longrightarrow> base_flush r = r"
  "rs_sent r = Some x \<Longrightarrow> base_write b r = r\<lparr>rs_body := rs_body r @ b\<rparr>"
  by (simp_all add: base_write_header_def base_flush_def base_write_def Let_def)

lemma copy_sent: "rs_sent r = Some x \<Longrightarrow> rs_sent (fold base_write bs r) = Some x"
  by (induction bs arbitrary: r) simp_all

lemma squeezed_put:
  assumes "squeezed C h g r" "gw_gz g = Some z"
  shows "squeezed C h (gz_put C b z g) (base_write b r)"
proof -
  obtain out z' where w: "gz_write C b z = (out, z')" by fastforce
  from assms obtain ops where ops: "gz_run C ops (gz_fresh C) = (rs_body (gw_resp g), z)" "gz_payload ops = rs_body r"
    by (auto simp: squeezed_def)
  have "gz_run C (ops @ [GzWrite b]) (gz_fresh C) = (rs_body (gw_resp g) @ out, z')" using ops(1) w by (simp add: gz_run_append)
  moreover have "gz_payload (ops @ [GzWrite b]) = rs_body r @ b" using ops(2) by simp
  ultimately show ?thesis using assms w by (auto simp: squeezed_def gz_put_def)
qed

lemma squeezed_flush:
  assumes "squeezed C h g r"
  shows "squeezed C h (gw_flush C g) (base_flush r)"
proof -
  from assms obtain ops z where ops: "gw_gz g = Some z" "gz_run C ops (gz_fresh C) = (rs_body (gw_resp g), z)" "gz_payload ops = rs_body r"
    by (auto simp: squeezed_def)
  obtain out z' where w: "gz_flush C z = (out, z')" by fastforce
  have "gz_run C (ops @ [GzFlush]) (gz_fresh C) = (rs_body (gw_resp g) @ out, z')" using ops(2) w by (simp add: gz_run_append)
  moreover have "gz_payload (ops @ [GzFlush]) = rs_body r" using ops(3) by simp
  ultimately show ?thesis using assms ops(1) w by (auto simp: squeezed_def gw_flush_def)
qed

lemma squeezed_copy:
  "squeezed C h g r \<Longrightarrow>
    squeezed C h (fold (\<lambda>b g. case gw_gz g of None \<Rightarrow> g | Some z \<Rightarrow> gz_put C b z g) bs g) (fold base_write bs r)"
proof (induction bs arbitrary: g r)
  case (Cons b bs)
  from Cons.prems obtain z where z: "gw_gz g = Some z" by (auto simp: squeezed_def)
  show ?case using Cons.IH[OF squeezed_put[OF Cons.prems z]] by (simp add: z)
qed simp

lemma squeezed_open: "squeezed C h g r \<Longrightarrow> gw_wrote_header g \<and> (\<exists>z. gw_gz g = Some z) \<and> rs_sent r \<noteq> None \<and> rs_sent (gw_resp g) \<noteq> None"
  by (auto simp: squeezed_def)

lemma squeezed_header:
  "squeezed C h g r \<Longrightarrow> squeezed C h (g\<lparr>gw_resp := (gw_resp g)\<lparr>rs_header := h1\<rparr>\<rparr>) (r\<lparr>rs_header := h2\<rparr>)"
  by (auto simp: squeezed_def)

lemma sim_act:
  assumes "sim C g r"
  shows "sim C (gw_act C a g) (base_act a r)"
proof (cases "\<exists>h. squeezed C h g r")
  case False
  then have u: "gw_wrote_header g" "gw_gz g = None" "gw_resp g = r" "rs_sent r \<noteq> None"
    using assms by (auto simp: sim_def untouched_def)
  then obtain x where x: "rs_sent r = Some x" by blast
  show ?thesis
    by (cases a) (simp_all add: sim_def untouched_def u x copy_sent gw_write_header_def gw_write_def gw_read_from_def gw_flush_def Let_def)
next
  case True
  then obtain h where sq: "squeezed C h g r" by blast
  from squeezed_open[OF sq] obtain z where o: "gw_wrote_header g" "gw_gz g = Some z" by blast
  have "\<exists>h. squeezed C h (gw_act C a g) (base_act a r)"
  proof (cases a)
    case (WriteHeader status)
    then show ?thesis using sq o by (auto simp: gw_write_header_def squeezed_def)
  next
    case (WriteBody b)
    then show ?thesis using squeezed_put[OF sq o(2)] o by (auto simp: gw_write_def)
  next
    case (CopyBody bs)
    then show ?thesis using squeezed_copy[OF sq] o by (auto simp: gw_read_from_def)
  next
    case FlushBody
    then show ?thesis using squeezed_flush[OF sq] by auto
  qed (use squeezed_header[OF sq] in \<open>auto\<close>)
  then show ?thesis by (simp add: sim_def)
qed

lemma sim_acts: "sim C g r \<Longrightarrow> sim C (fold (gw_act C) acts g) (fold base_act acts r)"
  by (induction acts arbitrary: g r) (simp_all add: sim_act)

text \<open>The header: where the two ways part.\<close>

definition fresh_writer :: "response_state \<Rightarrow> 'z gzip_writer" where
  "fresh_writer r = \<lparr>gw_resp = r, gw_gz = None, gw_wrote_header = False\<rparr>"

lemma sim_header:
  assumes "rs_sent r = None" "rs_body r = []" "\<not> informational status"
  shows "sim C (gw_write_header C status (fresh_writer r)) (base_write_header status r)"
proof (cases "should_compress (rs_header r) status")
  case True
  then have "status = 200" by (simp add: should_compress_def split: if_splits)
  then have "squeezed C (rs_header r) (gw_write_header C status (fresh_writer r)) (base_write_header status r)"
    using True assms
    by (auto simp: squeezed_def gw_write_header_def fresh_writer_def base_write_header_def Let_def informational_def
        intro!: exI[of _ "[]"])
  then show ?thesis by (auto simp: sim_def)
next
  case False
  then show ?thesis
    using assms by (simp add: sim_def untouched_def gw_write_header_def fresh_writer_def Let_def base_write_header_def)
qed

lemma base_write_sends: "base_write b r = base_write b (base_write_header 200 r)"
  by (simp add: base_write_def Let_def base_write_header_def informational_def)

lemma gw_acts_send:
  assumes "\<not> gw_wrote_header g"
  shows "gw_act C (WriteBody b) g = gw_act C (WriteBody b) (gw_write_header C 200 g)"
    "gw_act C (CopyBody bs) g = gw_act C (CopyBody bs) (gw_write_header C 200 g)"
proof -
  have "gw_wrote_header (gw_write_header C 200 g)" by (simp add: gw_write_header_def Let_def)
  then show "gw_act C (WriteBody b) g = gw_act C (WriteBody b) (gw_write_header C 200 g)"
    "gw_act C (CopyBody bs) g = gw_act C (CopyBody bs) (gw_write_header C 200 g)"
    using assms by (simp_all add: gw_write_def gw_read_from_def Let_def)
qed

lemma sim_run:
  assumes "rs_sent r = None" "rs_body r = []" "sends_first acts"
  shows "sim C (fold (gw_act C) acts (fresh_writer r)) (fold base_act acts r) \<or>
    untouched (fold (gw_act C) acts (fresh_writer r)) (fold base_act acts r)"
  using assms
proof (induction acts arbitrary: r)
  case Nil
  then show ?case by (simp add: untouched_def fresh_writer_def)
next
  case (Cons a acts)
  have nw: "\<not> gw_wrote_header (fresh_writer r)" by (simp add: fresh_writer_def)
  have go: ?case if "sim C (gw_act C a (fresh_writer r)) (base_act a r)" using sim_acts[OF that] by simp
  have ok: "\<not> informational 200" by (simp add: informational_def)
  note open200 = sim_act[OF sim_header[OF Cons.prems(1,2) ok]]
  show ?case
  proof (cases a)
    case (WriteHeader status)
    then show ?thesis using go sim_header[OF Cons.prems(1,2), of status C] Cons.prems(3) by simp
  next
    case (WriteBody b)
    show ?thesis
      by (rule go) (use open200[of C "WriteBody b"] in
          \<open>simp only: WriteBody gw_acts_send(1)[OF nw, of C b] base_act.simps base_write_sends[of b r, symmetric]\<close>)
  next
    case (CopyBody bs)
    then obtain b bs' where bs: "bs = b # bs'" using Cons.prems(3) by (cases bs) auto
    have "base_act (CopyBody bs) (base_write_header 200 r) = base_act (CopyBody bs) r"
      by (simp add: bs base_write_sends[symmetric])
    then show ?thesis
      using open200[of C "CopyBody bs"] unfolding gw_acts_send(2)[OF nw, of C bs, symmetric] by (intro go) (simp only: CopyBody)
  next
    case FlushBody
    then show ?thesis using Cons.prems(3) by simp
  next
    case (SetHeader k v)
    then show ?thesis using Cons.IH[of "base_act a r"] Cons.prems by (simp add: fresh_writer_def)
  next
    case (AddHeader k v)
    then show ?thesis using Cons.IH[of "base_act a r"] Cons.prems by (simp add: fresh_writer_def)
  next
    case (DelHeader k)
    then show ?thesis using Cons.IH[of "base_act a r"] Cons.prems by (simp add: fresh_writer_def)
  qed
qed


text \<open>A compressor that only adds a trailer.\<close>

definition trailer_codec :: "unit gzip_codec" where
  "trailer_codec = \<lparr>gz_fresh = (), gz_write = (\<lambda>b z. (b, z)), gz_flush = (\<lambda>z. ([], z)), gz_close = (\<lambda>_. ''!'')\<rparr>"

definition empty_response :: response_state where
  "empty_response = \<lparr>rs_header = Map.empty, rs_sent = None, rs_body = []\<rparr>"

definition asks_gzip :: request_headers where
  "asks_gzip = \<lparr>rh_accept_encoding = ''gzip'', rh_range = [], rh_if_range = []\<rparr>"

definition sends_css :: "handler_act list" where
  "sends_css = [SetHeader ''Content-Type'' ''text/css'', WriteBody ''ab'', FlushBody]"

lemma trailer_run: "gz_run trailer_codec ops () = (gz_payload ops, ())"
  by (induction trailer_codec ops "()" rule: gz_run.induct) (simp_all add: trailer_codec_def)

lemma trailer_decodes: "gzip_decodes trailer_codec (\<lambda>s. Some (butlast s))"
  unfolding gzip_decodes_def using trailer_run by (auto simp: trailer_codec_def split: prod.splits)

lemma css_body: "rs_body (compress_handler trailer_codec asks_gzip sends_css empty_response) = ''ab!''"
  "rs_body (fold base_act sends_css empty_response) = ''ab''"
proof -
  have trim: "trim_space ''gzip'' = ''gzip''" "trim_space ''text/css'' = ''text/css''"
    by (rule trimmed_id; rule visible_trimmed; simp add: visible_def)+
  have "trim_space [] = []" by (rule trimmed_id) (simp add: trimmed_def clean_start_def space_runes_def)
  then have weight: "\<not> zero_weight []" by (simp add: zero_weight_def)
  have accepts: "accepts_gzip ''gzip''"
    by (simp add: accepts_gzip_def trim gzip_token_def q_zero_def weight)
  have css: "should_compress [''Content-Type'' \<mapsto> [''text/css'']] 200"
    by (simp add: should_compress_def h_get_def trim to_lower_def lower_char_def compressible_def str_contains_def parse_int_def)
  show "rs_body (compress_handler trailer_codec asks_gzip sends_css empty_response) = ''ab!''"
    by (simp add: compress_handler_def asks_gzip_def accepts range_request_def sends_css_def empty_response_def h_set_def
        gw_write_def gw_write_header_def css gz_put_def trailer_codec_def gw_flush_def gw_close_def base_write_def base_flush_def
        base_write_header_def informational_def Let_def)
  show "rs_body (fold base_act sends_css empty_response) = ''ab''"
    by (simp add: sends_css_def empty_response_def base_write_def base_flush_def base_write_header_def informational_def Let_def)
qed


section \<open>Two handlers the writer would fail\<close>

text \<open>
  A flush before the first write sends a plain header; the write after it compresses all the same.
\<close>

lemma early_flush_garbles:
  assumes "rs_sent r = None" "should_compress (rs_header r) 200"
  shows "let g = fold (gw_act C) [FlushBody, WriteBody b] (fresh_writer r) in
    rs_sent (gw_resp g) = Some (200, rs_header r) \<and> h_get (rs_header r) ''Content-Encoding'' = [] \<and>
    rs_body (gw_resp g) = rs_body r @ fst (gz_write C b (gz_fresh C))"
proof -
  have "h_get (rs_header r) ''Content-Encoding'' = []" using assms(2) by (simp add: should_compress_def split: if_splits)
  with assms show ?thesis
    by (simp add: fresh_writer_def gw_flush_def base_flush_def base_write_header_def informational_def gw_write_def
        gw_write_header_def gz_put_def Let_def base_write_def split: prod.split)
qed

text \<open>A final status after an informational one is dropped: the connection then answers 200.\<close>

lemma informational_swallows:
  assumes "rs_sent r = None"
  shows "rs_sent (gw_resp (fold (gw_act C) [WriteHeader 103, WriteHeader 404] (fresh_writer r))) = None"
    "rs_sent (fold base_act [WriteHeader 103, WriteHeader 404] r) = Some (404, rs_header r)"
  using assms by (simp_all add: fresh_writer_def gw_write_header_def base_write_header_def informational_def should_compress_def Let_def)

end
