(* ===== verification/Interface.thy ===== *)
theory Interface
  imports Compress GoTime
begin

text \<open>
  The browser interface and the process that serves it: the proxy and the supervisor of
  \<^verbatim>\<open>src/internal/uiproc/uiproc.go\<close>, the choice of \<^verbatim>\<open>src/cmd/darak/main.go\<close> between an upstream and a child, and the files of \<^verbatim>\<open>src/internal/ui/ui.go\<close>.

  The password database, the listener, the reverse proxy's transport and the file system are parameters. The supervisor is a step relation: its goroutine, the child, the clock and \<open>Close\<close> interleave.
\<close>

section \<open>Who the interface runs as\<close>

record ui_creds =
  ui_uid :: uint32
  ui_gid :: uint32

datatype ui_error =
    UeLookup string | UeUid string | UeGid string | UeRoot ui_creds | UeListen string | UeStart string
  | UeExclusive | UeUpstream string | UeAnonymous string | UeSameUid string string | UeSelf string

text \<open>\<open>lookup\<close> is \<^verbatim>\<open>user.Lookup\<close>: the decimal ids of a name.\<close>

definition parse_user :: "(string \<Rightarrow> (string \<times> string) option) \<Rightarrow> string \<Rightarrow> ui_error + ui_creds" where
  "parse_user lookup s =
     (let ids = (case cut s CHR '':'' of (u, g, ok) \<Rightarrow> if ok then Some (u, g) else lookup s)
      in case ids of
           None \<Rightarrow> Inl (UeLookup s)
         | Some (u, g) \<Rightarrow>
             (case parse_uint u 10 32 of
                None \<Rightarrow> Inl (UeUid s)
              | Some uid \<Rightarrow>
                  (case parse_uint g 10 32 of
                     None \<Rightarrow> Inl (UeGid s)
                   | Some gid \<Rightarrow>
                       (let c = \<lparr>ui_uid = word_of_nat uid, ui_gid = word_of_nat gid\<rparr>
                        in if ui_uid c = 0 \<or> ui_gid c = 0 then Inl (UeRoot c) else Inr c))))"

definition same_uid_as :: "(string \<Rightarrow> (string \<times> string) option) \<Rightarrow> ui_creds \<Rightarrow> string \<Rightarrow> bool option" where
  "same_uid_as lookup c name =
     (case lookup name of None \<Rightarrow> None | Some (u, _) \<Rightarrow> Some (u = format_nat (unat (ui_uid c))))"

record ui_config =
  ui_bin :: string
  ui_dir :: string
  ui_creds_of :: ui_creds
  ui_min_backoff :: duration
  ui_max_backoff :: duration

definition default_min_backoff :: duration where "default_min_backoff = 200 * 1000000"
definition default_max_backoff :: duration where "default_max_backoff = 30 * 1000000000"
definition stable_after :: duration where "stable_after = 60 * 1000000000"
definition stop_grace :: duration where "stop_grace = 10 * 1000000000"

text \<open>
  The flags: where the interface is. \<open>parse_url\<close> gives scheme and host; \<open>self\<close> is this binary.
\<close>

datatype web_choice = NoWeb | WebUpstream string | WebChild ui_config

definition choose_web ::
  "(string \<Rightarrow> (string \<times> string) option) \<Rightarrow> (string \<Rightarrow> (string \<times> string) option) \<Rightarrow> (string + string) \<Rightarrow>
    string \<Rightarrow> string \<Rightarrow> string \<Rightarrow> string \<Rightarrow> ui_error + web_choice"
where
  "choose_web lookup parse_url self dir upstream ui_user anonymous =
     (if dir \<noteq> [] \<and> upstream \<noteq> [] then Inl UeExclusive
      else if upstream \<noteq> [] then
        (case parse_url upstream of
           None \<Rightarrow> Inl (UeUpstream upstream)
         | Some (scheme, host) \<Rightarrow> if scheme = [] \<or> host = [] then Inl (UeUpstream upstream) else Inr (WebUpstream upstream))
      else if dir \<noteq> [] then
        (case parse_user lookup ui_user of
           Inl e \<Rightarrow> Inl e
         | Inr c \<Rightarrow>
             (case (if anonymous \<noteq> [] then same_uid_as lookup c anonymous else Some False) of
                None \<Rightarrow> Inl (UeAnonymous anonymous)
              | Some True \<Rightarrow> Inl (UeSameUid ui_user anonymous)
              | Some False \<Rightarrow>
                  (case self of
                     Inl e \<Rightarrow> Inl (UeSelf e)
                   | Inr bin \<Rightarrow>
                       Inr (WebChild \<lparr>ui_bin = bin, ui_dir = dir, ui_creds_of = c, ui_min_backoff = 0, ui_max_backoff = 0\<rparr>))))
      else Inr NoWeb)"

section \<open>The proxy\<close>

record proxied =
  px_header :: http_header
  px_path :: string

record proxy_reply =
  pr_status :: nat
  pr_header :: http_header
  pr_body :: string

definition proxy_rewrite :: "proxied \<Rightarrow> proxied" where
  "proxy_rewrite q = q\<lparr>px_header := h_del (h_del (h_del (px_header q) ''Cookie'') ''Authorization'') ''Proxy-Authorization''\<rparr>"

definition modify_response :: "proxy_reply \<Rightarrow> proxy_reply" where
  "modify_response p = p\<lparr>pr_header := h_del (pr_header p) ''Set-Cookie''\<rparr>"

text \<open>\<open>ready\<close> is \<open>None\<close> for an upstream, which is not asked.\<close>

definition ui_proxy ::
  "(proxied \<Rightarrow> 'w \<Rightarrow> (string + proxy_reply) \<times> 'w) \<Rightarrow> bool option \<Rightarrow> proxied \<Rightarrow> 'w \<Rightarrow> proxy_reply \<times> 'w" where
  "ui_proxy transport ready q w =
     (if ready = Some False
      then (\<lparr>pr_status = 503, pr_header = h_set Map.empty ''Retry-After'' ''1'', pr_body = ''interface starting''\<rparr>, w)
      else
        (case transport (proxy_rewrite q) w of
           (Inl _, w) \<Rightarrow> (\<lparr>pr_status = 502, pr_header = Map.empty, pr_body = ''interface unavailable''\<rparr>, w)
         | (Inr p, w) \<Rightarrow> (modify_response p, w)))"

section \<open>The supervisor\<close>

record child =
  ch_pid :: nat
  ch_uid :: uint32
  ch_gid :: uint32
  ch_groups :: "uint32 list"
  ch_env :: "string list"
  ch_args :: "string list"

datatype loop_state =
    Spawning | Running nat | Stopping nat time | Killing nat | BackingOff time | Finished

text \<open>
  \<open>sv_first\<close> says that the channel of the first start is still held, \<open>sv_report\<close> what was sent on it;
  \<open>sv_children\<close> are the processes that exist, \<open>sv_spawns\<close> the times they were started, newest first.
\<close>

record supervisor =
  sv_cfg :: ui_config
  sv_loop :: loop_state
  sv_first :: bool
  sv_report :: "ui_error option list"
  sv_started :: time
  sv_backoff :: duration
  sv_running :: bool
  sv_stop :: bool
  sv_now :: time
  sv_children :: "child list"
  sv_spawns :: "time list"

definition sup_config :: "ui_config \<Rightarrow> ui_error + ui_config" where
  "sup_config cfg =
     (if ui_uid (ui_creds_of cfg) = 0 \<or> ui_gid (ui_creds_of cfg) = 0 then Inl (UeRoot (ui_creds_of cfg))
      else
        (let cfg = (if ui_min_backoff cfg \<le> 0 then cfg\<lparr>ui_min_backoff := default_min_backoff\<rparr> else cfg);
             cfg = (if ui_max_backoff cfg < ui_min_backoff cfg
                    then cfg\<lparr>ui_max_backoff := max default_max_backoff (ui_min_backoff cfg)\<rparr> else cfg)
         in Inr cfg))"

definition sup_init :: "ui_config \<Rightarrow> time \<Rightarrow> supervisor" where
  "sup_init cfg now =
     \<lparr>sv_cfg = cfg, sv_loop = Spawning, sv_first = True, sv_report = [], sv_started = now,
      sv_backoff = ui_min_backoff cfg, sv_running = False, sv_stop = False, sv_now = now, sv_children = [], sv_spawns = []\<rparr>"

definition sup_start :: "('w \<Rightarrow> string option \<times> 'w) \<Rightarrow> ui_config \<Rightarrow> time \<Rightarrow> 'w \<Rightarrow> (ui_error + supervisor) \<times> 'w" where
  "sup_start listen cfg now w =
     (case sup_config cfg of
        Inl e \<Rightarrow> (Inl e, w)
      | Inr cfg \<Rightarrow> (case listen w of (Some e, w) \<Rightarrow> (Inl (UeListen e), w) | (None, w) \<Rightarrow> (Inr (sup_init cfg now), w)))"

definition child_of :: "ui_config \<Rightarrow> nat \<Rightarrow> child" where
  "child_of cfg pid =
     \<lparr>ch_pid = pid, ch_uid = ui_uid (ui_creds_of cfg), ch_gid = ui_gid (ui_creds_of cfg), ch_groups = [], ch_env = [],
      ch_args = [ui_bin cfg, ''ui'', ''-dir'', ui_dir cfg, ''-listen-fd'', ''3'']\<rparr>"

text \<open>The loop after a child ended or could not be started.\<close>

definition after_run :: "supervisor \<Rightarrow> supervisor" where
  "after_run s =
     (let s = s\<lparr>sv_first := False\<rparr>
      in if sv_stop s then s\<lparr>sv_loop := Finished\<rparr>
         else
           (let s = (if sv_now s - sv_started s > stable_after then s\<lparr>sv_backoff := ui_min_backoff (sv_cfg s)\<rparr> else s)
            in s\<lparr>sv_loop := BackingOff (sv_now s + sv_backoff s)\<rparr>))"

definition start_failed :: "string \<Rightarrow> supervisor \<Rightarrow> supervisor" where
  "start_failed e s =
     (if sv_first s then s\<lparr>sv_report := sv_report s @ [Some (UeStart e)], sv_loop := Finished\<rparr> else after_run s)"

definition start_worked :: "nat \<Rightarrow> supervisor \<Rightarrow> supervisor" where
  "start_worked pid s =
     s\<lparr>sv_report := (if sv_first s then sv_report s @ [None] else sv_report s), sv_running := True,
       sv_loop := Running pid, sv_children := child_of (sv_cfg s) pid # sv_children s, sv_spawns := sv_now s # sv_spawns s\<rparr>"

definition child_gone :: "nat \<Rightarrow> supervisor \<Rightarrow> supervisor" where
  "child_gone pid s = s\<lparr>sv_running := False, sv_children := filter (\<lambda>c. ch_pid c \<noteq> pid) (sv_children s)\<rparr>"

text \<open>Doubling wraps at 64 bits.\<close>

definition double :: "duration \<Rightarrow> duration" where
  "double d = (2 * d + 2 ^ 63) mod 2 ^ 64 - 2 ^ 63"

definition loop_again :: "supervisor \<Rightarrow> supervisor" where
  "loop_again s =
     s\<lparr>sv_backoff := min (double (sv_backoff s)) (ui_max_backoff (sv_cfg s)), sv_started := sv_now s, sv_loop := Spawning\<rparr>"

inductive sup_step :: "supervisor \<Rightarrow> supervisor \<Rightarrow> bool" where
  time_passes: "0 \<le> d \<Longrightarrow> sup_step s (s\<lparr>sv_now := sv_now s + d\<rparr>)"
| close_called: "sup_step s (s\<lparr>sv_stop := True\<rparr>)"
| start_fails: "sv_loop s = Spawning \<Longrightarrow> sup_step s (start_failed e s)"
| start_works: "sv_loop s = Spawning \<Longrightarrow> sup_step s (start_worked pid s)"
| child_exits: "sv_loop s = Running pid \<Longrightarrow> sup_step s (after_run (child_gone pid s))"
| terminate: "sv_loop s = Running pid \<Longrightarrow> sv_stop s \<Longrightarrow> sup_step s (s\<lparr>sv_loop := Stopping pid (sv_now s + stop_grace)\<rparr>)"
| drained: "sv_loop s = Stopping pid t \<Longrightarrow> sup_step s (after_run (child_gone pid s))"
| grace_over: "sv_loop s = Stopping pid t \<Longrightarrow> t \<le> sv_now s \<Longrightarrow> sup_step s (s\<lparr>sv_loop := Killing pid\<rparr>)"
| killed: "sv_loop s = Killing pid \<Longrightarrow> sup_step s (after_run (child_gone pid s))"
| wait_stopped: "sv_loop s = BackingOff t \<Longrightarrow> sv_stop s \<Longrightarrow> sup_step s (s\<lparr>sv_loop := Finished\<rparr>)"
| wait_over: "sv_loop s = BackingOff t \<Longrightarrow> t \<le> sv_now s \<Longrightarrow> sup_step s (loop_again s)"

inductive sup_reachable :: "ui_config \<Rightarrow> supervisor \<Rightarrow> bool" for cfg where
  sup_begin: "sup_config cfg = Inr c \<Longrightarrow> sup_reachable cfg (sup_init c now)"
| sup_next: "sup_reachable cfg s \<Longrightarrow> sup_step s s' \<Longrightarrow> sup_reachable cfg s'"

text \<open>The supervisor's handler asks \<open>running\<close> first.\<close>

definition sup_handler ::
  "(proxied \<Rightarrow> 'w \<Rightarrow> (string + proxy_reply) \<times> 'w) \<Rightarrow> supervisor \<Rightarrow> proxied \<Rightarrow> 'w \<Rightarrow> proxy_reply \<times> 'w" where
  "sup_handler transport s q w = ui_proxy transport (Some (sv_running s)) q w"

section \<open>The files of the interface\<close>

datatype ui_problem = UpRoot | UpNoIndex | UpNoMount | UpNoAsset

text \<open>\<open>files\<close> is \<^verbatim>\<open>fs.ReadFile\<close> on the directory; \<open>exists\<close> is a successful \<^verbatim>\<open>fs.Stat\<close>.\<close>

definition ui_check :: "(string \<Rightarrow> string option) \<Rightarrow> ui_problem option" where
  "ui_check files =
     (case files ''index.html'' of
        None \<Rightarrow> Some UpNoIndex
      | Some index \<Rightarrow>
          (if \<not> str_contains index (''id='' @ [CHR 0x22] @ ''root'' @ [CHR 0x22]) then Some UpNoMount
           else if \<not> str_contains index ''/assets/'' then Some UpNoAsset
           else None))"

definition ui_open :: "nat \<Rightarrow> (string \<Rightarrow> string option) \<Rightarrow> ui_problem option" where
  "ui_open euid files = (if euid = 0 then Some UpRoot else ui_check files)"

definition trim_leading_slash :: "string \<Rightarrow> string" where
  "trim_leading_slash p = (let p = dropWhile (\<lambda>c. c = CHR ''/'') p in if p = [] then ''index.html'' else p)"

datatype ui_reply = UiFile string | UiIndex string | UiUnavailable

text \<open>\<open>UiFile\<close> hands the request to the file server, under the given caching.\<close>

definition ui_handler :: "(string \<Rightarrow> bool) \<Rightarrow> (string \<Rightarrow> string option) \<Rightarrow> string \<Rightarrow> ui_reply" where
  "ui_handler exists files url =
     (let name = trim_leading_slash url
      in if exists name then
           UiFile (if has_prefix name ''assets/'' then ''public, max-age=31536000, immutable'' else ''no-cache'')
         else (case files ''index.html'' of None \<Rightarrow> UiUnavailable | Some index \<Rightarrow> UiIndex index))"

text \<open>A deep link answers the document: once checked, the interface has no page it cannot serve.\<close>

lemma ui_always_answers:
  assumes "ui_open euid files = None"
  shows "ui_handler exists files url \<noteq> UiUnavailable"
  using assms by (auto simp: ui_open_def ui_check_def ui_handler_def Let_def split: if_splits option.splits)

section \<open>What the supervisor keeps\<close>

fun pid_of :: "loop_state \<Rightarrow> nat option" where
  "pid_of (Running pid) = Some pid"
| "pid_of (Stopping pid _) = Some pid"
| "pid_of (Killing pid) = Some pid"
| "pid_of _ = None"

definition config_ok :: "ui_config \<Rightarrow> bool" where
  "config_ok cfg \<longleftrightarrow> ui_uid (ui_creds_of cfg) \<noteq> 0 \<and> ui_gid (ui_creds_of cfg) \<noteq> 0 \<and>
     0 < ui_min_backoff cfg \<and> ui_min_backoff cfg \<le> ui_max_backoff cfg \<and> ui_max_backoff cfg < 2 ^ 62"

text \<open>The processes: the one the loop is watching, with the configured ids and nothing of the server's.\<close>

definition procs_ok :: "supervisor \<Rightarrow> bool" where
  "procs_ok s \<longleftrightarrow>
     sv_children s = (case pid_of (sv_loop s) of None \<Rightarrow> [] | Some pid \<Rightarrow> [child_of (sv_cfg s) pid]) \<and>
     sv_running s = (pid_of (sv_loop s) \<noteq> None)"

text \<open>The pace: starts lie at least the least wait apart.\<close>

definition apart :: "duration \<Rightarrow> time list \<Rightarrow> bool" where
  "apart d ts = successively (\<lambda>a b. d \<le> a - b) ts"

definition due :: "supervisor \<Rightarrow> time" where
  "due s = (case sv_loop s of BackingOff t \<Rightarrow> t | _ \<Rightarrow> sv_now s)"

definition pace_ok :: "supervisor \<Rightarrow> bool" where
  "pace_ok s \<longleftrightarrow>
     ui_min_backoff (sv_cfg s) \<le> sv_backoff s \<and> sv_backoff s \<le> ui_max_backoff (sv_cfg s) \<and>
     apart (ui_min_backoff (sv_cfg s)) (sv_spawns s) \<and>
     (sv_spawns s \<noteq> [] \<longrightarrow> hd (sv_spawns s) \<le> sv_now s \<and>
       (pid_of (sv_loop s) = None \<and> sv_loop s \<noteq> Finished \<longrightarrow> ui_min_backoff (sv_cfg s) \<le> due s - hd (sv_spawns s)))"

text \<open>The answer to \<open>Start\<close>: exactly one, once the first start was tried.\<close>

definition answer_ok :: "supervisor \<Rightarrow> bool" where
  "answer_ok s \<longleftrightarrow>
     (if \<not> sv_first s then sv_report s = [None] \<and> sv_spawns s \<noteq> []
      else if sv_loop s = Spawning then sv_report s = [] \<and> sv_spawns s = []
      else if pid_of (sv_loop s) = None then sv_loop s = Finished \<and> sv_spawns s = [] \<and> (\<exists>e. sv_report s = [Some (UeStart e)])
      else sv_report s = [None] \<and> sv_spawns s \<noteq> [])"

definition sup_ok :: "supervisor \<Rightarrow> bool" where
  "sup_ok s \<longleftrightarrow> config_ok (sv_cfg s) \<and> procs_ok s \<and> pace_ok s \<and> answer_ok s"

lemmas sup_defs = start_failed_def start_worked_def after_run_def child_gone_def loop_again_def

lemma step_config: "sup_step s s' \<Longrightarrow> sv_cfg s' = sv_cfg s"
  by (induction rule: sup_step.induct) (simp_all add: sup_defs Let_def)

lemma double_small: "0 < d \<Longrightarrow> d < 2 ^ 62 \<Longrightarrow> double d = 2 * d"
  by (simp add: double_def)

lemma step_procs: "sup_step s s' \<Longrightarrow> procs_ok s \<Longrightarrow> procs_ok s'"
  by (induction rule: sup_step.induct) (auto simp: procs_ok_def sup_defs Let_def child_of_def split: option.splits)

lemma step_answer: "sup_step s s' \<Longrightarrow> answer_ok s \<Longrightarrow> answer_ok s'"
  by (induction rule: sup_step.induct) (auto simp: answer_ok_def sup_defs Let_def split: if_splits)

lemma apart_Cons: "apart d (t # ts) \<longleftrightarrow> apart d ts \<and> (ts \<noteq> [] \<longrightarrow> d \<le> t - hd ts)"
  by (cases ts) (auto simp: apart_def)

lemma pace_after_run:
  assumes "pace_ok s" "config_ok (sv_cfg s)"
  shows "pace_ok (after_run (child_gone pid s))" "pace_ok (after_run s)"
  using assms by (auto simp: pace_ok_def config_ok_def sup_defs Let_def due_def)

lemma step_pace:
  assumes "sup_step s s'" "pace_ok s" "config_ok (sv_cfg s)"
  shows "pace_ok s'"
  using assms
proof (induction rule: sup_step.induct)
  case (time_passes d s)
  then show ?case by (auto simp: pace_ok_def due_def split: loop_state.splits)
next
  case (start_works s pid)
  then show ?case by (auto simp: pace_ok_def sup_defs due_def apart_Cons)
next
  case (wait_over s t)
  then have "double (sv_backoff s) = 2 * sv_backoff s" by (intro double_small) (auto simp: pace_ok_def config_ok_def)
  then show ?case using wait_over by (auto simp: pace_ok_def sup_defs due_def config_ok_def)
next
  case (start_fails s e)
  then show ?case using pace_after_run(2)[of s] by (auto simp: start_failed_def) (auto simp: pace_ok_def)
qed (auto simp: pace_after_run, auto simp: pace_ok_def due_def split: loop_state.splits)

lemma sup_init_ok:
  assumes "sup_config cfg = Inr c" "ui_min_backoff cfg < 2 ^ 62" "ui_max_backoff cfg < 2 ^ 62"
  shows "sup_ok (sup_init c now)"
proof -
  have "config_ok c"
    using assms by (auto simp: sup_config_def config_ok_def default_min_backoff_def default_max_backoff_def Let_def split: if_splits)
  then show ?thesis
    by (simp add: sup_ok_def sup_init_def procs_ok_def pace_ok_def answer_ok_def apart_def config_ok_def)
qed

lemma sup_reachable_ok:
  assumes "sup_reachable cfg s" "ui_min_backoff cfg < 2 ^ 62" "ui_max_backoff cfg < 2 ^ 62"
  shows "sup_ok s"
  using assms
proof (induction rule: sup_reachable.induct)
  case (sup_begin c now)
  then show ?case by (rule sup_init_ok)
next
  case (sup_next s s')
  then show ?case using step_procs step_pace step_answer by (simp add: sup_ok_def step_config)
qed

lemma reachable_config: "sup_reachable cfg s \<Longrightarrow> sup_config cfg = Inr (sv_cfg s)"
  by (induction rule: sup_reachable.induct) (simp_all add: sup_init_def step_config)

lemma sup_config_same:
  assumes "sup_config cfg = Inr c"
  shows "ui_creds_of c = ui_creds_of cfg" "ui_bin c = ui_bin cfg" "ui_dir c = ui_dir cfg"
    "ui_min_backoff c = (if ui_min_backoff cfg \<le> 0 then default_min_backoff else ui_min_backoff cfg)"
  using assms by (auto simp: sup_config_def Let_def split: if_splits)

text \<open>Once \<open>Close\<close> was called, each step of the loop brings it nearer its end, and there is always one to take.\<close>

fun rank :: "loop_state \<Rightarrow> nat" where
  "rank (BackingOff _) = 5"
| "rank Spawning = 4"
| "rank (Running _) = 3"
| "rank (Stopping _ _) = 2"
| "rank (Killing _) = 1"
| "rank Finished = 0"

lemma close_descends:
  "sup_step s s' \<Longrightarrow> sv_stop s \<Longrightarrow> sv_stop s' \<and> (sv_loop s' = sv_loop s \<or> rank (sv_loop s') < rank (sv_loop s))"
  by (induction rule: sup_step.induct) (auto simp: sup_defs Let_def)

lemma close_progress:
  assumes "sv_stop s" "sv_loop s \<noteq> Finished"
  shows "\<exists>s'. sup_step s s' \<and> rank (sv_loop s') < rank (sv_loop s)"
proof (cases "sv_loop s")
  case Spawning
  show ?thesis using start_works[OF Spawning, of 0] Spawning by (intro exI[of _ "start_worked 0 s"]) (simp add: sup_defs)
next
  case (Running pid)
  from child_exits[OF this] show ?thesis using assms Running by (intro exI conjI) (assumption, simp add: sup_defs Let_def)
next
  case (Stopping pid t)
  from drained[OF this] show ?thesis using assms Stopping by (intro exI conjI) (assumption, simp add: sup_defs Let_def)
next
  case (Killing pid)
  from killed[OF this] show ?thesis using assms Killing by (intro exI conjI) (assumption, simp add: sup_defs Let_def)
next
  case (BackingOff t)
  from wait_stopped[OF this assms(1)] show ?thesis using BackingOff by (intro exI conjI) (assumption, simp)
qed (use assms in simp)

lemma proxy_isolates:
  "px_header (proxy_rewrite q) ''Cookie'' = None" "px_header (proxy_rewrite q) ''Authorization'' = None"
  "px_header (proxy_rewrite q) ''Proxy-Authorization'' = None"
  "pr_header (fst (ui_proxy transport ready q w)) ''Set-Cookie'' = None"
  by (auto simp: proxy_rewrite_def ui_proxy_def modify_response_def h_del_def h_set_def split: prod.splits sum.splits)


definition nobody_config :: ui_config where
  "nobody_config = \<lparr>ui_bin = ''/darak'', ui_dir = ''/ui'', ui_creds_of = \<lparr>ui_uid = 65534, ui_gid = 65534\<rparr>,
     ui_min_backoff = 5, ui_max_backoff = 9\<rparr>"

lemma nobody_runs: "sup_reachable nobody_config (start_worked 7 (sup_init nobody_config 0))"
  by (rule sup_next[OF sup_begin[of _ nobody_config 0] start_works]) (simp_all add: sup_config_def nobody_config_def sup_init_def)


text \<open>The child the flags lead to is not root and shares no uid with the anonymous account.\<close>

lemma chosen_child:
  assumes "choose_web lookup parse_url self dir upstream ui_user anonymous = Inr (WebChild cfg)"
  shows "ui_uid (ui_creds_of cfg) \<noteq> 0" "ui_gid (ui_creds_of cfg) \<noteq> 0"
    "anonymous \<noteq> [] \<Longrightarrow> \<exists>u g. lookup anonymous = Some (u, g) \<and> u \<noteq> format_nat (unat (ui_uid (ui_creds_of cfg)))"
proof -
  have root: "parse_user lookup ui_user = Inr c \<Longrightarrow> ui_uid c \<noteq> 0 \<and> ui_gid c \<noteq> 0" for c
    by (auto simp: parse_user_def Let_def split: option.splits prod.splits if_splits)
  have "parse_user lookup ui_user = Inr (ui_creds_of cfg)"
    "(if anonymous \<noteq> [] then same_uid_as lookup (ui_creds_of cfg) anonymous else Some False) = Some False"
    using assms by (auto simp: choose_web_def split: if_splits sum.splits option.splits prod.splits bool.splits)
  then show "ui_uid (ui_creds_of cfg) \<noteq> 0" "ui_gid (ui_creds_of cfg) \<noteq> 0"
    "anonymous \<noteq> [] \<Longrightarrow> \<exists>u g. lookup anonymous = Some (u, g) \<and> u \<noteq> format_nat (unat (ui_uid (ui_creds_of cfg)))"
    using root by (auto simp: same_uid_as_def split: option.splits prod.splits)
qed

end
