(* ===== verification/Branding.thy ===== *)
theory Branding
  imports Compress GoTime
begin

text \<open>
  What the interface calls the installation, \<^verbatim>\<open>src/internal/server/branding.go\<close>: the logo read once at
  startup, and the two routes that serve it. The file system and SHA-256 are parameters over a state \<open>'w\<close>.
\<close>

record brand =
  br_name :: string
  br_logo :: string
  br_type :: string
  br_tag :: string
  br_time :: time

datatype brand_error =
    BeType string string | BeStat string | BeTooLarge string int | BeRead string | BeEmpty

text \<open>The UTF-8 bytes of the default name.\<close>

definition default_brand_name :: string where
  "default_brand_name = map byte [0xED, 0x8C, 0x8C, 0xEC, 0x9D, 0xBC, 0x20, 0xEC, 0x84, 0x9C, 0xEB, 0xB2, 0x84]"

definition max_logo_bytes :: int where "max_logo_bytes = 2 ^ 20"

definition logo_types :: "(string \<times> string) list" where
  "logo_types =
     [(''.svg'', ''image/svg+xml''), (''.png'', ''image/png''), (''.jpg'', ''image/jpeg''), (''.jpeg'', ''image/jpeg''),
      (''.webp'', ''image/webp''), (''.gif'', ''image/gif''), (''.avif'', ''image/avif''), (''.ico'', ''image/x-icon'')]"

text \<open>\<^verbatim>\<open>filepath.Ext\<close>: from the last dot of the last element.\<close>

definition path_ext :: "string \<Rightarrow> string" where
  "path_ext p =
     (let r = takeWhile (\<lambda>c. c \<noteq> CHR ''/'') (rev p)
      in if CHR ''.'' \<in> set r then CHR ''.'' # rev (takeWhile (\<lambda>c. c \<noteq> CHR ''.'') r) else [])"

definition hex_lower :: string where "hex_lower = ''0123456789abcdef''"

definition hex_encode :: "string \<Rightarrow> string" where
  "hex_encode s = concat (map (\<lambda>c. [hex_lower ! (of_char c div 16), hex_lower ! (of_char c mod 16)]) s)"

record 'w brand_disk =
  bd_stat :: "string \<Rightarrow> 'w \<Rightarrow> (string + int \<times> time) \<times> 'w"
  bd_read :: "string \<Rightarrow> 'w \<Rightarrow> (string + string) \<times> 'w"
  bd_sha256 :: "string \<Rightarrow> string"

definition load_brand :: "'w brand_disk \<Rightarrow> string \<Rightarrow> string \<Rightarrow> 'w \<Rightarrow> (brand_error + brand) \<times> 'w" where
  "load_brand D name logo_path w =
     (let name = (if name = [] then default_brand_name else name);
          b = \<lparr>br_name = name, br_logo = [], br_type = [], br_tag = [], br_time = 0\<rparr>
      in if logo_path = [] then (Inr b, w)
         else
           (case map_of logo_types (to_lower (path_ext logo_path)) of
              None \<Rightarrow> (Inl (BeType logo_path (to_lower (path_ext logo_path))), w)
            | Some media_type \<Rightarrow>
                (case bd_stat D logo_path w of
                   (Inl e, w) \<Rightarrow> (Inl (BeStat e), w)
                 | (Inr (bytes, mtime), w) \<Rightarrow>
                     (if bytes > max_logo_bytes then (Inl (BeTooLarge logo_path bytes), w)
                      else
                        (case bd_read D logo_path w of
                           (Inl e, w) \<Rightarrow> (Inl (BeRead e), w)
                         | (Inr data, w) \<Rightarrow>
                             (if data = [] then (Inl BeEmpty, w)
                              else
                                (Inr (b\<lparr>br_logo := data, br_type := media_type,
                                        br_tag := [CHR 0x22] @ hex_encode (take 8 (bd_sha256 D data)) @ [CHR 0x22],
                                        br_time := mtime\<rparr>), w)))))))"

record branding_reply =
  bn_name :: string
  bn_logo :: bool
  bn_sso :: bool

definition handle_branding :: "brand \<Rightarrow> bool \<Rightarrow> http_header \<times> branding_reply" where
  "handle_branding b sso =
     (h_set Map.empty ''Cache-Control'' ''no-cache'', \<lparr>bn_name = br_name b, bn_logo = (br_logo b \<noteq> []), bn_sso = sso\<rparr>)"

text \<open>What \<^verbatim>\<open>http.ServeContent\<close> is given: the header set so far, the modification time and the bytes.\<close>

definition handle_branding_logo :: "brand \<Rightarrow> (http_header \<times> time \<times> string) option" where
  "handle_branding_logo b =
     (if br_logo b = [] then None
      else
        (let h = h_set Map.empty ''Content-Type'' (br_type b);
             h = h_set h ''ETag'' (br_tag b);
             h = h_set h ''Cache-Control'' ''public, max-age=3600, must-revalidate'';
             h = h_set h ''X-Content-Type-Options'' ''nosniff'';
             h = h_set h ''Content-Security-Policy''
                   (''default-src '' @ [CHR 0x27] @ ''none'' @ [CHR 0x27] @ ''; style-src '' @ [CHR 0x27] @ ''unsafe-inline'' @
                    [CHR 0x27] @ ''; sandbox'')
         in Some (h, br_time b, br_logo b)))"

section \<open>What is served\<close>

text \<open>
  A configured logo is served as an image of a listed type, sandboxed and not sniffed, and a path that
  is none stops the start; the name is never empty.
\<close>

lemma load_brand_logo:
  assumes "load_brand D name logo_path w = (Inr b, w')"
  shows "br_name b \<noteq> []" "br_logo b = [] \<longleftrightarrow> logo_path = []"
    "br_logo b \<noteq> [] \<Longrightarrow> map_of logo_types (to_lower (path_ext logo_path)) = Some (br_type b)"
  using assms by (auto simp: load_brand_def Let_def default_brand_name_def split: if_splits option.splits prod.splits sum.splits)

lemma logo_sandboxed:
  assumes "load_brand D name logo_path w = (Inr b, w')" "handle_branding_logo b = Some (h, t, data)"
  shows "h_get h ''Content-Type'' \<in> snd ` set logo_types" "h_get h ''X-Content-Type-Options'' = ''nosniff''"
    "has_suffix (h_get h ''Content-Security-Policy'') ''; sandbox''"
proof -
  have "br_logo b \<noteq> []" using assms(2) by (auto simp: handle_branding_logo_def split: if_splits)
  from load_brand_logo(3)[OF assms(1) this] have listed: "br_type b \<in> snd ` set logo_types" by (metis map_of_SomeD image_eqI snd_conv)
  have "h_get h ''Content-Type'' = br_type b \<and> h_get h ''X-Content-Type-Options'' = ''nosniff'' \<and>
    has_suffix (h_get h ''Content-Security-Policy'') ''; sandbox''"
    using assms(2) by (auto simp: handle_branding_logo_def h_get_def h_set_def Let_def has_suffix_iff split: if_splits)
  with listed show "h_get h ''Content-Type'' \<in> snd ` set logo_types" "h_get h ''X-Content-Type-Options'' = ''nosniff''"
    "has_suffix (h_get h ''Content-Security-Policy'') ''; sandbox''" by simp_all
qed

text \<open>The extension: what follows the last dot of the last element.\<close>

lemma path_ext_dot: "CHR ''.'' \<notin> set e \<Longrightarrow> CHR ''/'' \<notin> set e \<Longrightarrow> path_ext (p @ CHR ''.'' # e) = CHR ''.'' # e"
proof -
  assume e: "CHR ''.'' \<notin> set e" "CHR ''/'' \<notin> set e"
  have "takeWhile (\<lambda>c. c \<noteq> CHR ''/'') (rev e @ CHR ''.'' # rev p) =
      rev e @ CHR ''.'' # takeWhile (\<lambda>c. c \<noteq> CHR ''/'') (rev p)"
    using e by (subst takeWhile_append2) auto
  moreover have "takeWhile (\<lambda>c. c \<noteq> CHR ''.'') (rev e @ CHR ''.'' # r) = rev e" for r
    using e by (subst takeWhile_append2) auto
  ultimately show ?thesis by (simp add: path_ext_def Let_def)
qed

end
