(* ===== verification/Routes.thy ===== *)
theory Routes
  imports SignIn Roster
begin

text \<open>
  The routes of \<^verbatim>\<open>src/internal/server/server.go\<close>, \<^verbatim>\<open>Server.Handler\<close>, and the guard each handler stands behind:
  the session, the anonymous visitor, the administrators' group, the configured provider.

  \<^verbatim>\<open>http.ServeMux\<close> is modelled on what the program registers: patterns of a method and a path, exact or, with a
  slash at its end, everything below. A path is given as its segments, the last one empty if it ends with a
  slash; \<open>clean\<close> says that it is the cleaned path.
\<close>

section \<open>The multiplexer\<close>

datatype endpoint =
    EpLogin | EpLogout | EpWhoami | EpPublicFolders | EpPassword | EpMyInitialPassword
  | EpSSOLogin | EpSSOCallback | EpSSOForward | EpSSONotice | EpSSOEnrollment | EpBranding | EpBrandingLogo
  | EpGet | EpPut | EpDelete | EpMkdir | EpRename | EpMove | EpModeInfo | EpChmod | EpSearch
  | EpShareCreate | EpShareList | EpShareRevoke | EpAdminWhoami | EpAdminUsers | EpAdminDisk | EpAdminAudit | EpActivity
  | EpAdminUserRead | EpAdminUserOp | EpIdentityList | EpIdentityJournal | EpProvisioning | EpIdentityApprove
  | EpIdentityDiscard | EpIdentityForget | EpTeams | EpTeamWhoami | EpTeamsApply | EpTeamsStatus | EpTeamMembers
  | EpSharePublic | EpInterface

datatype door = Open | Authed | AuthedOrAnon | AdminOnly | AdminSso

record route =
  rt_method :: "string option"
  rt_path :: "string list"
  rt_subtree :: bool
  rt_guard :: door
  rt_to :: endpoint

definition pattern :: "string \<Rightarrow> door \<Rightarrow> endpoint \<Rightarrow> route" where
  "pattern p g e =
     (case cut p CHR '' '' of (m, path, ok) \<Rightarrow>
        (let segs = split_on CHR ''/'' (tl (if ok then path else p))
         in \<lparr>rt_method = (if ok then Some m else None), rt_path = (if last segs = [] then butlast segs else segs),
             rt_subtree = (last segs = []), rt_guard = g, rt_to = e\<rparr>))"

definition fits :: "route \<Rightarrow> string list \<Rightarrow> bool" where
  "fits r segs =
     (if rt_subtree r then length (rt_path r) < length segs \<and> take (length (rt_path r)) segs = rt_path r
      else segs = rt_path r)"

text \<open>An exact pattern wins, then the longest.\<close>

definition better :: "route \<Rightarrow> route option \<Rightarrow> route option" where
  "better r best =
     (case best of
        None \<Rightarrow> Some r
      | Some b \<Rightarrow>
          (if \<not> rt_subtree b then best
           else if \<not> rt_subtree r \<or> length (rt_path r) > length (rt_path b) then Some r else best))"

definition match_path :: "route list \<Rightarrow> string list \<Rightarrow> route option" where
  "match_path rs segs = fold (\<lambda>r best. if fits r segs then better r best else best) rs None"

definition with_method :: "string option \<Rightarrow> route list \<Rightarrow> route list" where
  "with_method m rs = filter (\<lambda>r. rt_method r = m) rs"

text \<open>The patterns of the method come first, \<^verbatim>\<open>GET\<close>'s also serve \<^verbatim>\<open>HEAD\<close>, then those without a method.\<close>

definition mux_match :: "route list \<Rightarrow> string \<Rightarrow> string list \<Rightarrow> route option" where
  "mux_match rs m segs =
     (case match_path (with_method (Some m) rs) segs of
        Some r \<Rightarrow> Some r
      | None \<Rightarrow>
          (case (if m = ''HEAD'' then match_path (with_method (Some ''GET'') rs) segs else None) of
             Some r \<Rightarrow> Some r
           | None \<Rightarrow> match_path (with_method None rs) segs))"

definition exact_match :: "route option \<Rightarrow> string list \<Rightarrow> bool" where
  "exact_match n segs =
     (case n of
        None \<Rightarrow> False
      | Some r \<Rightarrow> if \<not> rt_subtree r then True else last segs = [] \<and> length segs = Suc (length (rt_path r)))"

datatype dispatched = Serve route | MovedPermanently | NotFound | MethodNotAllowed

definition mux_dispatch :: "route list \<Rightarrow> string \<Rightarrow> bool \<Rightarrow> string list \<Rightarrow> dispatched" where
  "mux_dispatch rs m clean segs =
     (let n = mux_match rs m segs
      in if \<not> exact_match n segs \<and> last segs \<noteq> [] \<and> exact_match (mux_match rs m (segs @ [[]])) (segs @ [[]]) then MovedPermanently
         else if \<not> clean then MovedPermanently
         else
           (case n of
              Some r \<Rightarrow> Serve r
            | None \<Rightarrow> if list_ex (\<lambda>r. fits r segs) rs then MethodNotAllowed else NotFound))"

section \<open>The table\<close>

definition server_routes :: "bool \<Rightarrow> route list" where
  "server_routes ui =
     [pattern ''POST /api/login'' Open EpLogin,
      pattern ''POST /api/logout'' Open EpLogout,
      pattern ''GET /api/whoami'' AuthedOrAnon EpWhoami,
      pattern ''GET /api/public'' AuthedOrAnon EpPublicFolders,
      pattern ''POST /api/password'' Authed EpPassword,
      pattern ''GET /api/password/initial'' Authed EpMyInitialPassword,
      pattern ''GET /api/sso/login'' Open EpSSOLogin,
      pattern ''GET /api/sso/callback'' Open EpSSOCallback,
      pattern ''GET /api/sso/forward'' Open EpSSOForward,
      pattern ''GET /api/sso/notice'' Open EpSSONotice,
      pattern ''GET /api/sso/enrollment'' Open EpSSOEnrollment,
      pattern ''GET /api/branding'' Open EpBranding,
      pattern ''GET /api/branding/logo'' Open EpBrandingLogo,
      pattern ''GET /api/files/'' AuthedOrAnon EpGet,
      pattern ''PUT /api/files/'' AuthedOrAnon EpPut,
      pattern ''DELETE /api/files/'' AuthedOrAnon EpDelete,
      pattern ''POST /api/dirs/'' AuthedOrAnon EpMkdir,
      pattern ''POST /api/rename/'' AuthedOrAnon EpRename,
      pattern ''POST /api/move/'' AuthedOrAnon EpMove,
      pattern ''GET /api/mode/'' AuthedOrAnon EpModeInfo,
      pattern ''POST /api/mode/'' Authed EpChmod,
      pattern ''GET /api/search/'' AuthedOrAnon EpSearch,
      pattern ''POST /api/shares'' Authed EpShareCreate,
      pattern ''GET /api/shares'' Authed EpShareList,
      pattern ''DELETE /api/shares/'' Authed EpShareRevoke,
      pattern ''GET /api/admin/whoami'' Authed EpAdminWhoami,
      pattern ''GET /api/admin/users'' AdminOnly EpAdminUsers,
      pattern ''GET /api/admin/disk'' AdminOnly EpAdminDisk,
      pattern ''GET /api/admin/audit'' AdminOnly EpAdminAudit,
      pattern ''GET /api/admin/activity'' AdminOnly EpActivity,
      pattern ''GET /api/admin/users/'' AdminOnly EpAdminUserRead,
      pattern ''POST /api/admin/users/'' AdminOnly EpAdminUserOp,
      pattern ''GET /api/admin/identities'' AdminSso EpIdentityList,
      pattern ''GET /api/admin/identities/journal'' AdminSso EpIdentityJournal,
      pattern ''GET /api/admin/provisioning'' AdminSso EpProvisioning,
      pattern ''POST /api/admin/identities'' AdminSso EpIdentityApprove,
      pattern ''DELETE /api/admin/identities/pending'' AdminSso EpIdentityDiscard,
      pattern ''DELETE /api/admin/identities/'' AdminSso EpIdentityForget,
      pattern ''GET /api/teams'' Authed EpTeams,
      pattern ''GET /api/teams/whoami'' Authed EpTeamWhoami,
      pattern ''POST /api/teams/apply'' Authed EpTeamsApply,
      pattern ''GET /api/teams/status'' Authed EpTeamsStatus,
      pattern ''POST /api/teams/'' Authed EpTeamMembers,
      pattern ''GET /s/'' Open EpSharePublic,
      pattern ''POST /s/'' Open EpSharePublic] @
     (if ui then [pattern ''/'' Open EpInterface] else [])"

section \<open>A request\<close>

record 'w site =
  si_admin :: "'w admin option"
  si_sso :: bool
  si_anonymous :: string
  si_ui :: bool

text \<open>What happens to a request: an answer, or a handler that runs, with the user it is run for.\<close>

datatype fate = Answered nat | Runs endpoint "string option"

definition admin_gate :: "'w site \<Rightarrow> string \<Rightarrow> ('w srv \<Rightarrow> fate \<times> 'w srv) \<Rightarrow> 'w srv \<Rightarrow> fate \<times> 'w srv" where
  "admin_gate site user next_handler s =
     (case si_admin site of
        None \<Rightarrow> (Answered 404, s)
      | Some A \<Rightarrow>
          (case is_admin A user (sv_world s) of
             (Inl _, w) \<Rightarrow> (Answered 503, s\<lparr>sv_world := w\<rparr>)
           | (Inr False, w) \<Rightarrow> (Answered 404, s\<lparr>sv_world := w\<rparr>)
           | (Inr True, w) \<Rightarrow> next_handler (s\<lparr>sv_world := w\<rparr>)))"

definition sso_only :: "'w site \<Rightarrow> ('w srv \<Rightarrow> fate \<times> 'w srv) \<Rightarrow> 'w srv \<Rightarrow> fate \<times> 'w srv" where
  "sso_only site next_handler s = (if \<not> si_sso site then (Answered 404, s) else next_handler s)"

definition run_guard ::
  "('c, 'w) srv_env \<Rightarrow> 'w site \<Rightarrow> time \<Rightarrow> string option \<Rightarrow> door \<Rightarrow> endpoint \<Rightarrow> 'w srv \<Rightarrow> fate \<times> 'w srv" where
  "run_guard E site now cookie g e s =
     (case g of
        Open \<Rightarrow> (Runs e None, s)
      | AuthedOrAnon \<Rightarrow>
          (case srv_authed_or_anon E now (si_anonymous site) cookie s of
             (Inl a, s) \<Rightarrow> (Answered (rp_status a), s)
           | (Inr user, s) \<Rightarrow> (Runs e (Some user), s))
      | _ \<Rightarrow>
          (case srv_authed E now cookie s of
             (Inl a, s) \<Rightarrow> (Answered (rp_status a), s)
           | (Inr user, s) \<Rightarrow>
               (let run = (\<lambda>s. (Runs e (Some user), s))
                in if g = AdminOnly then admin_gate site user run s
                   else if g = AdminSso then admin_gate site user (sso_only site run) s
                   else run s)))"

definition serve_request ::
  "('c, 'w) srv_env \<Rightarrow> 'w site \<Rightarrow> time \<Rightarrow> string option \<Rightarrow> string \<Rightarrow> bool \<Rightarrow> string list \<Rightarrow> 'w srv \<Rightarrow> fate \<times> 'w srv" where
  "serve_request E site now cookie m clean segs s =
     (case mux_dispatch (server_routes (si_ui site)) m clean segs of
        MovedPermanently \<Rightarrow> (Answered 301, s)
      | NotFound \<Rightarrow> (Answered 404, s)
      | MethodNotAllowed \<Rightarrow> (Answered 405, s)
      | Serve r \<Rightarrow> run_guard E site now cookie (rt_guard r) (rt_to r) s)"

section \<open>Who gets where\<close>

definition open_endpoints :: "endpoint list" where
  "open_endpoints = [EpLogin, EpLogout, EpSSOLogin, EpSSOCallback, EpSSOForward, EpSSONotice, EpSSOEnrollment, EpBranding,
     EpBrandingLogo, EpSharePublic, EpInterface]"

definition visitor_endpoints :: "endpoint list" where
  "visitor_endpoints = [EpWhoami, EpPublicFolders, EpGet, EpPut, EpDelete, EpMkdir, EpRename, EpMove, EpModeInfo, EpSearch]"

definition operator_endpoints :: "endpoint list" where
  "operator_endpoints = [EpAdminUsers, EpAdminDisk, EpAdminAudit, EpActivity, EpAdminUserRead, EpAdminUserOp, EpIdentityList,
     EpIdentityJournal, EpProvisioning, EpIdentityApprove, EpIdentityDiscard, EpIdentityForget]"

text \<open>What the table says of one route.\<close>

definition route_ok :: "route \<Rightarrow> bool" where
  "route_ok r \<longleftrightarrow>
     (rt_guard r = Open \<longleftrightarrow> rt_to r \<in> set open_endpoints) \<and>
     (rt_guard r = AuthedOrAnon \<longleftrightarrow> rt_to r \<in> set visitor_endpoints) \<and>
     (rt_guard r \<in> {AdminOnly, AdminSso} \<longleftrightarrow> rt_to r \<in> set operator_endpoints) \<and>
     (take 2 (rt_path r) = [''api'', ''admin''] \<longleftrightarrow> rt_to r \<in> set (EpAdminWhoami # operator_endpoints)) \<and>
     (rt_path r = [] \<longleftrightarrow> rt_to r = EpInterface) \<and> (rt_subtree r \<and> length (rt_path r) = 1 \<longrightarrow> rt_path r = [''s''])"

lemma routes_ok: "r \<in> set (server_routes ui) \<Longrightarrow> route_ok r"
proof -
  have "\<forall>r \<in> set (server_routes True). route_ok r" by code_simp
  moreover have "set (server_routes ui) \<subseteq> set (server_routes True)" by (cases ui) (auto simp: server_routes_def)
  ultimately show "r \<in> set (server_routes ui) \<Longrightarrow> route_ok r" by blast
qed

lemma fold_better:
  "fold (\<lambda>r best. if fits r segs then better r best else best) rs b = Some r \<Longrightarrow> b = Some r \<or> r \<in> set rs \<and> fits r segs"
proof (induction rs arbitrary: b)
  case (Cons x rs)
  from Cons.IH[of "if fits x segs then better x b else b"] Cons.prems show ?case
    by (auto simp: better_def split: if_splits option.splits)
qed simp

lemma match_path_fits: "match_path rs segs = Some r \<Longrightarrow> r \<in> set rs \<and> fits r segs"
  using fold_better[of segs rs None r] by (simp add: match_path_def)

lemma mux_match_fits: "mux_match rs m segs = Some r \<Longrightarrow> r \<in> set rs \<and> fits r segs"
  by (auto simp: mux_match_def with_method_def dest!: match_path_fits split: option.splits if_splits)

lemma dispatch_serves: "mux_dispatch rs m clean segs = Serve r \<Longrightarrow> r \<in> set rs \<and> fits r segs \<and> clean"
  by (auto simp: mux_dispatch_def Let_def dest!: mux_match_fits split: option.splits if_splits)

text \<open>Every pattern is reached: for its own method and path it wins over all others.\<close>

definition own_path :: "route \<Rightarrow> string list" where
  "own_path r = (if rt_subtree r then rt_path r @ [[]] else rt_path r)"

lemma no_route_shadowed:
  "\<forall>r \<in> set (server_routes True).
     mux_dispatch (server_routes True) (case rt_method r of None \<Rightarrow> ''OPTIONS'' | Some m \<Rightarrow> m) True (own_path r) = Serve r"
  by code_simp

lemma authed_user: "srv_authed E now cookie s = (Inr u, s') \<Longrightarrow> \<exists>c. cookie = Some c \<and> srv_lookup E now c s = (Some u, s')"
  by (auto simp: srv_authed_def split: option.splits prod.splits)

lemma anon_user:
  "srv_authed_or_anon E now anonymous cookie s = (Inr u, s') \<Longrightarrow>
    (\<exists>c. cookie = Some c \<and> srv_lookup E now c s = (Some u, s')) \<or> anonymous \<noteq> [] \<and> u = anonymous"
  by (auto simp: srv_authed_or_anon_def split: option.splits prod.splits if_splits)

lemma admin_gate_runs:
  "admin_gate site u run s = (Runs e who, s') \<Longrightarrow>
    \<exists>A w. si_admin site = Some A \<and> is_admin A u (sv_world s) = (Inr True, w) \<and> run (s\<lparr>sv_world := w\<rparr>) = (Runs e who, s')"
  by (auto simp: admin_gate_def split: option.splits prod.splits sum.splits bool.splits)

lemma guard_runs:
  assumes "run_guard E site now cookie g e s = (Runs e' who, s')"
  shows "e' = e" "g \<noteq> Open \<Longrightarrow> \<exists>u. who = Some u \<and>
      ((\<exists>c s1. cookie = Some c \<and> srv_lookup E now c s = (Some u, s1) \<and>
          (g \<in> {AdminOnly, AdminSso} \<longrightarrow> (\<exists>A w. si_admin site = Some A \<and> is_admin A u (sv_world s1) = (Inr True, w)))) \<or>
       g = AuthedOrAnon \<and> si_anonymous site \<noteq> [] \<and> u = si_anonymous site)"
  using assms
  by (auto simp: run_guard_def sso_only_def Let_def split: door.splits prod.splits sum.splits if_splits
      dest!: authed_user anon_user admin_gate_runs)

lemma below_admin:
  assumes "r \<in> set (server_routes ui)" "fits r segs" "take 2 segs = [''api'', ''admin'']"
  shows "rt_to r \<in> set (EpInterface # EpAdminWhoami # operator_endpoints)"
proof -
  have ok: "route_ok r" using routes_ok[OF assms(1)] .
  consider "rt_path r = []" | (one) "length (rt_path r) = 1" | (more) "2 \<le> length (rt_path r)"
    by (cases "rt_path r"; cases "tl (rt_path r)") auto
  then show ?thesis
  proof cases
    case one
    then have "rt_subtree r" using assms(2,3) by (auto simp: fits_def split: if_splits)
    then have "rt_path r = [''s'']" "take 1 segs = [''s'']" using ok one assms(2) by (auto simp: route_ok_def fits_def)
    moreover have "take 1 segs = [''api'']" using arg_cong[OF assms(3), of "take 1"] by (simp add: min_def)
    ultimately show ?thesis by simp
  next
    case more
    then have "take 2 (take (length (rt_path r)) segs) = take 2 segs" by (simp add: min_def)
    moreover have "take (length (rt_path r)) segs = rt_path r" using assms(2) by (auto simp: fits_def split: if_splits)
    ultimately have "take 2 (rt_path r) = take 2 segs" by simp
    then show ?thesis using ok assms(3) by (simp add: route_ok_def)
  qed (use ok in \<open>simp add: route_ok_def\<close>)
qed

text \<open>
  C25: Every route stands behind its guard. If a request makes a handler run, the user it runs for is the one its
  cookie's session names, or the anonymous account on the few routes a visitor may take, unless the route is one
  of the open ones; an operator's handler runs only for a session's user whom the administrators' group was just
  found to hold; and whatever runs for a path below \<^verbatim>\<open>/api/admin\<close> is an operator's handler, the question whether
  one is an operator, or the interface.
\<close>

theorem routes_guarded:
  assumes "serve_request E site now cookie m clean segs s = (Runs e who, s')"
  shows "(e \<in> set operator_endpoints \<longrightarrow> (\<exists>u c s1 A w. who = Some u \<and> cookie = Some c \<and> srv_lookup E now c s = (Some u, s1) \<and>
      si_admin site = Some A \<and> is_admin A u (sv_world s1) = (Inr True, w))) \<and>
    (e \<notin> set open_endpoints \<longrightarrow> (\<exists>u. who = Some u \<and> ((\<exists>c s1. cookie = Some c \<and> srv_lookup E now c s = (Some u, s1)) \<or>
      e \<in> set visitor_endpoints \<and> si_anonymous site \<noteq> [] \<and> u = si_anonymous site))) \<and>
    (take 2 segs = [''api'', ''admin''] \<longrightarrow> e \<in> set (EpInterface # EpAdminWhoami # operator_endpoints))"
proof -
  obtain r where d: "mux_dispatch (server_routes (si_ui site)) m clean segs = Serve r"
    and g: "run_guard E site now cookie (rt_guard r) (rt_to r) s = (Runs e who, s')"
    using assms by (auto simp: serve_request_def split: dispatched.splits)
  note r = dispatch_serves[OF d, THEN conjunct1] dispatch_serves[OF d, THEN conjunct2, THEN conjunct1]
  have e: "e = rt_to r" by (rule guard_runs(1)[OF g])
  have ok: "rt_guard r = Open \<longleftrightarrow> e \<in> set open_endpoints" "rt_guard r = AuthedOrAnon \<longleftrightarrow> e \<in> set visitor_endpoints"
    "rt_guard r \<in> {AdminOnly, AdminSso} \<longleftrightarrow> e \<in> set operator_endpoints"
    using routes_ok[OF r(1)] by (simp_all add: route_ok_def e)
  have apart: "e \<in> set operator_endpoints \<Longrightarrow> rt_guard r \<noteq> Open \<and> rt_guard r \<noteq> AuthedOrAnon" using ok(3) by auto
  note runs = guard_runs(2)[OF g]
  show ?thesis
  proof (intro conjI impI)
    assume op: "e \<in> set operator_endpoints"
    with runs apart ok(3) show "\<exists>u c s1 A w. who = Some u \<and> cookie = Some c \<and> srv_lookup E now c s = (Some u, s1) \<and>
        si_admin site = Some A \<and> is_admin A u (sv_world s1) = (Inr True, w)" by blast
  next
    assume "e \<notin> set open_endpoints"
    with runs ok(1,2) show "\<exists>u. who = Some u \<and> ((\<exists>c s1. cookie = Some c \<and> srv_lookup E now c s = (Some u, s1)) \<or>
        e \<in> set visitor_endpoints \<and> si_anonymous site \<noteq> [] \<and> u = si_anonymous site)" by blast
  next
    assume "take 2 segs = [''api'', ''admin'']"
    from below_admin[OF r this] show "e \<in> set (EpInterface # EpAdminWhoami # operator_endpoints)" by (simp add: e)
  qed
qed

text \<open>A site whose administrators' group holds everybody, and a request of a signed-in user.\<close>

definition door_admin :: "'w admin" where
  "door_admin = \<lparr>ad_group = ''admin'', ad_root = ''/srv'', ad_resolve = (\<lambda>_ w. (Inr \<lparr>cr_uid = 3001, cr_gid = 500, cr_groups = []\<rparr>, w)),
     ad_run = (\<lambda>_ _ _ w. (Inr ''admin:x:500:'', w)), ad_usersync = [], ad_pdbedit = [], ad_smbpasswd = [],
     ad_decode = (\<lambda>_. Inl []), ad_members = None\<rparr>"

definition sample_site :: "'w site" where
  "sample_site = \<lparr>si_admin = Some door_admin, si_sso = False, si_anonymous = [], si_ui = True\<rparr>"

lemma door_opens: "is_admin door_admin u w = (Inr True, w)"
proof -
  have "trim_space ''admin:x:500:'' = ''admin:x:500:''" by (rule trimmed_id, rule visible_trimmed) (simp_all add: visible_def)
  then have "lookup_group_gid door_admin ''admin'' w = (Inr (Some 500), w)"
    by (simp add: lookup_group_gid_def door_admin_def parse_uint_def digit_val_def Let_def)
  then show ?thesis by (simp add: is_admin_def door_admin_def)
qed

lemma bob_signed_in:
  "srv_lookup sample_env (unix_epoch + hour) (session_create sample_mac (unix_epoch + hour) ''bob'' (sample_sessions None)) sample_server =
    (Some ''bob'', sample_server)"
proof -
  let ?s = "sample_sessions None" and ?t = "unix_epoch + hour"
  have "session_verify sample_mac (session_create sample_mac ?t ''bob'' ?s) ?s = Some (''bob'', unix_milli ?t, unix_milli (?t + hour))"
    using verify_created[OF valid_bob, of ?t ?s ?s sample_mac] sample_range by (simp add: sample_sessions_def)
  then have "session_lookup sample_mac still_disk ?t (session_create sample_mac ?t ''bob'' ?s) ?s id_sample_ram = (Some ''bob'', ?s, id_sample_ram)"
    by (simp add: session_lookup_def sample_sessions_def unix_milli_def hour_def minute_def second_def)
  then show ?thesis by (simp add: srv_lookup_def sample_env_def sample_server_def)
qed

lemma disk_route: "mux_dispatch (server_routes True) ''GET'' True [''api'', ''admin'', ''disk''] = Serve (pattern ''GET /api/admin/disk'' AdminOnly EpAdminDisk)"
  by code_simp

lemma bob_asks:
  "serve_request sample_env sample_site (unix_epoch + hour)
     (Some (session_create sample_mac (unix_epoch + hour) ''bob'' (sample_sessions None))) ''GET'' True [''api'', ''admin'', ''disk''] sample_server =
   (Runs EpAdminDisk (Some ''bob''), sample_server)"
  using disk_route bob_signed_in
  by (simp add: serve_request_def sample_site_def run_guard_def srv_authed_def admin_gate_def door_opens pattern_def Let_def)

lemma routes_guarded_witness:
  "EpAdminDisk \<in> set operator_endpoints \<and>
   (\<exists>s1 A w. srv_lookup sample_env (unix_epoch + hour)
       (session_create sample_mac (unix_epoch + hour) ''bob'' (sample_sessions None)) sample_server = (Some ''bob'', s1) \<and>
     si_admin sample_site = Some A \<and> is_admin A ''bob'' (sv_world s1) = (Inr True, w))"
  using routes_guarded[OF bob_asks] by (simp add: operator_endpoints_def)

end
