(* ===== verification/Spec2Isabelle.thy ===== *)
theory Spec2Isabelle
  imports WriteProtocol Listing Share Queue Session Provision SignIn Roster Client Links Search SmbLog Operator Interface Branding Routes
begin

text \<open>
  A model of darak, the file server of \<^verbatim>\<open>src/\<close>: a root server process that serves a data tree
  over HTTP without ever deciding a permission itself. Each user has a helper process that runs with
  that user's credentials; the server asks it for operations over a socket and gets back file
  descriptors and errnos. Around that core stand the ways in (passwords, single sign-on, share
  links), the state files several replicas share, and the operator's tools.

  Every theory models the files it names, in their order: data as records and datatypes with the
  source's constructors, one definition per function, errors as values of a sum or option type, the
  surroundings as a state \<open>'w\<close> passed through. What is not under \<^verbatim>\<open>src/\<close> (the kernel, commands,
  JSON and YAML, HTTP, cryptography, the identity provider) is a record of functions given as an
  argument; where a theorem relies on such a function, its documented behaviour is a named
  hypothesis (\<open>disk_laws\<close>, the laws of a kernel, what the resolver answered) and the theorem has a
  concrete instance beside it.

  The parts, from the bottom up:

  \<^item> \<open>Prelude\<close>, \<open>GoStrings\<close>, \<open>GoPath\<close>, \<open>GoTime\<close>: Go's integers, instants, sorting, strings, numbers,
    paths and time formats as the program uses them, and \<open>ttl_table\<close>, the contract of a table whose
    entries live for a fixed time and are taken once. Strings are byte strings; case is ASCII.

  \<^item> \<open>Wire\<close> (\<^verbatim>\<open>internal/wire\<close>): the frames between server and helper. A frame decodes to a value
    exactly when that value encodes to it, so the two sides never read one frame differently.

  \<^item> \<open>Helper\<close> (\<^verbatim>\<open>internal/helper\<close>): the helper's dispatch over the kernel's calls. Every path is
    resolved beneath the root, and every answer but GETXATTR's fits a frame.

  \<^item> \<open>Vfs\<close> (\<^verbatim>\<open>internal/vfs\<close>): the server's file operations as requests. \<open>WriteProtocol\<close> states what
    they promise against an abstract disk of names: a write never loses the previous version and a
    delete only moves. \<open>Listing\<close> composes \<open>Vfs\<close>, \<open>Wire\<close> and \<open>Helper\<close>: the paged listing is the directory.

  \<^item> \<open>Pool\<close> (\<^verbatim>\<open>internal/helperpool\<close>): credentials, the id mapping check and the table of helpers. The
    two locked sections of \<^verbatim>\<open>acquire\<close> and the other operations are steps of \<open>pool_step\<close>, which interleaves
    any number of requests with the reaper and the shutdown; the theorems are invariants of its
    reachable states. A trace's \<open>L\<close> records what the resolver answered.

  \<^item> \<open>Client\<close> (\<^verbatim>\<open>internal/helperpool/client.go\<close>): the server's end of a helper's socket. \<open>client_step\<close>
    interleaves any number of calls with the reader and the closing; its invariants say who gets which
    reply and where every descriptor is.

  \<^item> \<open>Statefile\<close> (\<^verbatim>\<open>internal/statefile\<close>): a file several replicas share. The locale
    \<open>replicated_store\<close> has what a client provides (load, marshal, its invariant) and proves once that a
    read sees the file and that writes are serial; \<open>Share\<close>, \<open>Identity\<close> and \<open>Queue\<close> interpret it.

  \<^item> \<open>Share\<close> (\<^verbatim>\<open>internal/share\<close>): public links: what one replica creates or revokes holds on all.

  \<^item> \<open>Auth\<close> (\<^verbatim>\<open>internal/auth\<close>): account names, passwords, what ntlm_auth is fed, the account gate.

  \<^item> \<open>Identity\<close>, \<open>Queue\<close> (\<^verbatim>\<open>internal/identity\<close>): who a directory's subject is here, with its two
    indexes, and the bounded queue of requests an operator decides.

  \<^item> \<open>Session\<close> (\<^verbatim>\<open>internal/server/session.go\<close>, \<^verbatim>\<open>epoch.go\<close>): signed cookies and the epochs that close them.

  \<^item> \<open>Provision\<close> (\<^verbatim>\<open>internal/provision\<close>): creating accounts through an endpoint, bounded and awaited.

  \<^item> \<open>Sso\<close> (\<^verbatim>\<open>internal/sso\<close>): the provider's checks and the table of sign-ins in flight.

  \<^item> \<open>SignIn\<close> (\<^verbatim>\<open>internal/server/sso.go\<close>, \<^verbatim>\<open>password.go\<close>, parts of \<^verbatim>\<open>server.go\<close>): the handlers over all
    of these. A session is opened only after the store vouched for a password or a verified identity
    resolved to a bound account the gate allows; a new binding has one of three reasons.

  \<^item> \<open>Files\<close> (\<^verbatim>\<open>internal/server/server.go\<close>) and \<open>Links\<close> (\<^verbatim>\<open>internal/server/shares.go\<close>): the handlers over
    \<open>Vfs\<close>, \<open>Roster\<close> and \<open>Share\<close>. Every request they make of a helper is made as the session's user, or as
    a link's owner (the locales \<open>acting\<close> and \<open>acting_handlers\<close>, interpreted on a file layer that logs).

  \<^item> \<open>Fuzzy\<close> (\<^verbatim>\<open>internal/fuzzy\<close>) and \<open>Search\<close> (\<^verbatim>\<open>internal/vfs/walk.go\<close>, \<^verbatim>\<open>internal/server/search.go\<close>): the
    matcher against occurrences and subsequences, the bounded walk against the levels of a tree, and
    the handler that streams the matches. A score is kept in tenths; Unicode's tables are a parameter.

  \<^item> \<open>Control\<close> (\<^verbatim>\<open>internal/control\<close>) and \<open>Roster\<close> (\<^verbatim>\<open>internal/admin\<close>, \<^verbatim>\<open>internal/server/teams_apply.go\<close>):
    delegated changes of teams and how they reach usersync, and where a reader's request is sent.

  \<^item> \<open>Calendar\<close>, \<open>Activity\<close> and \<open>SmbLog\<close> (\<^verbatim>\<open>internal/activity\<close>): dates in the order of time; the log with one
    file per day, which the locale \<open>day_dir\<close> sees as a book of events per day (a record adds to a page and
    forgets pages out of the window, a query is the newest that match); and the follower of smbd's log.

  \<^item> \<open>Csv\<close>, \<open>Accounts\<close> and \<open>Operator\<close> (\<^verbatim>\<open>users.go\<close>, \<^verbatim>\<open>ops.go\<close>, \<^verbatim>\<open>initpw.go\<close>, \<^verbatim>\<open>disk.go\<close> of \<^verbatim>\<open>internal/admin\<close>,
    \<^verbatim>\<open>internal/server/admin.go\<close>): the reader of usersync's export, the inventory with its two views of
    membership, the usage that survives a failed measurement, and the routes: an operator's tool only runs
    for a caller the group still holds, on an account the inventory lists.

  \<^item> \<open>Routes\<close> (\<^verbatim>\<open>Handler\<close> of \<^verbatim>\<open>internal/server/server.go\<close>): the table of routes and the guard of each, through the
    multiplexer: whom a handler runs for, and that no path reaches an operator's handler unguarded.

  \<^item> \<open>Compress\<close> (\<^verbatim>\<open>internal/server/gzip.go\<close>): the response writer that may compress, simulated by the plain one.

  \<^item> \<open>Interface\<close> (\<^verbatim>\<open>internal/uiproc\<close>, \<^verbatim>\<open>internal/ui\<close>) and \<open>Branding\<close> (\<^verbatim>\<open>internal/server/branding.go\<close>): the process
    that serves the browser interface, kept by a supervisor whose goroutine, child, clock and closing
    interleave in \<open>sup_step\<close>; the proxy that hides the session from it; the files and the logo.

  Loops. Most loops are structural recursions over lists. Retry loops of \<open>Vfs\<close> take the number of
  attempts left, as the code counts them; a listing's pages and the wait for a provisioned account are
  \<open>partial_function\<close>s, \<open>None\<close> where the code would not return, proved to return where their theorem says;
  the walk recurses over the levels left, which its limit bounds; eviction terminates because each
  round takes an entry off the LRU list. Waits on timers and channels are lists of what woke the loop.

  Not modelled: the handlers that only list what others keep (identities, the journal, provisioning rules), the
  rest of the command lines (flags, wiring, housekeeping tickers), running a command, starting a helper's
  process, and generated code. Handlers run one at a time except in \<open>Pool\<close> and \<open>Client\<close>; a replica's
  handlers interleave with other replicas only through the shared files. Log lines and message texts are
  left out. \<^verbatim>\<open>sort.Slice\<close> is taken to be stable, and what compression promises is stated for handlers that
  send a final status or write before they flush.
\<close>

end
